(* ===== verification/Prelude.thy ===== *)
theory Prelude
  imports Complex_Main "HOL-Library.Word"
begin

text \<open>
  Shared vocabulary of the development: the byte type, flat memory as a list of
  bytes with \<open>memcpy\<close>-like reads and writes, the ``push if not seen yet'' loop that
  the C++ code writes as \<open>if (seen.insert(p).second) out.push_back(p)\<close>, counting
  over boolean vectors, and small facts on maps and option values that several
  components use.
\<close>

named_theorems mem_simps \<open>reads and writes of flat byte memory\<close>
named_theorems frame_simps \<open>which fields of a state an operation leaves alone\<close>

type_synonym byte = "8 word"

section \<open>Flat memory\<close>

definition mem_read :: "nat \<Rightarrow> nat \<Rightarrow> 'a list \<Rightarrow> 'a list" where
  "mem_read pos len m = take len (drop pos m)"

definition mem_write :: "nat \<Rightarrow> 'a list \<Rightarrow> 'a list \<Rightarrow> 'a list" where
  "mem_write pos bs m = take pos m @ bs @ drop (pos + length bs) m"

text \<open>The bytes \<open>[off, off + len)\<close> of a mapped image, read through its base pointer.\<close>

definition image_bytes :: "(nat \<Rightarrow> 'a) \<Rightarrow> nat \<Rightarrow> nat \<Rightarrow> 'a list" where
  "image_bytes img off len = map img [off..<off + len]"

lemma length_mem_read [mem_simps]: "pos + len \<le> length m \<Longrightarrow> length (mem_read pos len m) = len"
  by (simp add: mem_read_def)

lemma length_mem_write [mem_simps]:
  "pos + length bs \<le> length m \<Longrightarrow> length (mem_write pos bs m) = length m"
  by (simp add: mem_write_def)

lemma nth_mem_write:
  assumes "pos + length bs \<le> length m" and "i < length m"
  shows "mem_write pos bs m ! i = (if pos \<le> i \<and> i < pos + length bs then bs ! (i - pos) else m ! i)"
  using assms by (auto simp: mem_write_def nth_append not_le min_def)

lemma nth_mem_read: "pos + len \<le> length m \<Longrightarrow> i < len \<Longrightarrow> mem_read pos len m ! i = m ! (pos + i)"
  by (simp add: mem_read_def)

lemma mem_read_mem_write_same [mem_simps]:
  assumes "pos + length bs \<le> length m"
  shows "mem_read pos (length bs) (mem_write pos bs m) = bs"
  using assms by (simp add: mem_read_def mem_write_def)

lemma mem_read_mem_write_inside:
  assumes "pos + length bs \<le> length m" and "k + n \<le> length bs"
  shows "mem_read (pos + k) n (mem_write pos bs m) = mem_read k n bs"
proof (rule nth_equalityI)
  show "length (mem_read (pos + k) n (mem_write pos bs m)) = length (mem_read k n bs)"
    using assms by (simp add: mem_simps)
next
  fix i assume "i < length (mem_read (pos + k) n (mem_write pos bs m))"
  then have i: "i < n" using assms by (simp add: mem_simps)
  with assms show "mem_read (pos + k) n (mem_write pos bs m) ! i = mem_read k n bs ! i"
    by (simp add: nth_mem_read nth_mem_write mem_simps)
qed

lemma mem_read_mem_write_disjoint:
  assumes "pos + length bs \<le> length m" and "q + n \<le> length m"
    and "q + n \<le> pos \<or> pos + length bs \<le> q"
  shows "mem_read q n (mem_write pos bs m) = mem_read q n m"
proof (rule nth_equalityI)
  show "length (mem_read q n (mem_write pos bs m)) = length (mem_read q n m)"
    using assms by (simp add: mem_simps)
next
  fix i assume "i < length (mem_read q n (mem_write pos bs m))"
  then have i: "i < n" using assms by (simp add: mem_simps)
  with assms show "mem_read q n (mem_write pos bs m) ! i = mem_read q n m ! i"
    by (auto simp: nth_mem_read nth_mem_write mem_simps)
qed

lemma mem_read_mem_read: "k + n \<le> len \<Longrightarrow> mem_read k n (mem_read pos len m) = mem_read (pos + k) n m"
  by (simp add: mem_read_def take_drop min_def add.commute add.left_commute)

lemma length_image_bytes [simp]: "length (image_bytes img off len) = len"
  by (simp add: image_bytes_def)

lemma nth_image_bytes [simp]: "i < len \<Longrightarrow> image_bytes img off len ! i = img (off + i)"
  by (simp add: image_bytes_def)

lemma mem_read_image_bytes [mem_simps]:
  "k + n \<le> len \<Longrightarrow> mem_read k n (image_bytes img off len) = image_bytes img (off + k) n"
  by (auto intro!: nth_equalityI simp: nth_mem_read length_mem_read add.assoc)

lemma image_bytes_append:
  "image_bytes img off a @ image_bytes img (off + a) b = image_bytes img off (a + b)"
  unfolding image_bytes_def map_append [symmetric]
  by (metis add.assoc le_add1 upt_add_eq_append)

lemma image_bytes_0 [simp]: "image_bytes img off 0 = []"
  by (simp add: image_bytes_def)

text \<open>Two frames of the same size in one arena do not overlap.\<close>

lemma frames_disjoint:
  assumes "i \<noteq> (j::nat)"
  shows "i * pb + pb \<le> j * pb \<or> j * pb + pb \<le> i * pb"
proof (cases "i < j")
  case True
  then have "Suc i * pb \<le> j * pb" by (intro mult_le_mono1) simp
  then show ?thesis by simp
next
  case False
  with assms have "Suc j * pb \<le> i * pb" by (intro mult_le_mono1) simp
  then show ?thesis by simp
qed

lemma frame_in_arena:
  assumes "i < (n::nat)" and "n * pb \<le> len"
  shows "i * pb + pb \<le> len"
proof -
  have "Suc i * pb \<le> n * pb" using assms(1) by (intro mult_le_mono1) simp
  with assms(2) show ?thesis by simp
qed

section \<open>Push if not seen yet\<close>

text \<open>
  \<open>push_new x (out, seen)\<close> is \<open>if (seen.insert(x).second) out.push_back(x)\<close>:
  \<open>unordered_set::insert\<close> reports whether the key was new.
\<close>

definition push_new :: "'a \<Rightarrow> 'a list \<times> 'a set \<Rightarrow> 'a list \<times> 'a set" where
  "push_new x = (\<lambda>(out, seen). if x \<in> seen then (out, seen) else (out @ [x], insert x seen))"

lemma push_new_simp:
  "push_new x (out, seen) = (if x \<in> seen then (out, seen) else (out @ [x], insert x seen))"
  by (simp add: push_new_def)

lemma fold_push_new_seen: "snd (fold push_new xs (out, seen)) = seen \<union> set xs"
  by (induction xs arbitrary: out seen) (auto simp: push_new_simp insert_absorb)

lemma fold_push_new_prefix: "\<exists>ys. fst (fold push_new xs (out, seen)) = out @ ys"
proof (induction xs arbitrary: out seen)
  case (Cons x xs)
  then show ?case
    by (cases "x \<in> seen") (simp add: push_new_simp, metis append.assoc fold_simps(2) push_new_simp)
qed simp

lemma fold_push_new_set: "set (fst (fold push_new xs (out, seen))) = set out \<union> (set xs - seen)"
  by (induction xs arbitrary: out seen) (auto simp: push_new_simp)

lemma fold_push_new_distinct:
  "distinct out \<Longrightarrow> set out \<subseteq> seen \<Longrightarrow> distinct (fst (fold push_new xs (out, seen)))"
proof (induction xs arbitrary: out seen)
  case (Cons x xs)
  show ?case
  proof (cases "x \<in> seen")
    case False
    with Cons.prems have "distinct (out @ [x])" and "set (out @ [x]) \<subseteq> insert x seen" by auto
    with False Cons.IH show ?thesis by (simp add: push_new_simp)
  qed (use Cons in \<open>simp add: push_new_simp\<close>)
qed simp

text \<open>Starting from nothing, the loop keeps the first occurrence of every element.\<close>

lemma fold_push_new_filter:
  "fold push_new xs (out, seen) =
     (out @ fst (fold push_new (filter (\<lambda>x. x \<notin> seen) xs) ([], {})), seen \<union> set xs)"
proof (induction xs arbitrary: out seen rule: length_induct)
  case (1 xs)
  show ?case
  proof (cases xs)
    case Nil then show ?thesis by simp
  next
    case (Cons x ys)
    show ?thesis
    proof (cases "x \<in> seen")
      case True
      have "fold push_new ys (out, seen) =
        (out @ fst (fold push_new (filter (\<lambda>x. x \<notin> seen) ys) ([], {})), seen \<union> set ys)"
        using 1 Cons by simp
      with True Cons show ?thesis by (auto simp: push_new_simp)
    next
      case False
      let ?f = "\<lambda>s. filter (\<lambda>y. y \<notin> s) ys"
      have a: "fold push_new ys (out @ [x], insert x seen) =
        ((out @ [x]) @ fst (fold push_new (?f (insert x seen)) ([], {})), insert x seen \<union> set ys)"
        using 1 Cons by (metis impossible_Cons linorder_le_less_linear)
      have "fold push_new (?f seen) ([x], {x}) =
        ([x] @ fst (fold push_new (filter (\<lambda>y. y \<notin> {x}) (?f seen)) ([], {})), {x} \<union> set (?f seen))"
      proof -
        have "length (?f seen) < length xs"
          using Cons by (simp add: less_Suc_eq_le)
        then show ?thesis using 1 by blast
      qed
      moreover have "filter (\<lambda>y. y \<notin> {x}) (?f seen) = ?f (insert x seen)"
        by (simp add: conj_commute)
      ultimately show ?thesis using a False Cons by (simp add: push_new_simp)
    qed
  qed
qed

definition dedup :: "'a list \<Rightarrow> 'a list" where
  "dedup xs = fst (fold push_new xs ([], {}))"

lemma set_dedup [simp]: "set (dedup xs) = set xs"
  by (simp add: dedup_def fold_push_new_set)

lemma distinct_dedup [simp]: "distinct (dedup xs)"
  by (simp add: dedup_def fold_push_new_distinct)

lemma length_dedup: "length (dedup xs) \<le> length xs"
  by (metis card_length distinct_card distinct_dedup set_dedup)

section \<open>Counting over boolean vectors\<close>

definition count_true :: "bool list \<Rightarrow> nat" where
  "count_true bs = length (filter id bs)"

lemma count_true_Nil [simp]: "count_true [] = 0"
  and count_true_Cons [simp]: "count_true (b # bs) = (if b then 1 else 0) + count_true bs"
  by (simp_all add: count_true_def)

lemma count_true_replicate_False [simp]: "count_true (replicate n False) = 0"
  by (induction n) auto

lemma count_true_le: "count_true bs \<le> length bs"
  by (simp add: count_true_def)

lemma count_true_update:
  "i < length bs \<Longrightarrow>
   count_true (bs[i := b]) + (if bs ! i then 1 else 0) = count_true bs + (if b then 1 else 0)"
proof (induction bs arbitrary: i)
  case (Cons c bs)
  then show ?case by (cases i) auto
qed simp

lemma count_true_pos: "i < length bs \<Longrightarrow> bs ! i \<Longrightarrow> 0 < count_true bs"
  by (metis count_true_def filter_empty_conv id_apply length_greater_0_conv nth_mem)

lemma count_true_less: "i < length bs \<Longrightarrow> \<not> bs ! i \<Longrightarrow> count_true bs < length bs"
  unfolding count_true_def by (metis id_apply length_filter_less nth_mem)

lemma count_true_all: "count_true bs = length bs \<Longrightarrow> i < length bs \<Longrightarrow> bs ! i"
  using count_true_less by (metis less_irrefl)

section \<open>Maps\<close>

lemma dom_map_upd_Some: "m k = Some v \<Longrightarrow> insert k (dom m) = dom m"
  by auto

end
