(* ===== verification/Pages.thy ===== *)
theory Pages
  imports Prelude
begin

unbundle bit_operations_syntax

text \<open>
  Page arithmetic, written in the same way all over \<open>serving/\<close>:
  \<open>first = off & ~(page_bytes - 1)\<close>, \<open>last = (end - 1) & ~(page_bytes - 1)\<close> and the
  loop \<open>for (p = first; p <= last; p += page_bytes)\<close>. Offsets are natural numbers here;
  \<open>mask_page\<close> is the same expression on the \<open>uint64_t\<close> of the code and
  \<open>mask_page_floor\<close> shows that both agree, on every input.
\<close>

section \<open>Rounding down to a page\<close>

definition mask_page :: "64 word \<Rightarrow> 64 word \<Rightarrow> 64 word" where
  "mask_page pb off = off AND NOT (pb - 1)"

definition page_floor :: "nat \<Rightarrow> nat \<Rightarrow> nat" where
  "page_floor pb off = nat (int off AND NOT (int pb - 1))"

definition pow2 :: "nat \<Rightarrow> bool" where
  "pow2 n \<longleftrightarrow> (\<exists>k. n = 2 ^ k)"

lemma pow2_pos [simp]: "pow2 n \<Longrightarrow> 0 < n"
  by (auto simp: pow2_def)

lemma pow2_power [intro, simp]: "pow2 (2 ^ k)"
  by (auto simp: pow2_def)

lemma pow2_4096: "pow2 4096"
  unfolding pow2_def by (rule exI [of _ 12]) simp

lemma pow2_4: "pow2 4"
  unfolding pow2_def by (rule exI [of _ 2]) simp

lemma page_floor_eq: "pow2 pb \<Longrightarrow> page_floor pb off = off - off mod pb"
proof -
  assume "pow2 pb"
  then obtain k where k: "pb = 2 ^ k" by (auto simp: pow2_def)
  have "int off AND NOT (int pb - 1) = int off AND NOT (mask k)"
    by (simp add: k mask_eq_exp_minus_1)
  also have "\<dots> = push_bit k (drop_bit k (int off))"
    by (rule bit_eqI) (auto simp: bit_and_iff bit_not_iff bit_mask_iff bit_push_bit_iff bit_drop_bit_eq)
  also have "\<dots> = int (off div 2 ^ k * 2 ^ k)"
    by (simp add: push_bit_eq_mult drop_bit_eq_div zdiv_int)
  finally have "page_floor pb off = off div 2 ^ k * 2 ^ k"
    unfolding page_floor_def by (simp only: nat_int)
  then show ?thesis by (simp add: k minus_mod_eq_div_mult)
qed

lemma uint_of_int64: "uint (of_int k :: 64 word) = take_bit 64 k"
  by (simp add: unsigned_of_int)

lemma mask_page_floor: "unat (mask_page pb off) = page_floor (unat pb) (unat off)"
proof -
  let ?E = "uint off AND NOT (uint pb - 1)"
  have a: "mask_page pb off = of_int ?E"
    by (simp add: mask_page_def of_int_and_eq of_int_not_eq)
  have b: "0 \<le> ?E" and c: "?E \<le> uint off"
    by (simp_all add: AND_upper1)
  have "uint off < 2 ^ 64" using uint_lt2p [of off] by simp
  with b c have "take_bit 64 ?E = ?E" by (intro take_bit_int_eq_self) simp_all
  then have "uint (mask_page pb off) = ?E" by (simp only: a uint_of_int64)
  then show ?thesis by (simp add: page_floor_def flip: nat_uint_eq)
qed

text \<open>Whatever the page size, the offset inside the page is below it.\<close>

lemma page_floor_diff_less:
  assumes "0 < pb"
  shows "off - page_floor pb off < pb"
proof -
  have "int off = (int off AND (int pb - 1)) + (int off AND NOT (int pb - 1))"
    by (subst disjunctive_add_eq_or) (auto simp: bit_eq_iff bit_simps)
  moreover have "int off AND (int pb - 1) \<le> int pb - 1"
    using assms by (intro AND_upper2) simp
  moreover have "0 \<le> int off AND NOT (int pb - 1)" by simp
  then have "int (page_floor pb off) = int off AND NOT (int pb - 1)"
    by (simp add: page_floor_def)
  ultimately have "int off \<le> int (page_floor pb off) + (int pb - 1)" by simp
  then have "off < page_floor pb off + pb" by linarith
  then show ?thesis using assms by linarith
qed

lemma page_floor_le: "pow2 pb \<Longrightarrow> page_floor pb off \<le> off"
  by (simp add: page_floor_eq)

lemma page_floor_less: "pow2 pb \<Longrightarrow> off < page_floor pb off + pb"
proof -
  assume "pow2 pb"
  then have "off mod pb < pb" and "page_floor pb off = off - off mod pb"
    by (simp_all add: page_floor_eq)
  then show ?thesis by linarith
qed

lemma page_floor_dvd [simp]: "pow2 pb \<Longrightarrow> pb dvd page_floor pb off"
  by (simp add: page_floor_eq minus_mod_eq_div_mult)

lemma page_floor_aligned [simp]: "pow2 pb \<Longrightarrow> pb dvd p \<Longrightarrow> page_floor pb p = p"
  by (simp add: page_floor_eq)

lemma page_floor_in_page: "pow2 pb \<Longrightarrow> off - page_floor pb off < pb"
  using page_floor_less [of pb off] page_floor_le [of pb off] by simp

text \<open>The only page that holds the byte at \<open>off\<close>.\<close>

lemma page_floor_unique:
  assumes "pow2 pb" and "pb dvd p" and "p \<le> off" and "off < p + pb"
  shows "page_floor pb off = p"
proof -
  from assms(2) obtain m where m: "p = pb * m" by (auto simp: dvd_def)
  with assms(3,4) have "off div pb = m"
    by (metis add.commute div_nat_eqI mult.commute mult_Suc_right)
  then show ?thesis
    using assms(1) by (simp add: page_floor_eq minus_mod_eq_div_mult m mult.commute)
qed

lemma page_floor_mono: "pow2 pb \<Longrightarrow> a \<le> b \<Longrightarrow> page_floor pb a \<le> page_floor pb b"
  by (simp add: page_floor_eq minus_mod_eq_div_mult div_le_mono)

section \<open>The page loop\<close>

text \<open>
  \<open>pages_from pb p hi\<close> is the list of values \<open>p\<close> takes in
  \<open>for (; p <= last; p += pb)\<close>. A page size of zero, with which the loop of the code
  would not end, does not occur: \<open>DramWindow::init\<close> divides by it first.
\<close>

function pages_from :: "nat \<Rightarrow> nat \<Rightarrow> nat \<Rightarrow> nat list" where
  "pages_from pb p hi =
     (if p \<le> hi \<and> 0 < pb then p # pages_from pb (p + pb) hi else [])"
  by pat_completeness auto
termination
  by (relation "measure (\<lambda>(pb, p, hi). Suc hi - p)") auto

declare pages_from.simps [simp del]

definition page_last :: "nat \<Rightarrow> nat \<Rightarrow> nat \<Rightarrow> nat" where
  "page_last pb off len = page_floor pb (off + len - 1)"

definition page_span :: "nat \<Rightarrow> nat \<Rightarrow> nat \<Rightarrow> nat list" where
  "page_span pb off len = pages_from pb (page_floor pb off) (page_last pb off len)"

lemma set_pages_from:
  "0 < pb \<Longrightarrow> set (pages_from pb p hi) = {q. p \<le> q \<and> q \<le> hi \<and> pb dvd (q - p)}"
proof (induction pb p hi rule: pages_from.induct)
  case (1 pb p hi)
  show ?case
  proof (cases "p \<le> hi")
    case False
    then show ?thesis by (auto simp: pages_from.simps [of pb p])
  next
    case True
    have "q = p \<or> (p + pb \<le> q \<and> pb dvd (q - (p + pb)))"
      if "p \<le> q" "pb dvd (q - p)" for q
    proof -
      from that(2) obtain m where m: "q - p = pb * m" by (auto simp: dvd_def)
      show ?thesis
      proof (cases m)
        case 0 with m that(1) show ?thesis by simp
      next
        case (Suc k) with m that(1) have "q = p + pb + pb * k" by simp
        then show ?thesis by simp
      qed
    qed
    moreover have "pb dvd (q - p)" if "p + pb \<le> q" "pb dvd (q - (p + pb))" for q
      using that by (metis add_diff_inverse_nat diff_diff_left dvd_add_triv_left_iff
          le_diff_conv2 add.commute add_leD1 not_less)
    ultimately show ?thesis
      using True 1 by (auto simp: pages_from.simps [of pb p])
  qed
qed

lemma distinct_pages_from: "distinct (pages_from pb p hi)"
proof (induction pb p hi rule: pages_from.induct)
  case (1 pb p hi)
  show ?case
  proof (cases "p \<le> hi \<and> 0 < pb")
    case True
    with 1 show ?thesis by (simp add: pages_from.simps [of pb p] set_pages_from)
  qed (simp only: pages_from.simps [of pb p] if_False, simp)
qed

lemma sorted_pages_from: "sorted (pages_from pb p hi)"
proof (induction pb p hi rule: pages_from.induct)
  case (1 pb p hi)
  show ?case
  proof (cases "p \<le> hi \<and> 0 < pb")
    case True
    with 1 show ?thesis by (auto simp: pages_from.simps [of pb p] set_pages_from)
  qed (simp only: pages_from.simps [of pb p] if_False, simp)
qed

lemma length_pages_from:
  "0 < pb \<Longrightarrow> length (pages_from pb p hi) = (if p \<le> hi then (hi - p) div pb + 1 else 0)"
proof (induction pb p hi rule: pages_from.induct)
  case (1 pb p hi)
  show ?case
  proof (cases "p \<le> hi")
    case True
    have "(hi - p) div pb = (if p + pb \<le> hi then (hi - (p + pb)) div pb + 1 else 0)"
      using 1(2) True by (auto simp: le_div_geq)
    with True 1 show ?thesis by (simp add: pages_from.simps [of pb p])
  qed (simp add: pages_from.simps [of pb p])
qed

lemma set_page_span:
  assumes "pow2 pb"
  shows "set (page_span pb off len) = {q. pb dvd q \<and> off < q + pb \<and> q \<le> page_last pb off len}"
proof -
  have pos: "0 < pb" using assms by simp
  have "(page_floor pb off \<le> q \<and> pb dvd (q - page_floor pb off)) = (pb dvd q \<and> off < q + pb)" for q
  proof
    assume a: "page_floor pb off \<le> q \<and> pb dvd (q - page_floor pb off)"
    then have "pb dvd q" using assms by (metis dvd_diffD page_floor_dvd)
    moreover have "off < q + pb" using a page_floor_less [OF assms, of off] by simp
    ultimately show "pb dvd q \<and> off < q + pb" ..
  next
    assume a: "pb dvd q \<and> off < q + pb"
    have "page_floor pb off \<le> q"
    proof (cases "q \<le> off")
      case True
      then have "page_floor pb off = q" using a assms by (intro page_floor_unique) auto
      then show ?thesis by simp
    next
      case False
      then show ?thesis using page_floor_le [OF assms, of off] by simp
    qed
    with a assms show "page_floor pb off \<le> q \<and> pb dvd (q - page_floor pb off)"
      by (simp add: dvd_diff_nat)
  qed
  then show ?thesis using pos by (auto simp: page_span_def set_pages_from)
qed

lemma distinct_page_span: "distinct (page_span pb off len)"
  by (simp add: page_span_def distinct_pages_from)

text \<open>The loop visits exactly the pages that hold a byte of \<open>[off, off + len)\<close>.\<close>

lemma page_span_covers:
  assumes "pow2 pb" and "off \<le> a" and "a < off + len"
  shows "page_floor pb a \<in> set (page_span pb off len)"
proof -
  have "a < page_floor pb a + pb" using assms(1) by (rule page_floor_less)
  moreover have "page_floor pb a \<le> page_last pb off len"
    unfolding page_last_def using assms by (intro page_floor_mono) auto
  ultimately show ?thesis using assms by (simp add: set_page_span)
qed

lemma page_span_only:
  assumes "pow2 pb" and "0 < len" and "q \<in> set (page_span pb off len)"
  shows "\<exists>a. off \<le> a \<and> a < off + len \<and> page_floor pb a = q"
proof -
  from assms have q: "pb dvd q" "off < q + pb" "q \<le> page_last pb off len"
    by (simp_all add: set_page_span)
  have "q \<le> off + len - 1"
    using q(3) page_floor_le [OF assms(1), of "off + len - 1"] by (simp add: page_last_def)
  with q assms show ?thesis
    by (intro exI [of _ "max off q"]) (auto intro!: page_floor_unique)
qed

lemma page_span_dvd: "pow2 pb \<Longrightarrow> q \<in> set (page_span pb off len) \<Longrightarrow> pb dvd q"
  by (simp add: set_page_span)

lemma page_span_single:
  assumes "pow2 pb" and "0 < len" and "off - page_floor pb off + len \<le> pb"
  shows "page_span pb off len = [page_floor pb off]" and "page_last pb off len = page_floor pb off"
proof -
  have "off + len - 1 < page_floor pb off + pb" "page_floor pb off \<le> off + len - 1"
    using assms page_floor_le [OF assms(1), of off] by auto
  then show l: "page_last pb off len = page_floor pb off"
    unfolding page_last_def using assms(1) by (intro page_floor_unique) auto
  show "page_span pb off len = [page_floor pb off]"
    using assms(1) by (simp add: page_span_def l pages_from.simps [of pb "page_floor pb off"]
        pages_from.simps [of pb "page_floor pb off + pb"])
qed

lemma page_span_page: "pow2 pb \<Longrightarrow> pb dvd p \<Longrightarrow> page_span pb p 1 = [p]"
  using page_span_single(1) [of pb 1 p] by (simp add: Suc_leI)

section \<open>The page loop on 64-bit words\<close>

text \<open>
  The same loop with the \<open>uint64_t\<close> arithmetic of the code, where \<open>p += pb\<close> may
  wrap around and the loop then does not return (\<open>None\<close>).
\<close>

partial_function (option) page_loop :: "64 word \<Rightarrow> 64 word \<Rightarrow> 64 word \<Rightarrow> 64 word list option" where
  "page_loop pb p hi =
     (if p \<le> hi
      then Option.bind (page_loop pb (p + pb) hi) (\<lambda>ps. Some (p # ps))
      else Some [])"

lemma page_loop_refines:
  assumes "0 < unat pb" and "unat hi + unat pb < 2 ^ 64"
  shows "\<exists>ps. page_loop pb p hi = Some ps \<and>
              map unat ps = pages_from (unat pb) (unat p) (unat hi)"
proof (induction "Suc (unat hi) - unat p" arbitrary: p rule: less_induct)
  case less
  show ?case
  proof (cases "p \<le> hi")
    case False
    then show ?thesis
      by (simp add: page_loop.simps [of pb p] pages_from.simps [of "unat pb"] word_le_nat_alt)
  next
    case True
    then have le: "unat p \<le> unat hi" by (simp add: word_le_nat_alt)
    with assms have add: "unat (p + pb) = unat p + unat pb"
      by (simp add: unat_word_ariths)
    have "\<exists>ps. page_loop pb (p + pb) hi = Some ps \<and>
              map unat ps = pages_from (unat pb) (unat p + unat pb) (unat hi)"
      using less [of "p + pb"] le add assms(1) by simp
    then show ?thesis
      using True le assms(1)
      by (auto simp: page_loop.simps [of pb p] pages_from.simps [of "unat pb" "unat p"])
  qed
qed

end
