(* ===== verification/Metrics.thy ===== *)
theory Metrics
  imports Prelude
begin

text \<open>
  \<open>serving/metrics.hpp\<close>: the counters and the sets of issued, used and scored pages.
  Counters are natural numbers (a \<open>uint64_t\<close> that counts events does not wrap in
  practice); the sets are the \<open>unordered_set\<close>s of the code. Ratios are rational
  numbers, where the code rounds to \<open>double\<close>. Wall-clock durations
  (\<open>promote_ns\<close>, \<open>crit_wait_ns\<close>, \<open>device_fill_ns\<close>, \<open>wall_ns\<close>) are
  plain fields: their increments are clock readings and are not modelled.
\<close>

section \<open>State\<close>

record metrics =
  dram_hits :: nat
  ssd_misses :: nat
  promote_bytes :: nat
  promote_ns :: nat
  prefetch_pages :: nat
  evicts :: nat
  queries :: nat
  distance_comps :: nat
  promote_pages :: nat
  promote_used :: nat
  hotset_pins :: nat
  score_from_window :: nat
  score_from_cxl_dram :: nat
  score_from_bounce :: nat
  score_from_cache :: nat
  window_is_cxl_dram :: bool
  fetched_pages :: nat
  crit_wait_ns :: nat
  device_fill_ns :: nat
  wall_ns :: nat
  pf_issued :: "nat set"
  pf_used :: "nat set"
  pf_look :: "nat set"
  pf_scored_vec_bytes :: nat
  nvme_read_bytes :: nat
  pf_ids_on_issued :: "nat set"
  pf_ids_scored :: "nat set"
  pf_issue_slots :: nat
  pf_issue_want_slots :: nat
  issue_use_hist :: "nat list"
  spec_issue_pages :: nat
  spec_uniq_ids :: nat
  page_occ_n0 :: nat
  page_occ_n50 :: nat
  page_occ_n100 :: nat
  page_occ_pages :: nat
  page_occ_used_slots :: nat
  page_occ_slots :: nat

definition metrics_zero :: metrics where
  "metrics_zero = \<lparr> dram_hits = 0, ssd_misses = 0, promote_bytes = 0, promote_ns = 0,
     prefetch_pages = 0, evicts = 0, queries = 0, distance_comps = 0, promote_pages = 0,
     promote_used = 0, hotset_pins = 0, score_from_window = 0, score_from_cxl_dram = 0,
     score_from_bounce = 0, score_from_cache = 0, window_is_cxl_dram = False,
     fetched_pages = 0, crit_wait_ns = 0, device_fill_ns = 0, wall_ns = 0,
     pf_issued = {}, pf_used = {}, pf_look = {}, pf_scored_vec_bytes = 0,
     nvme_read_bytes = 0, pf_ids_on_issued = {}, pf_ids_scored = {}, pf_issue_slots = 0,
     pf_issue_want_slots = 0, issue_use_hist = [0, 0, 0, 0, 0], spec_issue_pages = 0,
     spec_uniq_ids = 0, page_occ_n0 = 0, page_occ_n50 = 0, page_occ_n100 = 0,
     page_occ_pages = 0, page_occ_used_slots = 0, page_occ_slots = 0 \<rparr>"

section \<open>Operations\<close>

definition metrics_reset :: "metrics \<Rightarrow> metrics" where
  "metrics_reset m = metrics_zero\<lparr>window_is_cxl_dram := window_is_cxl_dram m\<rparr>"

definition note_promote_pages :: "nat \<Rightarrow> metrics \<Rightarrow> metrics" where
  "note_promote_pages n m = m\<lparr>promote_pages := promote_pages m + n\<rparr>"

definition note_promote_used :: "nat \<Rightarrow> metrics \<Rightarrow> metrics" where
  "note_promote_used n m = m\<lparr>promote_used := promote_used m + n\<rparr>"

definition note_score_from_window :: "nat \<Rightarrow> metrics \<Rightarrow> metrics" where
  "note_score_from_window n m =
     (let m1 = m\<lparr>score_from_window := score_from_window m + n\<rparr>
      in if window_is_cxl_dram m
         then m1\<lparr>score_from_cxl_dram := score_from_cxl_dram m1 + n\<rparr> else m1)"

definition note_score_from_bounce :: "nat \<Rightarrow> metrics \<Rightarrow> metrics" where
  "note_score_from_bounce n m = m\<lparr>score_from_bounce := score_from_bounce m + n\<rparr>"

definition note_score_from_cache :: "nat \<Rightarrow> metrics \<Rightarrow> metrics" where
  "note_score_from_cache n m = m\<lparr>score_from_cache := score_from_cache m + n\<rparr>"

definition note_fetched_pages :: "nat \<Rightarrow> metrics \<Rightarrow> metrics" where
  "note_fetched_pages n m = m\<lparr>fetched_pages := fetched_pages m + n\<rparr>"

definition note_pf_issue_one :: "bool \<Rightarrow> nat \<Rightarrow> metrics \<Rightarrow> metrics" where
  "note_pf_issue_one lookahead p m =
     (if p \<in> pf_issued m then m
      else let m1 = m\<lparr>pf_issued := insert p (pf_issued m)\<rparr>
           in if lookahead then m1\<lparr>pf_look := insert p (pf_look m1)\<rparr> else m1)"

definition note_pf_issue :: "nat list \<Rightarrow> bool \<Rightarrow> metrics \<Rightarrow> metrics" where
  "note_pf_issue pages lookahead m = fold (note_pf_issue_one lookahead) pages m"

definition note_pf_used_one :: "nat \<Rightarrow> metrics \<Rightarrow> metrics" where
  "note_pf_used_one p m =
     (if p \<in> pf_issued m then m\<lparr>pf_used := insert p (pf_used m)\<rparr> else m)"

definition note_pf_used :: "nat list \<Rightarrow> metrics \<Rightarrow> metrics" where
  "note_pf_used pages m = fold note_pf_used_one pages m"

definition note_pf_score_vec :: "nat \<Rightarrow> metrics \<Rightarrow> metrics" where
  "note_pf_score_vec n m = m\<lparr>pf_scored_vec_bytes := pf_scored_vec_bytes m + n\<rparr>"

definition note_pf_slot_id :: "nat \<Rightarrow> metrics \<Rightarrow> metrics" where
  "note_pf_slot_id i m = m\<lparr>pf_ids_on_issued := insert i (pf_ids_on_issued m)\<rparr>"

definition note_pf_scored_id :: "nat \<Rightarrow> metrics \<Rightarrow> metrics" where
  "note_pf_scored_id i m = m\<lparr>pf_ids_scored := insert i (pf_ids_scored m)\<rparr>"

definition note_page_occ_slots :: "nat \<Rightarrow> nat \<Rightarrow> metrics \<Rightarrow> metrics" where
  "note_page_occ_slots used slots m =
     (if slots = 0 then m
      else let m1 = m\<lparr>page_occ_pages := page_occ_pages m + 1,
                      page_occ_slots := page_occ_slots m + slots,
                      page_occ_used_slots := page_occ_used_slots m + (if used < slots then used else slots)\<rparr>
           in if used = 0 then m1\<lparr>page_occ_n0 := page_occ_n0 m1 + 1\<rparr>
              else if slots \<le> used then m1\<lparr>page_occ_n100 := page_occ_n100 m1 + 1\<rparr>
              else m1\<lparr>page_occ_n50 := page_occ_n50 m1 + 1\<rparr>)"

definition pct :: "nat \<Rightarrow> nat \<Rightarrow> rat" where
  "pct a b = (if b = 0 then 0 else 100 * of_nat a / of_nat b)"

definition page_occ_pct :: "metrics \<Rightarrow> rat" where
  "page_occ_pct m = pct (page_occ_used_slots m) (page_occ_slots m)"

definition prefetch_slots_used :: "metrics \<Rightarrow> nat" where
  "prefetch_slots_used m = card (pf_ids_scored m \<inter> pf_ids_on_issued m)"

definition prefetch_slot_use_pct :: "metrics \<Rightarrow> rat" where
  "prefetch_slot_use_pct m = pct (prefetch_slots_used m) (card (pf_ids_on_issued m))"

definition prefetch_issue_use_pct :: "metrics \<Rightarrow> rat" where
  "prefetch_issue_use_pct m = pct (pf_issue_want_slots m) (pf_issue_slots m)"

definition prefetch_page_use_pct :: "metrics \<Rightarrow> rat" where
  "prefetch_page_use_pct m = pct (card (pf_used m)) (card (pf_issued m))"

definition prefetch_look_used :: "metrics \<Rightarrow> nat" where
  "prefetch_look_used m = card (pf_look m \<inter> pf_used m)"

definition prefetch_look_use_pct :: "metrics \<Rightarrow> rat" where
  "prefetch_look_use_pct m = pct (prefetch_look_used m) (card (pf_look m))"

definition prefetch_miss_use_pct :: "metrics \<Rightarrow> rat" where
  "prefetch_miss_use_pct m =
     pct (card (pf_used m - pf_look m)) (card (pf_issued m) - card (pf_look m))"

definition prefetch_byte_use_pct :: "metrics \<Rightarrow> rat" where
  "prefetch_byte_use_pct m = pct (pf_scored_vec_bytes m) (card (pf_issued m) * 4096)"

definition precision_pct :: "metrics \<Rightarrow> rat" where
  "precision_pct m = pct (promote_used m) (promote_pages m)"

definition score_from_window_pct :: "metrics \<Rightarrow> rat" where
  "score_from_window_pct m =
     pct (score_from_window m) (score_from_window m + score_from_bounce m)"

definition score_from_cxl_dram_pct :: "metrics \<Rightarrow> rat" where
  "score_from_cxl_dram_pct m =
     pct (score_from_cxl_dram m) (score_from_window m + score_from_bounce m)"

definition hide_precision_pct :: "metrics \<Rightarrow> rat" where
  "hide_precision_pct m = pct (score_from_window m) (fetched_pages m)"

definition overlap_ratio :: "metrics \<Rightarrow> rat" where
  "overlap_ratio m = (if wall_ns m = 0 then 0 else of_nat (device_fill_ns m) / of_nat (wall_ns m))"

definition add_from :: "metrics \<Rightarrow> metrics \<Rightarrow> metrics" where
  "add_from z m = m\<lparr>
     dram_hits := dram_hits m + dram_hits z,
     ssd_misses := ssd_misses m + ssd_misses z,
     promote_bytes := promote_bytes m + promote_bytes z,
     promote_ns := promote_ns m + promote_ns z,
     prefetch_pages := prefetch_pages m + prefetch_pages z,
     evicts := evicts m + evicts z,
     queries := queries m + queries z,
     distance_comps := distance_comps m + distance_comps z,
     promote_pages := promote_pages m + promote_pages z,
     promote_used := promote_used m + promote_used z,
     hotset_pins := hotset_pins m + hotset_pins z,
     score_from_window := score_from_window m + score_from_window z,
     score_from_cxl_dram := score_from_cxl_dram m + score_from_cxl_dram z,
     score_from_bounce := score_from_bounce m + score_from_bounce z,
     score_from_cache := score_from_cache m + score_from_cache z,
     window_is_cxl_dram := window_is_cxl_dram m \<or> window_is_cxl_dram z,
     fetched_pages := fetched_pages m + fetched_pages z,
     crit_wait_ns := crit_wait_ns m + crit_wait_ns z,
     device_fill_ns := device_fill_ns m + device_fill_ns z,
     wall_ns := wall_ns m + wall_ns z,
     pf_issued := pf_issued m \<union> pf_issued z,
     pf_used := pf_used m \<union> pf_used z,
     pf_look := pf_look m \<union> pf_look z,
     pf_scored_vec_bytes := pf_scored_vec_bytes m + pf_scored_vec_bytes z,
     nvme_read_bytes := nvme_read_bytes m + nvme_read_bytes z,
     pf_ids_on_issued := pf_ids_on_issued m \<union> pf_ids_on_issued z,
     pf_ids_scored := pf_ids_scored m \<union> pf_ids_scored z,
     pf_issue_slots := pf_issue_slots m + pf_issue_slots z,
     pf_issue_want_slots := pf_issue_want_slots m + pf_issue_want_slots z,
     issue_use_hist := map2 (+) (issue_use_hist m) (issue_use_hist z),
     spec_issue_pages := spec_issue_pages m + spec_issue_pages z,
     spec_uniq_ids := spec_uniq_ids m + spec_uniq_ids z,
     page_occ_n0 := page_occ_n0 m + page_occ_n0 z,
     page_occ_n50 := page_occ_n50 m + page_occ_n50 z,
     page_occ_n100 := page_occ_n100 m + page_occ_n100 z,
     page_occ_pages := page_occ_pages m + page_occ_pages z,
     page_occ_used_slots := page_occ_used_slots m + page_occ_used_slots z,
     page_occ_slots := page_occ_slots m + page_occ_slots z\<rparr>"

section \<open>Consistency of the counters\<close>

text \<open>
  What makes the printed ratios percentages: used and looked-ahead pages were issued,
  the occupancy histogram adds up, the want slots are slots.
\<close>

definition metrics_ok :: "metrics \<Rightarrow> bool" where
  "metrics_ok m \<longleftrightarrow>
     finite (pf_issued m) \<and> pf_used m \<subseteq> pf_issued m \<and> pf_look m \<subseteq> pf_issued m \<and>
     finite (pf_ids_on_issued m) \<and> finite (pf_ids_scored m) \<and>
     score_from_cxl_dram m \<le> score_from_window m \<and>
     pf_issue_want_slots m \<le> pf_issue_slots m \<and>
     length (issue_use_hist m) = 5 \<and>
     page_occ_pages m = page_occ_n0 m + page_occ_n50 m + page_occ_n100 m \<and>
     page_occ_used_slots m \<le> page_occ_slots m"

lemma metrics_ok_zero [simp]: "metrics_ok metrics_zero"
  by (simp add: metrics_ok_def metrics_zero_def)

lemma metrics_ok_reset [simp]: "metrics_ok (metrics_reset m)"
  by (simp add: metrics_ok_def metrics_reset_def metrics_zero_def)

lemma note_pf_issue_one_ok: "metrics_ok m \<Longrightarrow> metrics_ok (note_pf_issue_one l p m)"
  by (auto simp: metrics_ok_def note_pf_issue_one_def Let_def)

lemma note_pf_issue_ok: "metrics_ok m \<Longrightarrow> metrics_ok (note_pf_issue ps l m)"
  unfolding note_pf_issue_def by (induction ps arbitrary: m) (simp_all add: note_pf_issue_one_ok)

lemma note_pf_used_one_ok: "metrics_ok m \<Longrightarrow> metrics_ok (note_pf_used_one p m)"
  by (auto simp: metrics_ok_def note_pf_used_one_def)

lemma note_pf_used_ok: "metrics_ok m \<Longrightarrow> metrics_ok (note_pf_used ps m)"
  unfolding note_pf_used_def by (induction ps arbitrary: m) (simp_all add: note_pf_used_one_ok)

lemma note_page_occ_slots_ok: "metrics_ok m \<Longrightarrow> metrics_ok (note_page_occ_slots u s m)"
  by (auto simp: metrics_ok_def note_page_occ_slots_def Let_def)

lemma note_counters_ok:
  "metrics_ok m \<Longrightarrow> metrics_ok (note_promote_pages n m)"
  "metrics_ok m \<Longrightarrow> metrics_ok (note_promote_used n m)"
  "metrics_ok m \<Longrightarrow> metrics_ok (note_score_from_window n m)"
  "metrics_ok m \<Longrightarrow> metrics_ok (note_score_from_bounce n m)"
  "metrics_ok m \<Longrightarrow> metrics_ok (note_score_from_cache n m)"
  "metrics_ok m \<Longrightarrow> metrics_ok (note_fetched_pages n m)"
  "metrics_ok m \<Longrightarrow> metrics_ok (note_pf_score_vec n m)"
  "metrics_ok m \<Longrightarrow> metrics_ok (note_pf_slot_id i m)"
  "metrics_ok m \<Longrightarrow> metrics_ok (note_pf_scored_id i m)"
  by (auto simp: metrics_ok_def note_promote_pages_def note_promote_used_def
      note_score_from_window_def note_score_from_bounce_def note_score_from_cache_def
      note_fetched_pages_def note_pf_score_vec_def note_pf_slot_id_def note_pf_scored_id_def Let_def)

lemma add_from_ok: "metrics_ok m \<Longrightarrow> metrics_ok z \<Longrightarrow> metrics_ok (add_from z m)"
  unfolding metrics_ok_def add_from_def by (simp add: subset_iff)

lemmas metrics_ok_ops = note_pf_issue_ok note_pf_used_ok note_page_occ_slots_ok
  note_counters_ok add_from_ok

text \<open>The sets after a batch of issues: every page is issued, and only new pages count as lookahead.\<close>

lemma pf_issued_note_pf_issue: "pf_issued (note_pf_issue ps l m) = pf_issued m \<union> set ps"
  unfolding note_pf_issue_def
  by (induction ps arbitrary: m) (auto simp: note_pf_issue_one_def Let_def insert_absorb)

lemma pf_look_note_pf_issue:
  "pf_look (note_pf_issue ps l m) = pf_look m \<union> (if l then set ps - pf_issued m else {})"
  unfolding note_pf_issue_def
  by (induction ps arbitrary: m) (auto simp: note_pf_issue_one_def Let_def)

lemma pf_used_note_pf_used: "pf_used (note_pf_used ps m) = pf_used m \<union> (set ps \<inter> pf_issued m)"
proof (induction ps arbitrary: m)
  case (Cons p ps)
  have "pf_issued (note_pf_used_one p m) = pf_issued m" by (simp add: note_pf_used_one_def)
  moreover have "note_pf_used (p # ps) m = note_pf_used ps (note_pf_used_one p m)"
    by (simp add: note_pf_used_def)
  ultimately show ?case using Cons.IH [of "note_pf_used_one p m"]
    by (auto simp: note_pf_used_one_def)
qed (simp add: note_pf_used_def)

lemma pct_bounds: "a \<le> b \<Longrightarrow> 0 \<le> pct a b \<and> pct a b \<le> 100"
  by (auto simp: pct_def field_simps)

lemma pct_nonneg: "0 \<le> pct a b"
  by (simp add: pct_def)

lemma card_diff_used_le:
  assumes "metrics_ok m"
  shows "card (pf_used m - pf_look m) \<le> card (pf_issued m) - card (pf_look m)"
proof -
  have fin: "finite (pf_issued m)" "pf_look m \<subseteq> pf_issued m"
    and sub: "pf_used m - pf_look m \<subseteq> pf_issued m - pf_look m"
    using assms by (auto simp: metrics_ok_def)
  have "card (pf_used m - pf_look m) \<le> card (pf_issued m - pf_look m)"
    using fin sub by (intro card_mono) auto
  also have "\<dots> = card (pf_issued m) - card (pf_look m)"
    using fin by (simp add: card_Diff_subset finite_subset)
  finally show ?thesis .
qed

end
