(* ===== verification/Window.thy ===== *)
theory Window
  imports Pages Metrics
begin

text \<open>
  \<open>serving/dram_window.hpp\<close>: the CXL-DRAM window, a page cache over the mapped SSD
  image with clock eviction, hard pins, soft pins and frames reserved as DMA
  destinations. One record is one \<open>DramWindow\<close>: \<open>wmap\<close> is its
  \<open>unordered_map\<close> from page offset to frame, \<open>frame_key\<close> has \<open>None\<close> for
  \<open>UINT64_MAX\<close>, the byte flags of frames are boolean lists, the arena is flat memory.
  SSD pointers are offsets from \<open>ssd_base\<close>. Every operation runs under the mutex of the
  window, so it is one function on the record. \<open>met()\<close> is the field \<open>wmetrics\<close>
  (\<open>None\<close> for a null pointer).
\<close>

section \<open>State\<close>

record dram_window =
  arena :: "byte list"
  capacity :: nat
  page_bytes :: nat
  soft_pin_neighbors :: bool
  n_frames :: nat
  wmetrics :: "metrics option"
  wmap :: "nat \<rightharpoonup> nat"
  frame_key :: "nat option list"
  frame_pinned :: "bool list"
  frame_filling :: "bool list"
  frame_soft_ttl :: "nat list"
  soft_pin_frames :: "nat list"
  pinned_pages :: "nat set"
  clock_hand :: nat
  pin_bytes_used :: nat
  pin_bytes_cap :: nat
  soft_pin_bytes_used :: nat
  soft_pin_bytes_cap :: nat
  spill :: "byte list list"
  spill_hand :: nat

definition kPage :: nat where
  "kPage = 4096"

definition kSpillSlots :: nat where
  "kSpillSlots = 16"

definition met_upd :: "(metrics \<Rightarrow> metrics) \<Rightarrow> dram_window \<Rightarrow> dram_window" where
  "met_upd f w = w\<lparr>wmetrics := map_option f (wmetrics w)\<rparr>"

definition win_init :: "byte list \<Rightarrow> metrics option \<Rightarrow> nat \<Rightarrow> dram_window \<Rightarrow> dram_window" where
  "win_init dram m page w =
     (let cap = length dram; nf = cap div page in
      w\<lparr>arena := dram, capacity := cap, page_bytes := page, n_frames := nf, wmetrics := m,
        wmap := Map.empty,
        frame_key := replicate nf None,
        frame_pinned := replicate nf False,
        frame_filling := replicate nf False,
        frame_soft_ttl := replicate nf 0,
        soft_pin_frames := [], pinned_pages := {},
        clock_hand := 0, pin_bytes_used := 0, soft_pin_bytes_used := 0,
        pin_bytes_cap := (if pin_bytes_cap w = 0
          then (if 2 ^ 26 < cap div 16 then 2 ^ 26 else cap div 16) else pin_bytes_cap w),
        soft_pin_bytes_cap := (if soft_pin_bytes_cap w = 0
          then (if 2 ^ 28 < cap div 4 then 2 ^ 28 else cap div 4) else soft_pin_bytes_cap w),
        spill := replicate kSpillSlots [], spill_hand := 0\<rparr>)"

section \<open>Soft pins\<close>

text \<open>\<open>used > page ? used - page : 0\<close>\<close>

definition soft_less :: "dram_window \<Rightarrow> nat" where
  "soft_less w = (if page_bytes w < soft_pin_bytes_used w
                  then soft_pin_bytes_used w - page_bytes w else 0)"

definition clear_soft_ttl :: "nat \<Rightarrow> dram_window \<Rightarrow> dram_window" where
  "clear_soft_ttl fr w =
     (if n_frames w \<le> fr \<or> frame_soft_ttl w ! fr = 0 then w
      else w\<lparr>frame_soft_ttl := (frame_soft_ttl w)[fr := 0], soft_pin_bytes_used := soft_less w\<rparr>)"

definition set_soft_ttl :: "nat \<Rightarrow> nat \<Rightarrow> dram_window \<Rightarrow> dram_window" where
  "set_soft_ttl fr ttl w =
     (if n_frames w \<le> fr \<or> ttl = 0 \<or> frame_pinned w ! fr then w
      else if frame_soft_ttl w ! fr = 0 then
        (if soft_pin_bytes_cap w < soft_pin_bytes_used w + page_bytes w then w
         else w\<lparr>soft_pin_bytes_used := soft_pin_bytes_used w + page_bytes w,
                soft_pin_frames := soft_pin_frames w @ [fr],
                frame_soft_ttl := (frame_soft_ttl w)[fr := ttl]\<rparr>)
      else if frame_soft_ttl w ! fr < ttl then w\<lparr>frame_soft_ttl := (frame_soft_ttl w)[fr := ttl]\<rparr>
      else w)"

definition resident_bytes :: "dram_window \<Rightarrow> nat" where
  "resident_bytes w = card (dom (wmap w)) * page_bytes w"

text \<open>The compaction loop of \<open>tick_soft_pins\<close>: the result list is what stays in \<open>soft_pin_frames\<close>.\<close>

fun tick_loop :: "nat list \<Rightarrow> dram_window \<Rightarrow> nat list \<times> dram_window" where
  "tick_loop [] w = ([], w)"
| "tick_loop (fr # frs) w =
     (if n_frames w \<le> fr \<or> frame_soft_ttl w ! fr = 0 then tick_loop frs w
      else let t = frame_soft_ttl w ! fr - 1;
               w1 = w\<lparr>frame_soft_ttl := (frame_soft_ttl w)[fr := t]\<rparr>
           in if t = 0 then tick_loop frs (w1\<lparr>soft_pin_bytes_used := soft_less w1\<rparr>)
              else let (keep, w2) = tick_loop frs w1 in (fr # keep, w2))"

definition tick_soft_pins :: "dram_window \<Rightarrow> dram_window" where
  "tick_soft_pins w =
     (if soft_pin_frames w = [] then w
      else let (keep, w1) = tick_loop (soft_pin_frames w) w in w1\<lparr>soft_pin_frames := keep\<rparr>)"

definition tick_soft_pins_if_pressure :: "dram_window \<Rightarrow> dram_window" where
  "tick_soft_pins_if_pressure w =
     (if capacity w \<le> card (dom (wmap w)) * page_bytes w + page_bytes w * 4096
      then tick_soft_pins w else w)"

section \<open>Flushing\<close>

definition flush_frame :: "nat \<Rightarrow> dram_window \<Rightarrow> dram_window" where
  "flush_frame i w =
     (if frame_pinned w ! i \<or> frame_filling w ! i then w
      else let w1 = (case frame_key w ! i of
                       None \<Rightarrow> w
                     | Some key \<Rightarrow> w\<lparr>wmap := (wmap w)(key := None)\<rparr>);
               w2 = w1\<lparr>frame_key := (frame_key w1)[i := None]\<rparr>
           in if 0 < frame_soft_ttl w2 ! i
              then w2\<lparr>soft_pin_bytes_used := soft_less w2,
                      frame_soft_ttl := (frame_soft_ttl w2)[i := 0]\<rparr>
              else w2)"

definition win_flush :: "dram_window \<Rightarrow> dram_window" where
  "win_flush w = (fold flush_frame [0..<n_frames w] w)\<lparr>soft_pin_frames := [], clock_hand := 0\<rparr>"

definition win_flush_all :: "dram_window \<Rightarrow> dram_window" where
  "win_flush_all w =
     w\<lparr>wmap := Map.empty,
       frame_key := replicate (length (frame_key w)) None,
       frame_pinned := replicate (length (frame_pinned w)) False,
       frame_filling := replicate (length (frame_filling w)) False,
       frame_soft_ttl := replicate (length (frame_soft_ttl w)) 0,
       soft_pin_frames := [], pinned_pages := {}, pin_bytes_used := 0,
       soft_pin_bytes_used := 0, clock_hand := 0\<rparr>"

section \<open>Clock eviction\<close>

definition drop_key :: "nat \<Rightarrow> nat \<Rightarrow> dram_window \<Rightarrow> dram_window" where
  "drop_key i key w = w\<lparr>wmap := (wmap w)(key := None), frame_key := (frame_key w)[i := None]\<rparr>"

definition count_evict :: "dram_window \<Rightarrow> dram_window" where
  "count_evict w = met_upd (\<lambda>m. m\<lparr>evicts := evicts m + 1\<rparr>) w"

text \<open>First sweep: an unpinned frame that is not being filled and not soft-pinned.\<close>

fun evict_pass1 :: "nat \<Rightarrow> dram_window \<Rightarrow> nat option \<times> dram_window" where
  "evict_pass1 0 w = (None, w)"
| "evict_pass1 (Suc t) w =
     (let i = clock_hand w mod n_frames w; w1 = w\<lparr>clock_hand := clock_hand w + 1\<rparr>
      in if frame_pinned w ! i \<or> frame_filling w ! i then evict_pass1 t w1
         else if 0 < frame_soft_ttl w ! i then evict_pass1 t w1
         else (case frame_key w ! i of
                 None \<Rightarrow> (Some i, w1)
               | Some key \<Rightarrow> (Some i, count_evict (drop_key i key w1))))"

text \<open>Second sweep: soft pins give way.\<close>

fun evict_pass2 :: "nat \<Rightarrow> dram_window \<Rightarrow> nat option \<times> dram_window" where
  "evict_pass2 0 w = (None, w)"
| "evict_pass2 (Suc t) w =
     (let i = clock_hand w mod n_frames w; w1 = w\<lparr>clock_hand := clock_hand w + 1\<rparr>
      in if frame_pinned w ! i \<or> frame_filling w ! i then evict_pass2 t w1
         else (case frame_key w ! i of
                 None \<Rightarrow> (Some i, w1)
               | Some key \<Rightarrow> (Some i, count_evict (clear_soft_ttl i (drop_key i key w1)))))"

text \<open>Frame 0 is the answer when every frame is pinned or being filled.\<close>

definition evict_frame :: "dram_window \<Rightarrow> nat \<times> dram_window" where
  "evict_frame w =
     (case evict_pass1 (n_frames w) w of
        (Some i, w1) \<Rightarrow> (i, w1)
      | (None, w1) \<Rightarrow>
          (case evict_pass2 (n_frames w1) w1 of
             (Some i, w2) \<Rightarrow> (i, w2)
           | (None, w2) \<Rightarrow> (0, w2)))"

definition alloc_frame :: "dram_window \<Rightarrow> nat \<times> dram_window" where
  "alloc_frame w = evict_frame w"

section \<open>Direct fills\<close>

definition arena_write :: "nat \<Rightarrow> byte list \<Rightarrow> dram_window \<Rightarrow> dram_window" where
  "arena_write pos bs w = w\<lparr>arena := mem_write pos bs (arena w)\<rparr>"

text \<open>\<open>None\<close> is the result \<open>false\<close>; \<open>Some fr\<close> is \<open>true\<close> with \<open>*dest = arena + fr * page_bytes\<close>.\<close>

definition reserve_fill :: "nat \<Rightarrow> dram_window \<Rightarrow> nat option \<times> dram_window" where
  "reserve_fill p w =
     (if wmap w p \<noteq> None then (None, w)
      else let (fr, w1) = alloc_frame w;
               w2 = w1\<lparr>frame_filling := (frame_filling w1)[fr := True],
                       frame_key := (frame_key w1)[fr := Some p]\<rparr>
           in (Some fr, arena_write (fr * page_bytes w2) [0] w2))"

definition commit_fill :: "nat \<Rightarrow> nat \<Rightarrow> nat \<Rightarrow> dram_window \<Rightarrow> dram_window" where
  "commit_fill p fr ttl w =
     (if n_frames w \<le> fr \<or> \<not> frame_filling w ! fr then w
      else let w1 = w\<lparr>frame_filling := (frame_filling w)[fr := False]\<rparr>
           in if wmap w1 p \<noteq> None then w1\<lparr>frame_key := (frame_key w1)[fr := None]\<rparr>
              else let w2 = w1\<lparr>frame_key := (frame_key w1)[fr := Some p], wmap := (wmap w1)(p \<mapsto> fr)\<rparr>
                   in met_upd (\<lambda>m. m\<lparr>ssd_misses := ssd_misses m + 1,
                                     promote_bytes := promote_bytes m + page_bytes w\<rparr>)
                        (set_soft_ttl fr ttl w2))"

definition abort_fill :: "nat \<Rightarrow> dram_window \<Rightarrow> dram_window" where
  "abort_fill fr w =
     (if n_frames w \<le> fr \<or> \<not> frame_filling w ! fr then w
      else w\<lparr>frame_filling := (frame_filling w)[fr := False],
             frame_key := (frame_key w)[fr := None]\<rparr>)"

section \<open>Promotion\<close>

definition hard_pin :: "nat \<Rightarrow> nat \<Rightarrow> dram_window \<Rightarrow> dram_window" where
  "hard_pin fr p w =
     (if pin_bytes_used w + page_bytes w \<le> pin_bytes_cap w
      then w\<lparr>frame_pinned := (frame_pinned w)[fr := True],
             pinned_pages := insert p (pinned_pages w),
             pin_bytes_used := pin_bytes_used w + page_bytes w\<rparr>
      else w)"

text \<open>What every installing operation does with the frame it was given.\<close>

definition place_page :: "nat \<Rightarrow> nat \<Rightarrow> byte list \<Rightarrow> dram_window \<Rightarrow> dram_window" where
  "place_page fr p bs w =
     (arena_write (fr * page_bytes w) bs w)\<lparr>frame_key := (frame_key w)[fr := Some p],
        frame_pinned := (frame_pinned w)[fr := False], wmap := (wmap w)(p \<mapsto> fr)\<rparr>"

definition promote_page :: "(nat \<Rightarrow> byte) \<Rightarrow> nat \<Rightarrow> bool \<Rightarrow> dram_window \<Rightarrow> nat \<times> dram_window" where
  "promote_page ssd p pin w =
     (case wmap w p of
        Some fr \<Rightarrow>
          (let w1 = met_upd (\<lambda>m. m\<lparr>dram_hits := dram_hits m + 1\<rparr>) w
           in (fr, if pin \<and> \<not> frame_pinned w1 ! fr then hard_pin fr p w1 else w1))
      | None \<Rightarrow>
          (let (fr, w1) = alloc_frame w;
               w2 = clear_soft_ttl fr (place_page fr p (image_bytes ssd p (page_bytes w1)) w1);
               w3 = (if pin then hard_pin fr p w2 else w2)
           in (fr, met_upd (\<lambda>m. m\<lparr>ssd_misses := ssd_misses m + 1,
                                  promote_bytes := promote_bytes m + page_bytes w\<rparr>) w3)))"

definition promote_all :: "(nat \<Rightarrow> byte) \<Rightarrow> bool \<Rightarrow> nat list \<Rightarrow> dram_window \<Rightarrow> dram_window" where
  "promote_all ssd pin ps w = fold (\<lambda>p v. snd (promote_page ssd p pin v)) ps w"

definition win_pin :: "(nat \<Rightarrow> byte) \<Rightarrow> nat \<Rightarrow> nat \<Rightarrow> dram_window \<Rightarrow> dram_window" where
  "win_pin ssd off len w =
     promote_all ssd True (page_span (page_bytes w) off (if len = 0 then 1 else len)) w"

definition is_resident :: "nat \<Rightarrow> nat \<Rightarrow> dram_window \<Rightarrow> bool" where
  "is_resident off len w \<longleftrightarrow>
     list_all (\<lambda>p. wmap w p \<noteq> None) (page_span (page_bytes w) off (if len = 0 then 1 else len))"

text \<open>\<open>Some pos\<close> is the pointer \<open>arena + pos\<close>, \<open>None\<close> the null pointer.\<close>

definition try_ptr_resident :: "nat \<Rightarrow> nat \<Rightarrow> dram_window \<Rightarrow> nat option" where
  "try_ptr_resident off n w =
     (if n = 0 then Some 0
      else let first = page_floor (page_bytes w) off
           in if first \<noteq> page_last (page_bytes w) off n then None
              else (case wmap w first of
                      None \<Rightarrow> None
                    | Some fr \<Rightarrow> Some (fr * page_bytes w + (off - first))))"

text \<open>\<open>map[po]\<close>: the \<open>operator[]\<close> of \<open>unordered_map\<close> inserts frame 0 for a missing key.\<close>

definition map_index :: "nat \<Rightarrow> dram_window \<Rightarrow> nat \<times> dram_window" where
  "map_index p w =
     (case wmap w p of
        Some fr \<Rightarrow> (fr, w)
      | None \<Rightarrow> (0, w\<lparr>wmap := (wmap w)(p \<mapsto> 0)\<rparr>))"

text \<open>
  The copy loop of \<open>copy_through\<close>, \<open>try_copy_resident\<close> and
  \<open>lookup_or_promote\<close>: the bytes written to the destination from position
  \<open>copied\<close> on.
\<close>

function copy_loop :: "nat \<Rightarrow> nat \<Rightarrow> nat \<Rightarrow> dram_window \<Rightarrow> byte list \<times> dram_window" where
  "copy_loop off len copied w =
     (if copied < len \<and> 0 < page_bytes w then
        (let cur = off + copied;
             po = page_floor (page_bytes w) cur;
             in_page = cur - po;
             k = min (len - copied) (page_bytes w - in_page);
             bs = mem_read (fst (map_index po w) * page_bytes w + in_page) k (arena w);
             (rest, w2) = copy_loop off len (copied + k) (snd (map_index po w))
         in (bs @ rest, w2))
      else ([], w))"
  by pat_completeness auto
termination
proof (relation "measure (\<lambda>(off, len, copied, w). len - copied)", goal_cases)
  case (2 off len copied w cur po in_page k bs)
  then have "in_page < page_bytes w" by (simp add: page_floor_diff_less)
  with 2 have "0 < k" and "copied < len" by simp_all
  then show ?case by simp
qed auto

declare copy_loop.simps [simp del]

text \<open>\<open>None\<close>: some page is missing and nothing was copied (result \<open>false\<close>).\<close>

definition try_copy_resident :: "nat \<Rightarrow> nat \<Rightarrow> dram_window \<Rightarrow> byte list option \<times> dram_window" where
  "try_copy_resident off n w =
     (if n = 0 then (Some [], w)
      else if list_all (\<lambda>p. wmap w p \<noteq> None) (page_span (page_bytes w) off n)
      then (let (bs, w1) = copy_loop off n 0 w in (Some bs, w1))
      else (None, w))"

definition copy_if_resident :: "nat \<Rightarrow> nat \<Rightarrow> dram_window \<Rightarrow> byte list option \<times> dram_window" where
  "copy_if_resident off n w = try_copy_resident off n w"

definition copy_through :: "(nat \<Rightarrow> byte) \<Rightarrow> nat \<Rightarrow> nat \<Rightarrow> dram_window \<Rightarrow> byte list \<times> dram_window" where
  "copy_through ssd off len w =
     (if len = 0 then ([], w)
      else copy_loop off len 0 (promote_all ssd False (page_span (page_bytes w) off len) w))"

text \<open>A pointer into the arena or to the start of a spill buffer.\<close>

datatype wptr = Arena_ptr nat | Spill_ptr nat

definition wptr_bytes :: "dram_window \<Rightarrow> wptr \<Rightarrow> nat \<Rightarrow> nat \<Rightarrow> byte list" where
  "wptr_bytes w ptr pos n =
     (case ptr of Arena_ptr a \<Rightarrow> mem_read (a + pos) n (arena w)
                | Spill_ptr s \<Rightarrow> mem_read pos n (spill w ! s))"

definition lookup_or_promote ::
  "(nat \<Rightarrow> byte) \<Rightarrow> nat \<Rightarrow> nat \<Rightarrow> dram_window \<Rightarrow> wptr \<times> dram_window" where
  "lookup_or_promote ssd off len0 w =
     (let len = (if len0 = 0 then 1 else len0);
          first_page = page_floor (page_bytes w) off;
          last_page = page_last (page_bytes w) off len;
          w1 = promote_all ssd False (page_span (page_bytes w) off len) w;
          (frame0, w2) = map_index first_page w1
      in if first_page = last_page
         then (Arena_ptr (frame0 * page_bytes w2 + (off - first_page)), w2)
         else let slot = spill_hand w2 mod kSpillSlots;
                  (bs, w3) = copy_loop off len 0 (w2\<lparr>spill_hand := spill_hand w2 + 1\<rparr>)
              in (Spill_ptr slot, w3\<lparr>spill := (spill w3)[slot := bs]\<rparr>))"

section \<open>Installing bytes fetched elsewhere\<close>

definition install_host_page ::
  "nat \<Rightarrow> nat \<Rightarrow> byte list \<Rightarrow> nat \<Rightarrow> dram_window \<Rightarrow> dram_window" where
  "install_host_page off len host p w =
     (let copy_lo = max p off;
          copy_hi = min (p + page_bytes w) (off + len);
          dst_off = copy_lo - p;
          part = mem_read (copy_lo - off) (copy_hi - copy_lo) host
      in case wmap w p of
           Some fr \<Rightarrow> arena_write (fr * page_bytes w + dst_off) part
                        (met_upd (\<lambda>m. m\<lparr>dram_hits := dram_hits m + 1\<rparr>) w)
         | None \<Rightarrow>
             (let (fr, w1) = alloc_frame w
              in place_page fr p (mem_write dst_off part (replicate (page_bytes w) 0)) w1))"

definition install_host :: "nat \<Rightarrow> nat \<Rightarrow> byte list option \<Rightarrow> dram_window \<Rightarrow> dram_window" where
  "install_host off len host w =
     (case host of
        None \<Rightarrow> w
      | Some bs \<Rightarrow> if len = 0 then w
                   else fold (install_host_page off len bs) (page_span (page_bytes w) off len) w)"

definition touch_soft_pin :: "nat \<Rightarrow> nat \<Rightarrow> dram_window \<Rightarrow> dram_window" where
  "touch_soft_pin p ttl w =
     (if ttl = 0 then w
      else case wmap w p of None \<Rightarrow> w | Some fr \<Rightarrow> set_soft_ttl fr ttl w)"

definition soft_pin_if_resident :: "nat \<Rightarrow> nat \<Rightarrow> dram_window \<Rightarrow> dram_window" where
  "soft_pin_if_resident p ttl w =
     (case wmap w p of None \<Rightarrow> w | Some fr \<Rightarrow> set_soft_ttl fr ttl w)"

definition install_full_page :: "nat \<Rightarrow> byte list option \<Rightarrow> nat \<Rightarrow> dram_window \<Rightarrow> dram_window" where
  "install_full_page p host ttl w =
     (case host of
        None \<Rightarrow> w
      | Some bs \<Rightarrow>
          (case wmap w p of
             Some fr \<Rightarrow> set_soft_ttl fr ttl (met_upd (\<lambda>m. m\<lparr>dram_hits := dram_hits m + 1\<rparr>) w)
           | None \<Rightarrow>
               (let (fr, w1) = alloc_frame w;
                    w2 = set_soft_ttl fr ttl (clear_soft_ttl fr (place_page fr p bs w1));
                    w3 = (if ttl \<noteq> 0 \<and> soft_pin_neighbors w2
                          then soft_pin_if_resident (p + page_bytes w2) ttl
                                 (if page_bytes w2 \<le> p
                                  then soft_pin_if_resident (p - page_bytes w2) ttl w2 else w2)
                          else w2)
                in met_upd (\<lambda>m. m\<lparr>ssd_misses := ssd_misses m + 1,
                                  promote_bytes := promote_bytes m + page_bytes w,
                                  prefetch_pages := prefetch_pages m + 1\<rparr>) w3)))"

definition install_full_pages ::
  "(nat \<times> byte list option) list \<Rightarrow> nat \<Rightarrow> dram_window \<Rightarrow> dram_window" where
  "install_full_pages ps ttl w = fold (\<lambda>(p, bs). install_full_page p bs ttl) ps w"

text \<open>
  \<open>promote_span\<close> takes the mutex twice per page and copies the page from the SSD in
  between; run alone, the second residency check repeats the first.
\<close>

definition promote_span_page :: "(nat \<Rightarrow> byte) \<Rightarrow> nat \<Rightarrow> dram_window \<Rightarrow> dram_window" where
  "promote_span_page ssd p w =
     (if wmap w p \<noteq> None then met_upd (\<lambda>m. m\<lparr>dram_hits := dram_hits m + 1\<rparr>) w
      else if 4096 < page_bytes w then snd (promote_page ssd p False w)
      else (let (fr, w1) = alloc_frame w;
                w2 = place_page fr p (image_bytes ssd p (page_bytes w)) w1
            in met_upd (\<lambda>m. m\<lparr>ssd_misses := ssd_misses m + 1,
                              promote_bytes := promote_bytes m + page_bytes w,
                              prefetch_pages := prefetch_pages m + 1\<rparr>) w2))"

definition promote_span :: "(nat \<Rightarrow> byte) \<Rightarrow> nat \<Rightarrow> nat \<Rightarrow> dram_window \<Rightarrow> dram_window" where
  "promote_span ssd off len w =
     fold (promote_span_page ssd) (page_span (page_bytes w) off (if len = 0 then 1 else len)) w"

text \<open>Result, remaining budget and window; a null budget pointer is \<open>None\<close>.\<close>

definition try_prefetch ::
  "(nat \<Rightarrow> byte) \<Rightarrow> nat \<Rightarrow> nat option \<Rightarrow> nat \<Rightarrow> dram_window \<Rightarrow> bool \<times> nat option \<times> dram_window" where
  "try_prefetch ssd off budget len0 w =
     (case budget of
        None \<Rightarrow> (False, None, w)
      | Some b \<Rightarrow>
          (let len = (if len0 = 0 then page_bytes w else len0);
               need = page_bytes w *
                 length (filter (\<lambda>p. wmap w p = None) (page_span (page_bytes w) off len))
           in if need = 0 then (True, Some b, w)
              else if b < need then (False, Some b, w)
              else let w1 = snd (lookup_or_promote ssd off len w)
                   in (True, Some (b - need),
                       met_upd (\<lambda>m. m\<lparr>prefetch_pages := prefetch_pages m + need div page_bytes w\<rparr>) w1)))"

end
