(* ===== verification/Window_Inv.thy ===== *)
theory Window_Inv
  imports Window
begin

text \<open>
  Invariants of the CXL-DRAM window and their preservation by every primitive step the
  operations of \<open>Window\<close> are made of: the map and the frame table describe the same
  partial bijection, the two pin budgets count the pinned frames exactly, and a resident
  frame holds the bytes of its SSD page.
\<close>

section \<open>The invariants\<close>

definition win_wf :: "dram_window \<Rightarrow> bool" where
  "win_wf w \<longleftrightarrow> pow2 (page_bytes w) \<and> n_frames w * page_bytes w \<le> length (arena w) \<and>
     length (frame_key w) = n_frames w \<and> length (frame_pinned w) = n_frames w \<and>
     length (frame_filling w) = n_frames w \<and> length (frame_soft_ttl w) = n_frames w \<and>
     length (spill w) = kSpillSlots"

definition map_inv :: "dram_window \<Rightarrow> bool" where
  "map_inv w \<longleftrightarrow> (\<forall>p f. wmap w p = Some f \<longleftrightarrow>
     f < n_frames w \<and> frame_key w ! f = Some p \<and> \<not> frame_filling w ! f)"

definition pin_inv :: "dram_window \<Rightarrow> bool" where
  "pin_inv w \<longleftrightarrow> pin_bytes_used w = page_bytes w * count_true (frame_pinned w) \<and>
     pin_bytes_used w \<le> pin_bytes_cap w \<and>
     (\<forall>f < n_frames w. frame_pinned w ! f \<longrightarrow> frame_key w ! f \<noteq> None \<and> \<not> frame_filling w ! f) \<and>
     pinned_pages w = {p. \<exists>f < n_frames w. frame_pinned w ! f \<and> frame_key w ! f = Some p}"

definition soft_flags :: "dram_window \<Rightarrow> bool list" where
  "soft_flags w = map (\<lambda>t. 0 < t) (frame_soft_ttl w)"

definition soft_inv :: "dram_window \<Rightarrow> bool" where
  "soft_inv w \<longleftrightarrow> soft_pin_bytes_used w = page_bytes w * count_true (soft_flags w) \<and>
     soft_pin_bytes_used w \<le> soft_pin_bytes_cap w \<and>
     (\<forall>f < n_frames w. 0 < frame_soft_ttl w ! f \<longrightarrow> frame_key w ! f \<noteq> None \<and> \<not> frame_filling w ! f)"

definition win_inv :: "dram_window \<Rightarrow> bool" where
  "win_inv w \<longleftrightarrow> win_wf w \<and> map_inv w \<and> pin_inv w \<and> soft_inv w"

definition coherent :: "(nat \<Rightarrow> byte) \<Rightarrow> dram_window \<Rightarrow> bool" where
  "coherent ssd w \<longleftrightarrow> (\<forall>p f. wmap w p = Some f \<longrightarrow>
     mem_read (f * page_bytes w) (page_bytes w) (arena w) = image_bytes ssd p (page_bytes w))"

definition has_victim :: "dram_window \<Rightarrow> bool" where
  "has_victim w \<longleftrightarrow> (\<exists>f < n_frames w. \<not> frame_pinned w ! f \<and> \<not> frame_filling w ! f)"

text \<open>The pin budget and the frames being filled together leave one frame to evict.\<close>

definition pin_room :: "dram_window \<Rightarrow> bool" where
  "pin_room w \<longleftrightarrow>
     pin_bytes_cap w + page_bytes w * count_true (frame_filling w) < n_frames w * page_bytes w"

definition good :: "(nat \<Rightarrow> byte) \<Rightarrow> dram_window \<Rightarrow> bool" where
  "good ssd w \<longleftrightarrow> win_inv w \<and> coherent ssd w"

text \<open>What no operation but \<open>flush_all\<close> and \<open>init\<close> takes back.\<close>

definition win_le :: "dram_window \<Rightarrow> dram_window \<Rightarrow> bool" where
  "win_le w v \<longleftrightarrow> page_bytes v = page_bytes w \<and> n_frames v = n_frames w \<and>
     pin_bytes_cap v = pin_bytes_cap w \<and> soft_pin_bytes_cap v = soft_pin_bytes_cap w \<and>
     capacity v = capacity w \<and> pinned_pages w \<subseteq> pinned_pages v"

lemma win_le_refl [simp, intro]: "win_le w w"
  by (simp add: win_le_def)

lemma win_le_trans [trans]: "win_le u v \<Longrightarrow> win_le v w \<Longrightarrow> win_le u w"
  by (auto simp: win_le_def)

lemma win_inv_pow2: "win_inv w \<Longrightarrow> pow2 (page_bytes w)"
  by (simp add: win_inv_def win_wf_def)

lemma soft_less_eq: "soft_less w = soft_pin_bytes_used w - page_bytes w"
  by (simp add: soft_less_def)

section \<open>Updates no invariant looks at\<close>

lemma inv_clock [simp]:
  "win_wf (w\<lparr>clock_hand := h\<rparr>) = win_wf w" "map_inv (w\<lparr>clock_hand := h\<rparr>) = map_inv w"
  "pin_inv (w\<lparr>clock_hand := h\<rparr>) = pin_inv w" "soft_inv (w\<lparr>clock_hand := h\<rparr>) = soft_inv w"
  "win_inv (w\<lparr>clock_hand := h\<rparr>) = win_inv w" "coherent ssd (w\<lparr>clock_hand := h\<rparr>) = coherent ssd w"
  "good ssd (w\<lparr>clock_hand := h\<rparr>) = good ssd w" "pin_room (w\<lparr>clock_hand := h\<rparr>) = pin_room w"
  "has_victim (w\<lparr>clock_hand := h\<rparr>) = has_victim w"
  by (simp_all add: win_wf_def map_inv_def pin_inv_def soft_inv_def soft_flags_def win_inv_def
      coherent_def good_def pin_room_def has_victim_def)

lemma inv_wmetrics [simp]:
  "win_wf (w\<lparr>wmetrics := m\<rparr>) = win_wf w" "map_inv (w\<lparr>wmetrics := m\<rparr>) = map_inv w"
  "pin_inv (w\<lparr>wmetrics := m\<rparr>) = pin_inv w" "soft_inv (w\<lparr>wmetrics := m\<rparr>) = soft_inv w"
  "win_inv (w\<lparr>wmetrics := m\<rparr>) = win_inv w" "coherent ssd (w\<lparr>wmetrics := m\<rparr>) = coherent ssd w"
  "good ssd (w\<lparr>wmetrics := m\<rparr>) = good ssd w" "pin_room (w\<lparr>wmetrics := m\<rparr>) = pin_room w"
  "has_victim (w\<lparr>wmetrics := m\<rparr>) = has_victim w"
  by (simp_all add: win_wf_def map_inv_def pin_inv_def soft_inv_def soft_flags_def win_inv_def
      coherent_def good_def pin_room_def has_victim_def)

lemma inv_soft_pin_frames [simp]:
  "win_inv (w\<lparr>soft_pin_frames := s\<rparr>) = win_inv w"
  "coherent ssd (w\<lparr>soft_pin_frames := s\<rparr>) = coherent ssd w"
  "good ssd (w\<lparr>soft_pin_frames := s\<rparr>) = good ssd w" "pin_room (w\<lparr>soft_pin_frames := s\<rparr>) = pin_room w"
  "has_victim (w\<lparr>soft_pin_frames := s\<rparr>) = has_victim w"
  by (simp_all add: win_wf_def map_inv_def pin_inv_def soft_inv_def soft_flags_def win_inv_def
      coherent_def good_def pin_room_def has_victim_def)

lemma inv_spill_hand [simp]:
  "win_inv (w\<lparr>spill_hand := s\<rparr>) = win_inv w"
  "good ssd (w\<lparr>spill_hand := s\<rparr>) = good ssd w" "pin_room (w\<lparr>spill_hand := s\<rparr>) = pin_room w"
  by (simp_all add: win_wf_def map_inv_def pin_inv_def soft_inv_def soft_flags_def win_inv_def
      coherent_def good_def pin_room_def has_victim_def)

lemma inv_spill [simp]:
  "win_inv (w\<lparr>spill := (spill w)[s := bs]\<rparr>) = win_inv w"
  "good ssd (w\<lparr>spill := (spill w)[s := bs]\<rparr>) = good ssd w"
  "pin_room (w\<lparr>spill := sp\<rparr>) = pin_room w"
  by (simp_all add: win_wf_def map_inv_def pin_inv_def soft_inv_def soft_flags_def win_inv_def
      coherent_def good_def pin_room_def has_victim_def)

lemma inv_met_upd [simp]:
  "win_inv (met_upd f w) = win_inv w" "coherent ssd (met_upd f w) = coherent ssd w"
  "good ssd (met_upd f w) = good ssd w" "pin_room (met_upd f w) = pin_room w"
  "has_victim (met_upd f w) = has_victim w" "win_le u (met_upd f w) = win_le u w"
  "win_le (met_upd f w) u = win_le w u"
  by (simp_all add: met_upd_def win_le_def)

lemma met_upd_frame [frame_simps]:
  "wmap (met_upd f w) = wmap w" "arena (met_upd f w) = arena w" "page_bytes (met_upd f w) = page_bytes w"
  "n_frames (met_upd f w) = n_frames w" "frame_key (met_upd f w) = frame_key w"
  "frame_pinned (met_upd f w) = frame_pinned w" "frame_filling (met_upd f w) = frame_filling w"
  "frame_soft_ttl (met_upd f w) = frame_soft_ttl w" "pinned_pages (met_upd f w) = pinned_pages w"
  "pin_bytes_used (met_upd f w) = pin_bytes_used w" "pin_bytes_cap (met_upd f w) = pin_bytes_cap w"
  "soft_pin_neighbors (met_upd f w) = soft_pin_neighbors w" "spill (met_upd f w) = spill w"
  "clock_hand (met_upd f w) = clock_hand w"
  by (simp_all add: met_upd_def)

section \<open>Consequences of the invariants\<close>

lemma map_inv_inj: "map_inv w \<Longrightarrow> wmap w p = Some f \<Longrightarrow> wmap w q = Some f \<Longrightarrow> p = q"
  by (auto simp: map_inv_def)

lemma pinned_resident:
  assumes "win_inv w" and "p \<in> pinned_pages w"
  shows "\<exists>f. wmap w p = Some f \<and> frame_pinned w ! f"
  using assms by (auto simp: win_inv_def pin_inv_def map_inv_def)

lemma pin_room_victim:
  assumes "win_inv w" and "pin_room w"
  shows "has_victim w"
proof (rule ccontr)
  assume "\<not> has_victim w"
  then have all: "\<And>f. f < n_frames w \<Longrightarrow> frame_pinned w ! f \<or> frame_filling w ! f"
    by (auto simp: has_victim_def)
  have len: "length (frame_pinned w) = n_frames w" "length (frame_filling w) = n_frames w"
    using assms(1) by (simp_all add: win_inv_def win_wf_def)
  have cover: "n \<le> count_true xs + count_true ys"
    if "length xs = n" "length ys = n" "\<And>f. f < n \<Longrightarrow> xs ! f \<or> ys ! f" for n and xs ys :: "bool list"
    using that
  proof (induction n arbitrary: xs ys)
    case (Suc n)
    obtain a as where a: "xs = a # as" using Suc.prems(1) by (cases xs) auto
    obtain b bs where b: "ys = b # bs" using Suc.prems(2) by (cases ys) auto
    have "as ! f \<or> bs ! f" if "f < n" for f using Suc.prems(3) [of "Suc f"] that by (simp add: a b)
    then have "n \<le> count_true as + count_true bs" using Suc.IH Suc.prems by (simp add: a b)
    moreover have "a \<or> b" using Suc.prems(3) [of 0] by (simp add: a b)
    ultimately show ?case by (auto simp: a b)
  qed simp
  have "n_frames w \<le> count_true (frame_pinned w) + count_true (frame_filling w)"
    using cover [OF len] all by blast
  then have "n_frames w * page_bytes w \<le>
      page_bytes w * count_true (frame_pinned w) + page_bytes w * count_true (frame_filling w)"
    by (metis add_mult_distrib2 mult.commute mult_le_mono1)
  moreover have "page_bytes w * count_true (frame_pinned w) \<le> pin_bytes_cap w"
    using assms(1) by (simp add: win_inv_def pin_inv_def)
  ultimately show False using assms(2) by (simp add: pin_room_def)
qed

section \<open>Soft pins\<close>

lemma count_soft_update:
  "f < length ts \<Longrightarrow>
   count_true (map (\<lambda>t. 0 < t) (ts[f := t])) + (if 0 < ts ! f then 1 else 0)
     = count_true (map (\<lambda>t. 0 < t) ts) + (if 0 < t then 1 else (0::nat))" for ts :: "nat list"
  using count_true_update [of f "map (\<lambda>t. 0 < t) ts" "0 < t"] by (simp add: map_update)

lemma clear_soft_ttl_frame [frame_simps]:
  "wmap (clear_soft_ttl f w) = wmap w" "arena (clear_soft_ttl f w) = arena w"
  "page_bytes (clear_soft_ttl f w) = page_bytes w" "n_frames (clear_soft_ttl f w) = n_frames w"
  "frame_key (clear_soft_ttl f w) = frame_key w" "frame_pinned (clear_soft_ttl f w) = frame_pinned w"
  "frame_filling (clear_soft_ttl f w) = frame_filling w" "pinned_pages (clear_soft_ttl f w) = pinned_pages w"
  "pin_bytes_used (clear_soft_ttl f w) = pin_bytes_used w" "pin_bytes_cap (clear_soft_ttl f w) = pin_bytes_cap w"
  "soft_pin_bytes_cap (clear_soft_ttl f w) = soft_pin_bytes_cap w" "capacity (clear_soft_ttl f w) = capacity w"
  "clock_hand (clear_soft_ttl f w) = clock_hand w" "wmetrics (clear_soft_ttl f w) = wmetrics w"
  "spill (clear_soft_ttl f w) = spill w" "soft_pin_neighbors (clear_soft_ttl f w) = soft_pin_neighbors w"
  by (simp_all add: clear_soft_ttl_def)

lemma set_soft_ttl_frame [frame_simps]:
  "wmap (set_soft_ttl f t w) = wmap w" "arena (set_soft_ttl f t w) = arena w"
  "page_bytes (set_soft_ttl f t w) = page_bytes w" "n_frames (set_soft_ttl f t w) = n_frames w"
  "frame_key (set_soft_ttl f t w) = frame_key w" "frame_pinned (set_soft_ttl f t w) = frame_pinned w"
  "frame_filling (set_soft_ttl f t w) = frame_filling w" "pinned_pages (set_soft_ttl f t w) = pinned_pages w"
  "pin_bytes_used (set_soft_ttl f t w) = pin_bytes_used w" "pin_bytes_cap (set_soft_ttl f t w) = pin_bytes_cap w"
  "soft_pin_bytes_cap (set_soft_ttl f t w) = soft_pin_bytes_cap w" "capacity (set_soft_ttl f t w) = capacity w"
  "clock_hand (set_soft_ttl f t w) = clock_hand w" "wmetrics (set_soft_ttl f t w) = wmetrics w"
  "spill (set_soft_ttl f t w) = spill w" "soft_pin_neighbors (set_soft_ttl f t w) = soft_pin_neighbors w"
  by (simp_all add: set_soft_ttl_def)

lemma frame_coherent:
  "wmap v = wmap w \<Longrightarrow> arena v = arena w \<Longrightarrow> page_bytes v = page_bytes w \<Longrightarrow>
   coherent ssd v = coherent ssd w"
  by (simp add: coherent_def)

lemma frame_pin_room:
  "n_frames v = n_frames w \<Longrightarrow> page_bytes v = page_bytes w \<Longrightarrow> pin_bytes_cap v = pin_bytes_cap w \<Longrightarrow>
   frame_filling v = frame_filling w \<Longrightarrow> pin_room v = pin_room w"
  by (simp add: pin_room_def)

text \<open>An update of soft-pin fields alone keeps the other three invariants.\<close>

lemma soft_only_inv:
  assumes "win_inv w" and "wmap v = wmap w" "arena v = arena w" "page_bytes v = page_bytes w"
    "n_frames v = n_frames w" "frame_key v = frame_key w" "frame_pinned v = frame_pinned w"
    "frame_filling v = frame_filling w" "pinned_pages v = pinned_pages w"
    "pin_bytes_used v = pin_bytes_used w" "pin_bytes_cap v = pin_bytes_cap w" "spill v = spill w"
    and "length (frame_soft_ttl v) = length (frame_soft_ttl w)" and "soft_inv v"
  shows "win_inv v"
  using assms by (simp add: win_inv_def win_wf_def map_inv_def pin_inv_def)

lemma clear_soft_ttl_soft_inv: "win_wf w \<Longrightarrow> soft_inv w \<Longrightarrow> soft_inv (clear_soft_ttl f w)"
proof -
  assume wf: "win_wf w" and si: "soft_inv w"
  show ?thesis
  proof (cases "n_frames w \<le> f \<or> frame_soft_ttl w ! f = 0")
    case True
    with si show ?thesis by (auto simp: clear_soft_ttl_def)
  next
    case False
    with wf have f: "f < length (frame_soft_ttl w)" "0 < frame_soft_ttl w ! f"
      by (auto simp: win_wf_def)
    then have "Suc (count_true (map (\<lambda>t. 0 < t) ((frame_soft_ttl w)[f := 0]))) = count_true (soft_flags w)"
      using count_soft_update [OF f(1), of 0] by (simp add: soft_flags_def)
    moreover have "soft_pin_bytes_used w = page_bytes w * count_true (soft_flags w)"
      "soft_pin_bytes_used w \<le> soft_pin_bytes_cap w"
      using si by (simp_all add: soft_inv_def)
    ultimately have "soft_pin_bytes_used w - page_bytes w =
        page_bytes w * count_true (map (\<lambda>t. 0 < t) ((frame_soft_ttl w)[f := 0]))"
      by (metis diff_add_inverse mult_Suc_right)
    with False si wf f show ?thesis
      by (auto simp: soft_inv_def clear_soft_ttl_def soft_less_eq soft_flags_def nth_list_update win_wf_def)
  qed
qed

lemma clear_soft_ttl_inv: "win_inv w \<Longrightarrow> win_inv (clear_soft_ttl f w)"
proof -
  assume i: "win_inv w"
  then have "soft_inv (clear_soft_ttl f w)" by (simp add: win_inv_def clear_soft_ttl_soft_inv)
  then show ?thesis
    by (rule soft_only_inv [OF i, rotated -1]) (simp_all add: frame_simps, simp add: clear_soft_ttl_def)
qed

lemma set_soft_ttl_soft_inv:
  assumes "win_wf w" and "soft_inv w"
    and "f < n_frames w \<Longrightarrow> frame_key w ! f \<noteq> None \<and> \<not> frame_filling w ! f"
  shows "soft_inv (set_soft_ttl f t w)"
proof (cases "n_frames w \<le> f \<or> t = 0 \<or> frame_pinned w ! f")
  case True
  with assms show ?thesis by (auto simp: set_soft_ttl_def)
next
  case False
  then have f: "f < length (frame_soft_ttl w)" and t: "0 < t" and nf: "f < n_frames w"
    using assms(1) by (auto simp: win_wf_def)
  have cnt: "count_true (map (\<lambda>t. 0 < t) ((frame_soft_ttl w)[f := t])) =
      (if frame_soft_ttl w ! f = 0 then Suc (count_true (soft_flags w)) else count_true (soft_flags w))"
    using count_soft_update [OF f, of t] t by (auto simp: soft_flags_def split: if_splits)
  show ?thesis
    using assms(2) assms(3) [OF nf] False cnt f t
    by (auto simp: soft_inv_def set_soft_ttl_def soft_flags_def nth_list_update)
qed

lemma set_soft_ttl_inv:
  assumes "win_inv w" and "f < n_frames w \<Longrightarrow> frame_key w ! f \<noteq> None \<and> \<not> frame_filling w ! f"
  shows "win_inv (set_soft_ttl f t w)"
proof -
  have "soft_inv (set_soft_ttl f t w)"
    using assms by (simp add: win_inv_def set_soft_ttl_soft_inv)
  then show ?thesis
    by (rule soft_only_inv [OF assms(1), rotated -1]) (simp_all add: frame_simps, simp add: set_soft_ttl_def)
qed

lemma set_soft_ttl_mapped:
  assumes "win_inv w" and "wmap w p = Some f"
  shows "win_inv (set_soft_ttl f t w)"
  using assms by (intro set_soft_ttl_inv) (auto simp: win_inv_def map_inv_def)

lemma soft_ops_le [simp]:
  "win_le w (clear_soft_ttl f w)" "win_le w (set_soft_ttl f t w)"
  by (simp_all add: win_le_def frame_simps)

lemma soft_ops_room [simp]:
  "pin_room (clear_soft_ttl f w) = pin_room w" "pin_room (set_soft_ttl f t w) = pin_room w"
  by (simp_all add: pin_room_def frame_simps)

lemma soft_ops_coherent [simp]:
  "coherent ssd (clear_soft_ttl f w) = coherent ssd w" "coherent ssd (set_soft_ttl f t w) = coherent ssd w"
  by (simp_all add: coherent_def frame_simps)

text \<open>One pass of the aging loop.\<close>

lemma tick_loop_spec:
  assumes "win_inv w" and "tick_loop frs w = (keep, v)"
  shows "win_inv v \<and> win_le w v \<and> wmap v = wmap w \<and> arena v = arena w \<and>
         frame_filling v = frame_filling w \<and> frame_pinned v = frame_pinned w \<and> frame_key v = frame_key w"
  using assms
proof (induction frs arbitrary: w keep)
  case Nil
  then show ?case by simp
next
  case (Cons f frs)
  let ?t = "frame_soft_ttl w ! f - 1"
  let ?w1 = "w\<lparr>frame_soft_ttl := (frame_soft_ttl w)[f := ?t]\<rparr>"
  let ?w2 = "?w1\<lparr>soft_pin_bytes_used := soft_less ?w1\<rparr>"
  show ?case
  proof (cases "n_frames w \<le> f \<or> frame_soft_ttl w ! f = 0")
    case True
    with Cons show ?thesis by simp
  next
    case False
    then have f: "f < n_frames w" "0 < frame_soft_ttl w ! f" by auto
    show ?thesis
    proof (cases "?t = 0")
      case True
      then have eq: "?w2 = clear_soft_ttl f w"
        using f by (simp add: clear_soft_ttl_def soft_less_def)
      have "tick_loop frs ?w2 = (keep, v)"
        using Cons.prems(2) False True by (simp add: Let_def)
      then have "win_inv v \<and> win_le ?w2 v \<and> wmap v = wmap ?w2 \<and> arena v = arena ?w2 \<and>
          frame_filling v = frame_filling ?w2 \<and> frame_pinned v = frame_pinned ?w2 \<and>
          frame_key v = frame_key ?w2"
        using Cons.IH [of ?w2 keep] Cons.prems(1) by (simp only: eq clear_soft_ttl_inv)
      then show ?thesis by (auto simp: win_le_def)
    next
      case nz: False
      then have "1 < frame_soft_ttl w ! f" by simp
      moreover have "f < length (frame_soft_ttl w)"
        using f Cons.prems(1) by (simp add: win_inv_def win_wf_def)
      ultimately have fl: "soft_flags ?w1 = soft_flags w"
        unfolding soft_flags_def by (auto intro!: nth_equalityI simp: nth_list_update split: if_splits)
      then have "soft_inv ?w1"
        using Cons.prems(1) f unfolding win_inv_def soft_inv_def win_wf_def
        by (auto simp: nth_list_update split: if_splits)
      then have inv1: "win_inv ?w1"
        by (rule soft_only_inv [OF Cons.prems(1), rotated -1]) simp_all
      obtain keep' where "tick_loop frs ?w1 = (keep', v)"
        using Cons.prems(2) False nz by (auto simp: Let_def split: prod.splits)
      from Cons.IH [OF inv1 this] show ?thesis by (auto simp: win_le_def)
    qed
  qed
qed

lemma tick_soft_pins_good: "good ssd w \<Longrightarrow> good ssd (tick_soft_pins w) \<and> win_le w (tick_soft_pins w)"
proof -
  assume g: "good ssd w"
  obtain keep v where tl: "tick_loop (soft_pin_frames w) w = (keep, v)" by (cases "tick_loop (soft_pin_frames w) w")
  have "win_inv v \<and> win_le w v \<and> wmap v = wmap w \<and> arena v = arena w"
    using tick_loop_spec [OF _ tl] g by (simp add: good_def)
  with g tl show ?thesis
    by (auto simp: tick_soft_pins_def good_def coherent_def win_le_def)
qed

section \<open>Eviction\<close>

definition release_frame :: "nat \<Rightarrow> dram_window \<Rightarrow> dram_window" where
  "release_frame i w =
     clear_soft_ttl i (case frame_key w ! i of None \<Rightarrow> w | Some k \<Rightarrow> drop_key i k w)"

text \<open>What an allocation does: it releases a frame that is neither pinned nor being filled.\<close>

definition freed :: "dram_window \<Rightarrow> nat \<Rightarrow> dram_window \<Rightarrow> bool" where
  "freed w i v \<longleftrightarrow> i < n_frames w \<and> \<not> frame_pinned w ! i \<and> \<not> frame_filling w ! i \<and>
     (\<exists>h m. v = (release_frame i w)\<lparr>clock_hand := h, wmetrics := m\<rparr>)"

lemma release_clock: "release_frame i (w\<lparr>clock_hand := h\<rparr>) = (release_frame i w)\<lparr>clock_hand := h\<rparr>"
  by (auto simp: release_frame_def clear_soft_ttl_def drop_key_def soft_less_def split: option.splits)

lemma freed_clock: "freed (w\<lparr>clock_hand := h\<rparr>) i v = freed w i v"
  by (simp add: freed_def release_clock)

lemma evict_pass1_freed:
  assumes "evict_pass1 t w = (Some i, v)" and "win_inv w" and "0 < n_frames w"
  shows "freed w i v"
  using assms
proof (induction t arbitrary: w)
  case (Suc t)
  let ?i = "clock_hand w mod n_frames w" and ?w1 = "w\<lparr>clock_hand := clock_hand w + 1\<rparr>"
  show ?case
  proof (cases "frame_pinned w ! ?i \<or> frame_filling w ! ?i \<or> 0 < frame_soft_ttl w ! ?i")
    case True
    with Suc.prems have "evict_pass1 t ?w1 = (Some i, v)" by (auto simp: Let_def split: if_splits)
    with Suc.IH [of ?w1] Suc.prems show ?thesis by (simp add: freed_clock)
  next
    case False
    have rel: "release_frame ?i w = (case frame_key w ! ?i of None \<Rightarrow> w | Some k \<Rightarrow> drop_key ?i k w)"
      using False by (simp add: release_frame_def clear_soft_ttl_def drop_key_def split: option.split)
    show ?thesis
    proof (cases "frame_key w ! ?i")
      case None
      with Suc.prems False have "i = ?i" "v = ?w1" by (simp_all add: Let_def)
      with None False Suc.prems rel show ?thesis
        unfolding freed_def
        by (intro conjI exI [of _ "clock_hand w + 1"] exI [of _ "wmetrics w"]) simp_all
    next
      case (Some k)
      with Suc.prems False have v: "i = ?i" "v = count_evict (drop_key ?i k ?w1)" by (auto simp: Let_def)
      have "v = (release_frame ?i w)\<lparr>clock_hand := clock_hand w + 1, wmetrics := wmetrics v\<rparr>"
        using Some rel by (simp add: v count_evict_def met_upd_def drop_key_def)
      with v(1) False Suc.prems show ?thesis unfolding freed_def by fastforce
    qed
  qed
qed simp

lemma evict_pass2_freed:
  assumes "evict_pass2 t w = (Some i, v)" and "win_inv w" and "0 < n_frames w"
  shows "freed w i v"
  using assms
proof (induction t arbitrary: w)
  case (Suc t)
  let ?i = "clock_hand w mod n_frames w" and ?w1 = "w\<lparr>clock_hand := clock_hand w + 1\<rparr>"
  have i: "?i < n_frames w" using Suc.prems by simp
  show ?case
  proof (cases "frame_pinned w ! ?i \<or> frame_filling w ! ?i")
    case True
    with Suc.prems have "evict_pass2 t ?w1 = (Some i, v)" by (auto simp: Let_def)
    with Suc.IH [of ?w1] Suc.prems show ?thesis by (simp add: freed_clock)
  next
    case False
    show ?thesis
    proof (cases "frame_key w ! ?i")
      case None
      then have "frame_soft_ttl w ! ?i = 0"
        using Suc.prems i by (auto simp: win_inv_def soft_inv_def)
      then have rel: "release_frame ?i w = w" using None by (simp add: release_frame_def clear_soft_ttl_def)
      from None False Suc.prems have "i = ?i" "v = ?w1" by (simp_all add: Let_def)
      with rel False i show ?thesis
        unfolding freed_def
        by (intro conjI exI [of _ "clock_hand w + 1"] exI [of _ "wmetrics w"]) simp_all
    next
      case (Some k)
      with Suc.prems False have v: "i = ?i" "v = count_evict (clear_soft_ttl ?i (drop_key ?i k ?w1))"
        by (auto simp: Let_def)
      have "v = (release_frame ?i w)\<lparr>clock_hand := clock_hand w + 1, wmetrics := wmetrics v\<rparr>"
        using Some by (simp add: v count_evict_def met_upd_def drop_key_def release_frame_def
            clear_soft_ttl_def soft_less_def)
      with v(1) False i show ?thesis unfolding freed_def by fastforce
    qed
  qed
qed simp

lemma evict_pass1_None:
  "evict_pass1 t w = (None, v) \<Longrightarrow> v = w\<lparr>clock_hand := clock_hand w + t\<rparr>"
proof (induction t arbitrary: w)
  case (Suc t)
  let ?w1 = "w\<lparr>clock_hand := clock_hand w + 1\<rparr>"
  from Suc.prems have "evict_pass1 t ?w1 = (None, v)"
    by (auto simp: Let_def split: if_splits option.splits)
  from Suc.IH [OF this] show ?case by simp
qed simp

lemma evict_pass2_None:
  "evict_pass2 t w = (None, v) \<Longrightarrow> s < t \<Longrightarrow>
   frame_pinned w ! ((clock_hand w + s) mod n_frames w) \<or>
   frame_filling w ! ((clock_hand w + s) mod n_frames w)"
proof (induction t arbitrary: w s)
  case (Suc t)
  let ?w1 = "w\<lparr>clock_hand := clock_hand w + 1\<rparr>"
  from Suc.prems(1) have now: "frame_pinned w ! (clock_hand w mod n_frames w) \<or>
      frame_filling w ! (clock_hand w mod n_frames w)" and rest: "evict_pass2 t ?w1 = (None, v)"
    by (auto simp: Let_def split: if_splits option.splits)
  show ?case
  proof (cases s)
    case 0 with now show ?thesis by simp
  next
    case (Suc s') with Suc.IH [OF rest, of s'] Suc.prems show ?thesis by simp
  qed
qed simp

text \<open>A full turn of the clock visits every frame.\<close>

lemma clock_covers:
  assumes "f < (n::nat)"
  shows "\<exists>s < n. (h + s) mod n = f"
proof -
  let ?s = "(f + (n - h mod n)) mod n"
  have "(h + ?s) mod n = (h mod n + (f + (n - h mod n))) mod n"
    by (metis mod_add_eq mod_mod_trivial)
  also have "\<dots> = (f + n) mod n"
    using assms by (metis (no_types, lifting) add.commute add.left_commute add_diff_inverse_nat
        gr_implies_not0 less_le_not_le linorder_not_le mod_less_divisor neq0_conv order_le_less)
  also have "\<dots> = f" using assms by simp
  finally show ?thesis using assms by (intro exI [of _ ?s]) auto
qed

theorem evict_frame_freed:
  assumes "win_inv w" and "has_victim w" and "evict_frame w = (i, v)"
  shows "freed w i v"
proof -
  have n: "0 < n_frames w" using assms(2) by (auto simp: has_victim_def)
  obtain r1 w1 where p1: "evict_pass1 (n_frames w) w = (r1, w1)" by (cases "evict_pass1 (n_frames w) w")
  show ?thesis
  proof (cases r1)
    case (Some j)
    with assms(3) p1 have "j = i" "w1 = v" by (simp_all add: evict_frame_def)
    with p1 Some n assms(1) show ?thesis by (intro evict_pass1_freed) auto
  next
    case None
    then have w1: "w1 = w\<lparr>clock_hand := clock_hand w + n_frames w\<rparr>"
      using p1 by (intro evict_pass1_None) simp
    obtain r2 w2 where p2: "evict_pass2 (n_frames w1) w1 = (r2, w2)"
      by (cases "evict_pass2 (n_frames w1) w1")
    show ?thesis
    proof (cases r2)
      case (Some j)
      with assms(3) p1 p2 None have "j = i" "w2 = v" by (simp_all add: evict_frame_def)
      moreover have "freed w1 j w2"
        using p2 Some n assms(1) by (intro evict_pass2_freed) (simp_all add: w1)
      ultimately show ?thesis by (simp add: w1 freed_clock)
    next
      case None
      obtain f where f: "f < n_frames w" "\<not> frame_pinned w ! f" "\<not> frame_filling w ! f"
        using assms(2) by (auto simp: has_victim_def)
      obtain s where "s < n_frames w" "(clock_hand w1 + s) mod n_frames w = f"
        using clock_covers [OF f(1)] by blast
      with evict_pass2_None [of "n_frames w1" w1 w2 s] p2 None f
      have False by (simp add: w1)
      then show ?thesis ..
    qed
  qed
qed

lemma release_frame_frame [frame_simps]:
  "arena (release_frame i w) = arena w" "page_bytes (release_frame i w) = page_bytes w"
  "n_frames (release_frame i w) = n_frames w" "frame_pinned (release_frame i w) = frame_pinned w"
  "frame_filling (release_frame i w) = frame_filling w" "pinned_pages (release_frame i w) = pinned_pages w"
  "pin_bytes_used (release_frame i w) = pin_bytes_used w" "pin_bytes_cap (release_frame i w) = pin_bytes_cap w"
  "soft_pin_bytes_cap (release_frame i w) = soft_pin_bytes_cap w" "capacity (release_frame i w) = capacity w"
  "spill (release_frame i w) = spill w" "soft_pin_neighbors (release_frame i w) = soft_pin_neighbors w"
  "frame_key (release_frame i w) = (frame_key w)[i := None]"
  by (auto simp: release_frame_def drop_key_def frame_simps split: option.split)
     (metis list_update_id)

lemma release_frame_wmap:
  "wmap (release_frame i w) p = (if frame_key w ! i = Some p then None else wmap w p)"
  by (auto simp: release_frame_def drop_key_def frame_simps split: option.split)

lemma release_frame_ttl:
  "win_wf w \<Longrightarrow> i < n_frames w \<Longrightarrow> frame_soft_ttl (release_frame i w) ! i = 0"
  by (auto simp: release_frame_def drop_key_def clear_soft_ttl_def win_wf_def split: option.split)

lemma release_frame_inv:
  assumes inv: "win_inv w" and i: "i < n_frames w" "\<not> frame_pinned w ! i" "\<not> frame_filling w ! i"
  shows "win_inv (release_frame i w)"
proof -
  let ?u = "case frame_key w ! i of None \<Rightarrow> w | Some k \<Rightarrow> drop_key i k w"
  have wf: "win_wf ?u" using inv by (auto simp: win_inv_def win_wf_def drop_key_def split: option.split)
  then have wf': "win_wf (release_frame i w)"
    by (simp add: release_frame_def win_wf_def frame_simps) (simp add: clear_soft_ttl_def)
  have len: "i < length (frame_key w)" using inv i by (simp add: win_inv_def win_wf_def)
  have uniq: "f = i" if "f < n_frames w" "\<not> frame_filling w ! f" "frame_key w ! f = Some p"
    "frame_key w ! i = Some p" for f p
    using inv i that by (metis map_inv_def option.inject win_inv_def)
  have mi: "map_inv (release_frame i w)"
    using inv i len uniq unfolding map_inv_def release_frame_wmap
    by (auto simp: win_inv_def map_inv_def frame_simps nth_list_update)
  have pi: "pin_inv (release_frame i w)"
    using inv i len unfolding pin_inv_def
    by (auto simp: win_inv_def pin_inv_def frame_simps nth_list_update)
  have si: "soft_inv (release_frame i w)"
  proof -
    let ?c = "clear_soft_ttl i w"
    have c: "soft_inv ?c" using inv by (simp add: win_inv_def clear_soft_ttl_soft_inv)
    have t0: "frame_soft_ttl (release_frame i w) ! i = 0"
      using inv i by (simp add: win_inv_def release_frame_ttl)
    have ttl: "frame_soft_ttl (release_frame i w) = frame_soft_ttl ?c"
      "soft_pin_bytes_used (release_frame i w) = soft_pin_bytes_used ?c"
      by (auto simp: release_frame_def clear_soft_ttl_def drop_key_def soft_less_def split: option.split)
    show ?thesis
      unfolding soft_inv_def
    proof (intro conjI allI impI)
      fix f assume f: "f < n_frames (release_frame i w)" "0 < frame_soft_ttl (release_frame i w) ! f"
      then have "f \<noteq> i" using t0 by auto
      with f c ttl show "frame_key (release_frame i w) ! f \<noteq> None"
        and "\<not> frame_filling (release_frame i w) ! f"
        by (auto simp: soft_inv_def frame_simps)
    qed (use c ttl in \<open>auto simp: soft_inv_def soft_flags_def frame_simps\<close>)
  qed
  from wf' mi pi si show ?thesis by (simp add: win_inv_def)
qed

section \<open>The allocator interface\<close>

lemma has_victim_le:
  "n_frames v = n_frames w \<Longrightarrow> frame_pinned v = frame_pinned w \<Longrightarrow> frame_filling v = frame_filling w \<Longrightarrow>
   has_victim v = has_victim w"
  by (simp add: has_victim_def)

text \<open>
  \<open>empty_frame f w\<close>: frame \<open>f\<close> can take a new page. All installing operations of the
  window (promotion, host install, direct fill) ask an allocator for such a frame and then
  fill it; the lemmas below only use the allocator's law.
\<close>

definition empty_frame :: "nat \<Rightarrow> dram_window \<Rightarrow> bool" where
  "empty_frame f w \<longleftrightarrow> f < n_frames w \<and> frame_key w ! f = None \<and> \<not> frame_pinned w ! f \<and>
     \<not> frame_filling w ! f \<and> frame_soft_ttl w ! f = 0"

locale frame_allocator =
  fixes alloc :: "dram_window \<Rightarrow> nat \<times> dram_window"
  assumes alloc_freed: "win_inv w \<Longrightarrow> has_victim w \<Longrightarrow> alloc w = (f, v) \<Longrightarrow> freed w f v"
begin

lemma alloc_frame_facts:
  assumes "win_inv w" "has_victim w" "alloc w = (f, v)"
  shows "win_inv v" "empty_frame f v" "win_le w v" "arena v = arena w" "page_bytes v = page_bytes w"
    "n_frames v = n_frames w" "has_victim v" "pin_room v = pin_room w" "spill v = spill w"
    "soft_pin_neighbors v = soft_pin_neighbors w" "frame_filling v = frame_filling w"
    "frame_pinned v = frame_pinned w"
proof -
  from alloc_freed [OF assms] obtain h m where f: "f < n_frames w" "\<not> frame_pinned w ! f"
    "\<not> frame_filling w ! f" and v: "v = (release_frame f w)\<lparr>clock_hand := h, wmetrics := m\<rparr>"
    by (auto simp: freed_def)
  show "win_inv v" using release_frame_inv [OF assms(1) f] by (simp add: v)
  have "win_wf w" using assms(1) by (simp add: win_inv_def)
  then show "empty_frame f v"
    using f release_frame_ttl [of w f] by (simp add: empty_frame_def v frame_simps win_wf_def)
  show "win_le w v" by (simp add: v win_le_def frame_simps)
  show "arena v = arena w" "page_bytes v = page_bytes w" "n_frames v = n_frames w"
    "spill v = spill w" "soft_pin_neighbors v = soft_pin_neighbors w" "frame_filling v = frame_filling w"
    "frame_pinned v = frame_pinned w"
    by (simp_all add: v frame_simps)
  show "has_victim v" using assms(2) by (simp add: v has_victim_def frame_simps)
  show "pin_room v = pin_room w" by (simp add: v pin_room_def frame_simps)
qed

lemma alloc_wmap:
  assumes "win_inv w" "has_victim w" "alloc w = (f, v)"
  shows "wmap v q = (if frame_key w ! f = Some q then None else wmap w q)"
  using alloc_freed [OF assms] by (auto simp: freed_def release_frame_wmap)

lemma alloc_coherent:
  assumes "win_inv w" "has_victim w" "alloc w = (f, v)" "coherent ssd w"
  shows "coherent ssd v"
  using assms alloc_frame_facts [OF assms(1-3)] alloc_wmap [OF assms(1-3)]
  by (auto simp: coherent_def split: if_splits)

end

interpretation clock: frame_allocator alloc_frame
  by unfold_locales (simp add: alloc_frame_def evict_frame_freed)

section \<open>Filling an empty frame\<close>

lemma place_page_frame [frame_simps]:
  "n_frames (place_page f p bs w) = n_frames w" "page_bytes (place_page f p bs w) = page_bytes w"
  "frame_filling (place_page f p bs w) = frame_filling w" "frame_soft_ttl (place_page f p bs w) = frame_soft_ttl w"
  "pinned_pages (place_page f p bs w) = pinned_pages w" "pin_bytes_used (place_page f p bs w) = pin_bytes_used w"
  "pin_bytes_cap (place_page f p bs w) = pin_bytes_cap w" "soft_pin_bytes_used (place_page f p bs w) = soft_pin_bytes_used w"
  "soft_pin_bytes_cap (place_page f p bs w) = soft_pin_bytes_cap w" "capacity (place_page f p bs w) = capacity w"
  "wmap (place_page f p bs w) = (wmap w)(p \<mapsto> f)" "spill (place_page f p bs w) = spill w"
  "soft_pin_neighbors (place_page f p bs w) = soft_pin_neighbors w"
  "frame_key (place_page f p bs w) = (frame_key w)[f := Some p]"
  "frame_pinned (place_page f p bs w) = (frame_pinned w)[f := False]"
  "arena (place_page f p bs w) = mem_write (f * page_bytes w) bs (arena w)"
  by (simp_all add: place_page_def arena_write_def)

lemma frame_bounds:
  assumes "win_inv w" "f < n_frames w"
  shows "f * page_bytes w + page_bytes w \<le> length (arena w)"
  using assms by (intro frame_in_arena) (auto simp: win_inv_def win_wf_def)

lemma place_page_inv:
  assumes inv: "win_inv w" and e: "empty_frame f w" and p: "wmap w p = None"
    and bs: "length bs = page_bytes w"
  shows "win_inv (place_page f p bs w)"
proof -
  have f: "f < n_frames w" "frame_key w ! f = None" "\<not> frame_pinned w ! f" "\<not> frame_filling w ! f"
    "frame_soft_ttl w ! f = 0" using e by (simp_all add: empty_frame_def)
  have len: "f < length (frame_key w)" "f < length (frame_pinned w)"
    using inv f by (simp_all add: win_inv_def win_wf_def)
  have "win_wf (place_page f p bs w)"
    using inv frame_bounds [OF inv f(1)] bs
    by (simp add: win_inv_def win_wf_def frame_simps mem_simps)
  moreover have uniq: "frame_filling w ! g" if "g < n_frames w" "frame_key w ! g = Some p" for g
    using inv p that by (metis map_inv_def option.distinct(1) win_inv_def)
  have "map_inv (place_page f p bs w)"
    unfolding map_inv_def
  proof (intro allI)
    fix q g
    show "(wmap (place_page f p bs w) q = Some g) = (g < n_frames (place_page f p bs w) \<and>
        frame_key (place_page f p bs w) ! g = Some q \<and> \<not> frame_filling (place_page f p bs w) ! g)"
      using inv f p len uniq by (cases "q = p"; cases "g = f") (auto simp: frame_simps win_inv_def map_inv_def)
  qed
  moreover have pinned: "(frame_pinned w)[f := False] = frame_pinned w"
    using f by (simp add: list_update_same_conv len)
  then have "pin_inv (place_page f p bs w)"
    using inv f len unfolding pin_inv_def win_inv_def
    by (auto simp: frame_simps nth_list_update split: if_splits)
  moreover have "soft_inv (place_page f p bs w)"
    using inv f len unfolding soft_inv_def win_inv_def soft_flags_def
    by (auto simp: frame_simps nth_list_update)
  ultimately show ?thesis by (simp add: win_inv_def)
qed

lemma place_page_coherent:
  assumes inv: "win_inv w" and e: "empty_frame f w" and c: "coherent ssd w"
    and bs: "bs = image_bytes ssd p (page_bytes w)"
  shows "coherent ssd (place_page f p bs w)"
proof -
  have f: "f < n_frames w" "frame_key w ! f = None" using e by (simp_all add: empty_frame_def)
  have bnd: "f * page_bytes w + length bs \<le> length (arena w)"
    using frame_bounds [OF inv f(1)] by (simp add: bs)
  show ?thesis
    unfolding coherent_def
  proof (intro allI impI)
    fix q g assume q: "wmap (place_page f p bs w) q = Some g"
    show "mem_read (g * page_bytes (place_page f p bs w)) (page_bytes (place_page f p bs w))
        (arena (place_page f p bs w)) = image_bytes ssd q (page_bytes (place_page f p bs w))"
    proof (cases "q = p")
      case True
      with q have "g = f" by (simp add: frame_simps)
      with True bnd show ?thesis
        using mem_read_mem_write_same [OF bnd] by (simp add: frame_simps bs)
    next
      case False
      with q have g: "wmap w q = Some g" by (simp add: frame_simps)
      then have gn: "g < n_frames w" "g \<noteq> f" using inv f by (auto simp: win_inv_def map_inv_def)
      have "mem_read (g * page_bytes w) (page_bytes w) (mem_write (f * page_bytes w) bs (arena w)) =
          mem_read (g * page_bytes w) (page_bytes w) (arena w)"
        using bnd frame_bounds [OF inv gn(1)] frames_disjoint [OF gn(2), of "page_bytes w"]
        by (intro mem_read_mem_write_disjoint) (auto simp: bs)
      with c g show ?thesis by (simp add: coherent_def frame_simps)
    qed
  qed
qed

lemma place_page_le: "win_le w (place_page f p bs w)"
  by (simp add: win_le_def frame_simps)

lemma hard_pin_frame [frame_simps]:
  "n_frames (hard_pin f p w) = n_frames w" "page_bytes (hard_pin f p w) = page_bytes w"
  "frame_filling (hard_pin f p w) = frame_filling w" "wmap (hard_pin f p w) = wmap w"
  "arena (hard_pin f p w) = arena w" "frame_key (hard_pin f p w) = frame_key w"
  "pin_bytes_cap (hard_pin f p w) = pin_bytes_cap w" "spill (hard_pin f p w) = spill w"
  "soft_pin_neighbors (hard_pin f p w) = soft_pin_neighbors w"
  by (simp_all add: hard_pin_def)

lemma hard_pin_inv:
  assumes inv: "win_inv w" and f: "wmap w p = Some f" "\<not> frame_pinned w ! f"
  shows "win_inv (hard_pin f p w)"
proof (cases "pin_bytes_used w + page_bytes w \<le> pin_bytes_cap w")
  case True
  have fn: "f < n_frames w" "frame_key w ! f = Some p" "\<not> frame_filling w ! f"
    using inv f by (auto simp: win_inv_def map_inv_def)
  have len: "f < length (frame_pinned w)" using inv fn by (simp add: win_inv_def win_wf_def)
  have cnt: "count_true ((frame_pinned w)[f := True]) = Suc (count_true (frame_pinned w))"
    using count_true_update [OF len, of True] f(2) by simp
  have "pin_inv (hard_pin f p w)"
    using inv fn f len True cnt unfolding pin_inv_def win_inv_def hard_pin_def
    by (auto simp: nth_list_update split: if_splits)
  moreover have "win_wf (hard_pin f p w)" "map_inv (hard_pin f p w)" "soft_inv (hard_pin f p w)"
    using inv by (simp_all add: hard_pin_def win_inv_def win_wf_def map_inv_def soft_inv_def soft_flags_def)
  ultimately show ?thesis by (simp add: win_inv_def)
qed (use inv in \<open>simp add: hard_pin_def\<close>)

lemma hard_pin_le: "win_le w (hard_pin f p w)"
  by (auto simp: win_le_def hard_pin_def)

lemma hard_pin_coherent [simp]: "coherent ssd (hard_pin f p w) = coherent ssd w"
  by (simp add: coherent_def frame_simps)

lemma hard_pin_room [simp]: "pin_room (hard_pin f p w) = pin_room w"
  by (simp add: pin_room_def frame_simps)

lemma place_page_room [simp]: "pin_room (place_page f p bs w) = pin_room w"
  by (simp add: pin_room_def frame_simps)

end
