(* ===== verification/Window_Ops.thy ===== *)
theory Window_Ops
  imports Window_Inv
begin

text \<open>
  Correctness of the operations of the CXL-DRAM window: every installing, copying, pinning
  and flushing operation keeps the window \<open>good\<close> (well formed and coherent with the SSD
  image), and what a reader gets is what is on the SSD. The installing operations are
  proved from the allocator's contract (\<open>clock\<close>), not from the clock itself.
\<close>

section \<open>Installing a page\<close>

definition installed :: "(nat \<Rightarrow> byte) \<Rightarrow> nat \<Rightarrow> dram_window \<Rightarrow> nat \<Rightarrow> dram_window \<Rightarrow> bool" where
  "installed ssd p w f v \<longleftrightarrow> good ssd v \<and> win_le w v \<and> pin_room v = pin_room w \<and>
     has_victim v = has_victim w \<and> wmap v p = Some f \<and> frame_soft_ttl v ! f = 0 \<and>
     \<not> frame_pinned v ! f \<and> frame_filling v = frame_filling w \<and>
     soft_pin_neighbors v = soft_pin_neighbors w \<and> spill v = spill w \<and>
     (\<forall>q. q \<noteq> p \<longrightarrow> wmap v q = (if frame_key w ! f = Some q then None else wmap w q))"

lemma place_page_installed:
  assumes g: "good ssd w" and p: "wmap w p = None" and hv: "has_victim w"
    and al: "alloc_frame w = (f, w1)" and bs: "bs = image_bytes ssd p (page_bytes w)"
  shows "installed ssd p w f (place_page f p bs w1)"
proof -
  have inv: "win_inv w" and c: "coherent ssd w" using g by (simp_all add: good_def)
  note F = clock.alloc_frame_facts [OF inv hv al]
  have p1: "wmap w1 p = None" using clock.alloc_wmap [OF inv hv al] p by simp
  have c1: "coherent ssd w1" by (rule clock.alloc_coherent [OF inv hv al c])
  have e: "f < n_frames w1" "\<not> frame_pinned w1 ! f" "\<not> frame_filling w1 ! f" "frame_soft_ttl w1 ! f = 0"
    using F(2) by (simp_all add: empty_frame_def)
  have "win_inv (place_page f p bs w1)" using F p1 bs by (intro place_page_inv) simp_all
  moreover have "coherent ssd (place_page f p bs w1)"
    using F c1 bs by (intro place_page_coherent) simp_all
  moreover have "f < length (frame_pinned w1)" using F(1) e by (simp add: win_inv_def win_wf_def)
  then have pin: "(frame_pinned w1)[f := False] = frame_pinned w1"
    using e by (simp add: list_update_same_conv)
  moreover have "win_le w (place_page f p bs w1)" using F(3) place_page_le win_le_trans by blast
  ultimately show ?thesis
    using F e clock.alloc_wmap [OF inv hv al]
    by (simp add: installed_def good_def frame_simps has_victim_def)
qed

lemma installed_win: "installed ssd p w f v \<Longrightarrow> win_inv v"
  by (simp add: installed_def good_def)

lemma installed_update:
  assumes "installed ssd p w f v" and "good ssd u" "win_le v u" "wmap u = wmap v"
    and "frame_filling u = frame_filling v" "pin_room u = pin_room v"
  shows "good ssd u \<and> win_le w u \<and> pin_room u = pin_room w \<and> wmap u p = Some f"
  using assms win_le_trans [of w v u] by (auto simp: installed_def)

lemma clear_soft_ttl_id: "frame_soft_ttl w ! f = 0 \<Longrightarrow> clear_soft_ttl f w = w"
  by (simp add: clear_soft_ttl_def)

lemma good_set_soft_ttl:
  "good ssd w \<Longrightarrow> wmap w p = Some f \<Longrightarrow> good ssd (set_soft_ttl f t w)"
  by (simp add: good_def set_soft_ttl_mapped)

lemma good_hard_pin:
  "good ssd w \<Longrightarrow> wmap w p = Some f \<Longrightarrow> \<not> frame_pinned w ! f \<Longrightarrow> good ssd (hard_pin f p w)"
  by (simp add: good_def hard_pin_inv)

section \<open>Promotion\<close>

text \<open>What an operation that may evict but keeps the invariants guarantees.\<close>

definition win_step_ok :: "(nat \<Rightarrow> byte) \<Rightarrow> dram_window \<Rightarrow> dram_window \<Rightarrow> bool" where
  "win_step_ok ssd w v \<longleftrightarrow> good ssd v \<and> win_le w v \<and> pin_room v"

lemma win_step_ok_trans:
  "win_step_ok ssd u v \<Longrightarrow> win_step_ok ssd v w \<Longrightarrow> win_step_ok ssd u w"
  by (auto simp: win_step_ok_def intro: win_le_trans)

lemma promote_page_ok:
  assumes g: "good ssd w" and room: "pin_room w" and pr: "promote_page ssd p pin w = (f, v)"
  shows "win_step_ok ssd w v \<and> wmap v p = Some f"
proof (cases "wmap w p")
  case (Some fr)
  let ?w1 = "met_upd (\<lambda>m. m\<lparr>dram_hits := dram_hits m + 1\<rparr>) w"
  have v: "f = fr" "v = (if pin \<and> \<not> frame_pinned ?w1 ! fr then hard_pin fr p ?w1 else ?w1)"
    using pr Some by (auto simp: promote_page_def Let_def)
  have "good ssd ?w1" "wmap ?w1 p = Some fr" using g Some by (simp_all add: frame_simps)
  then have "good ssd v" using v by (auto intro: good_hard_pin)
  with v room Some hard_pin_le [of ?w1 fr p] show ?thesis
    by (auto simp: win_step_ok_def frame_simps)
next
  case None
  obtain fr w1 where al: "alloc_frame w = (fr, w1)" by (cases "alloc_frame w")
  have hv: "has_victim w" using g room by (simp add: good_def pin_room_victim)
  have pb: "page_bytes w1 = page_bytes w"
    using clock.alloc_frame_facts(5) [OF _ hv al] g by (simp add: good_def)
  let ?w2 = "place_page fr p (image_bytes ssd p (page_bytes w1)) w1"
  have ins: "installed ssd p w fr ?w2"
    using place_page_installed [OF g None hv al] pb by simp
  have cl: "clear_soft_ttl fr ?w2 = ?w2" using ins by (simp add: clear_soft_ttl_id installed_def)
  let ?w3 = "if pin then hard_pin fr p ?w2 else ?w2"
  have v: "f = fr" "v = met_upd (\<lambda>m. m\<lparr>ssd_misses := ssd_misses m + 1,
      promote_bytes := promote_bytes m + page_bytes w\<rparr>) ?w3"
    using pr None al cl by (auto simp: promote_page_def Let_def)
  have "good ssd ?w3 \<and> win_le w ?w3 \<and> pin_room ?w3 \<and> wmap ?w3 p = Some fr"
    using ins room hard_pin_le [of ?w2 fr p] good_hard_pin [of ssd ?w2 p fr]
    by (auto simp: installed_def frame_simps intro: win_le_trans)
  with v show ?thesis by (simp add: win_step_ok_def frame_simps)
qed

lemma promote_all_Cons:
  "promote_all ssd pin (p # ps) w = promote_all ssd pin ps (snd (promote_page ssd p pin w))"
  by (simp add: promote_all_def)

text \<open>Every loop over pages below is a fold of steps that are fine by themselves.\<close>

lemma win_step_ok_fold:
  assumes "\<And>p v. p \<in> set ps \<Longrightarrow> win_step_ok ssd w v \<Longrightarrow> win_step_ok ssd v (step p v)"
    and "good ssd w" "pin_room w"
  shows "win_step_ok ssd w (fold step ps w)"
proof -
  have "win_step_ok ssd w (fold step ps v)" if "win_step_ok ssd w v" for v
    using that assms(1)
  proof (induction ps arbitrary: v)
    case (Cons p ps)
    have "win_step_ok ssd w (step p v)"
      using Cons.prems win_step_ok_trans by (metis list.set_intros(1))
    with Cons show ?case by simp
  qed simp
  with assms(2,3) show ?thesis by (simp add: win_step_ok_def)
qed

lemma promote_all_ok:
  "good ssd w \<Longrightarrow> pin_room w \<Longrightarrow> win_step_ok ssd w (promote_all ssd pin ps w)"
  unfolding promote_all_def
  by (rule win_step_ok_fold) (metis promote_page_ok prod.collapse win_step_ok_def)

text \<open>Promoting pages that are all resident only counts hits.\<close>

lemma promote_all_resident:
  "\<forall>p \<in> set ps. wmap w p \<noteq> None \<Longrightarrow> \<exists>m. promote_all ssd False ps w = w\<lparr>wmetrics := m\<rparr>"
proof (induction ps arbitrary: w)
  case Nil
  have "w = w\<lparr>wmetrics := wmetrics w\<rparr>" by simp
  then show ?case by (metis fold_simps(1) promote_all_def)
next
  case (Cons p ps)
  then obtain f where "wmap w p = Some f" by auto
  then have "snd (promote_page ssd p False w) = met_upd (\<lambda>m. m\<lparr>dram_hits := dram_hits m + 1\<rparr>) w"
    by (simp add: promote_page_def)
  with Cons.IH [of "snd (promote_page ssd p False w)"] Cons.prems show ?case
    by (auto simp: promote_all_Cons met_upd_def)
qed

lemma win_pin_ok: "good ssd w \<Longrightarrow> pin_room w \<Longrightarrow> win_step_ok ssd w (win_pin ssd off len w)"
  by (simp add: win_pin_def promote_all_ok)

section \<open>Reading\<close>

lemma page_last_pages:
  assumes "pow2 pb" and "0 < len" and "k < len"
  shows "page_floor pb (off + k) \<in> set (page_span pb off len)"
  using assms by (intro page_span_covers) auto

lemma sub_add_le: "(a::nat) \<le> b \<Longrightarrow> b + n - 1 < a + c \<Longrightarrow> 0 < n \<Longrightarrow> b - a + n \<le> c"
  by arith

lemma frame_bytes:
  assumes g: "good ssd w" and f: "wmap w (page_floor (page_bytes w) off) = Some f"
    and inb: "(off - page_floor (page_bytes w) off) + n \<le> page_bytes w"
  shows "mem_read (f * page_bytes w + (off - page_floor (page_bytes w) off)) n (arena w) = image_bytes ssd off n"
proof -
  let ?po = "page_floor (page_bytes w) off"
  have "pow2 (page_bytes w)" using g by (simp add: good_def win_inv_pow2)
  then have po: "?po + (off - ?po) = off" using page_floor_le [of "page_bytes w" off] by simp
  have "mem_read (f * page_bytes w + (off - ?po)) n (arena w) =
      mem_read (off - ?po) n (mem_read (f * page_bytes w) (page_bytes w) (arena w))"
    by (rule mem_read_mem_read [OF inb, symmetric])
  also have "\<dots> = image_bytes ssd off n"
    using g f mem_read_image_bytes [OF inb, of ssd ?po] po by (simp add: good_def coherent_def)
  finally show ?thesis .
qed

text \<open>On a coherent window whose frames hold the whole span, the loop copies the SSD bytes.\<close>

lemma copy_loop_image:
  assumes "good ssd w" and "\<forall>k. copied \<le> k \<and> k < len \<longrightarrow> wmap w (page_floor (page_bytes w) (off + k)) \<noteq> None"
  shows "copy_loop off len copied w = (image_bytes ssd (off + copied) (len - copied), w)"
  using assms
proof (induction "len - copied" arbitrary: copied rule: less_induct)
  case less
  have pw: "pow2 (page_bytes w)" using less.prems(1) by (simp add: good_def win_inv_pow2)
  then have pos: "0 < page_bytes w" by simp
  show ?case
  proof (cases "copied < len")
    case False
    then show ?thesis by (simp add: copy_loop.simps [of off len copied])
  next
    case True
    let ?cur = "off + copied" and ?po = "page_floor (page_bytes w) (off + copied)"
    let ?k = "min (len - copied) (page_bytes w - (?cur - ?po))"
    obtain f where f: "wmap w ?po = Some f" using less.prems(2) True by auto
    have po: "?po \<le> ?cur" "?cur - ?po < page_bytes w"
      using page_floor_le [OF pw] page_floor_in_page [OF pw] by simp_all
    have k0: "0 < ?k" using True po by simp
    have bs: "mem_read (f * page_bytes w + (?cur - ?po)) ?k (arena w) = image_bytes ssd ?cur ?k"
      using po by (intro frame_bytes [OF less.prems(1) f]) simp
    then obtain k where k: "k = ?k" "0 < k" "k \<le> len - copied" using k0 by simp
    have "copy_loop off len (copied + k) w = (image_bytes ssd (off + (copied + k)) (len - (copied + k)), w)"
      using less.prems True k(2) by (intro less.hyps) auto
    moreover have "image_bytes ssd ?cur k @ image_bytes ssd (off + (copied + k)) (len - (copied + k)) =
        image_bytes ssd ?cur (len - copied)"
    proof -
      have "k + (len - (copied + k)) = len - copied" using k(3) by simp
      then show ?thesis by (metis image_bytes_append add.assoc)
    qed
    moreover have "map_index ?po w = (f, w)" using f by (simp add: map_index_def)
    ultimately show ?thesis
      using True pos bs by (simp add: copy_loop.simps [of off len copied] Let_def flip: k(1))
  qed
qed

lemma span_resident:
  assumes "pow2 (page_bytes w)" and "0 < len"
    and "list_all (\<lambda>p. wmap w p \<noteq> None) (page_span (page_bytes w) off len)"
  shows "\<forall>k. 0 \<le> k \<and> k < len \<longrightarrow> wmap w (page_floor (page_bytes w) (off + k)) \<noteq> None"
  using assms page_last_pages [OF assms(1,2)] by (auto simp: list_all_iff)

lemma copy_loop_span:
  assumes "good ssd w" and "0 < len"
    and "list_all (\<lambda>p. wmap w p \<noteq> None) (page_span (page_bytes w) off len)"
  shows "copy_loop off len 0 w = (image_bytes ssd off len, w)"
proof -
  have "pow2 (page_bytes w)" using assms(1) by (simp add: good_def win_inv_pow2)
  from copy_loop_image [OF assms(1) span_resident [OF this assms(2,3)]] show ?thesis by simp
qed

lemma try_copy_resident_image:
  assumes "good ssd w"
  shows "try_copy_resident off n w =
    ((if n = 0 \<or> list_all (\<lambda>p. wmap w p \<noteq> None) (page_span (page_bytes w) off n)
      then Some (image_bytes ssd off n) else None), w)"
proof (cases "n = 0 \<or> \<not> list_all (\<lambda>p. wmap w p \<noteq> None) (page_span (page_bytes w) off n)")
  case True
  then show ?thesis unfolding try_copy_resident_def by (cases "n = 0") simp_all
next
  case False
  then have "copy_loop off n 0 w = (image_bytes ssd off n, w)"
    using copy_loop_span [OF assms] by blast
  with False show ?thesis by (simp add: try_copy_resident_def)
qed

lemma try_ptr_resident_image:
  assumes "good ssd w" and "0 < n" and "try_ptr_resident off n w = Some pos"
  shows "mem_read pos n (arena w) = image_bytes ssd off n"
proof -
  have pw: "pow2 (page_bytes w)" using assms(1) by (simp add: good_def win_inv_pow2)
  let ?po = "page_floor (page_bytes w) off"
  have one: "page_last (page_bytes w) off n = ?po"
    using assms(2,3) unfolding try_ptr_resident_def Let_def by (metis less_not_refl option.distinct(1))
  then have sel: "(case wmap w ?po of None \<Rightarrow> None | Some fr \<Rightarrow> Some (fr * page_bytes w + (off - ?po))) = Some pos"
    using assms(3) assms(2) [THEN less_not_refl2]
    unfolding try_ptr_resident_def Let_def by (simp only: if_False refl simp_thms)
  then obtain f where f: "wmap w ?po = Some f" by (cases "wmap w ?po") simp_all
  with sel have pos: "pos = f * page_bytes w + (off - ?po)" by (simp only: option.case option.inject)
  have "off + n - 1 < ?po + page_bytes w"
    using page_floor_less [OF pw, of "off + n - 1"] one by (simp add: page_last_def)
  then have inb: "(off - ?po) + n \<le> page_bytes w" 
    by (rule sub_add_le [OF page_floor_le [OF pw, of off] _ assms(2)])
  show ?thesis unfolding pos by (rule frame_bytes [OF assms(1) f inb])
qed

text \<open>A request inside one page always gets its bytes, resident before or not.\<close>

lemma copy_through_image:
  assumes g: "good ssd w" and room: "pin_room w" and one: "off - page_floor (page_bytes w) off + len \<le> page_bytes w"
  shows "fst (copy_through ssd off len w) = image_bytes ssd off len \<and>
         win_step_ok ssd w (snd (copy_through ssd off len w))"
proof (cases "len = 0")
  case True
  with g room show ?thesis by (simp add: copy_through_def win_step_ok_def)
next
  case False
  then have len: "0 < len" by simp
  have pw: "pow2 (page_bytes w)" using g by (simp add: good_def win_inv_pow2)
  let ?po = "page_floor (page_bytes w) off"
  note sp = page_span_single [OF pw len one]
  obtain f v where pr: "promote_page ssd ?po False w = (f, v)" by (cases "promote_page ssd ?po False w")
  have v: "win_step_ok ssd w v" "wmap v ?po = Some f" using promote_page_ok [OF g room pr] by simp_all
  then have gv: "good ssd v" and pb: "page_bytes v = page_bytes w"
    by (simp_all add: win_step_ok_def win_le_def)
  have all: "promote_all ssd False (page_span (page_bytes w) off len) w = v"
    by (simp add: sp promote_all_def pr)
  have "list_all (\<lambda>p. wmap v p \<noteq> None) (page_span (page_bytes v) off len)"
    by (simp add: pb sp v(2))
  then have "copy_loop off len 0 v = (image_bytes ssd off len, v)"
    using copy_loop_span [OF gv len] by blast
  with False v show ?thesis by (simp add: copy_through_def all)
qed

text \<open>A request whose pages are all resident gets its bytes and moves nothing.\<close>

lemma copy_through_hit:
  assumes g: "good ssd w" and res: "list_all (\<lambda>p. wmap w p \<noteq> None) (page_span (page_bytes w) off len)"
  shows "\<exists>m. copy_through ssd off len w = (image_bytes ssd off len, w\<lparr>wmetrics := m\<rparr>)"
proof (cases "len = 0")
  case True
  then show ?thesis by (intro exI [of _ "wmetrics w"]) (simp add: copy_through_def)
next
  case False
  have "\<forall>p \<in> set (page_span (page_bytes w) off len). wmap w p \<noteq> None"
    using res by (simp add: list_all_iff)
  then obtain m where m: "promote_all ssd False (page_span (page_bytes w) off len) w = w\<lparr>wmetrics := m\<rparr>"
    using promote_all_resident by blast
  let ?v = "w\<lparr>wmetrics := m\<rparr>"
  have "copy_loop off len 0 ?v = (image_bytes ssd off len, ?v)"
    using copy_loop_span [of ssd ?v len off] g res False by simp
  with False m show ?thesis by (auto simp: copy_through_def)
qed

lemma map_index_Some: "wmap w p = Some f \<Longrightarrow> map_index p w = (f, w)"
  by (simp add: map_index_def)

lemma lookup_or_promote_image:
  assumes g: "good ssd w" and room: "pin_room w"
    and one: "off - page_floor (page_bytes w) off + max len 1 \<le> page_bytes w"
    and lk: "lookup_or_promote ssd off len w = (ptr, v)"
  shows "wptr_bytes v ptr 0 len = image_bytes ssd off len \<and> win_step_ok ssd w v"
proof -
  let ?len = "if len = 0 then 1 else len"
  have m: "?len = max len 1" by simp
  have pw: "pow2 (page_bytes w)" using g by (simp add: good_def win_inv_pow2)
  let ?po = "page_floor (page_bytes w) off"
  have sp: "page_span (page_bytes w) off ?len = [?po]" "page_last (page_bytes w) off ?len = ?po"
    using page_span_single [OF pw, of ?len off] one by (simp_all add: m)
  obtain f u where pr: "promote_page ssd ?po False w = (f, u)" by (cases "promote_page ssd ?po False w")
  have u: "win_step_ok ssd w u" "wmap u ?po = Some f" using promote_page_ok [OF g room pr] by simp_all
  have gu: "good ssd u" and pb: "page_bytes u = page_bytes w"
    using u(1) by (simp_all add: win_step_ok_def win_le_def)
  have all: "promote_all ssd False (page_span (page_bytes w) off ?len) w = u"
    by (simp add: sp promote_all_def pr)
  have v: "v = u" "ptr = Arena_ptr (f * page_bytes u + (off - ?po))"
    using lk all sp(2) map_index_Some [OF u(2)] by (auto simp: lookup_or_promote_def Let_def)
  have "mem_read (f * page_bytes u + (off - page_floor (page_bytes u) off)) len (arena u) = image_bytes ssd off len"
    using one u(2) by (intro frame_bytes [OF gu]) (simp_all add: pb)
  with v u show ?thesis by (simp add: wptr_bytes_def pb)
qed

section \<open>Installing bytes fetched by the hide path\<close>

lemma soft_pin_if_resident_ok:
  "good ssd w \<Longrightarrow> pin_room w \<Longrightarrow> win_step_ok ssd w (soft_pin_if_resident p t w)"
  by (auto simp: soft_pin_if_resident_def win_step_ok_def good_set_soft_ttl split: option.split)

lemma touch_soft_pin_ok:
  "good ssd w \<Longrightarrow> pin_room w \<Longrightarrow> win_step_ok ssd w (touch_soft_pin p t w)"
  by (auto simp: touch_soft_pin_def win_step_ok_def good_set_soft_ttl split: option.split)

lemma win_step_ok_met [simp]: "win_step_ok ssd w (met_upd f v) = win_step_ok ssd w v"
  by (simp add: win_step_ok_def)

lemma win_step_ok_refl: "good ssd w \<Longrightarrow> pin_room w \<Longrightarrow> win_step_ok ssd w w"
  by (simp add: win_step_ok_def)

text \<open>The neighbours soft-pinned after an install, when the window is set up to do so.\<close>

definition pin_around :: "nat \<Rightarrow> nat \<Rightarrow> dram_window \<Rightarrow> dram_window" where
  "pin_around p ttl w =
     (if ttl \<noteq> 0 \<and> soft_pin_neighbors w
      then soft_pin_if_resident (p + page_bytes w) ttl
             (if page_bytes w \<le> p then soft_pin_if_resident (p - page_bytes w) ttl w else w)
      else w)"

lemma soft_pin_if_resident_wmap [frame_simps]:
  "wmap (soft_pin_if_resident p t w) = wmap w"
  by (auto simp: soft_pin_if_resident_def frame_simps split: option.split)

lemma pin_around_ok: "good ssd w \<Longrightarrow> pin_room w \<Longrightarrow> win_step_ok ssd w (pin_around p t w)"
  unfolding pin_around_def
  by (auto simp: win_step_ok_refl)
    (metis soft_pin_if_resident_ok win_step_ok_def win_step_ok_trans)+

lemma pin_around_wmap [frame_simps]: "wmap (pin_around p t w) = wmap w"
  by (simp add: pin_around_def frame_simps)

lemma install_full_page_ok:
  assumes g: "good ssd w" and room: "pin_room w" and bs: "bs = image_bytes ssd p (page_bytes w)"
  shows "win_step_ok ssd w (install_full_page p (Some bs) t w) \<and>
         wmap (install_full_page p (Some bs) t w) p \<noteq> None"
proof (cases "wmap w p")
  case (Some fr)
  let ?u = "met_upd (\<lambda>m. m\<lparr>dram_hits := dram_hits m + 1\<rparr>) w"
  have u: "good ssd (set_soft_ttl fr t ?u)"
    using g Some good_set_soft_ttl [of ssd ?u p fr t] by (simp add: frame_simps)
  have "win_le ?u (set_soft_ttl fr t ?u)" by (rule soft_ops_le)
  then have "win_le w (set_soft_ttl fr t ?u)" by (simp only: inv_met_upd)
  with u show ?thesis
    using Some room by (simp add: install_full_page_def win_step_ok_def frame_simps)
next
  case None
  obtain fr w1 where al: "alloc_frame w = (fr, w1)" by (cases "alloc_frame w")
  have hv: "has_victim w" using g room by (simp add: good_def pin_room_victim)
  let ?w2 = "place_page fr p bs w1"
  have ins: "installed ssd p w fr ?w2" by (rule place_page_installed [OF g None hv al bs])
  have cl: "clear_soft_ttl fr ?w2 = ?w2" using ins by (simp add: clear_soft_ttl_id installed_def)
  let ?w3 = "set_soft_ttl fr t ?w2"
  have w3: "win_step_ok ssd w ?w3" "wmap ?w3 p = Some fr"
    using ins room good_set_soft_ttl [of ssd ?w2 p fr t] soft_ops_le(2) [of ?w2 fr t]
    by (auto simp: installed_def win_step_ok_def frame_simps intro: win_le_trans)
  have eq: "install_full_page p (Some bs) t w = met_upd (\<lambda>m. m\<lparr>ssd_misses := ssd_misses m + 1,
      promote_bytes := promote_bytes m + page_bytes w, prefetch_pages := prefetch_pages m + 1\<rparr>)
      (pin_around p t ?w3)"
    using None al by (simp add: install_full_page_def cl pin_around_def Let_def)
  have "win_step_ok ssd ?w3 (pin_around p t ?w3)"
    using w3(1) by (intro pin_around_ok) (simp_all add: win_step_ok_def)
  then have "win_step_ok ssd w (pin_around p t ?w3)" using w3(1) win_step_ok_trans by blast
  then show ?thesis using w3(2) by (simp add: eq frame_simps)
qed

lemma install_full_page_None [simp]: "install_full_page p None t w = w"
  by (simp add: install_full_page_def)

text \<open>A batch of completed reads: every buffer that is there holds its page.\<close>

lemma install_full_pages_ok:
  assumes "good ssd w" "pin_room w"
    and "\<And>p bs. (p, Some bs) \<in> set ps \<Longrightarrow> bs = image_bytes ssd p (page_bytes w)"
  shows "win_step_ok ssd w (install_full_pages ps t w)"
  unfolding install_full_pages_def
proof (rule win_step_ok_fold [OF _ assms(1,2)])
  fix a v assume a: "a \<in> set ps" and v: "win_step_ok ssd w v"
  obtain p h where ph: "a = (p, h)" by (cases a)
  have g: "good ssd v" "pin_room v" "page_bytes v = page_bytes w"
    using v by (simp_all add: win_step_ok_def win_le_def)
  show "win_step_ok ssd v ((\<lambda>(p, bs). install_full_page p bs t) a v)"
  proof (cases h)
    case (Some bs)
    then show ?thesis
      using assms(3) [of p bs] a g install_full_page_ok [OF g(1,2), of bs p t] by (simp add: ph)
  qed (use g in \<open>simp add: ph win_step_ok_refl\<close>)
qed

lemma promote_span_page_ok:
  assumes g: "good ssd w" and room: "pin_room w"
  shows "win_step_ok ssd w (promote_span_page ssd p w)"
proof (cases "wmap w p = None \<and> page_bytes w \<le> 4096")
  case True
  obtain fr w1 where al: "alloc_frame w = (fr, w1)" by (cases "alloc_frame w")
  have hv: "has_victim w" using g room by (simp add: good_def pin_room_victim)
  have "installed ssd p w fr (place_page fr p (image_bytes ssd p (page_bytes w)) w1)"
    using place_page_installed [OF g _ hv al] True by simp
  with room True al show ?thesis
    by (simp add: promote_span_page_def installed_def win_step_ok_def)
next
  case False
  have "win_step_ok ssd w (snd (promote_page ssd p False w))"
    using promote_page_ok [OF g room, of p False] by (metis prod.collapse)
  with False g room show ?thesis
    by (auto simp: promote_span_page_def win_step_ok_refl)
qed

lemma promote_span_ok:
  assumes "good ssd w" "pin_room w"
  shows "win_step_ok ssd w (promote_span ssd off len w)"
proof -
  have "win_step_ok ssd w (fold (promote_span_page ssd) ps w)" for ps
    by (rule win_step_ok_fold [OF _ assms]) (metis promote_span_page_ok win_step_ok_def)
  then show ?thesis by (simp add: promote_span_def)
qed

section \<open>Frames reserved for direct fills\<close>

text \<open>
  \<open>pin_room1\<close>: after one more frame is reserved there is still a frame to evict. The
  code keeps the number of open fills below its queue depth and has no check of its own.
\<close>

definition pin_room1 :: "dram_window \<Rightarrow> bool" where
  "pin_room1 w \<longleftrightarrow> pin_bytes_cap w + page_bytes w * Suc (count_true (frame_filling w)) < n_frames w * page_bytes w"

lemma pin_room1_room: "pin_room1 w \<Longrightarrow> pin_room w"
  by (simp add: pin_room1_def pin_room_def)

text \<open>Writing the reserved frame: the touch of \<open>reserve_fill\<close>, then the device.\<close>

lemma fill_write_good:
  assumes g: "good ssd w" and f: "f < n_frames w" "frame_filling w ! f" and n: "length bs \<le> page_bytes w"
  shows "good ssd (arena_write (f * page_bytes w) bs w)"
proof -
  have inv: "win_inv w" using g by (simp add: good_def)
  have bnd: "f * page_bytes w + length bs \<le> length (arena w)" using frame_bounds [OF inv f(1)] n by simp
  have "win_inv (arena_write (f * page_bytes w) bs w)"
    using inv bnd unfolding win_inv_def win_wf_def map_inv_def pin_inv_def soft_inv_def soft_flags_def
    by (simp add: arena_write_def mem_simps)
  moreover have "coherent ssd (arena_write (f * page_bytes w) bs w)"
    unfolding coherent_def
  proof (intro allI impI)
    fix q h assume "wmap (arena_write (f * page_bytes w) bs w) q = Some h"
    then have q: "wmap w q = Some h" by (simp add: arena_write_def)
    then have h: "h < n_frames w" "h \<noteq> f" using inv f by (auto simp: win_inv_def map_inv_def)
    have "mem_read (h * page_bytes w) (page_bytes w) (mem_write (f * page_bytes w) bs (arena w)) =
        mem_read (h * page_bytes w) (page_bytes w) (arena w)"
      using bnd n frame_bounds [OF inv h(1)] frames_disjoint [OF h(2), of "page_bytes w"]
      by (intro mem_read_mem_write_disjoint) auto
    with q g show "mem_read (h * page_bytes (arena_write (f * page_bytes w) bs w))
        (page_bytes (arena_write (f * page_bytes w) bs w)) (arena (arena_write (f * page_bytes w) bs w)) =
      image_bytes ssd q (page_bytes (arena_write (f * page_bytes w) bs w))"
      by (simp add: good_def coherent_def arena_write_def)
  qed
  ultimately show ?thesis by (simp add: good_def)
qed

lemma reserve_fill_ok:
  assumes g: "good ssd w" and room: "pin_room1 w" and r: "reserve_fill p w = (Some f, v)"
  shows "win_step_ok ssd w v \<and> f < n_frames v \<and> frame_filling v ! f \<and> frame_key v ! f = Some p \<and>
    wmap v p = None"
proof -
  have inv: "win_inv w" and c: "coherent ssd w" using g by (simp_all add: good_def)
  have p: "wmap w p = None" using r by (auto simp: reserve_fill_def Let_def split: if_splits)
  obtain fr w1 where al: "alloc_frame w = (fr, w1)" by (cases "alloc_frame w")
  have hv: "has_victim w" by (rule pin_room_victim [OF inv pin_room1_room [OF room]])
  note F = clock.alloc_frame_facts [OF inv hv al]
  have e: "fr < n_frames w1" "frame_key w1 ! fr = None" "\<not> frame_pinned w1 ! fr" "\<not> frame_filling w1 ! fr"
    "frame_soft_ttl w1 ! fr = 0" using F(2) by (simp_all add: empty_frame_def)
  have len: "fr < length (frame_key w1)" "fr < length (frame_filling w1)"
    "length (frame_pinned w1) = n_frames w1" using F(1) e by (simp_all add: win_inv_def win_wf_def)
  let ?w2 = "w1\<lparr>frame_filling := (frame_filling w1)[fr := True], frame_key := (frame_key w1)[fr := Some p]\<rparr>"
  let ?v = "arena_write (fr * page_bytes w1) [0] ?w2"
  have v: "f = fr" "v = ?v" using r p al by (auto simp: reserve_fill_def Let_def)
  have p1: "wmap w1 p = None" using clock.alloc_wmap [OF inv hv al] p by simp
  have "win_wf ?w2" "map_inv ?w2" "pin_inv ?w2" "soft_inv ?w2"
    using F(1) e len unfolding win_inv_def win_wf_def map_inv_def pin_inv_def soft_inv_def soft_flags_def
    by (auto simp: nth_list_update)
  then have g2: "good ssd ?w2"
    using clock.alloc_coherent [OF inv hv al c] by (simp add: good_def win_inv_def coherent_def)
  have "0 < page_bytes w1" using win_inv_pow2 [OF F(1)] by simp
  then have "good ssd ?v"
    using fill_write_good [OF g2, of fr "[0]"] e(1) len by simp
  moreover have "win_le w ?v" using F(3) by (simp add: win_le_def arena_write_def)
  moreover have "count_true ((frame_filling w1)[fr := True]) = Suc (count_true (frame_filling w1))"
    using count_true_update [OF len(2), of True] e by simp
  then have "pin_room ?v"
    using room F(3) F(11) by (simp add: pin_room_def pin_room1_def win_le_def arena_write_def)
  ultimately show ?thesis using e len p1
    by (simp add: v win_step_ok_def) (simp add: arena_write_def)
qed

lemma reserve_fill_resident: "wmap w p \<noteq> None \<Longrightarrow> reserve_fill p w = (None, w)"
  by (auto simp: reserve_fill_def)

lemma reserve_fill_missing: "wmap w p = None \<Longrightarrow> fst (reserve_fill p w) \<noteq> None"
  by (auto simp: reserve_fill_def Let_def split: prod.split)

text \<open>Giving a reserved frame back.\<close>

lemma unfill_good:
  assumes g: "good ssd w" and f: "f < n_frames w" "frame_filling w ! f"
  shows "good ssd (w\<lparr>frame_filling := (frame_filling w)[f := False], frame_key := (frame_key w)[f := None]\<rparr>)"
  (is "good ssd ?v")
proof -
  have inv: "win_inv w" using g by (simp add: good_def)
  then have len: "f < length (frame_filling w)" "f < length (frame_key w)" "f < length (frame_pinned w)"
    using f by (simp_all add: win_inv_def win_wf_def)
  have np: "\<not> frame_pinned w ! f" "frame_soft_ttl w ! f = 0" using inv f by (auto simp: win_inv_def pin_inv_def soft_inv_def)
  have "win_wf ?v" "soft_inv ?v"
    using inv np len unfolding win_inv_def win_wf_def soft_inv_def soft_flags_def
    by (auto simp: nth_list_update)
  moreover have "map_inv ?v"
    using inv f len unfolding win_inv_def map_inv_def by (auto simp: nth_list_update)
  moreover have "pin_inv ?v"
    using inv f np len unfolding win_inv_def pin_inv_def by (auto simp: nth_list_update)
  ultimately show ?thesis using g by (simp add: good_def win_inv_def coherent_def)
qed

lemma unfill_room:
  assumes "pin_room w" "f < length (frame_filling w)"
  shows "pin_room (w\<lparr>frame_filling := (frame_filling w)[f := False]\<rparr>)"
proof -
  have "count_true ((frame_filling w)[f := False]) \<le> count_true (frame_filling w)"
    using count_true_update [OF assms(2), of False] by simp
  then have "page_bytes w * count_true ((frame_filling w)[f := False]) \<le> page_bytes w * count_true (frame_filling w)"
    by (rule mult_le_mono2)
  moreover have "pin_bytes_cap w + page_bytes w * count_true (frame_filling w) < n_frames w * page_bytes w"
    using assms(1) by (simp only: pin_room_def)
  ultimately have "pin_bytes_cap w + page_bytes w * count_true ((frame_filling w)[f := False])
      < n_frames w * page_bytes w" by linarith
  then show ?thesis by (simp add: pin_room_def)
qed

lemma abort_fill_ok:
  assumes g: "good ssd w" and room: "pin_room w"
  shows "win_step_ok ssd w (abort_fill f w)"
proof (cases "n_frames w \<le> f \<or> \<not> frame_filling w ! f")
  case True
  with g room show ?thesis by (simp add: abort_fill_def win_step_ok_refl)
next
  case False
  then have f: "f < n_frames w" "frame_filling w ! f" by auto
  have len: "f < length (frame_filling w)" using g f by (simp add: good_def win_inv_def win_wf_def)
  let ?v = "w\<lparr>frame_filling := (frame_filling w)[f := False], frame_key := (frame_key w)[f := None]\<rparr>"
  have "pin_room ?v" using unfill_room [OF room len] by (simp add: pin_room_def)
  moreover have "win_le w ?v" by (simp add: win_le_def)
  ultimately show ?thesis using unfill_good [OF g f] False by (simp add: abort_fill_def win_step_ok_def)
qed

text \<open>Publishing a filled frame, once the device has written the page of its key into it.\<close>

lemma commit_fill_ok:
  assumes g: "good ssd w" and room: "pin_room w" and p: "frame_key w ! f = Some p"
    and bytes: "mem_read (f * page_bytes w) (page_bytes w) (arena w) = image_bytes ssd p (page_bytes w)"
  shows "win_step_ok ssd w (commit_fill p f t w) \<and>
    (f < n_frames w \<longrightarrow> frame_filling w ! f \<longrightarrow> wmap (commit_fill p f t w) p \<noteq> None)"
proof (cases "n_frames w \<le> f \<or> \<not> frame_filling w ! f")
  case True
  with g room show ?thesis by (auto simp: commit_fill_def win_step_ok_refl)
next
  case False
  then have f: "f < n_frames w" "frame_filling w ! f" by auto
  have inv: "win_inv w" using g by (simp add: good_def)
  then have len: "f < length (frame_filling w)" "f < length (frame_key w)" "f < length (frame_pinned w)"
    using f by (simp_all add: win_inv_def win_wf_def)
  have np: "\<not> frame_pinned w ! f" "frame_soft_ttl w ! f = 0"
    using inv f by (auto simp: win_inv_def pin_inv_def soft_inv_def)
  have room1: "pin_room (w\<lparr>frame_filling := (frame_filling w)[f := False]\<rparr>)" by (rule unfill_room [OF room len(1)])
  show ?thesis
  proof (cases "wmap w p")
    case (Some h)
    then have c: "commit_fill p f t w =
        w\<lparr>frame_filling := (frame_filling w)[f := False], frame_key := (frame_key w)[f := None]\<rparr>"
      using f by (simp add: commit_fill_def)
    show ?thesis
      unfolding c using unfill_good [OF g f] room1 Some by (simp add: win_step_ok_def win_le_def pin_room_def)
  next
    case None
    let ?v = "w\<lparr>frame_filling := (frame_filling w)[f := False], frame_key := (frame_key w)[f := Some p],
                wmap := (wmap w)(p \<mapsto> f)\<rparr>"
    have uniq: "frame_filling w ! g" if "g < n_frames w" "frame_key w ! g = Some p" for g
      using inv None that by (metis map_inv_def option.distinct(1) win_inv_def)
    have key: "(frame_key w)[f := Some p] = frame_key w" using p len by (simp add: list_update_same_conv)
    have other: "h \<noteq> f" if "wmap w q = Some h" for q h using inv f that by (auto simp: win_inv_def map_inv_def)
    have "win_wf ?v" "soft_inv ?v" "pin_inv ?v"
      using inv np len f unfolding win_inv_def win_wf_def soft_inv_def soft_flags_def pin_inv_def key
      by (auto simp: nth_list_update)
    moreover have "map_inv ?v"
      unfolding map_inv_def
    proof (intro allI)
      fix q h
      show "(wmap ?v q = Some h) = (h < n_frames ?v \<and> frame_key ?v ! h = Some q \<and> \<not> frame_filling ?v ! h)"
        using inv f p len uniq unfolding key
        by (cases "q = p"; cases "h = f") (auto simp: win_inv_def map_inv_def key)
    qed
    moreover have "coherent ssd ?v" using g bytes by (auto simp: good_def coherent_def)
    ultimately have gv: "good ssd ?v" by (simp add: good_def win_inv_def)
    have "commit_fill p f t w = met_upd (\<lambda>m. m\<lparr>ssd_misses := ssd_misses m + 1,
        promote_bytes := promote_bytes m + page_bytes w\<rparr>) (set_soft_ttl f t ?v)"
      using None f by (simp add: commit_fill_def)
    moreover have "good ssd (set_soft_ttl f t ?v)" using gv by (intro good_set_soft_ttl [of _ _ p]) simp_all
    moreover have "pin_room ?v" using room1 by (simp add: pin_room_def)
    moreover have "win_le w ?v" by (simp add: win_le_def)
    then have "win_le w (set_soft_ttl f t ?v)" using soft_ops_le(2) win_le_trans by blast
    ultimately show ?thesis by (simp add: win_step_ok_def frame_simps)
  qed
qed

section \<open>Flushing and initialising\<close>

lemma flush_frame_release:
  assumes "f < n_frames w" and "f < length (frame_key w)"
  shows "flush_frame f w = (if frame_pinned w ! f \<or> frame_filling w ! f then w else release_frame f w)"
proof (cases "frame_key w ! f")
  case None
  then have id: "(frame_key w)[f := None] = frame_key w" by (metis list_update_id)
  have id2: "w\<lparr>frame_key := frame_key w, soft_pin_bytes_used := a, frame_soft_ttl := b\<rparr> =
      w\<lparr>frame_soft_ttl := b, soft_pin_bytes_used := a\<rparr>" "w\<lparr>frame_key := frame_key w\<rparr> = w" for a b by simp_all
  show ?thesis
    using assms by (simp add: flush_frame_def release_frame_def None clear_soft_ttl_def soft_less_def id id2)
next
  case (Some k)
  then show ?thesis
    using assms by (simp add: flush_frame_def release_frame_def drop_key_def clear_soft_ttl_def soft_less_def)
qed

lemma coherent_sub:
  "coherent ssd w \<Longrightarrow> wmap v \<subseteq>\<^sub>m wmap w \<Longrightarrow> arena v = arena w \<Longrightarrow> page_bytes v = page_bytes w \<Longrightarrow> coherent ssd v"
  by (auto simp: coherent_def map_le_def dom_def)

lemma flush_frame_ok:
  assumes "good ssd w" "pin_room w" "f < n_frames w"
  shows "win_step_ok ssd w (flush_frame f w) \<and> n_frames (flush_frame f w) = n_frames w"
proof -
  have inv: "win_inv w" using assms by (simp add: good_def)
  then have "f < length (frame_key w)" using assms by (simp add: win_inv_def win_wf_def)
  note eq = flush_frame_release [OF assms(3) this]
  show ?thesis
  proof (cases "frame_pinned w ! f \<or> frame_filling w ! f")
    case True
    then have "flush_frame f w = w" by (simp add: eq)
    with assms show ?thesis by (simp add: win_step_ok_refl)
  next
    case False
    then have "flush_frame f w = release_frame f w" by (simp add: eq)
    moreover have "win_inv (release_frame f w)" using release_frame_inv [OF inv assms(3)] False by simp
    moreover have "wmap (release_frame f w) \<subseteq>\<^sub>m wmap w"
      by (auto simp: release_frame_wmap map_le_def dom_def split: if_splits)
    then have "coherent ssd (release_frame f w)"
      using assms(1) by - (rule coherent_sub [of ssd w "release_frame f w"], simp_all add: good_def frame_simps)
    moreover have "win_le w (release_frame f w)" by (simp add: win_le_def frame_simps)
    moreover have "pin_room (release_frame f w)" using assms(2) by (simp only: pin_room_def frame_simps)
    ultimately show ?thesis by (simp add: win_step_ok_def good_def frame_simps)
  qed
qed

lemma win_flush_ok:
  assumes "good ssd w" "pin_room w"
  shows "win_step_ok ssd w (win_flush w)"
proof -
  have "win_step_ok ssd w (fold flush_frame [0..<n_frames w] w)"
  proof (rule win_step_ok_fold [OF _ assms])
    fix f v assume f: "f \<in> set [0..<n_frames w]" and v: "win_step_ok ssd w v"
    then have "f < n_frames v" by (simp add: win_step_ok_def win_le_def)
    then show "win_step_ok ssd v (flush_frame f v)"
      using v flush_frame_ok [of ssd v f] by (simp add: win_step_ok_def)
  qed
  then show ?thesis by (simp add: win_flush_def win_step_ok_def win_le_def)
qed

text \<open>Flushing keeps exactly the pinned pages.\<close>

lemma flush_fold_unpinned:
  assumes "win_inv w" "set fs \<subseteq> {..<n_frames w}"
  shows "wmap (fold flush_frame fs w) q =
    (case wmap w q of Some g \<Rightarrow> if g \<in> set fs \<and> \<not> frame_pinned w ! g then None else Some g | None \<Rightarrow> None)"
  using assms
proof (induction fs arbitrary: w)
  case Nil
  then show ?case by (auto split: option.split)
next
  case (Cons f fs)
  have f: "f < n_frames w" and len: "f < length (frame_key w)"
    using Cons.prems by (auto simp: win_inv_def win_wf_def)
  let ?v = "flush_frame f w"
  note eq = flush_frame_release [OF f len]
  have v: "win_inv ?v" "n_frames ?v = n_frames w" "frame_pinned ?v = frame_pinned w"
    using Cons.prems(1) release_frame_inv [OF Cons.prems(1) f] by (auto simp: eq frame_simps)
  have mp: "wmap ?v q = (if wmap w q = Some f \<and> \<not> frame_pinned w ! f then None else wmap w q)"
    using Cons.prems(1) f by (auto simp: eq release_frame_wmap win_inv_def map_inv_def)
  have "wmap (fold flush_frame fs ?v) q =
    (case wmap ?v q of Some g \<Rightarrow> if g \<in> set fs \<and> \<not> frame_pinned ?v ! g then None else Some g | None \<Rightarrow> None)"
    using Cons.prems v by (intro Cons.IH) auto
  then show ?case by (auto simp: v(3) mp split: option.splits)
qed

lemma win_flush_wmap:
  assumes "win_inv w"
  shows "wmap (win_flush w) q =
    (case wmap w q of Some f \<Rightarrow> if frame_pinned w ! f then Some f else None | None \<Rightarrow> None)"
proof -
  have "wmap (win_flush w) q = (case wmap w q of
      Some g \<Rightarrow> if g \<in> set [0..<n_frames w] \<and> \<not> frame_pinned w ! g then None else Some g | None \<Rightarrow> None)"
  proof -
    have "set [0..<n_frames w] \<subseteq> {..<n_frames w}" by auto
    from flush_fold_unpinned [OF assms this, of q] show ?thesis by (simp add: win_flush_def)
  qed
  moreover have "g < n_frames w" if "wmap w q = Some g" for g using assms that by (auto simp: win_inv_def map_inv_def)
  ultimately show ?thesis by (auto split: option.split)
qed

lemma win_flush_all_ok:
  assumes "good ssd w" "pin_room w"
  shows "good ssd (win_flush_all w) \<and> pin_room (win_flush_all w) \<and> wmap (win_flush_all w) = Map.empty"
  using assms
  by (auto simp: win_flush_all_def good_def win_inv_def win_wf_def map_inv_def pin_inv_def soft_inv_def
      soft_flags_def coherent_def pin_room_def)

lemma win_init_good:
  assumes "pow2 pb"
  shows "good ssd (win_init dram m pb w0)"
  using assms
  by (auto simp: win_init_def Let_def good_def win_inv_def win_wf_def map_inv_def pin_inv_def soft_inv_def
      soft_flags_def coherent_def)

end
