(* ===== verification/Window_Steps.thy ===== *)
theory Window_Steps
  imports Window_Ops
begin

text \<open>
  The life of a CXL-DRAM window as a step relation: any sequence of the operations of
  \<open>DramWindow\<close> that the searchers, the prefetch thread and the hide path perform, each
  atomic under the mutex of the window, starting from \<open>init\<close>. Two steps belong to the
  environment: the DMA engine writes a reserved frame, and completed reads arrive with
  the bytes of their page.
\<close>

section \<open>Reads that span several pages\<close>

text \<open>
  Promoting the last pages of a span may evict its first ones; \<open>span_kept\<close> says that it
  did not. It holds for a span inside one page and for a span that is all resident.
\<close>

definition span_kept :: "(nat \<Rightarrow> byte) \<Rightarrow> nat \<Rightarrow> nat \<Rightarrow> dram_window \<Rightarrow> bool" where
  "span_kept ssd off len w \<longleftrightarrow>
     list_all (\<lambda>p. wmap (promote_all ssd False (page_span (page_bytes w) off len) w) p \<noteq> None)
       (page_span (page_bytes w) off len)"

lemma span_kept_single:
  assumes "good ssd w" "pin_room w" "0 < len" "off - page_floor (page_bytes w) off + len \<le> page_bytes w"
  shows "span_kept ssd off len w"
proof -
  have "pow2 (page_bytes w)" using assms(1) by (simp add: good_def win_inv_pow2)
  note sp = page_span_single [OF this assms(3,4)]
  obtain f v where pr: "promote_page ssd (page_floor (page_bytes w) off) False w = (f, v)"
    by (cases "promote_page ssd (page_floor (page_bytes w) off) False w")
  from promote_page_ok [OF assms(1,2) pr] show ?thesis
    by (simp add: span_kept_def sp promote_all_def pr)
qed

lemma span_kept_resident:
  assumes "list_all (\<lambda>p. wmap w p \<noteq> None) (page_span (page_bytes w) off len)"
  shows "span_kept ssd off len w"
proof -
  have "\<forall>p \<in> set (page_span (page_bytes w) off len). wmap w p \<noteq> None"
    using assms by (simp add: list_all_iff)
  from promote_all_resident [OF this] obtain m
    where "promote_all ssd False (page_span (page_bytes w) off len) w = w\<lparr>wmetrics := m\<rparr>" by blast
  with assms show ?thesis by (simp add: span_kept_def)
qed

lemma copy_through_kept:
  assumes g: "good ssd w" and room: "pin_room w" and k: "span_kept ssd off len w"
  shows "fst (copy_through ssd off len w) = image_bytes ssd off len \<and>
         win_step_ok ssd w (snd (copy_through ssd off len w))"
proof (cases "len = 0")
  case True
  with g room show ?thesis by (simp add: copy_through_def win_step_ok_refl)
next
  case False
  then have len: "0 < len" by simp
  let ?v = "promote_all ssd False (page_span (page_bytes w) off len) w"
  have v: "win_step_ok ssd w ?v" by (rule promote_all_ok [OF g room])
  then have gv: "good ssd ?v" and pb: "page_bytes ?v = page_bytes w"
    by (simp_all add: win_step_ok_def win_le_def)
  have "list_all (\<lambda>p. wmap ?v p \<noteq> None) (page_span (page_bytes ?v) off len)"
    using k by (simp add: span_kept_def pb)
  from copy_loop_span [OF gv len this] have "copy_loop off len 0 ?v = (image_bytes ssd off len, ?v)" .
  with len v show ?thesis by (simp add: copy_through_def)
qed

lemma lookup_kept:
  assumes g: "good ssd w" and room: "pin_room w" and k: "span_kept ssd off (max len 1) w"
  shows "win_step_ok ssd w (snd (lookup_or_promote ssd off len w))"
proof -
  let ?len = "if len = 0 then 1 else len"
  have m: "max len 1 = ?len" by simp
  let ?v = "promote_all ssd False (page_span (page_bytes w) off ?len) w"
  have pw: "pow2 (page_bytes w)" using g by (simp add: good_def win_inv_pow2)
  have v: "win_step_ok ssd w ?v" by (rule promote_all_ok [OF g room])
  then have gv: "good ssd ?v" "pin_room ?v" and pb: "page_bytes ?v = page_bytes w"
    by (simp_all add: win_step_ok_def win_le_def)
  have all: "list_all (\<lambda>p. wmap ?v p \<noteq> None) (page_span (page_bytes ?v) off ?len)"
    using k unfolding m by (simp add: span_kept_def pb)
  have "page_floor (page_bytes w) off \<in> set (page_span (page_bytes w) off ?len)"
    by (rule page_span_covers [OF pw]) simp_all
  then obtain f where f: "wmap ?v (page_floor (page_bytes w) off) = Some f"
    using all by (auto simp: list_all_iff pb)
  have cl: "copy_loop off ?len 0 (?v\<lparr>spill_hand := h\<rparr>) = (image_bytes ssd off ?len, ?v\<lparr>spill_hand := h\<rparr>)" for h
    using gv all by (intro copy_loop_span) simp_all
  have "win_step_ok ssd ?v (?v\<lparr>spill_hand := h, spill := (spill ?v)[s := bs]\<rparr>)" for h s bs
  proof -
    have "good ssd ((?v\<lparr>spill_hand := h\<rparr>)\<lparr>spill := (spill (?v\<lparr>spill_hand := h\<rparr>))[s := bs]\<rparr>)"
      using gv by (simp only: inv_spill inv_spill_hand)
    with gv show ?thesis by (simp add: win_step_ok_def win_le_def)
  qed
  then have spilled: "win_step_ok ssd w (?v\<lparr>spill_hand := h, spill := (spill ?v)[s := bs]\<rparr>)" for h s bs
    using v win_step_ok_trans by blast
  show ?thesis
    using v spilled map_index_Some [OF f] cl
    by (simp only: lookup_or_promote_def Let_def split: prod.split if_split) auto
qed

lemma try_prefetch_kept:
  assumes "good ssd w" "pin_room w" "span_kept ssd off (if len = 0 then page_bytes w else max len 1) w"
  shows "win_step_ok ssd w (snd (snd (try_prefetch ssd off b len w)))"
proof -
  have pos: "0 < page_bytes w" using assms(1) by (simp add: good_def win_inv_pow2)
  let ?len = "if len = 0 then page_bytes w else len"
  have "win_step_ok ssd w (snd (lookup_or_promote ssd off ?len w))"
  proof (rule lookup_kept [OF assms(1,2)])
    have "max ?len 1 = (if len = 0 then page_bytes w else max len 1)" using pos by simp
    with assms(3) show "span_kept ssd off (max ?len 1) w" by simp
  qed
  then show ?thesis
    using assms(1,2) by (auto simp: try_prefetch_def Let_def win_step_ok_refl split: option.split)
qed

section \<open>Host bytes of whole pages\<close>

lemma dvd_step: "pb dvd (a :: nat) \<Longrightarrow> pb dvd b \<Longrightarrow> a < b \<Longrightarrow> a + pb \<le> b"
  by (metis dvd_imp_le dvd_diff_nat le_add_diff_inverse less_imp_le nat_add_left_cancel_le zero_less_diff)

lemma mem_write_self: "pos + n \<le> length m \<Longrightarrow> mem_write pos (mem_read pos n m) m = m"
  by (rule nth_equalityI) (auto simp: mem_simps nth_mem_write nth_mem_read length_mem_read)

text \<open>\<open>install_host\<close> clears the rest of a missing page that it covers in part; on whole pages it is safe.\<close>

lemma install_host_page_ok:
  assumes g: "good ssd w" and room: "pin_room w" and bs: "off \<le> p" "p + page_bytes w \<le> off + len"
  shows "win_step_ok ssd w (install_host_page off len (image_bytes ssd off len) p w)"
proof -
  let ?pb = "page_bytes w"
  have "p - off + ?pb \<le> len" using bs by simp
  then have part: "mem_read (p - off) ?pb (image_bytes ssd off len) = image_bytes ssd p ?pb"
    using mem_read_image_bytes [of "p - off" ?pb len ssd off] bs(1) by simp
  have eq: "max p off = p" "min (p + ?pb) (off + len) = p + ?pb" using bs by simp_all
  show ?thesis
  proof (cases "wmap w p")
    case (Some fr)
    have "mem_read (fr * ?pb) ?pb (arena w) = image_bytes ssd p ?pb" "fr * ?pb + ?pb \<le> length (arena w)"
      using g Some frame_bounds [of w fr] by (auto simp: good_def coherent_def win_inv_def map_inv_def)
    then have "arena_write (fr * ?pb) (image_bytes ssd p ?pb) (met_upd f w) = met_upd f w" for f
      using mem_write_self [of "fr * ?pb" ?pb "arena w"] by (simp add: arena_write_def met_upd_def split: option.split)
    then show ?thesis using Some part eq g room
      by (simp add: install_host_page_def Let_def win_step_ok_def frame_simps)
  next
    case None
    obtain fr w1 where al: "alloc_frame w = (fr, w1)" by (cases "alloc_frame w")
    have hv: "has_victim w" using g room by (simp add: good_def pin_room_victim)
    have "mem_write 0 (image_bytes ssd p ?pb) (replicate ?pb 0) = image_bytes ssd p ?pb" by (simp add: mem_write_def)
    moreover have "installed ssd p w fr (place_page fr p (image_bytes ssd p ?pb) w1)"
      by (rule place_page_installed [OF g None hv al refl])
    ultimately show ?thesis using None al part eq room
      by (simp add: install_host_page_def Let_def installed_def win_step_ok_def)
  qed
qed

lemma install_host_ok:
  assumes g: "good ssd w" and room: "pin_room w" and al: "page_bytes w dvd off" "page_bytes w dvd len"
  shows "win_step_ok ssd w (install_host off len (Some (image_bytes ssd off len)) w)"
proof (cases "len = 0")
  case False
  let ?pb = "page_bytes w"
  have pw: "pow2 ?pb" using g by (simp add: good_def win_inv_pow2)
  have "win_step_ok ssd w (fold (install_host_page off len (image_bytes ssd off len)) (page_span ?pb off len) w)"
  proof (rule win_step_ok_fold [OF _ g room])
    fix p v assume p: "p \<in> set (page_span ?pb off len)" and v: "win_step_ok ssd w v"
    have pb: "page_bytes v = ?pb" using v by (simp add: win_step_ok_def win_le_def)
    have "?pb dvd p" "off < p + ?pb" "p < off + len"
      using p False pw page_span_only [OF pw _ p] page_floor_le [OF pw] le_less_trans by (auto simp: set_page_span)
    moreover from this have "off \<le> p" using dvd_step [of ?pb p off] al(1) by (meson dvd_add_triv_right_iff leI leD)
    ultimately have "off \<le> p" "p + ?pb \<le> off + len" using dvd_step [of ?pb p "off + len"] al by simp_all
    then show "win_step_ok ssd v (install_host_page off len (image_bytes ssd off len) p v)"
      using v by (intro install_host_page_ok) (simp_all add: win_step_ok_def pb)
  qed
  then show ?thesis using False by (simp add: install_host_def)
qed (use g room in \<open>simp add: install_host_def win_step_ok_refl\<close>)

section \<open>Steps\<close>

text \<open>What the steps leave out, because it breaks the window: a multi-page load whose later pages evict
  its first ones (\<open>span_kept\<close> fails), \<open>install_host\<close> of a part of a page, a reservation that takes
  the last frame that could be evicted (\<open>pin_room1\<close> fails), and a commit before the bytes have
  arrived.\<close>

inductive win_step :: "(nat \<Rightarrow> byte) \<Rightarrow> dram_window \<Rightarrow> dram_window \<Rightarrow> bool" for ssd where
  step_tick: "win_step ssd w (tick_soft_pins w)"
| step_tick_pressure: "win_step ssd w (tick_soft_pins_if_pressure w)"
| step_flush: "win_step ssd w (win_flush w)"
| step_flush_all: "win_step ssd w (win_flush_all w)"
| step_pin: "win_step ssd w (win_pin ssd off len w)"
| step_copy: "span_kept ssd off len w \<Longrightarrow> win_step ssd w (snd (copy_through ssd off len w))"
| step_lookup: "span_kept ssd off (max len 1) w \<Longrightarrow> win_step ssd w (snd (lookup_or_promote ssd off len w))"
| step_try_copy: "win_step ssd w (snd (try_copy_resident off len w))"
| step_prefetch: "span_kept ssd off (if len = 0 then page_bytes w else max len 1) w \<Longrightarrow>
    win_step ssd w (snd (snd (try_prefetch ssd off b len w)))"
| step_promote_span: "win_step ssd w (promote_span ssd off len w)"
| step_install: "(\<And>p bs. (p, Some bs) \<in> set ps \<Longrightarrow> bs = image_bytes ssd p (page_bytes w)) \<Longrightarrow>
    win_step ssd w (install_full_pages ps ttl w)"
| step_install_host: "page_bytes w dvd off \<Longrightarrow> page_bytes w dvd len \<Longrightarrow>
    win_step ssd w (install_host off len (Some (image_bytes ssd off len)) w)"
| step_soft_pin: "win_step ssd w (soft_pin_if_resident p ttl w)"
| step_touch: "win_step ssd w (touch_soft_pin p ttl w)"
| step_reserve: "pin_room1 w \<Longrightarrow> win_step ssd w (snd (reserve_fill p w))"
| step_dma: "f < n_frames w \<Longrightarrow> frame_filling w ! f \<Longrightarrow> length bs \<le> page_bytes w \<Longrightarrow>
    win_step ssd w (arena_write (f * page_bytes w) bs w)"
| step_commit: "frame_key w ! f = Some p \<Longrightarrow>
    mem_read (f * page_bytes w) (page_bytes w) (arena w) = image_bytes ssd p (page_bytes w) \<Longrightarrow>
    win_step ssd w (commit_fill p f ttl w)"
| step_abort: "win_step ssd w (abort_fill f w)"

inductive win_reach :: "(nat \<Rightarrow> byte) \<Rightarrow> dram_window \<Rightarrow> dram_window \<Rightarrow> bool" for ssd w0 where
  reach_init: "win_reach ssd w0 w0"
| reach_step: "win_reach ssd w0 w \<Longrightarrow> win_step ssd w v \<Longrightarrow> win_reach ssd w0 v"

lemma tick_room: "good ssd w \<Longrightarrow> pin_room (tick_soft_pins w) = pin_room w"
proof -
  assume g: "good ssd w"
  obtain keep v where tl: "tick_loop (soft_pin_frames w) w = (keep, v)" by (cases "tick_loop (soft_pin_frames w) w")
  have "win_le w v \<and> frame_filling v = frame_filling w"
    using tick_loop_spec [OF _ tl] g by (simp add: good_def)
  then show ?thesis using tl by (simp add: tick_soft_pins_def pin_room_def win_le_def)
qed

lemma tick_ok: "good ssd w \<Longrightarrow> pin_room w \<Longrightarrow> win_step_ok ssd w (tick_soft_pins w)"
  using tick_soft_pins_good tick_room by (simp add: win_step_ok_def)

lemma win_step_good:
  assumes "win_step ssd w v" "good ssd w" "pin_room w"
  shows "good ssd v \<and> pin_room v \<and> (win_le w v \<or> v = win_flush_all w)"
  using assms(1)
proof cases
  case step_flush_all
  with win_flush_all_ok [OF assms(2,3)] show ?thesis by simp
next
  case (step_reserve p)
  show ?thesis
  proof (cases "wmap w p")
    case None
    then obtain f where f: "fst (reserve_fill p w) = Some f" using reserve_fill_missing by blast
    have "win_step_ok ssd w v"
      using reserve_fill_ok [OF assms(2) step_reserve(2), of p f v] f step_reserve(1)
      by (metis prod.collapse)
    then show ?thesis by (simp add: win_step_ok_def)
  next
    case Some
    with assms step_reserve(1) show ?thesis by (simp add: reserve_fill_resident)
  qed
next
  case (step_dma f bs)
  have "win_le w v" "pin_room v" using assms(3) step_dma(1)
    by (simp_all add: win_le_def arena_write_def pin_room_def)
  then show ?thesis using fill_write_good [OF assms(2) step_dma(2-4)] step_dma(1) by simp
next
  case (step_commit f p ttl)
  then show ?thesis using commit_fill_ok [OF assms(2,3) step_commit(2,3)] by (simp add: win_step_ok_def)
next
  case (step_try_copy off len)
  then show ?thesis using assms by (simp add: try_copy_resident_image)
next
  case (step_install ps ttl)
  then show ?thesis using install_full_pages_ok [OF assms(2,3)] by (simp add: win_step_ok_def)
next
  case (step_install_host off len)
  then show ?thesis using install_host_ok [OF assms(2,3)] by (simp add: win_step_ok_def)
next
  case step_tick
  then show ?thesis using tick_ok [OF assms(2,3)] by (simp add: win_step_ok_def)
next
  case step_tick_pressure
  then show ?thesis
    using tick_ok [OF assms(2,3)] assms(2,3) by (simp add: win_step_ok_def tick_soft_pins_if_pressure_def)
next
  case step_flush
  then show ?thesis using win_flush_ok [OF assms(2,3)] by (simp add: win_step_ok_def)
next
  case (step_pin off len)
  then show ?thesis using win_pin_ok [OF assms(2,3)] by (simp add: win_step_ok_def)
next
  case (step_copy off len)
  then show ?thesis using copy_through_kept [OF assms(2,3)] by (simp add: win_step_ok_def)
next
  case (step_lookup off len)
  then show ?thesis using lookup_kept [OF assms(2,3) step_lookup(2)] by (simp add: win_step_ok_def)
next
  case (step_prefetch off len b)
  then show ?thesis using try_prefetch_kept [OF assms(2,3) step_prefetch(2), of b] by (simp add: win_step_ok_def)
next
  case (step_promote_span off len)
  then show ?thesis using promote_span_ok [OF assms(2,3)] by (simp add: win_step_ok_def)
next
  case (step_soft_pin p ttl)
  then show ?thesis using soft_pin_if_resident_ok [OF assms(2,3)] by (simp add: win_step_ok_def)
next
  case (step_touch p ttl)
  then show ?thesis using touch_soft_pin_ok [OF assms(2,3)] by (simp add: win_step_ok_def)
next
  case (step_abort f)
  then show ?thesis using abort_fill_ok [OF assms(2,3)] by (simp add: win_step_ok_def)
qed

lemma win_reach_good:
  assumes "win_reach ssd w0 w" "good ssd w0" "pin_room w0"
  shows "good ssd w \<and> pin_room w"
  using assms by (induction rule: win_reach.induct) (auto dest: win_step_good)

section \<open>The order of the clock\<close>

definition clean_frame :: "dram_window \<Rightarrow> nat \<Rightarrow> bool" where
  "clean_frame w f \<longleftrightarrow> \<not> frame_pinned w ! f \<and> \<not> frame_filling w ! f \<and> frame_soft_ttl w ! f = 0"

lemma evict_pass1_first:
  assumes "s < t" and "clean_frame w ((clock_hand w + s) mod n_frames w)"
    and "\<forall>j < s. \<not> clean_frame w ((clock_hand w + j) mod n_frames w)"
  shows "fst (evict_pass1 t w) = Some ((clock_hand w + s) mod n_frames w)"
  using assms
proof (induction s arbitrary: t w)
  case 0
  then obtain t' where "t = Suc t'" by (cases t) auto
  with 0 show ?case by (auto simp: clean_frame_def Let_def split: option.split)
next
  case (Suc s)
  then obtain t' where t: "t = Suc t'" by (cases t) auto
  let ?w = "w\<lparr>clock_hand := clock_hand w + 1\<rparr>"
  have cl: "clean_frame (w\<lparr>clock_hand := h\<rparr>) = clean_frame w" for h by (simp add: clean_frame_def fun_eq_iff)
  have "\<not> clean_frame w ((clock_hand w + 0) mod n_frames w)" using Suc.prems(3) by blast
  then have "evict_pass1 t w = evict_pass1 t' ?w" by (auto simp: t clean_frame_def Let_def)
  moreover have "fst (evict_pass1 t' ?w) = Some ((clock_hand ?w + s) mod n_frames ?w)"
  proof (rule Suc.IH)
    show "\<forall>j < s. \<not> clean_frame ?w ((clock_hand ?w + j) mod n_frames ?w)"
    proof (intro allI impI)
      fix j assume "j < s"
      then have "\<not> clean_frame w ((clock_hand w + Suc j) mod n_frames w)" using Suc.prems(3) by blast
      then show "\<not> clean_frame ?w ((clock_hand ?w + j) mod n_frames ?w)" by (simp add: cl)
    qed
  qed (use Suc.prems t cl in simp_all)
  ultimately show ?case by simp
qed

lemma evict_frame_first:
  assumes "s < n_frames w" and "clean_frame w ((clock_hand w + s) mod n_frames w)"
    and "\<forall>j < s. \<not> clean_frame w ((clock_hand w + j) mod n_frames w)"
  shows "fst (alloc_frame w) = (clock_hand w + s) mod n_frames w"
  using evict_pass1_first [OF assms]
  by (auto simp: alloc_frame_def evict_frame_def split: prod.splits)

text \<open>The aging loop without duplicates: every listed frame loses one tick.\<close>

lemma tick_loop_once:
  assumes "distinct frs" "tick_loop frs w = (keep, v)" "set frs \<subseteq> {..<n_frames w}"
    "length (frame_soft_ttl w) = n_frames w" "f < n_frames w"
  shows "frame_soft_ttl v ! f = (if f \<in> set frs then frame_soft_ttl w ! f - 1 else frame_soft_ttl w ! f)
    \<and> n_frames v = n_frames w"
  using assms
proof (induction frs arbitrary: w keep)
  case (Cons g frs)
  let ?t = "frame_soft_ttl w ! g - 1"
  let ?w1 = "w\<lparr>frame_soft_ttl := (frame_soft_ttl w)[g := ?t]\<rparr>"
  let ?w2 = "?w1\<lparr>soft_pin_bytes_used := soft_less ?w1\<rparr>"
  consider "frame_soft_ttl w ! g = 0" | "frame_soft_ttl w ! g \<noteq> 0" "?t = 0" | "frame_soft_ttl w ! g \<noteq> 0" "?t \<noteq> 0" by blast
  then show ?case
  proof cases
    case 1
    then have "tick_loop frs w = (keep, v)" using Cons.prems(2) by simp
    from Cons.IH [OF _ this] Cons.prems 1 show ?thesis by auto
  next
    case 2
    then have "tick_loop frs ?w2 = (keep, v)" using Cons.prems by (auto simp: Let_def)
    from Cons.IH [OF _ this] Cons.prems 2 show ?thesis by (auto simp: nth_list_update)
  next
    case 3
    then obtain keep' where "tick_loop frs ?w1 = (keep', v)" using Cons.prems(2,3)
      by (auto simp: Let_def split: prod.splits)
    from Cons.IH [OF _ this] Cons.prems 3 show ?thesis by (auto simp: nth_list_update)
  qed
qed auto

end
