(* ===== verification/Window_Props.thy ===== *)
theory Window_Props
  imports Window_Steps
begin

text \<open>
  The properties of the CXL-DRAM window, with small concrete windows that satisfy their
  hypotheses, and two runs in which an operation of the window breaks its own invariant
  (a span whose last page evicts its first one, a window whose frames are all pinned).
\<close>

section \<open>Concrete windows\<close>

text \<open>An object before \<open>init\<close>, with its two configurable budgets.\<close>

definition blank_window :: "nat \<Rightarrow> nat \<Rightarrow> dram_window" where
  "blank_window pin_cap soft_cap =
     \<lparr>arena = [], capacity = 0, page_bytes = 0, soft_pin_neighbors = False, n_frames = 0,
      wmetrics = None, wmap = Map.empty, frame_key = [], frame_pinned = [], frame_filling = [],
      frame_soft_ttl = [], soft_pin_frames = [], pinned_pages = {}, clock_hand = 0,
      pin_bytes_used = 0, pin_bytes_cap = pin_cap, soft_pin_bytes_used = 0,
      soft_pin_bytes_cap = soft_cap, spill = [], spill_hand = 0\<rparr>"

definition demo_ssd :: "nat \<Rightarrow> byte" where
  "demo_ssd i = word_of_nat i"

definition demo_window :: "nat \<Rightarrow> nat \<Rightarrow> dram_window" where
  "demo_window n pin_cap = win_init (replicate (4 * n) 0) None 4 (blank_window pin_cap 8)"

text \<open>Two frames of four bytes; page 0 and then page 8 promoted.\<close>

definition demo1 :: dram_window where
  "demo1 = snd (copy_through demo_ssd 0 1 (demo_window 2 4))"

definition demo2 :: dram_window where
  "demo2 = snd (copy_through demo_ssd 8 1 demo1)"

lemma demo_window_good: "good ssd (demo_window n c)"
  unfolding demo_window_def by (rule win_init_good [OF pow2_4])

lemma demo_window_room: "pin_room (demo_window 2 4)"
  by code_simp

lemma demo_kept: "span_kept demo_ssd 0 1 (demo_window 2 4)" "span_kept demo_ssd 8 1 demo1"
  by code_simp+

lemma demo2_reach: "win_reach demo_ssd (demo_window 2 4) demo2"
proof -
  have "win_reach demo_ssd (demo_window 2 4) demo1"
    unfolding demo1_def by (rule reach_step [OF reach_init step_copy [OF demo_kept(1)]])
  then show ?thesis
    unfolding demo2_def by (rule reach_step [OF _ step_copy [OF demo_kept(2)]])
qed

lemma demo2_good: "good demo_ssd demo2 \<and> pin_room demo2"
  by (rule win_reach_good [OF demo2_reach demo_window_good demo_window_room])

section \<open>Properties\<close>

text \<open>C9. Start from \<open>init\<close> with a page size that is a power of two and a pin budget
  that leaves a frame to evict, and perform the operations of the window in any order, under these
  conditions (\<open>win_step\<close>): a read or prefetch that loads several pages does not evict a page
  of its own span (\<open>span_kept\<close>; always so inside one page); \<open>install_full_pages\<close>
  and \<open>install_host\<close> are given SSD bytes, \<open>install_host\<close> whole pages;
  \<open>reserve_fill\<close> is called while yet another frame is left to evict; the device writes only
  into reserved frames, and \<open>commit_fill\<close> follows the arrival of the SSD bytes. Then the page
  map and the frame table describe the same one-to-one relation, both pin budgets count exactly the pinned
  frames and stay below their caps, and every resident frame holds the bytes of its page on the
  SSD.\<close>
theorem window_reachable_good:
  assumes "pow2 pb" and "pin_room (win_init dram m pb w0)"
    and "win_reach ssd (win_init dram m pb w0) w"
  shows "win_inv w \<and> coherent ssd w"
  using win_reach_good [OF assms(3) win_init_good [OF assms(1)] assms(2)] by (simp add: good_def)

theorem window_reachable_good_witness:
  "win_inv demo2 \<and> coherent demo_ssd demo2"
  using window_reachable_good [OF pow2_4, of "replicate (4 * 2) 0" None "blank_window 4 8" demo_ssd demo2]
    demo_window_room demo2_reach by (simp only: demo_window_def simp_thms)

text \<open>C10. In every window reached from \<open>init\<close> by the steps of
  \<open>win_step\<close> (multi-page loads do not evict their own span, installs and commits have SSD
  bytes, \<open>install_host\<close> whole pages, reserves leave another frame to evict), with a page size
  that is a power of two and a pin budget that leaves a frame to evict, \<open>try_copy_resident\<close>
  returns the bytes that are on the SSD exactly when all pages of the request are resident, over any
  number of pages, and in every case it leaves the window as it was.\<close>
theorem resident_copy_is_ssd:
  assumes "pow2 pb" and "pin_room (win_init dram m pb w0)"
    and "win_reach ssd (win_init dram m pb w0) w"
  shows "try_copy_resident off n w =
    ((if n = 0 \<or> list_all (\<lambda>p. wmap w p \<noteq> None) (page_span (page_bytes w) off n)
      then Some (image_bytes ssd off n) else None), w)"
  using win_reach_good [OF assms(3) win_init_good [OF assms(1)] assms(2)] try_copy_resident_image by blast

theorem resident_copy_is_ssd_witness:
  "fst (try_copy_resident 9 3 demo2) = Some [9, 10, 11] \<and> fst (try_copy_resident 9 4 demo2) = None"
proof -
  note E = resident_copy_is_ssd [OF pow2_4, of "replicate (4 * 2) 0" None "blank_window 4 8" demo_ssd demo2]
  have r: "pin_room (win_init (replicate (4 * 2) 0) None 4 (blank_window 4 8))"
    "win_reach demo_ssd (win_init (replicate (4 * 2) 0) None 4 (blank_window 4 8)) demo2"
    using demo_window_room demo2_reach by (simp_all only: demo_window_def)
  have "list_all (\<lambda>p. wmap demo2 p \<noteq> None) (page_span (page_bytes demo2) 9 3)"
    "\<not> list_all (\<lambda>p. wmap demo2 p \<noteq> None) (page_span (page_bytes demo2) 9 4)"
    "image_bytes demo_ssd 9 3 = [9, 10, 11]"
    by code_simp+
  with E [OF r, of 9 3] E [OF r, of 9 4] show ?thesis by simp
qed

text \<open>C11. In a coherent window whose pin budget and fills leave a frame to evict
  (\<open>pin_room\<close>), a pinned page stays resident and pinned through every step of
  \<open>win_step\<close> but one that ends where \<open>flush_all\<close> does: evictions, flushes,
  installs, pins and fills leave it alone, and so does a load of several pages that does not evict a page
  of its own span.\<close>
theorem pinned_page_stays:
  assumes "win_step ssd w v" and "good ssd w" and "pin_room w"
    and "v \<noteq> win_flush_all w" and "p \<in> pinned_pages w"
  shows "p \<in> pinned_pages v \<and> (\<exists>f. wmap v p = Some f \<and> frame_pinned v ! f)"
proof -
  have "good ssd v" "win_le w v" using win_step_good [OF assms(1-3)] assms(4) by auto
  then show ?thesis using pinned_resident [of v p] assms(5) by (auto simp: good_def win_le_def)
qed

definition demo_pinned :: dram_window where
  "demo_pinned = win_pin demo_ssd 0 1 (demo_window 2 4)"

lemma demo_pinned_good: "good demo_ssd demo_pinned \<and> pin_room demo_pinned"
  using win_pin_ok [OF demo_window_good demo_window_room] by (simp add: demo_pinned_def win_step_ok_def)

theorem pinned_page_stays_witness:
  "0 \<in> pinned_pages (snd (copy_through demo_ssd 4 1 demo_pinned))"
proof -
  have "span_kept demo_ssd 4 1 demo_pinned" by code_simp
  then have s: "win_step demo_ssd demo_pinned (snd (copy_through demo_ssd 4 1 demo_pinned))"
    by (rule step_copy)
  have "0 \<in> pinned_pages demo_pinned" by code_simp
  moreover have "wmap (snd (copy_through demo_ssd 4 1 demo_pinned)) 4 \<noteq> None" by code_simp
  then have "snd (copy_through demo_ssd 4 1 demo_pinned) \<noteq> win_flush_all demo_pinned"
    by (auto simp: win_flush_all_def)
  ultimately show ?thesis using pinned_page_stays [OF s] demo_pinned_good by blast
qed

text \<open>C12. In a coherent window whose pin budget and fills leave a frame to evict
  (\<open>pin_room\<close>), the loading reads, \<open>copy_through\<close> and
  \<open>lookup_or_promote\<close>, give the bytes of the SSD for any nonempty request inside one page,
  whether the page was resident or had to evict another one, and keep the window coherent.\<close>
theorem loading_read_is_ssd:
  assumes "good ssd w" and "pin_room w" and "0 < len"
    and "off - page_floor (page_bytes w) off + len \<le> page_bytes w"
  shows "fst (copy_through ssd off len w) = image_bytes ssd off len \<and>
    wptr_bytes (snd (lookup_or_promote ssd off len w)) (fst (lookup_or_promote ssd off len w)) 0 len
      = image_bytes ssd off len \<and>
    good ssd (snd (copy_through ssd off len w)) \<and> good ssd (snd (lookup_or_promote ssd off len w))"
proof -
  have "off - page_floor (page_bytes w) off + max len 1 \<le> page_bytes w" using assms(3,4) by (simp add: max_def)
  from lookup_or_promote_image [OF assms(1,2) this prod.collapse [symmetric]]
  show ?thesis using copy_through_image [OF assms(1,2,4)] by (simp add: win_step_ok_def)
qed

theorem loading_read_is_ssd_witness:
  "fst (copy_through demo_ssd 5 3 demo2) = [5, 6, 7]"
proof -
  have "5 - page_floor (page_bytes demo2) 5 + 3 \<le> page_bytes demo2" "image_bytes demo_ssd 5 3 = [5, 6, 7]"
    by code_simp+
  with loading_read_is_ssd [of demo_ssd demo2 3 5] demo2_good show ?thesis by simp
qed

text \<open>C13. The direct-fill protocol: \<open>reserve_fill\<close> of a missing page, the device's write of
  the page into the reserved frame and \<open>commit_fill\<close> make that frame the resident copy of
  the page, with the bytes of the SSD; until the commit the page does not count as resident.\<close>
theorem direct_fill_publishes:
  assumes "good ssd w" and "pin_room1 w" and "reserve_fill p w = (Some f, w1)"
    and "w2 = arena_write (f * page_bytes w1) (image_bytes ssd p (page_bytes w1)) w1"
  shows "wmap w1 p = None \<and> wmap w2 p = None \<and> wmap (commit_fill p f t w2) p = Some f \<and>
    good ssd (commit_fill p f t w2) \<and> win_le w (commit_fill p f t w2)"
proof -
  have r: "win_step_ok ssd w w1" "f < n_frames w1" "frame_filling w1 ! f" "frame_key w1 ! f = Some p"
    "wmap w1 p = None" using reserve_fill_ok [OF assms(1-3)] by simp_all
  have g1: "good ssd w1" "pin_room w1" using r(1) by (simp_all add: win_step_ok_def)
  have bnd: "f * page_bytes w1 + page_bytes w1 \<le> length (arena w1)"
    using frame_bounds [of w1 f] g1 r(2) by (simp add: good_def)
  have g2: "good ssd w2" unfolding assms(4) using fill_write_good [OF g1(1) r(2,3)] by simp
  have w2: "pin_room w2" "frame_key w2 ! f = Some p" "win_le w1 w2" "wmap w2 p = None"
    "f < n_frames w2" "frame_filling w2 ! f"
    using g1 r by (simp_all add: assms(4) arena_write_def pin_room_def win_le_def)
  have "mem_read (f * page_bytes w2) (page_bytes w2) (arena w2) = image_bytes ssd p (page_bytes w2)"
    using bnd mem_read_mem_write_same [of "f * page_bytes w1" "image_bytes ssd p (page_bytes w1)" "arena w1"]
    by (simp add: assms(4) arena_write_def)
  from commit_fill_ok [OF g2 w2(1,2) this, of t]
  have c: "win_step_ok ssd w2 (commit_fill p f t w2)" by simp
  have "wmap (commit_fill p f t w2) p = Some f"
    using w2 by (simp add: commit_fill_def frame_simps Let_def)
  then show ?thesis using c r(1,5) w2(3,4) by (auto simp: win_step_ok_def intro: win_le_trans)
qed

theorem direct_fill_publishes_witness:
  "wmap (commit_fill 8 0 0 (arena_write 0 (image_bytes demo_ssd 8 4) (snd (reserve_fill 8 (demo_window 3 4))))) 8 = Some 0"
proof -
  let ?w = "demo_window 3 4"
  have "pin_room1 ?w" "fst (reserve_fill 8 ?w) = Some 0" "page_bytes (snd (reserve_fill 8 ?w)) = 4"
    by code_simp+
  moreover from this have "reserve_fill 8 ?w = (Some 0, snd (reserve_fill 8 ?w))" by (metis prod.collapse)
  ultimately show ?thesis
    using direct_fill_publishes [OF demo_window_good _ _ refl, of 3 4 8 0 "snd (reserve_fill 8 ?w)" demo_ssd 0]
    by simp
qed

text \<open>C15. When some frame is neither pinned nor being filled (otherwise the clock falls back to
  frame 0, pinned or not), the clock takes the first frame at or after its hand that is unpinned, not
  being filled and not soft-pinned, if there is one; soft-pinned frames are evicted only when there is
  none. Whatever it takes, the frame is unpinned and not being filled, and the page it held is the only
  one that leaves the map.\<close>
theorem clock_takes_first_clean:
  assumes "win_inv w" and "has_victim w" and "alloc_frame w = (f, v)"
  shows "\<not> frame_pinned w ! f \<and> \<not> frame_filling w ! f \<and> f < n_frames w \<and>
    (\<forall>q. wmap v q = (if frame_key w ! f = Some q then None else wmap w q)) \<and>
    (\<forall>s < n_frames w. clean_frame w ((clock_hand w + s) mod n_frames w) \<and>
       (\<forall>j < s. \<not> clean_frame w ((clock_hand w + j) mod n_frames w)) \<longrightarrow>
       f = (clock_hand w + s) mod n_frames w)"
proof -
  have "freed w f v" using clock.alloc_freed [OF assms] .
  moreover have "\<forall>q. wmap v q = (if frame_key w ! f = Some q then None else wmap w q)"
    using clock.alloc_wmap [OF assms] by blast
  ultimately show ?thesis using evict_frame_first [of _ w] assms(3) by (auto simp: freed_def)
qed

theorem clock_takes_first_clean_witness:
  "wmap (snd (alloc_frame demo2)) 0 = None \<and> wmap (snd (alloc_frame demo2)) 8 = Some 1"
proof -
  have "has_victim demo2" using demo2_good pin_room_victim by (auto simp: good_def)
  moreover have "fst (alloc_frame demo2) = 0" "frame_key demo2 ! 0 = Some 0" "wmap demo2 8 = Some 1"
    by code_simp+
  moreover have "alloc_frame demo2 = (fst (alloc_frame demo2), snd (alloc_frame demo2))" by simp
  ultimately show ?thesis
    using clock_takes_first_clean [of demo2 "fst (alloc_frame demo2)" "snd (alloc_frame demo2)"] demo2_good
    by (simp add: good_def)
qed

text \<open>Aging: as long as no frame is listed twice, one \<open>tick_soft_pins\<close> takes exactly
  one from the remaining life of every listed frame and from no other.\<close>
theorem tick_ages_once:
  assumes "good ssd w" and "distinct (soft_pin_frames w)" and "set (soft_pin_frames w) \<subseteq> {..<n_frames w}"
    and "f < n_frames w"
  shows "frame_soft_ttl (tick_soft_pins w) ! f =
    (if f \<in> set (soft_pin_frames w) then frame_soft_ttl w ! f - 1 else frame_soft_ttl w ! f)"
proof -
  obtain keep v where tl: "tick_loop (soft_pin_frames w) w = (keep, v)" by (cases "tick_loop (soft_pin_frames w) w")
  have "length (frame_soft_ttl w) = n_frames w" using assms(1) by (simp add: good_def win_inv_def win_wf_def)
  from tick_loop_once [OF assms(2) tl assms(3) this assms(4)] tl show ?thesis by (simp add: tick_soft_pins_def)
qed

theorem tick_ages_once_witness:
  "frame_soft_ttl (tick_soft_pins (soft_pin_if_resident 8 3 demo2)) ! 1 = 2"
proof -
  let ?w = "soft_pin_if_resident 8 3 demo2"
  have "good demo_ssd ?w" using soft_pin_if_resident_ok demo2_good by (simp add: win_step_ok_def)
  moreover have "soft_pin_frames ?w = [1]" "n_frames ?w = 2" "frame_soft_ttl ?w ! 1 = 3" by code_simp+
  ultimately show ?thesis using tick_ages_once [of demo_ssd ?w 1] by simp
qed

section \<open>Two ways to break the window\<close>

text \<open>C40. A read of two pages whose second page evicts the first: the window holds pages 0
  and 8 of a window of two frames, the clock hand is at the frame of page 0, and
  \<open>copy_through\<close> of the bytes 2 to 5 promotes page 4 over page 0, then reads page 0 through
  \<open>map[po]\<close>, which inserts frame 0. The caller gets the bytes 6, 7 for 2, 3, and pages 0
  and 4 stay mapped to one frame.\<close>
theorem span_evicts_its_first_page:
  "win_reach demo_ssd (demo_window 2 4) demo2 \<and>
   image_bytes demo_ssd 2 4 = [2, 3, 4, 5] \<and> fst (copy_through demo_ssd 2 4 demo2) = [6, 7, 4, 5] \<and>
   wmap (snd (copy_through demo_ssd 2 4 demo2)) 0 = wmap (snd (copy_through demo_ssd 2 4 demo2)) 4 \<and>
   wmap (snd (copy_through demo_ssd 2 4 demo2)) 0 = Some 0"
proof (intro conjI)
  show "win_reach demo_ssd (demo_window 2 4) demo2" by (rule demo2_reach)
qed code_simp+

text \<open>With a pin budget of the whole window every frame can be pinned; the next promotion
  then takes frame 0, pinned as it is, and the pinned page 0 reads as page 8.\<close>
theorem full_pins_lose_a_pinned_page:
  "let w = win_pin demo_ssd 0 8 (demo_window 2 8);
       v = snd (copy_through demo_ssd 8 1 w)
   in 0 \<in> pinned_pages w \<and> \<not> has_victim w \<and> 0 \<in> pinned_pages v \<and>
      fst (try_copy_resident 0 4 w) = Some [0, 1, 2, 3] \<and>
      fst (try_copy_resident 0 4 v) = Some [8, 9, 10, 11]"
proof -
  have "\<not> has_victim (win_pin demo_ssd 0 8 (demo_window 2 8))"
  proof -
    have "n_frames (win_pin demo_ssd 0 8 (demo_window 2 8)) = 2"
      "frame_pinned (win_pin demo_ssd 0 8 (demo_window 2 8)) = [True, True]" by code_simp+
    then show ?thesis by (auto simp: has_victim_def less_2_cases_iff intro!: gr0I)
  qed
  moreover have "0 \<in> pinned_pages (win_pin demo_ssd 0 8 (demo_window 2 8))"
    "0 \<in> pinned_pages (snd (copy_through demo_ssd 8 1 (win_pin demo_ssd 0 8 (demo_window 2 8))))"
    "fst (try_copy_resident 0 4 (win_pin demo_ssd 0 8 (demo_window 2 8))) = Some [0, 1, 2, 3]"
    "fst (try_copy_resident 0 4 (snd (copy_through demo_ssd 8 1 (win_pin demo_ssd 0 8 (demo_window 2 8)))))
      = Some [8, 9, 10, 11]" by code_simp+
  ultimately show ?thesis by (simp add: Let_def)
qed

text \<open>Evicting a soft-pinned frame leaves its entry in \<open>soft_pin_frames\<close>; when the frame is
  soft-pinned again it is listed twice, and one tick takes two from its life.\<close>
theorem soft_pin_listed_twice:
  "let w = soft_pin_if_resident 8 3 (soft_pin_if_resident 0 3 demo2);
       w1 = snd (copy_through demo_ssd 4 1 w);
       w2 = soft_pin_if_resident 4 3 w1
   in win_reach demo_ssd (demo_window 2 4) w2 \<and> soft_pin_frames w2 = [0, 1, 0] \<and>
      frame_soft_ttl w2 ! 0 = 3 \<and> frame_soft_ttl (tick_soft_pins w2) ! 0 = 1"
proof -
  let ?w = "soft_pin_if_resident 8 3 (soft_pin_if_resident 0 3 demo2)"
  let ?w1 = "snd (copy_through demo_ssd 4 1 ?w)"
  have "win_reach demo_ssd (demo_window 2 4) ?w"
    by (intro reach_step [OF _ step_soft_pin] demo2_reach)
  moreover have "span_kept demo_ssd 4 1 ?w" by code_simp
  ultimately have "win_reach demo_ssd (demo_window 2 4) ?w1" by (rule reach_step [OF _ step_copy])
  then have "win_reach demo_ssd (demo_window 2 4) (soft_pin_if_resident 4 3 ?w1)"
    by (rule reach_step [OF _ step_soft_pin])
  moreover have "soft_pin_frames (soft_pin_if_resident 4 3 ?w1) = [0, 1, 0]"
    "frame_soft_ttl (soft_pin_if_resident 4 3 ?w1) ! 0 = 3"
    "frame_soft_ttl (tick_soft_pins (soft_pin_if_resident 4 3 ?w1)) ! 0 = 1" by code_simp+
  ultimately show ?thesis by (simp add: Let_def)
qed

end
