(* ===== verification/Sorting.thy ===== *)
theory Sorting
  imports Prelude "HOL-Library.Multiset"
begin

text \<open>
  \<open>std::sort\<close> with a comparator. Its contract is the locale \<open>sorter\<close>: the result is a
  rearrangement of the input in which no element is less than an earlier one; elements the
  comparator does not tell apart may come in any order. \<open>std_sort\<close> is one function that
  meets the contract, so that the definitions that sort can be evaluated; their properties
  are proved from the contract.
\<close>

definition strict_weak :: "('a \<Rightarrow> 'a \<Rightarrow> bool) \<Rightarrow> bool" where
  "strict_weak lt \<longleftrightarrow> (\<forall>x. \<not> lt x x) \<and> (\<forall>x y z. lt x y \<longrightarrow> lt y z \<longrightarrow> lt x z) \<and>
     (\<forall>x y z. \<not> lt x y \<longrightarrow> \<not> lt y z \<longrightarrow> \<not> lt x z)"

lemma strict_weak_key: "strict_weak (\<lambda>x y. (f x :: 'b :: linorder) < f y)"
  by (auto simp: strict_weak_def)

lemma strict_weak_key_rev: "strict_weak (\<lambda>x y. (f y :: 'b :: linorder) < f x)"
  by (auto simp: strict_weak_def)

fun insert_by :: "('a \<Rightarrow> 'a \<Rightarrow> bool) \<Rightarrow> 'a \<Rightarrow> 'a list \<Rightarrow> 'a list" where
  "insert_by lt x [] = [x]"
| "insert_by lt x (y # ys) = (if lt y x then y # insert_by lt x ys else x # y # ys)"

definition std_sort :: "('a \<Rightarrow> 'a \<Rightarrow> bool) \<Rightarrow> 'a list \<Rightarrow> 'a list" where
  "std_sort lt xs = foldr (insert_by lt) xs []"

lemma mset_insert_by [simp]: "mset (insert_by lt x ys) = add_mset x (mset ys)"
  by (induction ys) auto

lemma mset_std_sort [simp]: "mset (std_sort lt xs) = mset xs"
  by (induction xs) (simp_all add: std_sort_def)

lemma sorted_insert_by:
  assumes "strict_weak lt" and "sorted_wrt (\<lambda>x y. \<not> lt y x) ys"
  shows "sorted_wrt (\<lambda>x y. \<not> lt y x) (insert_by lt x ys)"
  using assms(2)
proof (induction ys)
  case (Cons y ys)
  have set: "set (insert_by lt x ys) = insert x (set ys)"
    by (metis mset_insert_by set_mset_add_mset_insert set_mset_mset)
  have asym: "\<not> lt x y" if "lt y x" using assms(1) that by (metis strict_weak_def)
  have trans: "\<not> lt z x" if "\<not> lt y x" "\<not> lt z y" for z using assms(1) that by (metis strict_weak_def)
  show ?case using Cons asym trans by (auto simp: set)
qed simp

lemma sorted_std_sort: "strict_weak lt \<Longrightarrow> sorted_wrt (\<lambda>x y. \<not> lt y x) (std_sort lt xs)"
  by (induction xs) (simp_all add: std_sort_def sorted_insert_by)

locale sorter =
  fixes lt :: "'a \<Rightarrow> 'a \<Rightarrow> bool" and srt :: "'a list \<Rightarrow> 'a list"
  assumes weak: "strict_weak lt"
    and perm: "mset (srt xs) = mset xs"
    and ordered: "sorted_wrt (\<lambda>x y. \<not> lt y x) (srt xs)"
begin

lemma set_srt: "set (srt xs) = set xs"
  by (metis perm set_mset_mset)

lemma length_srt: "length (srt xs) = length xs"
  by (metis perm size_mset)

lemma distinct_srt: "distinct xs \<Longrightarrow> distinct (srt xs)"
  by (metis perm mset_eq_imp_distinct_iff)

lemma distinct_map_srt: "distinct (map f xs) \<Longrightarrow> distinct (map f (srt xs))"
  by (metis perm mset_map mset_eq_imp_distinct_iff)

text \<open>What is kept by a cut of the sorted list is at least as good as what is left out.\<close>

lemma take_best:
  assumes "x \<in> set (take k (srt xs))" and "y \<in> set (drop k (srt xs))"
  shows "\<not> lt y x"
proof -
  have "sorted_wrt (\<lambda>x y. \<not> lt y x) (take k (srt xs) @ drop k (srt xs))" using ordered by simp
  with assms show ?thesis unfolding sorted_wrt_append by blast
qed

text \<open>When the comparator tells all elements apart the result is determined.\<close>

lemma determined:
  assumes "\<And>x y. x \<in> set xs \<Longrightarrow> y \<in> set xs \<Longrightarrow> \<not> lt x y \<Longrightarrow> \<not> lt y x \<Longrightarrow> x = y"
    and "mset ys = mset xs" and "sorted_wrt (\<lambda>x y. \<not> lt y x) ys"
  shows "srt xs = ys"
proof -
  have "sorted_wrt (\<lambda>x y. \<not> lt y x) us \<Longrightarrow> sorted_wrt (\<lambda>x y. \<not> lt y x) vs \<Longrightarrow> mset us = mset vs \<Longrightarrow>
      set us \<subseteq> set xs \<Longrightarrow> us = vs" for us vs
  proof (induction us arbitrary: vs)
    case (Cons u us)
    then obtain v ws where vs: "vs = v # ws" by (cases vs) auto
    have se: "set (u # us) = set (v # ws)" using Cons.prems(3) unfolding vs by (rule mset_eq_setD)
    have irr: "\<not> lt x x" for x using weak by (simp add: strict_weak_def)
    have "v = u \<or> v \<in> set us" "u = v \<or> u \<in> set ws" using se by auto
    then have "\<not> lt v u" "\<not> lt u v" using Cons.prems(1,2) irr by (auto simp: vs)
    moreover have "v \<in> set xs" "u \<in> set xs" using se Cons.prems(4) by auto
    ultimately have "u = v" using assms(1) by blast
    moreover have "us = ws" using Cons vs \<open>u = v\<close> by simp
    ultimately show ?case by (simp add: vs)
  qed simp
  from this [OF ordered assms(3)] show ?thesis by (simp add: perm assms(2) set_srt)
qed

end

lemma sorter_std_sort: "strict_weak lt \<Longrightarrow> sorter lt (std_sort lt)"
  by unfold_locales (simp_all add: sorted_std_sort)

text \<open>Ascending order of offsets, as in \<open>std::sort(v.begin(), v.end())\<close>.\<close>

interpretation ascending: sorter "(<) :: nat \<Rightarrow> nat \<Rightarrow> bool" "std_sort (<)"
  using sorter_std_sort [of "(<) :: nat \<Rightarrow> nat \<Rightarrow> bool"] strict_weak_key [of id] by simp

lemma std_sort_nat: "std_sort (<) xs = sort (xs :: nat list)"
proof (rule ascending.determined)
  show "sorted_wrt (\<lambda>x y. \<not> y < x) (sort xs)" using sorted_sort [of xs] by (simp add: not_less)
qed auto

end
