(* ===== verification/HotSet.thy ===== *)
theory HotSet
  imports Sorting
begin

text \<open>
  \<open>serving/hot_set.hpp\<close>: touch counts with periodic aging, from which the ids to pin are
  taken. The table is an association list with distinct keys, in the iteration order of the
  \<open>unordered_map\<close>; nothing below depends on that order but the order of ties.
\<close>

section \<open>State and operations\<close>

record hot_ent =
  freq :: nat
  last_q :: nat

record hot_set =
  aging_period :: nat
  hs_queries :: nat
  tab :: "(nat \<times> hot_ent) list"

text \<open>\<open>Ent& e = tab[id]; e.freq++; e.last_q = queries\<close>\<close>

fun touch_tab :: "nat \<Rightarrow> nat \<Rightarrow> (nat \<times> hot_ent) list \<Rightarrow> (nat \<times> hot_ent) list" where
  "touch_tab q i [] = [(i, \<lparr>freq = 1, last_q = q\<rparr>)]"
| "touch_tab q i ((j, e) # es) =
     (if j = i then (j, e\<lparr>freq := freq e + 1, last_q := q\<rparr>) # es else (j, e) # touch_tab q i es)"

definition on_touch :: "nat \<Rightarrow> hot_set \<Rightarrow> hot_set" where
  "on_touch i h = h\<lparr>tab := touch_tab (hs_queries h) i (tab h)\<rparr>"

text \<open>The erasing loop: \<open>freq >>= 1\<close>, and an entry that reaches 0 goes.\<close>

fun age_tab :: "(nat \<times> hot_ent) list \<Rightarrow> (nat \<times> hot_ent) list" where
  "age_tab [] = []"
| "age_tab ((j, e) # es) =
     (let e' = e\<lparr>freq := freq e div 2\<rparr>
      in if freq e' = 0 then age_tab es else (j, e') # age_tab es)"

definition on_query_end :: "hot_set \<Rightarrow> hot_set" where
  "on_query_end h =
     (let h1 = h\<lparr>hs_queries := hs_queries h + 1\<rparr>
      in if aging_period h1 = 0 \<or> hs_queries h1 mod aging_period h1 \<noteq> 0 then h1
         else h1\<lparr>tab := age_tab (tab h1)\<rparr>)"

definition hot_less :: "hot_ent \<times> nat \<Rightarrow> hot_ent \<times> nat \<Rightarrow> bool" where
  "hot_less a b =
     (if freq (fst a) \<noteq> freq (fst b) then freq (fst b) < freq (fst a)
      else last_q (fst b) < last_q (fst a))"

text \<open>The loop that fills the byte budget; \<open>used\<close> is what is taken so far.\<close>

fun take_budget :: "nat \<Rightarrow> nat \<Rightarrow> nat \<Rightarrow> (hot_ent \<times> nat) list \<Rightarrow> nat list" where
  "take_budget nbytes vb used [] = []"
| "take_budget nbytes vb used (r # rs) =
     (if nbytes < used + vb then [] else snd r # take_budget nbytes vb (used + vb) rs)"

definition top_ids_with ::
  "((hot_ent \<times> nat) list \<Rightarrow> (hot_ent \<times> nat) list) \<Rightarrow> nat \<Rightarrow> nat \<Rightarrow> hot_set \<Rightarrow> nat list" where
  "top_ids_with srt nbytes vb h =
     (if nbytes = 0 \<or> vb = 0 then []
      else take_budget nbytes vb 0 (srt (map (\<lambda>(k, e). (e, k)) (tab h))))"

definition top_ids :: "nat \<Rightarrow> nat \<Rightarrow> hot_set \<Rightarrow> nat list" where
  "top_ids = top_ids_with (std_sort hot_less)"

section \<open>The table\<close>

definition hs_ok :: "hot_set \<Rightarrow> bool" where
  "hs_ok h \<longleftrightarrow> distinct (map fst (tab h)) \<and> (\<forall>x \<in> set (tab h). 0 < freq (snd x))"

lemma touch_tab_keys: "fst ` set (touch_tab q i es) = insert i (fst ` set es)"
  by (induction q i es rule: touch_tab.induct) auto

lemma touch_tab_distinct: "distinct (map fst es) \<Longrightarrow> distinct (map fst (touch_tab q i es))"
proof (induction q i es rule: touch_tab.induct)
  case (2 q i j e es)
  then show ?case using touch_tab_keys [of q i es] by (auto simp: image_iff)
qed simp

lemma touch_tab_lookup:
  "map_of (touch_tab q i es) k =
     (if k = i then Some (case map_of es i of None \<Rightarrow> \<lparr>freq = 1, last_q = q\<rparr>
                                            | Some e \<Rightarrow> e\<lparr>freq := freq e + 1, last_q := q\<rparr>)
      else map_of es k)"
  by (induction q i es rule: touch_tab.induct) auto

lemma touch_tab_pos: "\<forall>x \<in> set es. 0 < freq (snd x) \<Longrightarrow> \<forall>x \<in> set (touch_tab q i es). 0 < freq (snd x)"
  by (induction q i es rule: touch_tab.induct) auto

lemma on_touch_ok: "hs_ok h \<Longrightarrow> hs_ok (on_touch i h)"
  using touch_tab_pos [of "tab h"] by (auto simp: hs_ok_def on_touch_def touch_tab_distinct)

lemma age_tab_keys: "fst ` set (age_tab es) \<subseteq> fst ` set es"
  by (induction es rule: age_tab.induct) (auto simp: Let_def split: if_splits)

lemma age_tab_ok:
  "distinct (map fst es) \<Longrightarrow> distinct (map fst (age_tab es)) \<and> (\<forall>x \<in> set (age_tab es). 0 < freq (snd x))"
proof (induction es rule: age_tab.induct)
  case (2 j e es)
  then show ?case using age_tab_keys [of es] by (auto simp: Let_def)
qed simp

lemma on_query_end_ok: "hs_ok h \<Longrightarrow> hs_ok (on_query_end h)"
  using age_tab_ok [of "tab h"] by (auto simp: hs_ok_def on_query_end_def Let_def)

section \<open>The ids to pin\<close>

lemma strict_weak_hot: "strict_weak hot_less"
  unfolding strict_weak_def hot_less_def by (auto split: if_splits)

interpretation hot: sorter hot_less "std_sort hot_less"
  by (rule sorter_std_sort [OF strict_weak_hot])

lemma take_budget_take:
  "0 < vb \<Longrightarrow> take_budget nb vb used rs = map snd (take ((nb - used) div vb) rs)"
proof (induction nb vb used rs rule: take_budget.induct)
  case (2 nb vb used r rs)
  show ?case
  proof (cases "nb < used + vb")
    case True
    then have "nb - used < vb" using 2(2) by arith
    then have "(nb - used) div vb = 0" by simp
    with True show ?thesis by simp
  next
    case False
    then have "vb \<le> nb - used" by simp
    then have "(nb - used) div vb = Suc ((nb - used - vb) div vb)" using 2(2) by (simp add: le_div_geq)
    then have "(nb - used) div vb = Suc ((nb - (used + vb)) div vb)" by (simp add: diff_diff_left)
    with False 2 show ?thesis by simp
  qed
qed simp

text \<open>\<open>top_ids\<close> returns distinct ids of the table, as many as fit the budget, and no
  id that is left out was touched more often, or as often and more recently, than one that is
  returned.\<close>
theorem top_ids_best:
  assumes "hs_ok h" and "0 < vb"
  shows "distinct (top_ids nb vb h) \<and> set (top_ids nb vb h) \<subseteq> fst ` set (tab h) \<and>
    length (top_ids nb vb h) = min (nb div vb) (length (tab h)) \<and>
    (\<forall>i j ei ej. i \<in> set (top_ids nb vb h) \<and> map_of (tab h) i = Some ei \<and>
       j \<notin> set (top_ids nb vb h) \<and> map_of (tab h) j = Some ej \<longrightarrow> \<not> hot_less (ej, j) (ei, i))"
proof -
  let ?rows = "map (\<lambda>(k, e). (e, k)) (tab h)" and ?s = "std_sort hot_less (map (\<lambda>(k, e). (e, k)) (tab h))"
  let ?k = "nb div vb"
  have top: "top_ids nb vb h = map snd (take ?k ?s)"
    using assms(2) by (simp add: top_ids_def top_ids_with_def take_budget_take)
  have keys: "map snd ?rows = map fst (tab h)" by (induction "tab h") auto
  have "distinct (map snd ?rows)" unfolding keys using assms(1) by (simp add: hs_ok_def)
  then have dist: "distinct (map snd ?s)" by (rule hot.distinct_map_srt)
  have row: "map_of (tab h) i = Some e \<longleftrightarrow> (e, i) \<in> set ?s" for i e
    using assms(1) by (force simp: hot.set_srt hs_ok_def intro: map_of_SomeD)
  have "distinct (map snd (take ?k ?s))" using dist by (simp add: take_map [symmetric])
  moreover have "set (map snd (take ?k ?s)) \<subseteq> fst ` set (tab h)"
  proof -
    have "snd ` set ?s = fst ` set (tab h)" by (simp add: hot.set_srt image_image split_beta)
    then show ?thesis using image_mono [OF set_take_subset [of ?k ?s], of snd] by (simp only: set_map)
  qed
  moreover have "\<not> hot_less (ej, j) (ei, i)"
    if i: "i \<in> set (map snd (take ?k ?s))" and "(ei, i) \<in> set ?s" "j \<notin> set (map snd (take ?k ?s))" "(ej, j) \<in> set ?s"
    for i j ei ej
  proof (rule hot.take_best)
    obtain e where e: "(e, i) \<in> set (take ?k ?s)" using i by auto
    then have "(e, i) \<in> set ?s" by (rule in_set_takeD)
    then have "e = ei" using that(2) row by (metis option.inject)
    with e show "(ei, i) \<in> set (take ?k ?s)" by simp
    have "(ej, j) \<notin> set (take ?k ?s)" using that(3) by force
    with that(4) show "(ej, j) \<in> set (drop ?k ?s)" by (metis Un_iff append_take_drop_id set_append)
  qed
  moreover have "length (map snd (take ?k ?s)) = min ?k (length (tab h))" by (simp add: hot.length_srt min.commute)
  ultimately show ?thesis unfolding top row by blast
qed

definition demo_hot :: hot_set where
  "demo_hot = fold on_touch [7, 3, 7, 5, 3, 7] \<lparr>aging_period = 2, hs_queries = 0, tab = []\<rparr>"

lemma demo_hot_ok: "hs_ok demo_hot"
  unfolding demo_hot_def by (simp add: on_touch_ok) (simp add: hs_ok_def on_touch_def)

theorem top_ids_best_witness: "set (top_ids 8 4 demo_hot) \<subseteq> {3, 5, 7} \<and> length (top_ids 8 4 demo_hot) = 2"
proof -
  have "fst ` set (tab demo_hot) = {3, 5, 7}" "length (tab demo_hot) = 3" by code_simp+
  then show ?thesis using top_ids_best [OF demo_hot_ok, of 4 8] by simp
qed

text \<open>A query that ends on the aging period halves every count and drops exactly the ids
  touched once since; any other query leaves the table alone. The table keeps one entry per id.\<close>
theorem query_end_ages:
  assumes "hs_ok h"
  shows "hs_ok (on_query_end h) \<and>
    map_of (tab (on_query_end h)) i =
      (if aging_period h \<noteq> 0 \<and> (hs_queries h + 1) mod aging_period h = 0
       then Option.bind (map_of (tab h) i)
              (\<lambda>e. if freq e < 2 then None else Some (e\<lparr>freq := freq e div 2\<rparr>))
       else map_of (tab h) i)"
proof -
  have "map_of (age_tab es) i = Option.bind (map_of es i) (\<lambda>e. if freq e < 2 then None else Some (e\<lparr>freq := freq e div 2\<rparr>))"
    if "distinct (map fst es)" for es
    using that
  proof (induction es)
    case (Cons x es)
    obtain j e where x: "x = (j, e)" by (cases x)
    have "map_of es i = None" if "i = j" using Cons.prems that by (simp add: x map_of_eq_None_iff)
    then show ?case using Cons by (auto simp: x Let_def div_eq_0_iff)
  qed simp
  then show ?thesis using assms on_query_end_ok [OF assms] by (auto simp: hs_ok_def on_query_end_def Let_def)
qed

theorem query_end_ages_witness:
  "hs_ok (on_query_end (on_query_end demo_hot)) \<and> map_of (tab (on_query_end (on_query_end demo_hot))) 5 = None"
proof -
  have "aging_period (on_query_end demo_hot) = 2" "hs_queries (on_query_end demo_hot) = 1"
    "map_of (tab (on_query_end demo_hot)) 5 = Some \<lparr>freq = 1, last_q = 0\<rparr>" by code_simp+
  then show ?thesis using query_end_ages [OF on_query_end_ok [OF demo_hot_ok], of 5] by simp
qed

end
