(* ===== verification/Placement.thy ===== *)
theory Placement
  imports Window
begin

text \<open>
  \<open>serving/placement.hpp\<close>: where the header, the vectors, the graph and the bundles of an
  image are, and which logical ids live in which page. Pointers into the mapped image are
  offsets from \<open>ssd_base\<close>; sizes and offsets are natural numbers, \<open>uint32_t\<close> wrap-around
  is written out where the code can reach it (\<open>n - 1\<close> of an empty image).
\<close>

section \<open>State\<close>

record layout_header =
  h_magic :: nat
  h_version :: nat
  h_n :: nat
  h_dim :: nat
  h_R :: nat
  h_pq_bytes :: nat
  h_vec_bytes :: nat
  h_entry_id :: nat
  h_entry_nodes :: nat
  h_off_pq :: nat
  h_len_pq :: nat
  h_off_graph :: nat
  h_len_graph :: nat
  h_off_vectors :: nat
  h_len_vectors :: nat
  h_off_pivots :: nat
  h_len_pivots :: nat
  h_checksum :: nat

record placement =
  hdr :: "layout_header option"
  ssd_image :: "nat \<Rightarrow> byte"
  ssd_bytes :: nat
  vec_stride :: nat
  graph_host :: "byte list option"
  diskann_layout :: bool
  id_to_slot :: "nat list"
  slot_to_id :: "nat list"
  bundle_off :: nat
  bundle_stride :: nat
  bundle_bytes :: nat

definition kCxanMagic :: nat where
  "kCxanMagic = 0x314e415843"

definition kDiskannStride :: nat where
  "kDiskannStride = 2048"

definition sub32 :: "nat \<Rightarrow> nat \<Rightarrow> nat" where
  "sub32 a b = (a + 2 ^ 32 - b) mod 2 ^ 32"

section \<open>Setting up\<close>

definition set_graph_host :: "byte list option \<Rightarrow> placement \<Rightarrow> placement" where
  "set_graph_host g p = p\<lparr>graph_host := g\<rparr>"

definition diskann_payload_bytes :: "nat \<Rightarrow> nat \<Rightarrow> nat \<Rightarrow> nat" where
  "diskann_payload_bytes dm vb R = dm * vb + 4 + R * 4"

function double_until :: "nat \<Rightarrow> nat \<Rightarrow> nat" where
  "double_until need s = (if 0 < s \<and> s < need then double_until need (s * 2) else s)"
  by pat_completeness auto
termination by (relation "measure (\<lambda>(need, s). need - s)") auto

declare double_until.simps [simp del]

definition diskann_stride_for :: "nat \<Rightarrow> nat \<Rightarrow> nat \<Rightarrow> nat \<Rightarrow> nat" where
  "diskann_stride_for dm vb R want =
     double_until (diskann_payload_bytes dm vb R) (if want \<noteq> 0 then want else 4096)"

definition set_header :: "layout_header \<Rightarrow> placement \<Rightarrow> placement" where
  "set_header h p =
     (let packed = h_dim h * h_vec_bytes h;
          vs = (if h_n h \<noteq> 0 \<and> h_len_vectors h \<noteq> 0
                then let stride = h_len_vectors h div h_n h
                     in if packed \<le> stride then stride else packed
                else packed);
          need = diskann_payload_bytes (h_dim h) (h_vec_bytes h) (h_R h)
      in p\<lparr>hdr := Some h, vec_stride := vs,
           diskann_layout := (2 \<le> h_version h \<or> (h_len_graph h = 0 \<and> need \<le> vs))\<rparr>)"

section \<open>Ids and slots\<close>

definition slot_of :: "placement \<Rightarrow> nat \<Rightarrow> nat" where
  "slot_of p i = (if id_to_slot p = [] \<or> length (id_to_slot p) \<le> i then i else id_to_slot p ! i)"

definition id_of_slot :: "placement \<Rightarrow> nat \<Rightarrow> nat" where
  "id_of_slot p s = (if slot_to_id p = [] \<or> length (slot_to_id p) \<le> s then s else slot_to_id p ! s)"

definition xor1 :: "nat \<Rightarrow> nat" where
  "xor1 s = Bit_Operations.xor s 1"

definition page_sibling :: "placement \<Rightarrow> nat \<Rightarrow> nat" where
  "page_sibling p i =
     (case hdr p of
        None \<Rightarrow> i
      | Some h \<Rightarrow>
          if vec_stride p = 0 then i
          else if 4096 div vec_stride p < 2 then i
          else let sib = xor1 (slot_of p i)
               in if h_n h \<le> sib then i else id_of_slot p sib)"

text \<open>The checking loop of \<open>load_id_slot_map\<close>: id, the slots left, seen flags, inverse map.\<close>

fun invert_slots :: "nat \<Rightarrow> nat \<Rightarrow> nat list \<Rightarrow> bool list \<Rightarrow> nat list \<Rightarrow> bool \<times> nat list" where
  "invert_slots n i [] seen im = (True, im)"
| "invert_slots n i (s # ss) seen im =
     (if n \<le> s \<or> seen ! s then (False, im)
      else invert_slots n (i + 1) ss (seen[s := True]) (im[s := i]))"

text \<open>\<open>file\<close>: what \<open>fread\<close> finds at the path, \<open>None\<close> when it cannot be opened.\<close>

definition load_id_slot_map :: "nat list option \<Rightarrow> placement \<Rightarrow> bool \<times> placement" where
  "load_id_slot_map file p =
     (case (hdr p, file) of
        (Some h, Some words) \<Rightarrow>
          (let slots = take (h_n h) words
           in if length slots \<noteq> h_n h then (False, p)
              else let (ok, im) = invert_slots (h_n h) 0 slots (replicate (h_n h) False) (replicate (h_n h) 0)
                   in if ok then (True, p\<lparr>slot_to_id := im, id_to_slot := slots\<rparr>)
                      else (False, p\<lparr>slot_to_id := im\<rparr>))
      | _ \<Rightarrow> (False, p))"

section \<open>Addresses\<close>

definition entry_off :: "placement \<Rightarrow> layout_header \<Rightarrow> nat \<Rightarrow> nat" where
  "entry_off p h i = h_off_vectors h + slot_of p i * vec_stride p"

definition pq_off :: "layout_header \<Rightarrow> nat \<Rightarrow> nat" where
  "pq_off h i = h_off_pq h + i * h_pq_bytes h"

text \<open>A pointer to neighbour ids: into the host copy of the graph or into the image.\<close>

datatype nbr_ptr = Host_nbrs nat | Image_nbrs nat

definition nbrs :: "placement \<Rightarrow> layout_header \<Rightarrow> nat \<Rightarrow> nbr_ptr" where
  "nbrs p h i =
     (if diskann_layout p then
        (case graph_host p of
           Some g \<Rightarrow> if i * h_R h * 4 + h_R h * 4 \<le> length g then Host_nbrs (i * h_R h * 4)
                     else Image_nbrs (entry_off p h i + h_dim h * h_vec_bytes h + 4)
         | None \<Rightarrow> Image_nbrs (entry_off p h i + h_dim h * h_vec_bytes h + 4))
      else (case graph_host p of
              Some g \<Rightarrow> Host_nbrs (i * h_R h * 4)
            | None \<Rightarrow> Image_nbrs (h_off_graph h + i * h_R h * 4)))"

definition u32_le :: "byte list \<Rightarrow> nat" where
  "u32_le bs = (\<Sum>k < 4. unat (bs ! k) * 256 ^ k)"

lemma u32_le_eq:
  "u32_le bs = unat (bs ! 0) + 256 * unat (bs ! 1) + 65536 * unat (bs ! 2) + 16777216 * unat (bs ! 3)"
proof -
  have "{..<4} = {0, 1, 2, 3 :: nat}" by auto
  then show ?thesis by (simp add: u32_le_def)
qed

lemma u32_le_int [code]:
  "u32_le bs = nat (uint (bs ! 0) + 256 * (uint (bs ! 1) + 256 * (uint (bs ! 2) + 256 * uint (bs ! 3))))"
proof -
  have "int (u32_le bs) = uint (bs ! 0) + 256 * (uint (bs ! 1) + 256 * (uint (bs ! 2) + 256 * uint (bs ! 3)))"
    by (simp add: u32_le_eq)
  then show ?thesis by (metis nat_int)
qed

definition nbr_at :: "placement \<Rightarrow> nbr_ptr \<Rightarrow> nat \<Rightarrow> nat" where
  "nbr_at p ptr k =
     (case ptr of
        Host_nbrs a \<Rightarrow> u32_le (mem_read (a + 4 * k) 4 (the (graph_host p)))
      | Image_nbrs a \<Rightarrow> u32_le (image_bytes (ssd_image p) (a + 4 * k) 4))"

definition nnbrs :: "placement \<Rightarrow> layout_header \<Rightarrow> nat \<Rightarrow> nat" where
  "nnbrs p h i =
     (if diskann_layout p then
        (if graph_host p \<noteq> None then h_R h
         else u32_le (image_bytes (ssd_image p) (entry_off p h i + h_dim h * h_vec_bytes h) 4))
      else h_R h)"

definition vec_off :: "placement \<Rightarrow> layout_header \<Rightarrow> nat \<Rightarrow> nat" where
  "vec_off p h i = (if diskann_layout p then entry_off p h i else h_off_vectors h + i * vec_stride p)"

definition packed_vec_bytes :: "placement \<Rightarrow> nat" where
  "packed_vec_bytes p = (case hdr p of Some h \<Rightarrow> h_dim h * h_vec_bytes h | None \<Rightarrow> 0)"

definition bundle_slot :: "placement \<Rightarrow> nat \<Rightarrow> nat \<Rightarrow> nat" where
  "bundle_slot p u k = bundle_off p + u * bundle_stride p + k * packed_vec_bytes p"

definition has_bundle :: "placement \<Rightarrow> bool" where
  "has_bundle p \<longleftrightarrow> bundle_stride p \<noteq> 0 \<and> bundle_bytes p \<noteq> 0"

section \<open>Ids of a page\<close>

text \<open>The ids handed to the callback, in order.\<close>

definition ids_touching_pages :: "placement \<Rightarrow> nat \<Rightarrow> nat \<Rightarrow> nat \<Rightarrow> nat list" where
  "ids_touching_pages p page_lo page_hi pb =
     (case hdr p of
        None \<Rightarrow> []
      | Some h \<Rightarrow>
          if vec_stride p = 0 \<or> pb = 0 then []
          else let v0 = h_off_vectors h; v1 = v0 + h_len_vectors h;
                   lo = (if v0 < page_lo then page_lo else v0);
                   hi = (if v1 < page_hi + pb then v1 else page_hi + pb)
               in if hi \<le> lo then []
                  else let rel_lo = lo - v0; rel_hi = hi - v0; packed = packed_vec_bytes p;
                           i0 = (if packed \<le> rel_lo
                                 then (rel_lo - packed + 1 + vec_stride p - 1) div vec_stride p else 0);
                           i1a = (rel_hi - 1) div vec_stride p;
                           i1 = (if h_n h \<le> i1a then sub32 (h_n h) 1 else i1a)
                       in [i0..<i1 + 1])"

definition ids_contained_in_page :: "placement \<Rightarrow> nat \<Rightarrow> nat \<Rightarrow> nat list" where
  "ids_contained_in_page p page_off pb =
     (case hdr p of
        None \<Rightarrow> []
      | Some h \<Rightarrow>
          if pb = 0 then []
          else if diskann_layout p \<and> vec_stride p \<noteq> 0 then
            (let v0 = h_off_vectors h; s = vec_stride p
             in if page_off + pb \<le> v0 then []
                else let i0 = (if v0 < page_off then (page_off - v0 + s - 1) div s else 0);
                         i1a = (if v0 < page_off + pb then (page_off + pb - v0) div s else 0);
                         i1b = (if i1a \<noteq> 0 then i1a - 1 else i1a);
                         i1 = (if h_n h \<le> i1b then sub32 (h_n h) 1 else i1b)
                     in map (id_of_slot p)
                          (filter (\<lambda>i. page_off \<le> v0 + i * s \<and> v0 + i * s + s \<le> page_off + pb)
                            [i0..<min (i1 + 1) (h_n h)]))
          else let packed = packed_vec_bytes p
               in if packed = 0 \<or> pb < packed then []
                  else if has_bundle p \<and> bundle_off p \<le> page_off \<and> page_off < bundle_off p + bundle_bytes p
                  then (let rel = page_off - bundle_off p; u = rel div bundle_stride p
                        in if h_n h \<le> u then []
                           else let local = rel mod bundle_stride p
                                in map (nbr_at p (nbrs p h u))
                                     (filter (\<lambda>k. local \<le> k * packed \<and> k * packed + packed \<le> local + pb)
                                       [0..<h_R h]))
                  else if vec_stride p = 0 then []
                  else let v0 = h_off_vectors h; s = vec_stride p;
                           vlo = (if v0 < page_off then page_off else v0); vhi = page_off + pb
                       in if v0 + h_len_vectors h \<le> vlo \<or> vhi \<le> vlo then []
                          else let i0 = (vlo - v0 + s - 1) div s;
                                   i1a = (vhi - v0) div s;
                                   i1b = (if i1a \<noteq> 0 then i1a - 1 else i1a);
                                   i1 = (if h_n h \<le> i1b then sub32 (h_n h) 1 else i1b)
                               in filter (\<lambda>i. page_off \<le> v0 + i * s \<and> v0 + i * s + packed \<le> page_off + pb)
                                    [i0..<min (i1 + 1) (h_n h)])"

section \<open>Pinning vectors of the window\<close>

text \<open>The counter is in the \<open>Metrics\<close> passed by the caller, a null pointer is \<open>None\<close>.\<close>

definition pin_vec_ids ::
  "placement \<Rightarrow> nat list \<Rightarrow> metrics option \<Rightarrow> dram_window \<Rightarrow> metrics option \<times> dram_window" where
  "pin_vec_ids p ids m w =
     fold (\<lambda>i (m, v). case hdr p of
                   None \<Rightarrow> (m, v)
                 | Some h \<Rightarrow>
                     if h_n h \<le> i then (m, v)
                     else (map_option (\<lambda>m. m\<lparr>hotset_pins := hotset_pins m + 1\<rparr>) m,
                           win_pin (ssd_image p) (vec_off p h i) (packed_vec_bytes p) v))
       ids (m, w)"

section \<open>Lemmas\<close>

lemma double_until_ge: "0 < s \<Longrightarrow> need \<le> double_until need s"
  by (induction need s rule: double_until.induct) (auto simp: double_until.simps)

lemma double_until_power: "\<exists>k. double_until need s = s * 2 ^ k"
proof (induction need s rule: double_until.induct)
  case (1 need s)
  show ?case
  proof (cases "0 < s \<and> s < need")
    case True
    with 1 obtain k where "double_until need (s * 2) = s * 2 * 2 ^ k" by auto
    with True have "double_until need s = s * 2 ^ Suc k" by (simp add: double_until.simps [of need s])
    then show ?thesis by blast
  next
    case False
    then have "double_until need s = s * 2 ^ 0" by (auto simp: double_until.simps [of need s])
    then show ?thesis by blast
  qed
qed

lemma double_until_minimal: "0 < s \<Longrightarrow> s < double_until need s \<Longrightarrow> double_until need s < 2 * need"
proof (induction need s rule: double_until.induct)
  case (1 need s)
  then have "s < need" by (auto simp: double_until.simps [of need s] split: if_splits)
  with 1 have eq: "double_until need s = double_until need (s * 2)" by (simp add: double_until.simps [of need s])
  show ?case
  proof (cases "s * 2 < double_until need (s * 2)")
    case True
    with 1 \<open>s < need\<close> show ?thesis by (simp add: eq)
  next
    case False
    obtain k where "double_until need (s * 2) = s * 2 * 2 ^ k" using double_until_power by blast
    then have "s * 2 \<le> double_until need (s * 2)" by simp
    with False \<open>s < need\<close> show ?thesis by (simp add: eq)
  qed
qed

text \<open>The inverse map built by \<open>load_id_slot_map\<close>.\<close>

lemma invert_slots_spec:
  assumes "length seen = n" "length im = n" "i + length ss = n"
    and "distinct (take i all)" "all = pre @ ss" "length pre = i"
    and "\<And>s. s < n \<Longrightarrow> seen ! s \<longleftrightarrow> s \<in> set pre"
    and "\<And>j. j < i \<Longrightarrow> pre ! j < n \<and> im ! (pre ! j) = j"
    and "distinct pre"
  shows "fst (invert_slots n i ss seen im) \<longleftrightarrow> distinct all \<and> (\<forall>s \<in> set ss. s < n)"
    and "fst (invert_slots n i ss seen im) \<Longrightarrow>
      length (snd (invert_slots n i ss seen im)) = n \<and>
      (\<forall>j < n. snd (invert_slots n i ss seen im) ! (all ! j) = j)"
  using assms
proof (induction ss arbitrary: i seen im pre)
  case Nil
  { case 1 then show ?case by simp }
  { case 2 then show ?case by simp }
next
  case (Cons s ss)
  { case 1
    show ?case
    proof (cases "n \<le> s \<or> seen ! s")
      case True
      with 1 show ?thesis by auto
    next
      case False
      then have ns: "s < n" "s \<notin> set pre" using 1 by auto
      have "fst (invert_slots n (i + 1) ss (seen[s := True]) (im[s := i])) \<longleftrightarrow>
          distinct all \<and> (\<forall>s \<in> set ss. s < n)"
        using 1 ns
        by (intro Cons.IH(1) [where pre = "pre @ [s]"]) (auto simp: nth_append nth_list_update less_Suc_eq)
      with False show ?thesis by simp
    qed }
  { case 2
    then have ok: "\<not> (n \<le> s \<or> seen ! s)" by (auto split: if_splits)
    then have ns: "s < n" "s \<notin> set pre" using 2 by auto
    have step: "invert_slots n i (s # ss) seen im = invert_slots n (i + 1) ss (seen[s := True]) (im[s := i])"
      using ok by simp
    show ?case
      unfolding step using 2 ns
      by (intro Cons.IH(2) [where pre = "pre @ [s]"]) (auto simp: nth_append nth_list_update less_Suc_eq step) }
qed

lemma invert_slots_load:
  assumes "length slots = n"
  shows "fst (invert_slots n 0 slots (replicate n False) (replicate n 0)) \<longleftrightarrow>
      distinct slots \<and> (\<forall>s \<in> set slots. s < n)"
    and "fst (invert_slots n 0 slots (replicate n False) (replicate n 0)) \<Longrightarrow>
      length (snd (invert_slots n 0 slots (replicate n False) (replicate n 0))) = n \<and>
      (\<forall>j < n. snd (invert_slots n 0 slots (replicate n False) (replicate n 0)) ! (slots ! j) = j)"
  using assms
  by (intro invert_slots_spec(1) [where pre = "[]"], simp_all)
     (intro invert_slots_spec(2) [where pre = "[]" and all = slots, simplified], simp_all)

definition slot_map_ok :: "placement \<Rightarrow> nat \<Rightarrow> bool" where
  "slot_map_ok p n \<longleftrightarrow>
     (\<forall>i < n. slot_of p i < n \<and> id_of_slot p (slot_of p i) = i) \<and>
     (\<forall>s < n. id_of_slot p s < n \<and> slot_of p (id_of_slot p s) = s)"

lemma perm_onto:
  assumes "distinct xs" "\<forall>x \<in> set xs. x < length xs"
  shows "set xs = {..<length xs}"
  using assms by (metis card_lessThan card_subset_eq distinct_card finite_lessThan lessThan_iff subsetI)

lemma slot_map_ok_identity: "id_to_slot p = [] \<Longrightarrow> slot_to_id p = [] \<Longrightarrow> slot_map_ok p n"
  by (simp add: slot_map_ok_def slot_of_def id_of_slot_def)

lemma slot_map_ok_inj:
  "slot_map_ok p n \<Longrightarrow> i < n \<Longrightarrow> j < n \<Longrightarrow> slot_of p i = slot_of p j \<Longrightarrow> i = j"
  by (metis slot_map_ok_def)

definition entries_apart :: "placement \<Rightarrow> layout_header \<Rightarrow> bool" where
  "entries_apart p h \<longleftrightarrow> (\<forall>i j. i < h_n h \<and> j < h_n h \<and> i \<noteq> j \<longrightarrow>
     entry_off p h i + vec_stride p \<le> entry_off p h j \<or> entry_off p h j + vec_stride p \<le> entry_off p h i)"

lemma slot_map_ok_apart: "slot_map_ok p (h_n h) \<Longrightarrow> entries_apart p h"
  using slot_map_ok_inj frames_disjoint
  by (auto simp: entries_apart_def entry_off_def) (metis add.assoc add_le_cancel_left)

lemma load_slot_map_accepts:
  assumes "hdr p = Some h"
  shows "fst (load_id_slot_map (Some words) p) \<longleftrightarrow> h_n h \<le> length words \<and>
    distinct (take (h_n h) words) \<and> (\<forall>s \<in> set (take (h_n h) words). s < h_n h)"
  using assms invert_slots_load(1) [of "take (h_n h) words" "h_n h"]
  by (auto simp: load_id_slot_map_def Let_def split: prod.splits)

lemma load_slot_map_ok:
  assumes "hdr p = Some h" and ok: "fst (load_id_slot_map (Some words) p)"
  shows "slot_map_ok (snd (load_id_slot_map (Some words) p)) (h_n h)"
proof -
  let ?n = "h_n h" and ?ss = "take (h_n h) words"
  let ?r = "invert_slots ?n 0 ?ss (replicate ?n False) (replicate ?n 0)"
  have len: "length ?ss = ?n" and perm: "distinct ?ss" "\<forall>s \<in> set ?ss. s < ?n"
    using ok load_slot_map_accepts [OF assms(1)] by auto
  have r: "fst ?r" using invert_slots_load(1) [OF len] perm by simp
  note I = invert_slots_load(2) [OF len r]
  let ?p = "snd (load_id_slot_map (Some words) p)"
  have p': "?p = p\<lparr>slot_to_id := snd ?r, id_to_slot := ?ss\<rparr>"
    using assms r len by (simp add: load_id_slot_map_def Let_def split_beta)
  have slot: "slot_of ?p i = ?ss ! i" if "i < ?n" for i
    using that len by (auto simp: p' slot_of_def)
  have idof: "id_of_slot ?p s = snd ?r ! s" if "s < ?n" for s
    using that I by (auto simp: p' id_of_slot_def)
  have onto: "set ?ss = {..<?n}" using perm_onto [OF perm(1)] perm(2) unfolding len by blast
  show ?thesis
    unfolding slot_map_ok_def
  proof (intro conjI allI impI)
    fix i assume i: "i < ?n"
    then show "slot_of ?p i < ?n" using slot perm(2) len by (metis nth_mem)
    with i show "id_of_slot ?p (slot_of ?p i) = i" using slot idof I by simp
  next
    fix s assume "s < ?n"
    then obtain i where i: "i < ?n" "s = ?ss ! i" using onto len by (metis in_set_conv_nth lessThan_iff)
    have "id_of_slot ?p s = i" using idof [OF \<open>s < ?n\<close>] I i by simp
    with i slot show "id_of_slot ?p s < ?n" "slot_of ?p (id_of_slot ?p s) = s" by simp_all
  qed
qed

text \<open>C31. \<open>load_id_slot_map\<close> accepts a file exactly when its first n words are a
  permutation of the ids; then \<open>slot_of\<close> and \<open>id_of_slot\<close> are inverse bijections and the
  records of different ids do not overlap in the image.\<close>
theorem load_slot_map_bijection:
  assumes "hdr p = Some h" and "load_id_slot_map (Some words) p = (ok, q)"
  shows "(ok \<longleftrightarrow> h_n h \<le> length words \<and> distinct (take (h_n h) words) \<and>
            (\<forall>s \<in> set (take (h_n h) words). s < h_n h)) \<and>
    (ok \<longrightarrow> slot_map_ok q (h_n h) \<and> entries_apart q h)"
  using load_slot_map_accepts [OF assms(1), of words] load_slot_map_ok [OF assms(1), of words]
    slot_map_ok_apart [of q h] assms(2) by auto

definition demo_header :: layout_header where
  "demo_header = \<lparr>h_magic = kCxanMagic, h_version = 2, h_n = 4, h_dim = 16, h_R = 2, h_pq_bytes = 0,
     h_vec_bytes = 4, h_entry_id = 0, h_entry_nodes = 1, h_off_pq = 0, h_len_pq = 0, h_off_graph = 0,
     h_len_graph = 0, h_off_vectors = 4096, h_len_vectors = 8192, h_off_pivots = 0, h_len_pivots = 0,
     h_checksum = 0\<rparr>"

definition demo_place :: placement where
  "demo_place = set_header demo_header
     \<lparr>hdr = None, ssd_image = (\<lambda>_. 0), ssd_bytes = 12288, vec_stride = 0, graph_host = None,
      diskann_layout = False, id_to_slot = [], slot_to_id = [], bundle_off = 0, bundle_stride = 0,
      bundle_bytes = 0\<rparr>"

lemma demo_place_simps: "hdr demo_place = Some demo_header" "vec_stride demo_place = 2048"
  "diskann_layout demo_place" "packed_vec_bytes demo_place = 64" "id_to_slot demo_place = []"
  "slot_to_id demo_place = []"
  by (simp_all add: demo_place_def demo_header_def set_header_def packed_vec_bytes_def)

lemma demo_header_simps: "h_n demo_header = 4" "h_off_vectors demo_header = 4096" "h_len_vectors demo_header = 8192"
  "h_dim demo_header = 16" "h_R demo_header = 2" "h_vec_bytes demo_header = 4"
  by (simp_all add: demo_header_def)

theorem load_slot_map_bijection_witness:
  "slot_map_ok (snd (load_id_slot_map (Some [2, 0, 3, 1]) demo_place)) 4 \<and>
   \<not> fst (load_id_slot_map (Some [2, 0, 2, 1]) demo_place)"
  using load_slot_map_bijection [OF demo_place_simps(1) prod.collapse [symmetric], of "[2, 0, 3, 1]"]
    load_slot_map_bijection [OF demo_place_simps(1) prod.collapse [symmetric], of "[2, 0, 2, 1]"]
  by (simp add: demo_header_simps)

section \<open>Neighbours in a page\<close>

lemma xor1_eq: "xor1 s = (if even s then s + 1 else s - 1)"
  using xor_one_eq [of s] by (auto simp: xor1_def)

text \<open>With two records in a page, \<open>page_sibling\<close> is the id of the other record of the
  page of an id: it is its own inverse and both records lie in the same 4096 bytes.\<close>
theorem page_sibling_pairs:
  assumes "hdr p = Some h" and "slot_map_ok p (h_n h)" and "vec_stride p = 2048" and "i < h_n h"
  shows "page_sibling p (page_sibling p i) = i \<and> page_sibling p i < h_n h \<and>
    slot_of p (page_sibling p i) div 2 = slot_of p i div 2 \<and>
    (xor1 (slot_of p i) < h_n h \<longrightarrow> page_sibling p i \<noteq> i)"
proof -
  let ?s = "slot_of p i"
  have s: "?s < h_n h" "id_of_slot p ?s = i" using assms(2,4) by (auto simp: slot_map_ok_def)
  show ?thesis
  proof (cases "h_n h \<le> xor1 ?s")
    case True
    then have "page_sibling p i = i" using assms by (simp add: page_sibling_def Let_def)
    then show ?thesis using assms(4) True by simp
  next
    case False
    let ?j = "id_of_slot p (xor1 ?s)"
    have sib: "page_sibling p i = ?j" using assms False by (simp add: page_sibling_def Let_def)
    have j: "?j < h_n h" "slot_of p ?j = xor1 ?s" using assms(2) False by (auto simp: slot_map_ok_def)
    have x: "xor1 (xor1 ?s) = ?s" "xor1 ?s div 2 = ?s div 2" "xor1 ?s \<noteq> ?s"
      by (cases "even ?s"; auto simp: xor1_eq elim!: oddE evenE)+
    have "page_sibling p ?j = i" using assms j x s by (simp add: page_sibling_def Let_def)
    moreover have "?j \<noteq> i" using j(2) x(3) by metis
    ultimately show ?thesis using sib j x by simp
  qed
qed

theorem page_sibling_pairs_witness: "page_sibling demo_place 2 = 3 \<and> page_sibling demo_place 3 = 2"
proof -
  have "slot_map_ok demo_place (h_n demo_header)" by (simp add: slot_map_ok_identity demo_place_simps)
  from page_sibling_pairs [OF demo_place_simps(1) this demo_place_simps(2), of 2]
  have "page_sibling demo_place (page_sibling demo_place 2) = 2" by (simp add: demo_header_simps)
  moreover have "page_sibling demo_place 2 = 3"
    by (simp add: page_sibling_def demo_place_simps demo_header_simps slot_of_def id_of_slot_def xor1_eq)
  ultimately show ?thesis by simp
qed

section \<open>Ids of a page range\<close>

lemma div_up_le: "0 < s \<Longrightarrow> (a + s - 1) div s \<le> i \<longleftrightarrow> a \<le> i * (s :: nat)"
proof -
  assume s: "0 < s"
  have "(a + s - 1) div s \<le> i \<longleftrightarrow> a + s - 1 < (i + 1) * s"
    using s by (metis Suc_eq_plus1 div_less_iff_less_mult less_Suc_eq_le)
  also have "\<dots> \<longleftrightarrow> a \<le> i * s" using s by (auto simp: algebra_simps)
  finally show ?thesis .
qed

lemma div_ge: "0 < s \<Longrightarrow> i \<le> a div s \<longleftrightarrow> i * s \<le> (a :: nat)"
  by (simp add: less_eq_div_iff_mult_less_eq)

lemma sub32_1: "0 < n \<Longrightarrow> n < 2 ^ 32 \<Longrightarrow> sub32 n 1 = n - 1"
proof -
  assume n: "0 < n" "n < 2 ^ 32"
  have "n + 2 ^ 32 - 1 = (n - 1) + 2 ^ 32" using n by simp
  then have "sub32 n 1 = (n - 1) mod 2 ^ 32" unfolding sub32_def by (simp only: mod_add_self2)
  also have "\<dots> = n - 1" using n by (intro mod_less) simp
  finally show ?thesis .
qed

text \<open>\<open>for_ids_touching_pages\<close> visits exactly the ids whose vector has a byte in the
  page range, once each and in ascending order.\<close>
theorem touching_pages_exact:
  assumes "hdr p = Some h" and "0 < packed_vec_bytes p" and "packed_vec_bytes p \<le> vec_stride p"
    and "h_len_vectors h = h_n h * vec_stride p" and "0 < h_n h" and "h_n h < 2 ^ 32" and "0 < pb"
    and "lo \<le> hi"
  shows "i \<in> set (ids_touching_pages p lo hi pb) \<longleftrightarrow>
      i < h_n h \<and> h_off_vectors h + i * vec_stride p < hi + pb \<and>
      lo < h_off_vectors h + i * vec_stride p + packed_vec_bytes p" (is "?L \<longleftrightarrow> ?R")
proof -
  let ?s = "vec_stride p" and ?v0 = "h_off_vectors h" and ?pk = "packed_vec_bytes p" and ?n = "h_n h"
  let ?lo = "if ?v0 < lo then lo else ?v0"
  let ?v1 = "?v0 + h_len_vectors h"
  let ?hi = "if ?v1 < hi + pb then ?v1 else hi + pb"
  have s: "0 < ?s" using assms by linarith
  have lim: "i * ?s + ?s \<le> ?n * ?s" if "i < ?n" using frame_in_arena [OF that order_refl] .
  have n1: "sub32 ?n 1 = ?n - 1" using assms by (intro sub32_1)
  show ?thesis
  proof (cases "?hi \<le> ?lo")
    case True
    then have "ids_touching_pages p lo hi pb = []"
      using assms(1,7) s unfolding ids_touching_pages_def Let_def by (simp only: option.case if_True) simp
    moreover have "\<not> ?R"
    proof
      assume R: ?R
      with lim have "i * ?s + ?s \<le> h_len_vectors h" by (simp add: assms(4))
      with R True assms(2,3,7,8) show False by (auto split: if_splits)
    qed
    ultimately show ?thesis by simp
  next
    case False
    define rl where "rl = ?lo - ?v0"
    define rh where "rh = ?hi - ?v0"
    define i0 where "i0 = (if ?pk \<le> rl then (rl - ?pk + 1 + ?s - 1) div ?s else 0)"
    define i1 where "i1 = (rh - 1) div ?s"
    have eq: "ids_touching_pages p lo hi pb = [i0..<(if ?n \<le> i1 then ?n - 1 else i1) + 1]"
    proof -
      have "(?s = 0 \<or> pb = 0) = False" "(?hi \<le> ?lo) = False" using assms(7) s False by auto
      then show ?thesis
        by (simp only: ids_touching_pages_def Let_def assms(1) option.case if_True if_False i0_def i1_def
            rl_def rh_def n1)
    qed
    have rh: "0 < rh" "rl < rh" "rh \<le> ?n * ?s" using False s assms(5) by (auto simp: rh_def rl_def assms(4) split: if_splits)
    have a: "i0 \<le> i \<longleftrightarrow> rl < i * ?s + ?pk"
    proof (cases "?pk \<le> rl")
      case True
      then have "i0 \<le> i \<longleftrightarrow> rl - ?pk + 1 \<le> i * ?s" using div_up_le [OF s, of "rl - ?pk + 1" i] by (simp add: i0_def)
      with True show ?thesis by auto
    qed (simp add: i0_def)
    have b: "i \<le> i1 \<longleftrightarrow> i * ?s < rh" using div_ge [OF s, of i "rh - 1"] rh(1) by (simp add: i1_def less_eq_Suc_le) arith
    have c: "i < ?n" if "i * ?s < rh" using that rh(3) s by (metis less_le_trans mult_less_cancel2)
    have d: "i < (if ?n \<le> i1 then ?n - 1 else i1) + 1 \<longleftrightarrow> i < ?n \<and> i * ?s < rh"
      using b c assms(5) by (auto split: if_splits)
    have e: "rl < i * ?s + ?pk \<longleftrightarrow> lo < ?v0 + i * ?s + ?pk" using assms(2) by (auto simp: rl_def)
    have f: "i * ?s < rh \<longleftrightarrow> ?v0 + i * ?s < hi + pb" if "i < ?n"
      using lim [OF that] s that by (auto simp: rh_def assms(4) split: if_splits)
    show ?thesis unfolding eq using a d e f c by auto
  qed
qed

theorem touching_pages_exact_witness: "1 \<in> set (ids_touching_pages demo_place 4096 4096 4096)"
  using touching_pages_exact [OF demo_place_simps(1), where lo = 4096 and hi = 4096 and pb = 4096 and i = 1]
  by (simp add: demo_place_simps demo_header_simps)

lemma contained_range:
  assumes s: "0 < (s::nat)" and n: "0 < n" "n < 2 ^ 32" and i: "i < n"
    and a: "po \<le> v0 + i * s" and b: "v0 + i * s + s \<le> po + pb"
  shows "(if v0 < po then (po - v0 + s - 1) div s else 0) \<le> i \<and>
    i < min ((if n \<le> (let i1 = (po + pb - v0) div s in if i1 \<noteq> 0 then i1 - 1 else i1) then sub32 n 1
              else (let i1 = (po + pb - v0) div s in if i1 \<noteq> 0 then i1 - 1 else i1)) + 1) n"
proof -
  have "(po - v0 + s - 1) div s \<le> i" using a div_up_le [OF s, of "po - v0" i] by simp
  moreover have "(i + 1) * s \<le> po + pb - v0" using b by (simp add: algebra_simps)
  then have "i + 1 \<le> (po + pb - v0) div s" using div_ge [OF s] by blast
  ultimately show ?thesis using i n sub32_1 [OF n] by (auto simp: Let_def)
qed

text \<open>In the one-record layout, \<open>for_ids_contained_in_page\<close> visits exactly the ids
  whose whole record lies in the page.\<close>
theorem contained_in_page_exact:
  assumes "hdr p = Some h" and "diskann_layout p" and "0 < vec_stride p"
    and "0 < h_n h" and "h_n h < 2 ^ 32" and "0 < pb" and "slot_map_ok p (h_n h)"
  shows "set (ids_contained_in_page p po pb) =
    {i. i < h_n h \<and> po \<le> entry_off p h i \<and> entry_off p h i + vec_stride p \<le> po + pb}"
proof -
  let ?s = "vec_stride p" and ?v0 = "h_off_vectors h" and ?n = "h_n h"
  let ?S = "{s. s < ?n \<and> po \<le> ?v0 + s * ?s \<and> ?v0 + s * ?s + ?s \<le> po + pb}"
  have "set (ids_contained_in_page p po pb) = id_of_slot p ` ?S"
  proof (cases "po + pb \<le> ?v0")
    case True
    with assms(3) have "?S = {}" by auto
    moreover have "ids_contained_in_page p po pb = []" using True assms by (simp add: ids_contained_in_page_def Let_def)
    ultimately show ?thesis by simp
  next
    case False
    define A where "A = (if ?v0 < po then (po - ?v0 + ?s - 1) div ?s else 0)"
    define I where "I = (let i1 = (po + pb - ?v0) div ?s in if i1 \<noteq> 0 then i1 - 1 else i1)"
    define B where "B = min ((if ?n \<le> I then sub32 ?n 1 else I) + 1) ?n"
    have eq: "ids_contained_in_page p po pb = map (id_of_slot p)
        (filter (\<lambda>i. po \<le> ?v0 + i * ?s \<and> ?v0 + i * ?s + ?s \<le> po + pb) [A..<B])"
    proof -
      have "(pb = 0) = False" "(diskann_layout p \<and> ?s \<noteq> 0) = True" "(po + pb \<le> ?v0) = False"
        "(?v0 < po + pb) = True" using False assms by auto
      then show ?thesis
        by (simp only: ids_contained_in_page_def Let_def assms(1) option.case if_True if_False A_def B_def I_def)
    qed
    have "A \<le> i \<and> i < B" if "i \<in> ?S" for i
      using contained_range [OF assms(3,4,5), of i po ?v0 pb] that
      unfolding A_def [symmetric] I_def [symmetric] B_def [symmetric] by blast
    moreover have "B \<le> ?n" by (simp add: B_def)
    ultimately have "set (filter (\<lambda>i. po \<le> ?v0 + i * ?s \<and> ?v0 + i * ?s + ?s \<le> po + pb) [A..<B]) = ?S"
      unfolding set_filter set_upt by fastforce
    then show ?thesis using eq by (simp only: set_map)
  qed
  also have "\<dots> = {i. i < ?n \<and> slot_of p i \<in> ?S}"
    using assms(7) unfolding slot_map_ok_def by (auto simp: image_iff) metis+
  also have "\<dots> = {i. i < ?n \<and> po \<le> entry_off p h i \<and> entry_off p h i + ?s \<le> po + pb}"
    using assms(7) by (auto simp: entry_off_def slot_map_ok_def)
  finally show ?thesis .
qed

theorem contained_in_page_exact_witness: "set (ids_contained_in_page demo_place 8192 4096) = {2, 3}"
proof -
  have m: "slot_map_ok demo_place (h_n demo_header)" by (simp add: slot_map_ok_identity demo_place_simps)
  have "{i. i < 4 \<and> 8192 \<le> 4096 + i * 2048 \<and> 4096 + i * 2048 + 2048 \<le> (12288 :: nat)} = {2, 3}" by auto
  then show ?thesis
    using contained_in_page_exact [OF demo_place_simps(1,3) _ _ _ _ m, of 4096 8192]
    by (simp add: demo_place_simps demo_header_simps entry_off_def slot_of_def)
qed

end
