(* ===== verification/ScoreCache.thy ===== *)
theory ScoreCache
  imports Prelude
begin

text \<open>
  \<open>serving/score_cache.hpp\<close> and \<open>serving/inflight_trace.hpp\<close>: the split of neighbour
  ids by whether their page was in the software cache, and the bounded trace of fills.
\<close>

section \<open>score_cache_split\<close>

text \<open>Ids and page indices are parallel arrays of \<open>n_ids\<close> entries; result: now, later.\<close>

definition cache_hit :: "bool list \<Rightarrow> nat \<Rightarrow> nat \<Rightarrow> bool" where
  "cache_hit hit n_pages p \<longleftrightarrow> p < n_pages \<and> hit ! p"

fun score_cache_split ::
  "(nat \<times> nat) list \<Rightarrow> bool list \<Rightarrow> nat \<Rightarrow> nat list \<times> nat list \<Rightarrow> nat list \<times> nat list" where
  "score_cache_split [] hit n_pages (now, later) = (now, later)"
| "score_cache_split ((i, p) # xs) hit n_pages (now, later) =
     (if cache_hit hit n_pages p then score_cache_split xs hit n_pages (now @ [i], later)
      else score_cache_split xs hit n_pages (now, later @ [i]))"

lemma score_cache_split_eq:
  "score_cache_split xs hit n (now, later) =
     (now @ map fst (filter (\<lambda>x. cache_hit hit n (snd x)) xs),
      later @ map fst (filter (\<lambda>x. \<not> cache_hit hit n (snd x)) xs))"
  by (induction xs arbitrary: now later) auto

section \<open>InflightTrace\<close>

record fill_rec =
  f_qi :: nat
  f_cand_n :: nat
  f_page_n :: nat
  f_miss_n :: nat
  f_issue_n :: nat
  f_extent_extra_n :: nat
  f_fill_wait_ns :: nat

record inflight_sample =
  t_ns :: nat
  sw_pages :: nat
  sw_slots :: nat
  q_wait :: nat

record inflight_trace =
  max_samples :: nat
  fills :: "fill_rec list"
  samples :: "inflight_sample list"

definition note_query_fill ::
  "nat \<Rightarrow> nat \<Rightarrow> nat \<Rightarrow> nat \<Rightarrow> nat \<Rightarrow> nat \<Rightarrow> nat \<Rightarrow> inflight_trace \<Rightarrow> inflight_trace" where
  "note_query_fill qi cand pages miss issued extra wait t =
     t\<lparr>fills := fills t @ [\<lparr>f_qi = qi, f_cand_n = cand, f_page_n = pages, f_miss_n = miss,
        f_issue_n = issued, f_extent_extra_n = extra, f_fill_wait_ns = wait\<rparr>]\<rparr>"

definition trace_sample :: "nat \<Rightarrow> nat \<Rightarrow> nat \<Rightarrow> nat \<Rightarrow> inflight_trace \<Rightarrow> inflight_trace" where
  "trace_sample t p s q tr =
     (if max_samples tr \<le> length (samples tr) then tr
      else tr\<lparr>samples := samples tr @ [\<lparr>t_ns = t, sw_pages = p, sw_slots = s, q_wait = q\<rparr>]\<rparr>)"

definition peak_sw_pages :: "inflight_trace \<Rightarrow> nat" where
  "peak_sw_pages tr = fold (\<lambda>s p. max p (sw_pages s)) (samples tr) 0"

lemma trace_sample_bound:
  "length (samples tr) \<le> max_samples tr \<Longrightarrow> length (samples (trace_sample t p s q tr)) \<le> max_samples tr"
  by (simp add: trace_sample_def)

lemma fold_max_sw: "fold (\<lambda>s p. max p (sw_pages s)) xs a = Max (insert a (sw_pages ` set xs))"
proof (induction xs arbitrary: a)
  case (Cons x xs)
  then show ?case by (cases "xs = []") (simp_all add: max.assoc)
qed simp

end
