(* ===== verification/Copy_Pool.thy ===== *)
theory Copy_Pool
  imports Prelude "HOL-Library.Multiset"
begin

text \<open>
  \<open>serving/page_copy_pool.hpp\<close>: the persistent workers that copy pages or run a function.
  The queue is a vector with a head index. Both sides are cut at their shared accesses. The
  search thread keeps the rest of its current call in \<open>p_todo\<close>: the store of the ready flag,
  the \<open>fetch_add\<close>, the critical section that pushes, the notification and, in \<open>stop_join\<close>,
  the setting of \<open>stop\<close> and the join are steps of their own. A worker is ready to take the
  mutex, asleep in \<open>cv.wait\<close> until something notifies it (or it wakes up spuriously), or
  at one of the points of the loop body. The two sides interleave freely, at the level of a
  sequentially consistent memory. Memory is one array of bytes, ready flags are the set of
  addresses that hold 1. A function job is a transformer of the memory with a name.
\<close>

section \<open>State\<close>

datatype 'f job =
    Copy (j_src: "nat option") (j_dst: "nat option") (j_len: nat) (j_ready: "nat option")
  | Run (j_fn: 'f)

text \<open>
  Where a worker is in \<open>loop()\<close>: about to lock the mutex and test the predicate of \<open>cv.wait\<close>,
  blocked in \<open>cv.wait\<close>, holding a job it took, after the copy or call, after the store of the
  ready flag, returned.
\<close>

datatype 'f wpc = Ready | Asleep | Took "'f job" | Ran "'f job" | Flagged "'f job" | Returned

text \<open>The atomic steps of the calls of the search thread.\<close>

datatype 'f act =
    Reset_flag nat | Add_inflight nat | Push "'f job list" | Notify_one | Notify_all | Set_stop | Join

record 'f pool =
  p_nworkers :: nat
  p_workers :: "'f wpc list"
  p_queue :: "'f job list"
  p_head :: nat
  p_inflight :: nat
  p_stop :: bool
  p_mem :: "nat \<Rightarrow> byte"
  p_ready :: "nat set"
  p_todo :: "'f act list"

text \<open>An object before \<open>start\<close>.\<close>

definition pool_new :: "(nat \<Rightarrow> byte) \<Rightarrow> 'f pool" where
  "pool_new m = \<lparr>p_nworkers = 0, p_workers = [], p_queue = [], p_head = 0, p_inflight = 0, p_stop = False,
     p_mem = m, p_ready = {}, p_todo = []\<rparr>"

section \<open>Operations of the search thread\<close>

definition pool_start :: "nat \<Rightarrow> 'f pool \<Rightarrow> 'f pool" where
  "pool_start w0 p =
     (let w = (if w0 = 0 then 1 else w0)
      in if p_workers p \<noteq> [] then p else p\<lparr>p_nworkers := w, p_workers := replicate w Ready\<rparr>)"

definition compact_locked :: "'f pool \<Rightarrow> 'f pool" where
  "compact_locked p =
     (if 1024 < p_head p \<and> length (p_queue p) < p_head p * 2
      then p\<lparr>p_queue := drop (p_head p) (p_queue p), p_head := 0\<rparr> else p)"

definition push_jobs :: "'f job list \<Rightarrow> 'f pool \<Rightarrow> 'f pool" where
  "push_jobs js p = (let p1 = compact_locked p in p1\<lparr>p_queue := p_queue p1 @ js\<rparr>)"

definition pool_submit :: "nat option \<Rightarrow> nat option \<Rightarrow> nat \<Rightarrow> nat option \<Rightarrow> 'f act list" where
  "pool_submit s d n r =
     (case r of None \<Rightarrow> [] | Some a \<Rightarrow> [Reset_flag a]) @ [Add_inflight 1, Push [Copy s d n r], Notify_one]"

definition submit_fn :: "'f \<Rightarrow> 'f act list" where
  "submit_fn f = [Add_inflight 1, Push [Run f], Notify_one]"

definition submit_fns :: "'f list \<Rightarrow> 'f act list" where
  "submit_fns fs =
     (if fs = [] then [] else [Add_inflight (length fs), Push (map Run fs), Notify_all])"

definition stop_join :: "'f act list" where
  "stop_join = [Set_stop, Notify_all, Join]"

text \<open>\<open>wait_idle\<close> spins until this holds.\<close>

definition pool_idle :: "'f pool \<Rightarrow> bool" where
  "pool_idle p \<longleftrightarrow> p_inflight p = 0"

definition queued_approx :: "'f pool \<Rightarrow> nat" where
  "queued_approx p = length (p_queue p) - p_head p"

text \<open>What follows in \<open>stop_join\<close> when every thread has joined.\<close>

definition stop_joined :: "'f pool \<Rightarrow> 'f pool" where
  "stop_joined p = p\<lparr>p_workers := [], p_nworkers := 0, p_queue := [], p_head := 0, p_inflight := 0, p_stop := False\<rparr>"

definition wake :: "'f wpc \<Rightarrow> 'f wpc" where
  "wake c = (case c of Asleep \<Rightarrow> Ready | _ \<Rightarrow> c)"

text \<open>
  The next step of the search thread, \<open>None\<close> when it has none or is blocked in \<open>join\<close>. The
  worker that \<open>notify_one\<close> wakes is any of those asleep: \<open>t\<close> is the choice.
\<close>

definition caller_act :: "nat \<Rightarrow> 'f pool \<Rightarrow> 'f pool option" where
  "caller_act t p =
     (case p_todo p of
        [] \<Rightarrow> None
      | a # as \<Rightarrow>
          let p1 = p\<lparr>p_todo := as\<rparr>
          in case a of
               Reset_flag r \<Rightarrow> Some (p1\<lparr>p_ready := p_ready p - {r}\<rparr>)
             | Add_inflight n \<Rightarrow> Some (p1\<lparr>p_inflight := p_inflight p + n\<rparr>)
             | Push js \<Rightarrow> Some (push_jobs js p1)
             | Notify_one \<Rightarrow>
                 if Asleep \<notin> set (p_workers p) then Some p1
                 else if t < length (p_workers p) \<and> p_workers p ! t = Asleep
                 then Some (p1\<lparr>p_workers := (p_workers p)[t := Ready]\<rparr>)
                 else None
             | Notify_all \<Rightarrow> Some (p1\<lparr>p_workers := map wake (p_workers p)\<rparr>)
             | Set_stop \<Rightarrow> Some (p1\<lparr>p_stop := True\<rparr>)
             | Join \<Rightarrow> if list_all (\<lambda>c. c = Returned) (p_workers p) then Some (stop_joined p1) else None)"

section \<open>The worker\<close>

definition write_mem :: "nat \<Rightarrow> byte list \<Rightarrow> (nat \<Rightarrow> byte) \<Rightarrow> nat \<Rightarrow> byte" where
  "write_mem a bs m = (\<lambda>i. if a \<le> i \<and> i < a + length bs then bs ! (i - a) else m i)"

definition job_effect :: "('f \<Rightarrow> (nat \<Rightarrow> byte) \<Rightarrow> nat \<Rightarrow> byte) \<Rightarrow> 'f job \<Rightarrow> (nat \<Rightarrow> byte) \<Rightarrow> nat \<Rightarrow> byte" where
  "job_effect run j m =
     (case j of
        Run f \<Rightarrow> run f m
      | Copy s d n r \<Rightarrow>
          (case (d, s) of
             (Some b, Some a) \<Rightarrow> if n = 0 then m else write_mem b (image_bytes m a n) m
           | _ \<Rightarrow> m))"

definition job_flag :: "'f job \<Rightarrow> nat set \<Rightarrow> nat set" where
  "job_flag j rs = (case j of Run f \<Rightarrow> rs | Copy s d n r \<Rightarrow> (case r of None \<Rightarrow> rs | Some a \<Rightarrow> insert a rs))"

text \<open>
  One atomic action of worker \<open>t\<close>; \<open>None\<close> when it is blocked in \<open>cv.wait\<close> or gone. With the
  mutex held it tests the predicate: it takes a job, returns, or falls asleep.
\<close>

definition worker_act ::
  "('f \<Rightarrow> (nat \<Rightarrow> byte) \<Rightarrow> nat \<Rightarrow> byte) \<Rightarrow> nat \<Rightarrow> 'f pool \<Rightarrow> 'f pool option" where
  "worker_act run t p =
     (case p_workers p ! t of
        Ready \<Rightarrow>
          if p_head p < length (p_queue p)
          then Some (p\<lparr>p_workers := (p_workers p)[t := Took (p_queue p ! p_head p)], p_head := p_head p + 1\<rparr>)
          else if p_stop p then Some (p\<lparr>p_workers := (p_workers p)[t := Returned]\<rparr>)
          else Some (p\<lparr>p_workers := (p_workers p)[t := Asleep]\<rparr>)
      | Asleep \<Rightarrow> None
      | Took j \<Rightarrow> Some (p\<lparr>p_workers := (p_workers p)[t := Ran j], p_mem := job_effect run j (p_mem p)\<rparr>)
      | Ran j \<Rightarrow> Some (p\<lparr>p_workers := (p_workers p)[t := Flagged j], p_ready := job_flag j (p_ready p)\<rparr>)
      | Flagged j \<Rightarrow> Some (p\<lparr>p_workers := (p_workers p)[t := Ready], p_inflight := p_inflight p - 1\<rparr>)
      | Returned \<Rightarrow> None)"

section \<open>Runs\<close>

datatype 'f call =
    Submit "nat option" "nat option" nat "nat option" | Submit_fn 'f | Submit_fns "'f list" | Stop_join

definition call_acts :: "'f call \<Rightarrow> 'f act list" where
  "call_acts c =
     (case c of Submit s d n r \<Rightarrow> pool_submit s d n r | Submit_fn f \<Rightarrow> submit_fn f
      | Submit_fns fs \<Rightarrow> submit_fns fs | Stop_join \<Rightarrow> stop_join)"

definition call_jobs :: "'f call \<Rightarrow> 'f job list" where
  "call_jobs c =
     (case c of Submit s d n r \<Rightarrow> [Copy s d n r] | Submit_fn f \<Rightarrow> [Run f]
      | Submit_fns fs \<Rightarrow> map Run fs | Stop_join \<Rightarrow> [])"

text \<open>
  A step of the pool, with what was submitted (\<open>l_sub\<close>), taken from the queue (\<open>l_taken\<close>) and
  finished (\<open>l_done\<close>) so far as ghost lists. The search thread begins a call when its last one
  has returned; jobs are submitted to a pool that has been started, as the callers do.
\<close>

record 'f run_log =
  l_sub :: "'f job list"
  l_taken :: "'f job list"
  l_done :: "'f job list"

definition log_new :: "'f run_log" where
  "log_new = \<lparr>l_sub = [], l_taken = [], l_done = []\<rparr>"

definition log_act :: "nat \<Rightarrow> 'f pool \<Rightarrow> 'f run_log \<Rightarrow> 'f run_log" where
  "log_act t p l =
     (case p_workers p ! t of
        Ready \<Rightarrow> if p_head p < length (p_queue p) then l\<lparr>l_taken := l_taken l @ [p_queue p ! p_head p]\<rparr> else l
      | Flagged j \<Rightarrow> l\<lparr>l_done := l_done l @ [j]\<rparr>
      | _ \<Rightarrow> l)"

inductive pool_step ::
  "('f \<Rightarrow> (nat \<Rightarrow> byte) \<Rightarrow> nat \<Rightarrow> byte) \<Rightarrow> 'f run_log \<times> 'f pool \<Rightarrow> 'f run_log \<times> 'f pool \<Rightarrow> bool"
  for run where
  ps_call: "p_todo p = [] \<Longrightarrow> c = Stop_join \<or> p_workers p \<noteq> [] \<Longrightarrow>
    pool_step run (l, p) (l\<lparr>l_sub := l_sub l @ call_jobs c\<rparr>, p\<lparr>p_todo := call_acts c\<rparr>)"
| ps_start: "p_todo p = [] \<Longrightarrow> pool_step run (l, p) (l, pool_start w p)"
| ps_caller: "caller_act t p = Some q \<Longrightarrow> pool_step run (l, p) (l, q)"
| ps_worker: "t < length (p_workers p) \<Longrightarrow> worker_act run t p = Some q \<Longrightarrow> pool_step run (l, p) (log_act t p l, q)"
| ps_spurious: "t < length (p_workers p) \<Longrightarrow> p_workers p ! t = Asleep \<Longrightarrow>
    pool_step run (l, p) (l, p\<lparr>p_workers := (p_workers p)[t := Ready]\<rparr>)"

inductive pool_reach ::
  "('f \<Rightarrow> (nat \<Rightarrow> byte) \<Rightarrow> nat \<Rightarrow> byte) \<Rightarrow> nat \<Rightarrow> (nat \<Rightarrow> byte) \<Rightarrow> 'f run_log \<times> 'f pool \<Rightarrow> bool"
  for run w m where
  pr_init: "pool_reach run w m (log_new, pool_start w (pool_new m))"
| pr_step: "pool_reach run w m s \<Longrightarrow> pool_step run s s' \<Longrightarrow> pool_reach run w m s'"

section \<open>Every job is run exactly once, in order of submission\<close>

definition held :: "'f wpc \<Rightarrow> 'f job list" where
  "held c = (case c of Took j \<Rightarrow> [j] | Ran j \<Rightarrow> [j] | Flagged j \<Rightarrow> [j] | _ \<Rightarrow> [])"

definition busy :: "'f pool \<Rightarrow> 'f job list" where
  "busy p = concat (map held (p_workers p))"

definition waiting :: "'f pool \<Rightarrow> 'f job list" where
  "waiting p = drop (p_head p) (p_queue p)"

text \<open>What the rest of the current call will push and add.\<close>

definition pend :: "'f act list \<Rightarrow> 'f job list" where
  "pend as = concat (map (\<lambda>a. case a of Push js \<Rightarrow> js | _ \<Rightarrow> []) as)"

definition adds :: "'f act list \<Rightarrow> nat" where
  "adds as = sum_list (map (\<lambda>a. case a of Add_inflight n \<Rightarrow> n | _ \<Rightarrow> 0) as)"

lemma pend_simps [simp]:
  "pend [] = []" "pend (Push js # as) = js @ pend as" "pend (Reset_flag r # as) = pend as"
  "pend (Add_inflight n # as) = pend as" "pend (Notify_one # as) = pend as" "pend (Notify_all # as) = pend as"
  "pend (Set_stop # as) = pend as" "pend (Join # as) = pend as"
  by (simp_all add: pend_def)

lemma adds_simps [simp]:
  "adds [] = 0" "adds (Push js # as) = adds as" "adds (Reset_flag r # as) = adds as"
  "adds (Add_inflight n # as) = n + adds as" "adds (Notify_one # as) = adds as" "adds (Notify_all # as) = adds as"
  "adds (Set_stop # as) = adds as" "adds (Join # as) = adds as"
  by (simp_all add: adds_def)

lemma held_simps [simp]:
  "held Ready = []" "held Asleep = []" "held (Took j) = [j]" "held (Ran j) = [j]" "held (Flagged j) = [j]"
  "held Returned = []" "held (wake c) = held c"
  by (auto simp: held_def wake_def split: wpc.splits)

lemma busy_update:
  "t < length ws \<Longrightarrow> mset (concat (map held (ws[t := c]))) + mset (held (ws ! t)) =
     mset (concat (map held ws)) + mset (held c)"
proof (induction ws arbitrary: t)
  case (Cons w ws)
  then show ?case by (cases t) (auto simp: ac_simps)
qed simp

text \<open>The rest of a call: a submission that still has its flag to reset, to add, to push or to
  notify, or a \<open>stop_join\<close> on its way.\<close>

definition todo_ok :: "'f act list \<Rightarrow> bool" where
  "todo_ok as \<longleftrightarrow>
     as = [] \<or>
     (\<exists>r s d n. as = [Reset_flag r, Add_inflight 1, Push [Copy s d n (Some r)], Notify_one]) \<or>
     (\<exists>js nt. (nt = Notify_one \<or> nt = Notify_all) \<and>
        (as = [Add_inflight (length js), Push js, nt] \<or> as = [Push js, nt] \<or> as = [nt])) \<or>
     as = [Set_stop, Notify_all, Join] \<or> as = [Notify_all, Join] \<or> as = [Join]"

lemma call_acts_ok: "todo_ok (call_acts c)"
  by (cases c)
    (auto simp: todo_ok_def call_acts_def pool_submit_def submit_fn_def submit_fns_def stop_join_def split: option.splits)

lemma call_acts_simps [simp]:
  "pend (call_acts c) = call_jobs c" "adds (call_acts c) = length (call_jobs c)"
  "call_acts c \<noteq> [Notify_all, Join]" "call_acts c \<noteq> [Join]"
  by (cases c; simp add: call_acts_def call_jobs_def pool_submit_def submit_fn_def submit_fns_def stop_join_def
      split: option.splits)+

lemma todo_adds: "todo_ok as \<Longrightarrow> adds as \<le> length (pend as)"
  by (auto simp: todo_ok_def)

definition stopping :: "'f act list \<Rightarrow> bool" where
  "stopping as \<longleftrightarrow> as = [Notify_all, Join] \<or> as = [Join]"

definition pool_inv :: "'f run_log \<Rightarrow> 'f pool \<Rightarrow> bool" where
  "pool_inv l p \<longleftrightarrow> p_head p \<le> length (p_queue p) \<and>
     l_sub l = l_taken l @ waiting p @ pend (p_todo p) \<and>
     mset (l_taken l) = mset (l_done l) + mset (busy p) \<and>
     p_inflight p + adds (p_todo p) = length (waiting p) + length (busy p) + length (pend (p_todo p)) \<and>
     todo_ok (p_todo p) \<and> (p_stop p \<longleftrightarrow> stopping (p_todo p)) \<and>
     (Returned \<in> set (p_workers p) \<longrightarrow> p_stop p \<and> waiting p = []) \<and>
     (p_workers p = [] \<longrightarrow> waiting p = [] \<and> pend (p_todo p) = [])"

text \<open>No wake-up is lost: jobs wait only while a worker is awake or a notification is to come,
  and no worker sleeps through a stop.\<close>

definition awake :: "'f wpc \<Rightarrow> bool" where
  "awake c \<longleftrightarrow> c \<noteq> Asleep \<and> c \<noteq> Returned"

definition wake_inv :: "'f pool \<Rightarrow> bool" where
  "wake_inv p \<longleftrightarrow>
     (waiting p \<noteq> [] \<longrightarrow> list_ex awake (p_workers p) \<or> Notify_one \<in> set (p_todo p) \<or> Notify_all \<in> set (p_todo p)) \<and>
     (p_stop p \<and> Asleep \<in> set (p_workers p) \<longrightarrow> Notify_all \<in> set (p_todo p))"


lemma pool_new_inv: "pool_inv log_new (pool_start w (pool_new m))" "wake_inv (pool_start w (pool_new m))"
  by (auto simp: pool_inv_def wake_inv_def log_new_def pool_start_def pool_new_def waiting_def busy_def todo_ok_def
      stopping_def)

lemma push_jobs_pool:
  "p_head p \<le> length (p_queue p) \<Longrightarrow> waiting (push_jobs js p) = waiting p @ js"
  "p_workers (push_jobs js p) = p_workers p" "p_inflight (push_jobs js p) = p_inflight p"
  "p_stop (push_jobs js p) = p_stop p" "p_todo (push_jobs js p) = p_todo p"
  "p_mem (push_jobs js p) = p_mem p" "p_ready (push_jobs js p) = p_ready p"
  "p_head p \<le> length (p_queue p) \<Longrightarrow> p_head (push_jobs js p) \<le> length (p_queue (push_jobs js p))"
  by (auto simp: push_jobs_def compact_locked_def waiting_def Let_def)

lemma busy_wake: "concat (map held (map wake ws)) = concat (map held ws)"
  by (induction ws) simp_all

lemma busy_ready: "t < length ws \<Longrightarrow> ws ! t = Asleep \<Longrightarrow> mset (concat (map held (ws[t := Ready]))) = mset (concat (map held ws))"
  using busy_update [of t ws Ready] by simp

lemma wake_simps [simp]: "wake c \<noteq> Asleep" "wake c = Returned \<longleftrightarrow> c = Returned" "awake (wake c) \<longleftrightarrow> c \<noteq> Returned"
  by (cases c; simp add: wake_def awake_def)+

lemma wake_Returned [simp]: "Returned \<in> wake ` A \<longleftrightarrow> Returned \<in> A"
  by (metis wake_simps(2) imageE imageI)

lemma size_eq: "mset xs = mset ys \<Longrightarrow> length xs = length ys"
  by (metis size_mset)

text \<open>Changing one worker without touching a job in hand keeps the invariant.\<close>

lemma worker_hold_inv:
  assumes inv: "pool_inv l p" and t: "t < length (p_workers p)" and h: "held (p_workers p ! t) = held c" "c \<noteq> Returned"
    and q: "p_queue q = p_queue p" "p_head q = p_head p" "p_workers q = (p_workers p)[t := c]"
    "p_stop q = p_stop p" "p_inflight q = p_inflight p" "p_todo q = p_todo p"
  shows "pool_inv l q"
proof -
  have b: "mset (busy q) = mset (busy p)" using busy_update [OF t, of c] h by (simp add: busy_def q)
  have r: "Returned \<in> set (p_workers q) \<Longrightarrow> Returned \<in> set (p_workers p)"
    using set_update_subset_insert [of "p_workers p" t c] h(2) by (auto simp: q)
  have "p_workers q = [] \<longleftrightarrow> p_workers p = []" by (simp add: q)
  then show ?thesis using inv b r size_eq [OF b] by (auto simp: pool_inv_def waiting_def q(1,2,4-))
qed

lemma worker_act_inv:
  assumes inv: "pool_inv l p" and t: "t < length (p_workers p)" and act: "worker_act run t p = Some q"
  shows "pool_inv (log_act t p l) q"
proof (cases "p_workers p ! t")
  case Ready
  let ?j = "p_queue p ! p_head p"
  show ?thesis
  proof (cases "p_head p < length (p_queue p)")
    case True
    with Ready act have q: "q = p\<lparr>p_workers := (p_workers p)[t := Took ?j], p_head := p_head p + 1\<rparr>"
      by (simp add: worker_act_def)
    have w: "waiting p = ?j # waiting q" using True by (simp add: waiting_def q Cons_nth_drop_Suc)
    have b: "mset (busy q) = mset (busy p) + {#?j#}"
      using busy_update [OF t, of "Took ?j"] Ready by (simp add: busy_def q)
    then have n: "length (busy q) = Suc (length (busy p))"
      by (metis size_mset size_add_mset union_mset_add_mset_right add.right_neutral)
    have r: "Returned \<notin> set (p_workers p)" using inv w by (auto simp: pool_inv_def)
    then have "Returned \<notin> set (p_workers q)"
      using set_update_subset_insert [of "p_workers p" t "Took ?j"] by (auto simp: q)
    moreover have "log_act t p l = l\<lparr>l_taken := l_taken l @ [?j]\<rparr>" using True Ready by (simp add: log_act_def)
    ultimately show ?thesis using inv w b n t True by (auto simp: pool_inv_def q)
  next
    case False
    then have l: "log_act t p l = l" and w: "waiting p = []" using Ready by (simp_all add: log_act_def waiting_def)
    show ?thesis
    proof (cases "p_stop p")
      case True
      with False Ready act have q: "q = p\<lparr>p_workers := (p_workers p)[t := Returned]\<rparr>" by (simp add: worker_act_def)
      have b: "mset (busy q) = mset (busy p)" using busy_update [OF t, of Returned] Ready by (simp add: busy_def q)
      then show ?thesis using inv True w size_eq [OF b] t by (auto simp: l pool_inv_def waiting_def q)
    next
      case stop: False
      with False Ready act have q: "q = p\<lparr>p_workers := (p_workers p)[t := Asleep]\<rparr>" by (simp add: worker_act_def)
      show ?thesis unfolding l by (rule worker_hold_inv [OF inv t, of Asleep]) (simp_all add: Ready q)
    qed
  qed
next
  case (Took j)
  then have q: "q = p\<lparr>p_workers := (p_workers p)[t := Ran j], p_mem := job_effect run j (p_mem p)\<rparr>" "log_act t p l = l"
    using act by (simp_all add: worker_act_def log_act_def)
  show ?thesis unfolding q(2) by (rule worker_hold_inv [OF inv t, of "Ran j"]) (simp_all add: Took q)
next
  case (Ran j)
  then have q: "q = p\<lparr>p_workers := (p_workers p)[t := Flagged j], p_ready := job_flag j (p_ready p)\<rparr>" "log_act t p l = l"
    using act by (simp_all add: worker_act_def log_act_def)
  show ?thesis unfolding q(2) by (rule worker_hold_inv [OF inv t, of "Flagged j"]) (simp_all add: Ran q)
next
  case (Flagged j)
  then have q: "q = p\<lparr>p_workers := (p_workers p)[t := Ready], p_inflight := p_inflight p - 1\<rparr>"
    and l: "log_act t p l = l\<lparr>l_done := l_done l @ [j]\<rparr>"
    using act by (simp_all add: worker_act_def log_act_def)
  have b: "mset (busy p) = mset (busy q) + {#j#}"
    using busy_update [OF t, of Ready] Flagged by (simp add: busy_def q)
  then have n: "length (busy p) = Suc (length (busy q))"
    by (metis size_mset size_add_mset union_mset_add_mset_right add.right_neutral)
  have a: "adds (p_todo p) \<le> length (pend (p_todo p))" using inv todo_adds by (auto simp: pool_inv_def)
  have r: "Returned \<in> set (p_workers q) \<Longrightarrow> Returned \<in> set (p_workers p)"
    using set_update_subset_insert [of "p_workers p" t Ready] by (auto simp: q)
  have "waiting q = waiting p" "p_workers q = [] \<longleftrightarrow> p_workers p = []" by (simp_all add: waiting_def q)
  then show ?thesis using inv b n a r unfolding l by (auto simp: pool_inv_def q)
qed (use act in \<open>simp_all add: worker_act_def\<close>)


text \<open>The rest of a call after its first step.\<close>

lemma todo_tl:
  assumes "todo_ok (a # as)"
  shows "todo_ok as" "a = Set_stop \<Longrightarrow> as = [Notify_all, Join]" "a = Join \<Longrightarrow> as = []"
    "a \<noteq> Set_stop \<Longrightarrow> stopping as \<longleftrightarrow> stopping (a # as) \<and> a \<noteq> Join"
    "a = Push js \<Longrightarrow> (as = [Notify_one] \<or> as = [Notify_all]) \<and> \<not> stopping (a # as)"
    "a \<in> {Notify_one, Notify_all} \<Longrightarrow> as = [] \<or> as = [Join]"
  using assms by (auto simp: todo_ok_def stopping_def)

lemma caller_act_inv:
  assumes inv: "pool_inv l p" and act: "caller_act t p = Some q"
  shows "pool_inv l q"
proof -
  obtain a as where todo: "p_todo p = a # as" using act by (cases "p_todo p") (auto simp: caller_act_def)
  have ok: "todo_ok (a # as)" using inv by (simp add: pool_inv_def todo)
  note tl = todo_tl [OF ok]
  show ?thesis
  proof (cases a)
    case (Reset_flag r)
    then have "q = p\<lparr>p_todo := as, p_ready := p_ready p - {r}\<rparr>" using act by (simp add: caller_act_def todo)
    then show ?thesis using inv tl(1,4) Reset_flag by (auto simp: pool_inv_def todo waiting_def busy_def)
  next
    case (Add_inflight n)
    then have "q = p\<lparr>p_todo := as, p_inflight := p_inflight p + n\<rparr>" using act by (simp add: caller_act_def todo)
    then show ?thesis using inv tl(1,4) Add_inflight by (auto simp: pool_inv_def todo waiting_def busy_def)
  next
    case (Push js)
    then have q: "q = push_jobs js (p\<lparr>p_todo := as\<rparr>)" using act by (simp add: caller_act_def todo)
    have "\<not> p_stop p" using inv tl(5) [OF Push] by (simp add: pool_inv_def todo)
    then have r: "Returned \<notin> set (p_workers p)" using inv by (simp add: pool_inv_def)
    have h: "p_head (p\<lparr>p_todo := as\<rparr>) \<le> length (p_queue (p\<lparr>p_todo := as\<rparr>))" using inv by (simp add: pool_inv_def)
    have w: "waiting q = waiting p @ js" using push_jobs_pool(1) [OF h, of js] by (simp add: q waiting_def)
    have b: "busy q = busy p" "p_workers q = p_workers p" "p_inflight q = p_inflight p" "p_stop q = p_stop p" "p_todo q = as"
      by (simp_all add: q busy_def push_jobs_pool)
    have h': "p_head q \<le> length (p_queue q)" using push_jobs_pool(8) [OF h, of js] by (simp add: q)
    show ?thesis using inv tl(1,4) Push w b h' r by (auto simp: pool_inv_def todo)
  next
    case Notify_one
    show ?thesis
    proof (cases "Asleep \<in> set (p_workers p)")
      case False
      then have "q = p\<lparr>p_todo := as\<rparr>" using act Notify_one by (simp add: caller_act_def todo)
      then show ?thesis using inv tl(1,4) Notify_one by (auto simp: pool_inv_def todo waiting_def busy_def)
    next
      case True
      then have q: "q = p\<lparr>p_todo := as, p_workers := (p_workers p)[t := Ready]\<rparr>" and t: "t < length (p_workers p)" "p_workers p ! t = Asleep"
        using act Notify_one by (auto simp: caller_act_def todo split: if_splits)
      have "pool_inv l (p\<lparr>p_workers := (p_workers p)[t := Ready]\<rparr>)"
        by (rule worker_hold_inv [OF inv t(1), of Ready]) (simp_all add: t)
      then show ?thesis using tl(1,4) Notify_one by (auto simp: pool_inv_def todo waiting_def busy_def q)
    qed
  next
    case Notify_all
    then have q: "q = p\<lparr>p_todo := as, p_workers := map wake (p_workers p)\<rparr>" using act by (simp add: caller_act_def todo)
    show ?thesis using inv tl(1,4) Notify_all by (auto simp: pool_inv_def todo waiting_def busy_def q busy_wake simp del: map_map)
  next
    case Set_stop
    then have q: "q = p\<lparr>p_todo := as, p_stop := True\<rparr>" using act by (simp add: caller_act_def todo)
    have "\<not> p_stop p" using inv Set_stop by (auto simp: pool_inv_def todo stopping_def)
    then show ?thesis using inv tl(1) tl(2) [OF Set_stop] Set_stop by (auto simp: pool_inv_def todo waiting_def busy_def q stopping_def)
  next
    case Join
    then have q: "q = stop_joined (p\<lparr>p_todo := as\<rparr>)" and r: "list_all (\<lambda>c. c = Returned) (p_workers p)"
      using act by (simp_all add: caller_act_def todo split: if_splits)
    have b: "busy p = []" using r by (induction "p_workers p") (auto simp: busy_def list_all_iff)
    have w: "waiting p = []" using inv r by (cases "p_workers p") (auto simp: pool_inv_def)
    show ?thesis using inv b w tl(1) tl(3) [OF Join] Join by (auto simp: pool_inv_def todo waiting_def busy_def q stop_joined_def stopping_def)
  qed
qed

lemma pool_step_inv:
  assumes "pool_step run s s'" and "pool_inv (fst s) (snd s)"
  shows "pool_inv (fst s') (snd s')"
  using assms
proof cases
  case (ps_call p c l)
  then show ?thesis using assms(2) call_acts_ok [of c]
    by (cases c) (auto simp: pool_inv_def waiting_def busy_def stopping_def call_jobs_def)
next
  case (ps_start p l w)
  then show ?thesis using assms(2)
    by (auto simp: pool_inv_def pool_start_def waiting_def busy_def Let_def)
next
  case (ps_caller t p q l)
  then show ?thesis using assms(2) caller_act_inv by auto
next
  case (ps_worker t p q l)
  then show ?thesis using assms(2) worker_act_inv by auto
next
  case (ps_spurious t p l)
  then show ?thesis using assms(2) by (auto intro!: worker_hold_inv [of l p t Ready])
qed

text \<open>Which worker changes keep the wake-up invariant.\<close>

lemma wake_inv_upd:
  assumes "wake_inv p" and "waiting q \<noteq> [] \<Longrightarrow> waiting p \<noteq> [] \<or> awake c" and "awake c \<or> waiting q = [] \<and> \<not> p_stop q \<or> c = Returned \<and> waiting q = []"
    and "p_workers q = (p_workers p)[t := c]" "p_stop q = p_stop p" "p_todo q = p_todo p" and t: "t < length (p_workers p)"
  shows "wake_inv q"
proof -
  have "awake c \<Longrightarrow> list_ex awake (p_workers q)"
    using assms(4) t by (auto simp: list_ex_iff intro!: bexI [of _ c] set_update_memI)
  moreover have "Asleep \<in> set (p_workers q) \<Longrightarrow> c = Asleep \<or> Asleep \<in> set (p_workers p)"
    using assms(4) set_update_subset_insert [of "p_workers p" t c] by auto
  ultimately show ?thesis using assms(1-3,5,6) by (auto simp: wake_inv_def awake_def)
qed

lemma worker_act_wake:
  assumes inv: "pool_inv l p" and wk: "wake_inv p" and t: "t < length (p_workers p)" and act: "worker_act run t p = Some q"
  shows "wake_inv q"
proof -
  have e: "\<not> p_head p < length (p_queue p) \<Longrightarrow> waiting p = []" by (simp add: waiting_def)
  show ?thesis
  proof (cases "p_workers p ! t")
    case Ready
    then consider (take) "q = p\<lparr>p_workers := (p_workers p)[t := Took (p_queue p ! p_head p)], p_head := p_head p + 1\<rparr>"
      | (stop) "q = p\<lparr>p_workers := (p_workers p)[t := Returned]\<rparr>" "\<not> p_head p < length (p_queue p)"
      | (sleep) "q = p\<lparr>p_workers := (p_workers p)[t := Asleep]\<rparr>" "\<not> p_head p < length (p_queue p)" "\<not> p_stop p"
      using act by (auto simp: worker_act_def split: if_splits)
    then show ?thesis
    proof cases
      case take
      show ?thesis by (rule wake_inv_upd [OF wk, of _ "Took (p_queue p ! p_head p)" t]) (simp_all add: take awake_def t)
    next
      case stop
      show ?thesis by (rule wake_inv_upd [OF wk, of _ Returned t]) (use e stop in \<open>simp_all add: waiting_def t\<close>)
    next
      case sleep
      show ?thesis by (rule wake_inv_upd [OF wk, of _ Asleep t]) (use e sleep in \<open>simp_all add: waiting_def t\<close>)
    qed
  next
    case (Took j)
    show ?thesis by (rule wake_inv_upd [OF wk, of _ "Ran j" t])
        (use act Took t in \<open>auto simp: worker_act_def awake_def waiting_def\<close>)
  next
    case (Ran j)
    show ?thesis by (rule wake_inv_upd [OF wk, of _ "Flagged j" t])
        (use act Ran t in \<open>auto simp: worker_act_def awake_def waiting_def\<close>)
  next
    case (Flagged j)
    show ?thesis by (rule wake_inv_upd [OF wk, of _ Ready t])
        (use act Flagged t in \<open>auto simp: worker_act_def awake_def waiting_def\<close>)
  qed (use act in \<open>simp_all add: worker_act_def\<close>)
qed

text \<open>With jobs waiting and no worker asleep somebody is awake: no worker has returned.\<close>

lemma waiting_awake:
  assumes "pool_inv l p" "waiting p \<noteq> []"
  shows "list_ex awake (map wake (p_workers p))" "Asleep \<notin> set (p_workers p) \<Longrightarrow> list_ex awake (p_workers p)"
proof -
  have "p_workers p \<noteq> []" "Returned \<notin> set (p_workers p)" using assms by (auto simp: pool_inv_def)
  then show "list_ex awake (map wake (p_workers p))" "Asleep \<notin> set (p_workers p) \<Longrightarrow> list_ex awake (p_workers p)"
    by (cases "p_workers p"; auto simp: awake_def wake_def split: wpc.splits)+
qed

lemma caller_act_wake:
  assumes inv: "pool_inv l p" and wk: "wake_inv p" and act: "caller_act t p = Some q"
  shows "wake_inv q"
proof -
  obtain a as where todo: "p_todo p = a # as" using act by (cases "p_todo p") (auto simp: caller_act_def)
  have ok: "todo_ok (a # as)" using inv by (simp add: pool_inv_def todo)
  note tl = todo_tl [OF ok]
  show ?thesis
  proof (cases a)
    case (Reset_flag r)
    then show ?thesis using act wk by (auto simp: caller_act_def todo wake_inv_def waiting_def)
  next
    case (Add_inflight n)
    then show ?thesis using act wk by (auto simp: caller_act_def todo wake_inv_def waiting_def)
  next
    case (Push js)
    then have q: "q = push_jobs js (p\<lparr>p_todo := as\<rparr>)" using act by (simp add: caller_act_def todo)
    have "\<not> p_stop p" using inv tl(5) [OF Push] by (simp add: pool_inv_def todo)
    then show ?thesis using tl(5) [OF Push] by (auto simp: q wake_inv_def push_jobs_pool)
  next
    case Notify_one
    have s: "\<not> p_stop p" using inv Notify_one by (auto simp: pool_inv_def todo stopping_def)
    show ?thesis
    proof (cases "Asleep \<in> set (p_workers p)")
      case False
      then have "q = p\<lparr>p_todo := as\<rparr>" using act Notify_one by (simp add: caller_act_def todo)
      then show ?thesis using waiting_awake(2) [OF inv _ False] s by (auto simp: wake_inv_def waiting_def)
    next
      case True
      then have q: "q = p\<lparr>p_todo := as, p_workers := (p_workers p)[t := Ready]\<rparr>" and t: "t < length (p_workers p)"
        using act Notify_one by (auto simp: caller_act_def todo split: if_splits)
      have "list_ex awake (p_workers q)" using t by (auto simp: q list_ex_iff awake_def intro!: bexI [of _ Ready] set_update_memI)
      then show ?thesis using s by (auto simp: wake_inv_def q)
    qed
  next
    case Notify_all
    then have q: "q = p\<lparr>p_todo := as, p_workers := map wake (p_workers p)\<rparr>" using act by (simp add: caller_act_def todo)
    have "Asleep \<notin> set (p_workers q)" by (auto simp: q dest!: sym [of Asleep])
    then show ?thesis using waiting_awake(1) [OF inv] by (auto simp: wake_inv_def q waiting_def)
  next
    case Set_stop
    then show ?thesis using act tl(2) [OF Set_stop] by (auto simp: caller_act_def todo wake_inv_def)
  next
    case Join
    then have "q = stop_joined (p\<lparr>p_todo := as\<rparr>)" using act by (simp add: caller_act_def todo split: if_splits)
    then show ?thesis by (simp add: wake_inv_def stop_joined_def waiting_def)
  qed
qed

lemma pool_step_wake:
  assumes "pool_step run s s'" and "pool_inv (fst s) (snd s)" "wake_inv (snd s)"
  shows "wake_inv (snd s')"
  using assms
proof cases
  case (ps_call p c l)
  then have "\<not> p_stop p" using assms(2) by (auto simp: pool_inv_def stopping_def)
  then show ?thesis using ps_call assms(3) by (auto simp: wake_inv_def waiting_def)
next
  case (ps_start p l w)
  then have "p_workers p = [] \<Longrightarrow> waiting p = []" "\<not> p_stop p" using assms(2) by (auto simp: pool_inv_def stopping_def)
  then show ?thesis using assms(3) ps_start by (auto simp: wake_inv_def pool_start_def waiting_def Let_def)
next
  case (ps_caller t p q l)
  then show ?thesis using assms(2,3) caller_act_wake [of l p t q] by auto
next
  case (ps_worker t p q l)
  then show ?thesis using assms(2,3) worker_act_wake by auto
next
  case (ps_spurious t p l)
  show ?thesis by (rule wake_inv_upd [OF assms(3), of _ Ready t]) (use ps_spurious in \<open>simp_all add: waiting_def awake_def\<close>)
qed

lemma pool_reach_inv: "pool_reach run w m s \<Longrightarrow> pool_inv (fst s) (snd s) \<and> wake_inv (snd s)"
proof (induction rule: pool_reach.induct)
  case pr_init
  show ?case by (simp add: pool_new_inv)
next
  case (pr_step s s')
  then show ?case using pool_step_inv [OF pr_step(2)] pool_step_wake [OF pr_step(2)] by blast
qed


section \<open>How far the pool is from idle\<close>

text \<open>Five steps per waiting job, fewer per job in progress; a notification may send every
  worker through its loop once more.\<close>

definition wpc_rank :: "'f wpc \<Rightarrow> nat" where
  "wpc_rank c = (case c of Ready \<Rightarrow> 1 | Took j \<Rightarrow> 4 | Ran j \<Rightarrow> 3 | Flagged j \<Rightarrow> 2 | _ \<Rightarrow> 0)"

definition act_rank :: "nat \<Rightarrow> 'f act \<Rightarrow> nat" where
  "act_rank n a = (case a of Push js \<Rightarrow> 4 * length js + 1 | Notify_one \<Rightarrow> 2 | Notify_all \<Rightarrow> n + 1 | _ \<Rightarrow> 1)"

definition pool_work :: "'f pool \<Rightarrow> nat" where
  "pool_work p = 4 * length (waiting p) + sum_list (map wpc_rank (p_workers p)) +
     sum_list (map (act_rank (length (p_workers p))) (p_todo p))"

lemma sum_rank_update:
  "t < length ws \<Longrightarrow> sum_list (map wpc_rank (ws[t := c])) + wpc_rank (ws ! t) = sum_list (map wpc_rank ws) + wpc_rank c"
proof (induction ws arbitrary: t)
  case (Cons w ws)
  then show ?case by (cases t) auto
qed simp

lemma sum_rank_wake: "sum_list (map wpc_rank (map wake ws)) \<le> sum_list (map wpc_rank ws) + length ws"
proof (induction ws)
  case (Cons w ws)
  have "wpc_rank (wake w) \<le> wpc_rank w + 1" by (cases w) (simp_all add: wake_def wpc_rank_def)
  then show ?case using Cons.IH by simp
qed simp

lemma worker_act_work:
  assumes "t < length (p_workers p)" "worker_act run t p = Some q"
  shows "pool_work q < pool_work p"
proof -
  have u: "sum_list (map wpc_rank ((p_workers p)[t := c])) + wpc_rank (p_workers p ! t) =
      sum_list (map wpc_rank (p_workers p)) + wpc_rank c" for c
    by (rule sum_rank_update [OF assms(1)])
  show ?thesis
  proof (cases "p_workers p ! t")
    case Ready
    then show ?thesis
      using assms(2) u [of "Took (p_queue p ! p_head p)"] u [of Returned] u [of Asleep]
      by (auto simp: worker_act_def pool_work_def waiting_def wpc_rank_def split: if_splits)
  next
    case (Took j)
    then show ?thesis using assms(2) u [of "Ran j"] by (auto simp: worker_act_def pool_work_def waiting_def wpc_rank_def)
  next
    case (Ran j)
    then show ?thesis using assms(2) u [of "Flagged j"] by (auto simp: worker_act_def pool_work_def waiting_def wpc_rank_def)
  next
    case (Flagged j)
    then show ?thesis using assms(2) u [of Ready] by (auto simp: worker_act_def pool_work_def waiting_def wpc_rank_def)
  qed (use assms(2) in \<open>simp_all add: worker_act_def\<close>)
qed

lemma caller_act_work:
  assumes inv: "pool_inv l p" and act: "caller_act t p = Some q"
  shows "pool_work q < pool_work p"
proof -
  obtain a as where todo: "p_todo p = a # as" using act by (cases "p_todo p") (auto simp: caller_act_def)
  have ok: "todo_ok (a # as)" using inv by (simp add: pool_inv_def todo)
  note tl = todo_tl [OF ok]
  show ?thesis
  proof (cases a)
    case (Push js)
    then have q: "q = push_jobs js (p\<lparr>p_todo := as\<rparr>)" using act by (simp add: caller_act_def todo)
    have h: "p_head (p\<lparr>p_todo := as\<rparr>) \<le> length (p_queue (p\<lparr>p_todo := as\<rparr>))" using inv by (simp add: pool_inv_def)
    have "length (waiting q) = length (waiting p) + length js"
      using push_jobs_pool(1) [OF h, of js] by (simp add: q waiting_def)
    then show ?thesis using Push todo by (simp add: pool_work_def q push_jobs_pool act_rank_def)
  next
    case Notify_one
    show ?thesis
    proof (cases "Asleep \<in> set (p_workers p)")
      case False
      then show ?thesis using act Notify_one by (auto simp: caller_act_def todo pool_work_def waiting_def act_rank_def)
    next
      case True
      then have q: "q = p\<lparr>p_todo := as, p_workers := (p_workers p)[t := Ready]\<rparr>" and t: "t < length (p_workers p)" "p_workers p ! t = Asleep"
        using act Notify_one by (auto simp: caller_act_def todo split: if_splits)
      show ?thesis using sum_rank_update [OF t(1), of Ready] t(2) Notify_one
        by (simp add: pool_work_def q todo waiting_def act_rank_def wpc_rank_def)
    qed
  next
    case Notify_all
    then have q: "q = p\<lparr>p_todo := as, p_workers := map wake (p_workers p)\<rparr>" using act by (simp add: caller_act_def todo)
    show ?thesis using sum_rank_wake [of "p_workers p"] Notify_all
      by (simp add: pool_work_def q todo waiting_def act_rank_def del: map_map)
  next
    case Join
    then have "q = stop_joined (p\<lparr>p_todo := as\<rparr>)" using act by (simp add: caller_act_def todo split: if_splits)
    then show ?thesis using tl(3) [OF Join] Join by (simp add: pool_work_def todo stop_joined_def waiting_def act_rank_def)
  qed (use act in \<open>auto simp: caller_act_def todo pool_work_def waiting_def act_rank_def\<close>)
qed

text \<open>What happens without a new call and without a spurious wake-up.\<close>

inductive pool_act :: "('f \<Rightarrow> (nat \<Rightarrow> byte) \<Rightarrow> nat \<Rightarrow> byte) \<Rightarrow> 'f pool \<Rightarrow> 'f pool \<Rightarrow> bool" for run where
  pa_caller: "caller_act t p = Some q \<Longrightarrow> pool_act run p q"
| pa_worker: "t < length (p_workers p) \<Longrightarrow> worker_act run t p = Some q \<Longrightarrow> pool_act run p q"

lemma pool_act_step: "pool_act run p q \<Longrightarrow> \<exists>l'. pool_step run (l, p) (l', q)"
  by (induction rule: pool_act.induct) (blast intro: ps_caller ps_worker)+

lemma pool_act_work: "pool_inv l p \<Longrightarrow> pool_act run p q \<Longrightarrow> pool_work q < pool_work p"
  by (auto elim!: pool_act.cases intro: caller_act_work worker_act_work)

text \<open>A pool in which nothing can act is idle, and no call is in progress.\<close>

lemma stuck_idle:
  assumes inv: "pool_inv l p" and wk: "wake_inv p" and stuck: "\<nexists>q. pool_act run p q"
  shows "pool_idle p \<and> p_todo p = []"
proof -
  have w: "c = Asleep \<or> c = Returned" if c: "c \<in> set (p_workers p)" for c
  proof -
    obtain t where t: "t < length (p_workers p)" "p_workers p ! t = c" using c by (auto simp: in_set_conv_nth)
    have "worker_act run t p = None" using stuck pa_worker [OF t(1)] by (cases "worker_act run t p") auto
    then show ?thesis using t(2) by (cases c) (auto simp: worker_act_def split: if_splits)
  qed
  have c: "caller_act t p = None" for t
    using stuck pa_caller [of t p _ run] by (cases "caller_act t p") blast+
  have na: "\<not> list_ex awake (p_workers p)" using w by (auto simp: list_ex_iff awake_def)
  have b: "busy p = []" using w by (force simp: busy_def)
  have todo: "p_todo p = []"
  proof (cases "p_todo p")
    case (Cons a as)
    have ok: "todo_ok (a # as)" using inv by (simp add: pool_inv_def Cons)
    have a: "a = Join"
    proof (cases a)
      case Notify_one
      show ?thesis
      proof (cases "Asleep \<in> set (p_workers p)")
        case True
        then obtain t where "t < length (p_workers p)" "p_workers p ! t = Asleep" by (auto simp: in_set_conv_nth)
        then show ?thesis using c [of t] True Cons Notify_one by (simp add: caller_act_def Let_def)
      qed (use c Cons Notify_one in \<open>simp add: caller_act_def\<close>)
    qed (use c Cons in \<open>simp_all add: caller_act_def\<close>)
    then have as: "as = []" "p_stop p" using todo_tl(3) [OF ok] inv Cons by (auto simp: pool_inv_def stopping_def)
    then have "Asleep \<notin> set (p_workers p)" using wk Cons a by (auto simp: wake_inv_def)
    then have "list_all (\<lambda>c. c = Returned) (p_workers p)" using w by (auto simp: list_all_iff)
    then show ?thesis using c Cons a by (simp add: caller_act_def)
  qed
  then have "waiting p = []" using wk na by (auto simp: wake_inv_def)
  then show ?thesis using inv b todo by (simp add: pool_inv_def pool_idle_def)
qed

lemma pool_acts_bound:
  assumes "pool_reach run w m (l, p)" "((pool_act run) ^^ n) p q"
  shows "(\<exists>l'. pool_reach run w m (l', q)) \<and> n + pool_work q \<le> pool_work p"
  using assms(2)
proof (induction n arbitrary: q)
  case 0
  then show ?case using assms(1) by auto
next
  case (Suc n)
  then obtain r where r: "((pool_act run) ^^ n) p r" "pool_act run r q" by auto
  obtain l' where l: "pool_reach run w m (l', r)" and n: "n + pool_work r \<le> pool_work p" using Suc.IH [OF r(1)] by blast
  obtain l2 where "pool_step run (l', r) (l2, q)" using pool_act_step [OF r(2)] by blast
  then have "pool_reach run w m (l2, q)" using pr_step [OF l] by blast
  moreover have "pool_work q < pool_work r"
    by (rule pool_act_work [OF _ r(2), of l']) (use pool_reach_inv [OF l] in simp)
  ultimately show ?case using n by auto
qed

section \<open>What the jobs did\<close>

definition src_range :: "'f job \<Rightarrow> nat set" where
  "src_range j = (case j of Copy (Some a) (Some b) n r \<Rightarrow> {a..<a + n} | _ \<Rightarrow> {})"

definition dst_range :: "'f job \<Rightarrow> nat set" where
  "dst_range j = (case j of Copy (Some a) (Some b) n r \<Rightarrow> {b..<b + n} | _ \<Rightarrow> {})"

definition job_flags :: "'f job \<Rightarrow> nat list" where
  "job_flags j = (case j of Copy s d n (Some r) \<Rightarrow> [r] | _ \<Rightarrow> [])"

text \<open>Jobs that do not interfere: no two share a ready flag, no copy writes where another reads
  or writes, and the functions leave what the copies read and write alone.\<close>

definition indep :: "('f \<Rightarrow> (nat \<Rightarrow> byte) \<Rightarrow> nat \<Rightarrow> byte) \<Rightarrow> 'f job list \<Rightarrow> bool" where
  "indep run js \<longleftrightarrow> distinct (concat (map job_flags js)) \<and>
     (\<forall>j \<in> set js. \<forall>k \<in> set js. dst_range j \<inter> src_range k = {} \<and> (j = k \<or> dst_range j \<inter> dst_range k = {})) \<and>
     (\<forall>f m i. Run f \<in> set js \<longrightarrow> (\<exists>k \<in> set js. i \<in> src_range k \<union> dst_range k) \<longrightarrow> run f m i = m i)"

definition copied :: "(nat \<Rightarrow> byte) \<Rightarrow> (nat \<Rightarrow> byte) \<Rightarrow> 'f job \<Rightarrow> bool" where
  "copied m0 m j = (case j of Copy (Some a) (Some b) n r \<Rightarrow> image_bytes m b n = image_bytes m0 a n | _ \<Rightarrow> True)"

definition data_inv :: "'f job list \<Rightarrow> (nat \<Rightarrow> byte) \<Rightarrow> 'f run_log \<Rightarrow> 'f pool \<Rightarrow> bool" where
  "data_inv fs m0 l p \<longleftrightarrow>
     (\<forall>j \<in> set fs. \<forall>i \<in> src_range j. p_mem p i = m0 i) \<and>
     (\<forall>j. j \<in> set (l_done l) \<or> Ran j \<in> set (p_workers p) \<or> Flagged j \<in> set (p_workers p) \<longrightarrow> copied m0 (p_mem p) j) \<and>
     (\<forall>j \<in> set (l_sub l). \<forall>r \<in> set (job_flags j). r \<in> p_ready p \<and> Reset_flag r \<notin> set (p_todo p) \<longrightarrow>
        j \<in> set (l_done l) \<or> Flagged j \<in> set (p_workers p)) \<and>
     (\<forall>j. j \<in> set (l_done l) \<or> Flagged j \<in> set (p_workers p) \<longrightarrow> set (job_flags j) \<subseteq> p_ready p)"

lemma flags_same:
  "distinct (concat (map job_flags js)) \<Longrightarrow> j \<in> set js \<Longrightarrow> k \<in> set js \<Longrightarrow> r \<in> set (job_flags j) \<Longrightarrow> r \<in> set (job_flags k) \<Longrightarrow> j = k"
  by (induction js) auto

lemma indep_prefix: "indep run (js @ ks) \<Longrightarrow> distinct (concat (map job_flags js))"
  by (simp add: indep_def)

lemma write_mem_out: "i \<notin> {b..<b + length bs} \<Longrightarrow> write_mem b bs m i = m i"
  by (auto simp: write_mem_def)

lemma job_effect_out:
  assumes "indep run fs" "j \<in> set fs" "k \<in> set fs" "i \<in> src_range k \<union> dst_range k" "i \<notin> dst_range j"
  shows "job_effect run j m i = m i"
proof (cases j)
  case (Run f)
  have "run f m i = m i" if "Run f \<in> set fs" for f using assms(1,3,4) that unfolding indep_def by blast
  with assms(2) Run show ?thesis by (simp add: job_effect_def)
next
  case (Copy s d n r)
  then show ?thesis using assms(5)
    by (auto simp: job_effect_def dst_range_def write_mem_out split: option.splits)
qed

lemma job_effect_src:
  assumes "indep run fs" "j \<in> set fs" "k \<in> set fs" "i \<in> src_range k"
  shows "job_effect run j m i = m i"
proof (rule job_effect_out [OF assms(1-3)])
  have "dst_range j \<inter> src_range k = {}" using assms(1-3) unfolding indep_def by blast
  then show "i \<notin> dst_range j" using assms(4) by blast
qed (use assms(4) in blast)

lemma copied_alt:
  "copied m0 m (Copy (Some a) (Some b) n r) \<longleftrightarrow> (\<forall>i < n. m (b + i) = m0 (a + i))"
  by (auto simp: copied_def image_bytes_def list_eq_iff_nth_eq)

lemma job_effect_copied:
  assumes "\<forall>i \<in> src_range j. m i = m0 i"
  shows "copied m0 (job_effect run j m) j"
proof (cases j)
  case (Copy s d n r)
  show ?thesis
  proof (cases "\<exists>a b. s = Some a \<and> d = Some b")
    case True
    then obtain a b where "j = Copy (Some a) (Some b) n r" using Copy by blast
    moreover have "m (a + i) = m0 (a + i)" if "i < n" for i using assms that calculation by (auto simp: src_range_def)
    ultimately show ?thesis by (auto simp: copied_alt job_effect_def write_mem_def image_bytes_def)
  qed (auto simp: Copy copied_def split: option.splits)
qed (simp add: copied_def)

lemma copied_other:
  assumes "copied m0 m k" "\<And>i. i \<in> dst_range k \<Longrightarrow> m' i = m i"
  shows "copied m0 m' k"
proof (cases "\<exists>a b n r. k = Copy (Some a) (Some b) n r")
  case True
  then obtain a b n r where k: "k = Copy (Some a) (Some b) n r" by blast
  show ?thesis using assms unfolding k copied_alt by (simp add: dst_range_def)
qed (auto simp: copied_def split: job.splits option.splits)

text \<open>Which jobs a change of one worker hides or shows.\<close>

lemma upd_in: "x \<in> set (ws[t := c]) \<Longrightarrow> x \<noteq> c \<Longrightarrow> x \<in> set ws"
  using set_update_subset_insert [of ws t c] by auto

lemma upd_keep: "x \<in> set ws \<Longrightarrow> x \<noteq> ws ! t \<Longrightarrow> x \<in> set (ws[t := c])"
  by (metis in_set_conv_nth length_list_update nth_list_update_neq)

lemma busy_mem: "Took j \<in> set (p_workers p) \<or> Ran j \<in> set (p_workers p) \<or> Flagged j \<in> set (p_workers p) \<Longrightarrow> j \<in> set (busy p)"
  by (force simp: busy_def)

lemma taken_mem:
  assumes "pool_inv l p"
  shows "j \<in> set (l_done l) \<or> j \<in> set (busy p) \<Longrightarrow> j \<in> set (l_taken l)" "set (l_taken l) \<subseteq> set (l_sub l)"
proof -
  have "mset (l_taken l) = mset (l_done l) + mset (busy p)" using assms by (simp add: pool_inv_def)
  then show "j \<in> set (l_done l) \<or> j \<in> set (busy p) \<Longrightarrow> j \<in> set (l_taken l)"
    by (metis set_mset_mset set_mset_union UnI1 UnI2)
  show "set (l_taken l) \<subseteq> set (l_sub l)" using assms by (auto simp: pool_inv_def)
qed


text \<open>Steps that touch neither memory, flags nor a job in hand.\<close>

lemma data_invD:
  assumes "data_inv fs m0 l p"
  shows "\<And>j i. j \<in> set fs \<Longrightarrow> i \<in> src_range j \<Longrightarrow> p_mem p i = m0 i"
    "\<And>j. j \<in> set (l_done l) \<or> Ran j \<in> set (p_workers p) \<or> Flagged j \<in> set (p_workers p) \<Longrightarrow> copied m0 (p_mem p) j"
    "\<And>j r. j \<in> set (l_sub l) \<Longrightarrow> r \<in> set (job_flags j) \<Longrightarrow> r \<in> p_ready p \<Longrightarrow> Reset_flag r \<notin> set (p_todo p) \<Longrightarrow>
       j \<in> set (l_done l) \<or> Flagged j \<in> set (p_workers p)"
    "\<And>j r. j \<in> set (l_done l) \<or> Flagged j \<in> set (p_workers p) \<Longrightarrow> r \<in> set (job_flags j) \<Longrightarrow> r \<in> p_ready p"
  using assms unfolding data_inv_def by blast+

lemma data_invI:
  assumes "\<And>j i. j \<in> set fs \<Longrightarrow> i \<in> src_range j \<Longrightarrow> p_mem p i = m0 i"
    "\<And>j. j \<in> set (l_done l) \<or> Ran j \<in> set (p_workers p) \<or> Flagged j \<in> set (p_workers p) \<Longrightarrow> copied m0 (p_mem p) j"
    "\<And>j r. j \<in> set (l_sub l) \<Longrightarrow> r \<in> set (job_flags j) \<Longrightarrow> r \<in> p_ready p \<Longrightarrow> Reset_flag r \<notin> set (p_todo p) \<Longrightarrow>
       j \<in> set (l_done l) \<or> Flagged j \<in> set (p_workers p)"
    "\<And>j r. j \<in> set (l_done l) \<or> Flagged j \<in> set (p_workers p) \<Longrightarrow> r \<in> set (job_flags j) \<Longrightarrow> r \<in> p_ready p"
  shows "data_inv fs m0 l p"
  unfolding data_inv_def by (intro conjI ballI allI impI subsetI; (elim conjE)?; (rule assms; assumption))

lemma data_inv_frame:
  assumes d: "data_inv fs m0 l p" and m: "p_mem q = p_mem p" and r: "p_ready q = p_ready p"
    and l: "l_done l' = l_done l"
    and s: "\<And>j r. j \<in> set (l_sub l') \<Longrightarrow> Reset_flag r \<notin> set (p_todo q) \<Longrightarrow> r \<in> set (job_flags j) \<Longrightarrow>
      j \<in> set (l_sub l) \<and> Reset_flag r \<notin> set (p_todo p)"
    and w: "\<And>j. Ran j \<in> set (p_workers q) \<Longrightarrow> Ran j \<in> set (p_workers p)"
      "\<And>j. Flagged j \<in> set (p_workers q) \<longleftrightarrow> Flagged j \<in> set (p_workers p)"
  shows "data_inv fs m0 l' q"
proof (rule data_invI)
  fix j i assume "j \<in> set fs" "i \<in> src_range j"
  then show "p_mem q i = m0 i" unfolding m by (rule data_invD(1) [OF d])
next
  fix j assume "j \<in> set (l_done l') \<or> Ran j \<in> set (p_workers q) \<or> Flagged j \<in> set (p_workers q)"
  then have "j \<in> set (l_done l) \<or> Ran j \<in> set (p_workers p) \<or> Flagged j \<in> set (p_workers p)" using l w by auto
  then show "copied m0 (p_mem q) j" unfolding m by (rule data_invD(2) [OF d])
next
  fix j a assume a: "j \<in> set (l_sub l')" "a \<in> set (job_flags j)" "a \<in> p_ready q" "Reset_flag a \<notin> set (p_todo q)"
  have "j \<in> set (l_sub l) \<and> Reset_flag a \<notin> set (p_todo p)" by (rule s [OF a(1,4,2)])
  then show "j \<in> set (l_done l') \<or> Flagged j \<in> set (p_workers q)"
    using data_invD(3) [OF d, of j a] a(2,3) l r w(2) by auto
next
  fix j a assume "j \<in> set (l_done l') \<or> Flagged j \<in> set (p_workers q)" "a \<in> set (job_flags j)"
  then show "a \<in> p_ready q" using data_invD(4) [OF d, of j a] l r w(2) by auto
qed

text \<open>The steps of the search thread and of a worker.\<close>

lemma caller_workers:
  assumes "caller_act t p = Some q"
  shows "p_workers q = p_workers p \<or> p_workers p ! t = Asleep \<and> p_workers q = (p_workers p)[t := Ready] \<or>
    p_workers q = map wake (p_workers p) \<or> (\<forall>c \<in> set (p_workers p). c = Returned) \<and> p_workers q = []"
proof (cases "p_todo p")
  case (Cons a as)
  then show ?thesis using assms
    by (cases a) (auto simp: caller_act_def push_jobs_pool stop_joined_def list_all_iff Let_def split: if_splits)
qed (use assms in \<open>simp add: caller_act_def\<close>)

lemma caller_frame:
  assumes "caller_act t p = Some q" "p_todo p = a # as" "\<And>r. a \<noteq> Reset_flag r"
  shows "p_mem q = p_mem p \<and> p_ready q = p_ready p \<and> p_todo q = as"
proof (cases a)
  case (Reset_flag r)
  then show ?thesis using assms(3) by blast
qed (use assms(1) in \<open>auto simp: caller_act_def assms(2) push_jobs_pool stop_joined_def Let_def split: if_splits\<close>)

lemma caller_hands:
  assumes "caller_act t p = Some q"
  shows "Ran j \<in> set (p_workers q) \<longleftrightarrow> Ran j \<in> set (p_workers p)"
    "Flagged j \<in> set (p_workers q) \<longleftrightarrow> Flagged j \<in> set (p_workers p)"
proof -
  have k: "x \<in> set (p_workers q) \<longleftrightarrow> x \<in> set (p_workers p)"
    if x: "x \<noteq> Ready" "x \<noteq> Asleep" "x \<noteq> Returned" "\<And>c. wake c = x \<longleftrightarrow> c = x" for x
  proof -
    have "x \<in> set (map wake (p_workers p)) \<longleftrightarrow> x \<in> set (p_workers p)" using x(4) by (metis image_iff list.set_map)
    moreover have "x \<in> set ((p_workers p)[t := Ready]) \<longleftrightarrow> x \<in> set (p_workers p)" if "p_workers p ! t = Asleep"
      using that x upd_in [of x "p_workers p" t Ready] upd_keep [of x "p_workers p" t Ready] by auto
    ultimately show ?thesis using caller_workers [OF assms] x(3) by force
  qed
  show "Ran j \<in> set (p_workers q) \<longleftrightarrow> Ran j \<in> set (p_workers p)"
    by (rule k) (simp_all add: wake_def split: wpc.splits)
  show "Flagged j \<in> set (p_workers q) \<longleftrightarrow> Flagged j \<in> set (p_workers p)"
    by (rule k) (simp_all add: wake_def split: wpc.splits)
qed

lemma caller_act_data:
  assumes inv: "pool_inv l p" and d: "data_inv fs m0 l p" and act: "caller_act t p = Some q"
    and flags: "distinct (concat (map job_flags (l_sub l)))"
  shows "data_inv fs m0 l q"
proof -
  obtain a as where todo: "p_todo p = a # as" using act by (cases "p_todo p") (auto simp: caller_act_def)
  have w: "Ran j \<in> set (p_workers q) \<longleftrightarrow> Ran j \<in> set (p_workers p)"
    "Flagged j \<in> set (p_workers q) \<longleftrightarrow> Flagged j \<in> set (p_workers p)" for j
    using caller_hands [OF act] by blast+
  show ?thesis
  proof (cases "\<exists>r. a = Reset_flag r")
    case False
    have s: "p_mem q = p_mem p" "p_ready q = p_ready p" "p_todo q = as"
      using caller_frame [OF act todo] False by blast+
    show ?thesis
    proof (rule data_inv_frame [OF d s(1,2) refl])
      fix j r assume "j \<in> set (l_sub l)" "Reset_flag r \<notin> set (p_todo q)"
      then show "j \<in> set (l_sub l) \<and> Reset_flag r \<notin> set (p_todo p)" using False by (auto simp: s(3) todo)
    qed (simp_all only: w)
  next
    case True
    then obtain r where r: "a = Reset_flag r" by blast
    then have q: "q = p\<lparr>p_todo := as, p_ready := p_ready p - {r}\<rparr>" using act by (simp add: caller_act_def todo)
    have "todo_ok (Reset_flag r # as)" using inv by (simp add: pool_inv_def todo r)
    then obtain s d' n where as: "as = [Add_inflight 1, Push [Copy s d' n (Some r)], Notify_one]" by (auto simp: todo_ok_def)
    have sub: "l_sub l = l_taken l @ waiting p @ [Copy s d' n (Some r)]" using inv by (simp add: pool_inv_def todo r as)
    have tk: "r \<notin> set (job_flags j)" if "j \<in> set (l_taken l)" for j
      using flags that by (auto simp: sub job_flags_def)
    have old: "r \<notin> set (job_flags j)" if "j \<in> set (l_done l) \<or> Flagged j \<in> set (p_workers p)" for j
      using tk taken_mem(1) [OF inv, of j] busy_mem [of j p] that by blast
    show ?thesis
    proof (rule data_invI)
      fix j i assume "j \<in> set fs" "i \<in> src_range j"
      then show "p_mem q i = m0 i" using data_invD(1) [OF d, of j i] by (simp add: q)
    next
      fix j assume "j \<in> set (l_done l) \<or> Ran j \<in> set (p_workers q) \<or> Flagged j \<in> set (p_workers q)"
      then show "copied m0 (p_mem q) j" using data_invD(2) [OF d, of j] by (auto simp: q)
    next
      fix j b assume "j \<in> set (l_sub l)" "b \<in> set (job_flags j)" "b \<in> p_ready q" "Reset_flag b \<notin> set (p_todo q)"
      then show "j \<in> set (l_done l) \<or> Flagged j \<in> set (p_workers q)"
        using data_invD(3) [OF d, of j b] by (auto simp: q todo r)
    next
      fix j b assume "j \<in> set (l_done l) \<or> Flagged j \<in> set (p_workers q)" "b \<in> set (job_flags j)"
      then show "b \<in> p_ready q" using data_invD(4) [OF d, of j b] old [of j] by (auto simp: q)
    qed
  qed
qed


lemma worker_act_data:
  assumes inv: "pool_inv l p" and d: "data_inv fs m0 l p" and t: "t < length (p_workers p)"
    and act: "worker_act run t p = Some q" and ind: "indep run fs" and sub: "set (l_sub l) \<subseteq> set fs"
    and flags: "distinct (concat (map job_flags (l_sub l)))"
  shows "data_inv fs m0 (log_act t p l) q"
proof -
  let ?w = "p_workers p ! t"
  have mem: "?w \<in> set (p_workers p)" using t by simp
  have taken: "j \<in> set (l_sub l)" if "j \<in> set (l_done l) \<or> Took j \<in> set (p_workers p) \<or> Ran j \<in> set (p_workers p) \<or> Flagged j \<in> set (p_workers p)" for j
    using taken_mem(1) [OF inv, of j] taken_mem(2) [OF inv] busy_mem [of j p] that by blast
  note keep = upd_keep [where ws = "p_workers p" and t = t] and new = upd_in [where ws = "p_workers p" and t = t]
  show ?thesis
  proof (cases ?w)
    case Ready
    then obtain c where q: "p_workers q = (p_workers p)[t := c]" "p_mem q = p_mem p" "p_ready q = p_ready p" "p_todo q = p_todo p"
      and c: "\<And>j. c \<noteq> Ran j \<and> c \<noteq> Flagged j"
      using act by (auto simp: worker_act_def split: if_splits)
    have l: "l_done (log_act t p l) = l_done l" "l_sub (log_act t p l) = l_sub l" by (simp_all add: log_act_def Ready)
    show ?thesis
    proof (rule data_inv_frame [OF d q(2,3) l(1)])
      fix j
      show "Ran j \<in> set (p_workers q) \<Longrightarrow> Ran j \<in> set (p_workers p)" using c new unfolding q(1) by metis
      show "Flagged j \<in> set (p_workers q) \<longleftrightarrow> Flagged j \<in> set (p_workers p)"
        using c new keep Ready unfolding q(1) by (metis wpc.distinct(7))
    qed (simp add: l q)
  next
    case (Took j)
    then have q: "q = p\<lparr>p_workers := (p_workers p)[t := Ran j], p_mem := job_effect run j (p_mem p)\<rparr>" and l: "log_act t p l = l"
      using act by (simp_all add: worker_act_def log_act_def)
    have j: "j \<in> set fs" using taken [of j] mem Took sub by auto
    have src: "p_mem q i = m0 i" if "k \<in> set fs" "i \<in> src_range k" for k i
      using job_effect_src [OF ind j that, of "p_mem p"] data_invD(1) [OF d that] by (simp add: q)
    show ?thesis unfolding l
    proof (rule data_invI)
      fix k assume k: "k \<in> set (l_done l) \<or> Ran k \<in> set (p_workers q) \<or> Flagged k \<in> set (p_workers q)"
      show "copied m0 (p_mem q) k"
      proof (cases "k = j")
        case True
        show ?thesis using job_effect_copied [of j "p_mem p" m0 run] data_invD(1) [OF d j] by (simp add: True q)
      next
        case False
        have kf: "k \<in> set (l_done l) \<or> Ran k \<in> set (p_workers p) \<or> Flagged k \<in> set (p_workers p)"
          using k new [of "Ran k" "Ran j"] new [of "Flagged k" "Ran j"] False by (auto simp: q)
        then have ks: "k \<in> set fs" using taken sub by blast
        show ?thesis
        proof (rule copied_other [OF data_invD(2) [OF d kf]])
          fix i assume i: "i \<in> dst_range k"
          have "dst_range j \<inter> dst_range k = {}" using ind j ks False unfolding indep_def by blast
          then have "i \<notin> dst_range j" using i by blast
          then show "p_mem q i = p_mem p i" using job_effect_out [OF ind j ks, of i] i by (simp add: q)
        qed
      qed
    next
      fix k a assume "k \<in> set (l_sub l)" "a \<in> set (job_flags k)" "a \<in> p_ready q" "Reset_flag a \<notin> set (p_todo q)"
      then have "k \<in> set (l_done l) \<or> Flagged k \<in> set (p_workers p)" using data_invD(3) [OF d, of k a] by (simp add: q)
      then show "k \<in> set (l_done l) \<or> Flagged k \<in> set (p_workers q)" using keep [of "Flagged k" "Ran j"] Took by (auto simp: q)
    next
      fix k a assume "k \<in> set (l_done l) \<or> Flagged k \<in> set (p_workers q)" "a \<in> set (job_flags k)"
      then show "a \<in> p_ready q" using data_invD(4) [OF d, of k a] new [of "Flagged k" "Ran j"] by (auto simp: q)
    qed (rule src)
  next
    case (Ran j)
    then have q: "q = p\<lparr>p_workers := (p_workers p)[t := Flagged j], p_ready := job_flag j (p_ready p)\<rparr>" and l: "log_act t p l = l"
      using act by (simp_all add: worker_act_def log_act_def)
    have j: "j \<in> set (l_sub l)" using taken [of j] mem Ran by auto
    have fl: "a \<in> job_flag j R \<longleftrightarrow> a \<in> R \<or> a \<in> set (job_flags j)" for a R
      by (auto simp: job_flag_def job_flags_def split: job.splits option.splits)
    have jw: "Flagged j \<in> set (p_workers q)" using t by (simp add: q set_update_memI)
    show ?thesis unfolding l
    proof (rule data_invI)
      fix k i assume "k \<in> set fs" "i \<in> src_range k"
      then show "p_mem q i = m0 i" using data_invD(1) [OF d, of k i] by (simp add: q)
    next
      fix k assume "k \<in> set (l_done l) \<or> Ran k \<in> set (p_workers q) \<or> Flagged k \<in> set (p_workers q)"
      then have "k \<in> set (l_done l) \<or> Ran k \<in> set (p_workers p) \<or> Flagged k \<in> set (p_workers p)"
        using new [of "Ran k" "Flagged j"] new [of "Flagged k" "Flagged j"] mem Ran by (auto simp: q)
      then show "copied m0 (p_mem q) k" using data_invD(2) [OF d, of k] by (simp add: q)
    next
      fix k a assume a: "k \<in> set (l_sub l)" "a \<in> set (job_flags k)" "a \<in> p_ready q" "Reset_flag a \<notin> set (p_todo q)"
      show "k \<in> set (l_done l) \<or> Flagged k \<in> set (p_workers q)"
      proof (cases "a \<in> set (job_flags j)")
        case True
        then have "k = j" using flags_same [OF flags a(1) j a(2)] by simp
        then show ?thesis using jw by simp
      next
        case False
        then have "k \<in> set (l_done l) \<or> Flagged k \<in> set (p_workers p)"
          using data_invD(3) [OF d, of k a] a by (simp add: q fl)
        then show ?thesis using keep [of "Flagged k" "Flagged j"] Ran by (auto simp: q)
      qed
    next
      fix k a assume "k \<in> set (l_done l) \<or> Flagged k \<in> set (p_workers q)" "a \<in> set (job_flags k)"
      then show "a \<in> p_ready q"
        using data_invD(4) [OF d, of k a] new [of "Flagged k" "Flagged j"] by (auto simp: q fl)
    qed
  next
    case (Flagged j)
    then have q: "q = p\<lparr>p_workers := (p_workers p)[t := Ready], p_inflight := p_inflight p - 1\<rparr>"
      and l: "l_done (log_act t p l) = l_done l @ [j]" "l_sub (log_act t p l) = l_sub l"
      using act by (simp_all add: worker_act_def log_act_def)
    have o: "k \<in> set (l_done l) \<or> Flagged k \<in> set (p_workers p)" if "k \<in> set (l_done (log_act t p l)) \<or> Flagged k \<in> set (p_workers q)" for k
      using that mem Flagged new [of "Flagged k" Ready] by (auto simp: q l)
    show ?thesis
    proof (rule data_invI)
      fix k i assume "k \<in> set fs" "i \<in> src_range k"
      then show "p_mem q i = m0 i" using data_invD(1) [OF d, of k i] by (simp add: q)
    next
      fix k assume "k \<in> set (l_done (log_act t p l)) \<or> Ran k \<in> set (p_workers q) \<or> Flagged k \<in> set (p_workers q)"
      then have "k \<in> set (l_done l) \<or> Ran k \<in> set (p_workers p) \<or> Flagged k \<in> set (p_workers p)"
        using o [of k] new [of "Ran k" Ready] by (auto simp: q)
      then show "copied m0 (p_mem q) k" using data_invD(2) [OF d, of k] by (simp add: q)
    next
      fix k a assume "k \<in> set (l_sub (log_act t p l))" "a \<in> set (job_flags k)" "a \<in> p_ready q" "Reset_flag a \<notin> set (p_todo q)"
      then have "k \<in> set (l_done l) \<or> Flagged k \<in> set (p_workers p)" using data_invD(3) [OF d, of k a] by (simp add: q l)
      then show "k \<in> set (l_done (log_act t p l)) \<or> Flagged k \<in> set (p_workers q)"
        using keep [of "Flagged k" Ready] Flagged by (auto simp: q l)
    next
      fix k a assume "k \<in> set (l_done (log_act t p l)) \<or> Flagged k \<in> set (p_workers q)" "a \<in> set (job_flags k)"
      then show "a \<in> p_ready q" using data_invD(4) [OF d, of k a] o [of k] by (simp add: q)
    qed
  qed (use act in \<open>simp_all add: worker_act_def\<close>)
qed


lemma pool_step_sub: "pool_step run s s' \<Longrightarrow> \<exists>js. l_sub (fst s') = l_sub (fst s) @ js"
  by (induction rule: pool_step.induct) (auto simp: log_act_def split: wpc.splits)

lemma pool_step_data:
  assumes "pool_step run s s'" and "pool_inv (fst s) (snd s)" "data_inv fs m0 (fst s) (snd s)"
    and ind: "indep run fs" and sub: "fs = l_sub (fst s) @ js"
  shows "data_inv fs m0 (fst s') (snd s')"
proof -
  have flags: "distinct (concat (map job_flags (l_sub (fst s))))" using ind by (simp add: indep_def sub)
  show ?thesis using assms(1)
  proof cases
    case (ps_call p c l)
    have r: "j \<in> set (l_sub l)" if "j \<in> set (call_jobs c)" "r \<in> set (job_flags j)" "Reset_flag r \<notin> set (call_acts c)" for j r
      using that by (cases c) (auto simp: call_jobs_def call_acts_def pool_submit_def job_flags_def split: option.splits)
    show ?thesis using ps_call assms(3) r by (auto intro!: data_inv_frame [of fs m0 l p])
  next
    case (ps_start p l w)
    show ?thesis using ps_start assms(3) by (auto simp: pool_start_def Let_def intro!: data_inv_frame [of fs m0 l p])
  next
    case (ps_caller t p q l)
    then show ?thesis using caller_act_data [of l p fs m0 t q] assms(2,3) flags by simp
  next
    case (ps_worker t p q l)
    have "set (l_sub l) \<subseteq> set fs" using sub ps_worker by simp
    then show ?thesis using worker_act_data [of l p fs m0 t run q] ps_worker assms(2,3) flags ind by simp
  next
    case (ps_spurious t p l)
    have w: "x \<in> set ((p_workers p)[t := Ready]) \<longleftrightarrow> x \<in> set (p_workers p)" if "x \<noteq> Ready" "x \<noteq> Asleep" for x
      using that upd_in [of x "p_workers p" t Ready] upd_keep [of x "p_workers p" t Ready] ps_spurious by auto
    have d: "data_inv fs m0 l p" using assms(3) ps_spurious by simp
    have "data_inv fs m0 l (p\<lparr>p_workers := (p_workers p)[t := Ready]\<rparr>)"
      by (rule data_inv_frame [OF d]) (simp_all add: w)
    then show ?thesis using ps_spurious by simp
  qed
qed

lemma idle_start:
  assumes "pool_inv l0 p" "pool_idle p" "p_todo p = []"
  shows "pool_inv log_new p" "data_inv fs (p_mem p) log_new p"
proof -
  have "waiting p = []" "busy p = []" using assms by (auto simp: pool_inv_def pool_idle_def)
  then show "pool_inv log_new p" "data_inv fs (p_mem p) log_new p"
    using assms busy_mem [of _ p] by (auto simp: pool_inv_def log_new_def data_inv_def)
qed

lemma pool_wave:
  assumes base: "pool_inv l0 p0" "pool_idle p0" "p_todo p0 = []"
    and run: "(pool_step run)\<^sup>*\<^sup>* (log_new, p0) s" and ind: "indep run fs" and sub: "fs = l_sub (fst s) @ js"
  shows "pool_inv (fst s) (snd s) \<and> data_inv fs (p_mem p0) (fst s) (snd s)"
  using run sub
proof (induction arbitrary: js rule: rtranclp_induct)
  case base
  then show ?case using idle_start [OF assms(1-3)] by simp
next
  case (step s s')
  obtain ks where "l_sub (fst s') = l_sub (fst s) @ ks" using pool_step_sub [OF step(2)] by blast
  then have fs: "fs = l_sub (fst s) @ (ks @ js)" using step(4) by simp
  then show ?case using step(3) [OF fs] pool_step_inv [OF step(2)] pool_step_data [OF step(2) _ _ ind fs] by blast
qed

lemma all_flags:
  assumes "data_inv fs m0 l p" "mset (l_done l) = mset (l_sub l)" "j \<in> set (l_sub l)"
  shows "copied m0 (p_mem p) j" "set (job_flags j) \<subseteq> p_ready p"
proof -
  have "j \<in> set (l_done l)" using assms(2,3) by (metis set_mset_mset)
  then show "copied m0 (p_mem p) j" "set (job_flags j) \<subseteq> p_ready p" using data_invD(2,4) [OF assms(1)] by blast+
qed

text \<open>C27. What the pool promises for jobs that do not interfere (distinct ready flags, no copy
  writing what another reads or writes, functions that leave the copied ranges alone). Start
  from a reachable pool that is idle between two calls and let the search thread make any calls
  and the workers any steps, spurious wake-ups and restarts included. Once \<open>submit\<close> has reset
  it, a ready flag that is set says that the job's destination holds the bytes its source held
  at the start. And when \<open>wait_idle\<close> sees \<open>inflight == 0\<close>, or \<open>stop_join\<close> has returned, every
  job submitted since was run exactly once, they were taken in the order of submission, every
  copy is in place and every ready flag is set.\<close>
theorem pool_idle_all_done:
  assumes "pool_reach run w m (l0, p0)" "pool_idle p0" "p_todo p0 = []"
    and "(pool_step run)\<^sup>*\<^sup>* (log_new, p0) (l, p)" and "indep run (l_sub l)"
  shows "(\<forall>a b n r. Copy (Some a) (Some b) n (Some r) \<in> set (l_sub l) \<and> r \<in> p_ready p \<and> Reset_flag r \<notin> set (p_todo p) \<longrightarrow>
      image_bytes (p_mem p) b n = image_bytes (p_mem p0) a n) \<and>
    (pool_idle p \<and> p_todo p = [] \<longrightarrow>
      mset (l_done l) = mset (l_sub l) \<and> l_taken l = l_sub l \<and>
      (\<forall>a b n r. Copy (Some a) (Some b) n r \<in> set (l_sub l) \<longrightarrow> image_bytes (p_mem p) b n = image_bytes (p_mem p0) a n) \<and>
      (\<forall>s d n r. Copy s d n (Some r) \<in> set (l_sub l) \<longrightarrow> r \<in> p_ready p))"
proof -
  have i: "pool_inv l p" and d: "data_inv (l_sub l) (p_mem p0) l p"
    using pool_wave [OF _ assms(2-5), of l0 "[]"] pool_reach_inv [OF assms(1)] by simp_all
  have flagged: "image_bytes (p_mem p) b n = image_bytes (p_mem p0) a n"
    if j: "Copy (Some a) (Some b) n (Some r) \<in> set (l_sub l)" "r \<in> p_ready p" "Reset_flag r \<notin> set (p_todo p)" for a b n r
    using data_invD(2) [OF d, of "Copy (Some a) (Some b) n (Some r)"] data_invD(3) [OF d j(1), of r] j(2,3)
    by (auto simp: job_flags_def copied_def)
  have idle: "mset (l_done l) = mset (l_sub l) \<and> l_taken l = l_sub l" if "pool_idle p" "p_todo p = []"
  proof -
    have "waiting p = []" "busy p = []" using i that by (auto simp: pool_inv_def pool_idle_def)
    then show ?thesis using i that by (simp add: pool_inv_def)
  qed
  have cp: "image_bytes (p_mem p) b n = image_bytes (p_mem p0) a n"
    if "pool_idle p" "p_todo p = []" "Copy (Some a) (Some b) n r \<in> set (l_sub l)" for a b n r
    using all_flags(1) [OF d _ that(3)] idle that by (simp add: copied_def)
  have fl: "r \<in> p_ready p" if "pool_idle p" "p_todo p = []" "Copy s d' n (Some r) \<in> set (l_sub l)" for s d' n r
    using all_flags(2) [OF d _ that(3)] idle that by (simp add: job_flags_def)
  show ?thesis using flagged idle cp fl by blast
qed

text \<open>A pool of one worker: the call of \<open>submit\<close> runs to its end, then the worker runs the job.\<close>

definition demo_job :: "unit job" where
  "demo_job = Copy (Some 0) (Some 8) 2 (Some 100)"

definition demo_start :: "unit pool" where
  "demo_start = pool_start 1 (pool_new (\<lambda>i. of_nat i))"

definition demo_call :: "unit run_log \<times> unit pool" where
  "demo_call = (log_new\<lparr>l_sub := [demo_job]\<rparr>, demo_start\<lparr>p_todo := call_acts (Submit (Some 0) (Some 8) 2 (Some 100))\<rparr>)"

definition demo_next :: "unit run_log \<times> unit pool \<Rightarrow> unit run_log \<times> unit pool" where
  "demo_next s =
     (case caller_act 0 (snd s) of Some q \<Rightarrow> (fst s, q)
      | None \<Rightarrow> (case worker_act (\<lambda>_ m. m) 0 (snd s) of Some q \<Rightarrow> (log_act 0 (snd s) (fst s), q) | None \<Rightarrow> s))"

lemma demo_call_step: "pool_step (\<lambda>_ m. m) (log_new, demo_start) demo_call"
  using ps_call [of demo_start "Submit (Some 0) (Some 8) 2 (Some 100)" "\<lambda>_ m. m" log_new]
  by (simp add: demo_call_def demo_start_def demo_job_def pool_start_def pool_new_def log_new_def call_jobs_def)

lemma demo_next_step:
  "p_workers (snd s) \<noteq> [] \<Longrightarrow> (pool_step (\<lambda>_ m. m))\<^sup>*\<^sup>* s (demo_next s)"
  by (cases s) (auto simp: demo_next_def split: option.splits intro: ps_caller ps_worker)

lemma demo_next_steps:
  "(\<And>i. i < k \<Longrightarrow> p_workers (snd ((demo_next ^^ i) demo_call)) \<noteq> []) \<Longrightarrow>
    (pool_step (\<lambda>_ m. m))\<^sup>*\<^sup>* (log_new, demo_start) ((demo_next ^^ k) demo_call)"
proof (induction k)
  case 0
  then show ?case using demo_call_step by auto
next
  case (Suc k)
  have "(pool_step (\<lambda>_ m. m))\<^sup>*\<^sup>* (log_new, demo_start) ((demo_next ^^ k) demo_call)" using Suc by simp
  then show ?case using demo_next_step [of "(demo_next ^^ k) demo_call"] Suc.prems [of k]
    by (auto intro: rtranclp_trans)
qed

lemmas demo_defs = demo_call_def demo_start_def demo_job_def demo_next_def pool_start_def pool_new_def log_new_def
  call_acts_def pool_submit_def caller_act_def worker_act_def log_act_def push_jobs_def compact_locked_def job_effect_def
  job_flag_def

lemma demo_run:
  "fst ((demo_next ^^ 8) demo_call) = \<lparr>l_sub = [demo_job], l_taken = [demo_job], l_done = [demo_job]\<rparr>"
  "p_inflight (snd ((demo_next ^^ 8) demo_call)) = 0" "p_todo (snd ((demo_next ^^ 8) demo_call)) = []"
  by (simp_all add: numeral_eq_Suc demo_defs Let_def)

lemma demo_workers: "i < 8 \<Longrightarrow> p_workers (snd ((demo_next ^^ i) demo_call)) \<noteq> []"
  by (auto simp: numeral_eq_Suc less_Suc_eq demo_defs Let_def)

lemma demo_reach0: "pool_reach (\<lambda>_ m. m) 1 (\<lambda>i. of_nat i) (log_new, demo_start)"
  unfolding demo_start_def by (rule pr_init)

theorem pool_idle_all_done_witness:
  "image_bytes (p_mem (snd ((demo_next ^^ 8) demo_call))) 8 2 = [0, 1] \<and> 100 \<in> p_ready (snd ((demo_next ^^ 8) demo_call))"
proof -
  let ?s = "(demo_next ^^ 8) demo_call"
  have run: "(pool_step (\<lambda>_ m. m))\<^sup>*\<^sup>* (log_new, demo_start) (fst ?s, snd ?s)" using demo_next_steps demo_workers by simp
  have ind: "indep (\<lambda>_ m. m) (l_sub (fst ?s))"
    by (simp add: demo_run(1) indep_def job_flags_def src_range_def dst_range_def demo_job_def)
  have s0: "pool_idle demo_start" "p_todo demo_start = []" "p_mem demo_start = (\<lambda>i. of_nat i)"
    by (simp_all add: pool_idle_def demo_start_def pool_start_def pool_new_def)
  have "pool_idle (snd ?s)" "demo_job \<in> set (l_sub (fst ?s))" by (simp_all add: demo_run pool_idle_def)
  then have "image_bytes (p_mem (snd ?s)) 8 2 = image_bytes (p_mem demo_start) 0 2 \<and> 100 \<in> p_ready (snd ?s)"
    using pool_idle_all_done [OF demo_reach0 s0(1,2) run ind] demo_run(3) unfolding demo_job_def by blast
  then show ?thesis by (simp add: s0(3) image_bytes_def numeral_eq_Suc upt_rec)
qed

text \<open>C29. \<open>wait_idle\<close> comes back and no wake-up is lost. From every state of a started pool,
  stopping or not, and whatever the interleaving of its workers with the steps of the call in
  progress (\<open>submit\<close>, \<open>submit_fn\<close>, \<open>submit_fns\<close> or \<open>stop_join\<close>, its \<open>notify_one\<close> or \<open>notify_all\<close>
  being a step of its own and the worker that \<open>notify_one\<close> wakes being any of those asleep): as
  long as no further call begins and no thread wakes up spuriously, at most \<open>pool_work\<close> steps
  are possible, and as long as the pool is not idle or the call has not returned, another one is.\<close>
theorem pool_progress:
  assumes "pool_reach run w m (l, p)" and "((pool_act run) ^^ n) p q"
  shows "n \<le> pool_work p \<and> ((\<exists>q'. pool_act run q q') \<or> pool_idle q \<and> p_todo q = [])"
proof -
  obtain l' where "pool_reach run w m (l', q)" and n: "n + pool_work q \<le> pool_work p"
    using pool_acts_bound [OF assms] by blast
  then show ?thesis using pool_reach_inv [of run w m "(l', q)"] stuck_idle [of l' q run] by fastforce
qed

theorem pool_progress_witness: "\<exists>q. pool_act (\<lambda>_ m. m) (snd demo_call) q"
proof -
  have r: "pool_reach (\<lambda>_ m. m) 1 (\<lambda>i. of_nat i) (fst demo_call, snd demo_call)"
    using pr_step [OF demo_reach0 demo_call_step] by simp
  have "((pool_act (\<lambda>_ m. m)) ^^ 0) (snd demo_call) (snd demo_call)" by simp
  then have "(\<exists>q. pool_act (\<lambda>_ m. m) (snd demo_call) q) \<or> p_todo (snd demo_call) = []"
    using pool_progress [OF r] by blast
  then show ?thesis by (simp add: demo_call_def call_acts_def pool_submit_def)
qed

end
