(* ===== verification/Promote_Pipe.thy ===== *)
theory Promote_Pipe
  imports Metrics "HOL-Library.Multiset"
begin

text \<open>
  \<open>serving/promote_pipe.hpp\<close>: at most \<open>W\<close> outstanding copies from the SSD image into
  host staging buffers. A slot is free, queued or done; the workers take queued slots from
  \<open>job_q\<close>, copy and publish them, the search thread submits, polls and releases. The
  workers run between the locks of the search thread, so their program counters are part
  of the state.
\<close>

section \<open>State\<close>

datatype slot_st = SFree | SQueued | SDone

record pipe_slot =
  s_state :: slot_st
  s_id :: nat
  s_ptr :: "nat option"
  s_len :: nat
  s_host :: "byte list"

text \<open>A worker waits, holds a slot it took, has copied it, or has left its loop.\<close>

datatype pipe_pc = PWait | PGot nat | PCopied nat | PExit

record promote_pipe =
  pp_W :: nat
  pp_metrics :: "metrics option"
  pp_slots :: "pipe_slot list"
  pp_jobs :: "nat list"
  pp_stop :: bool
  pp_workers :: "pipe_pc list"
  pp_inflight :: nat
  pp_started :: bool

definition kMaxW :: nat where
  "kMaxW = 16"

definition kPipePage :: nat where
  "kPipePage = 4096"

section \<open>Operations\<close>

definition pipe_start :: "nat \<Rightarrow> metrics option \<Rightarrow> promote_pipe \<Rightarrow> promote_pipe" where
  "pipe_start width m p =
     (if pp_started p then p
      else let w = (if width < 1 then 1 else if kMaxW < width then kMaxW else width)
           in p\<lparr>pp_metrics := m, pp_W := w, pp_stop := False,
                pp_slots := map (\<lambda>s. s\<lparr>s_state := SFree, s_host := []\<rparr>) (pp_slots p),
                pp_jobs := [], pp_inflight := 0, pp_workers := replicate w PWait, pp_started := True\<rparr>)"

definition pipe_stop_request :: "promote_pipe \<Rightarrow> promote_pipe" where
  "pipe_stop_request p = (if pp_started p then p\<lparr>pp_stop := True\<rparr> else p)"

definition pipe_stop_joined :: "promote_pipe \<Rightarrow> promote_pipe" where
  "pipe_stop_joined p = (if pp_started p then p\<lparr>pp_workers := [], pp_started := False\<rparr> else p)"

text \<open>The first free slot below \<open>W\<close>.\<close>

function first_free :: "pipe_slot list \<Rightarrow> nat \<Rightarrow> nat \<Rightarrow> nat option" where
  "first_free ss w i =
     (if i < w then (if s_state (ss ! i) = SFree then Some i else first_free ss w (i + 1)) else None)"
  by pat_completeness auto
termination by (relation "measure (\<lambda>(ss, w, i). w - i)") auto

declare first_free.simps [simp del]

text \<open>Result \<open>None\<close> is \<open>-1\<close>.\<close>

definition try_submit :: "nat \<Rightarrow> nat option \<Rightarrow> nat \<Rightarrow> promote_pipe \<Rightarrow> nat option \<times> promote_pipe" where
  "try_submit i ptr n p =
     (if \<not> pp_started p \<or> ptr = None \<or> n = 0 then (None, p)
      else if pp_W p \<le> pp_inflight p then (None, p)
      else case first_free (pp_slots p) (pp_W p) 0 of
             None \<Rightarrow> (None, p)
           | Some k \<Rightarrow>
               (let s = pp_slots p ! k;
                    h = take n (s_host s) @ replicate (n - length (s_host s)) 0
                in (Some k, p\<lparr>pp_slots := (pp_slots p)[k := s\<lparr>s_id := i, s_ptr := ptr, s_len := n,
                       s_host := h, s_state := SQueued\<rparr>],
                     pp_jobs := pp_jobs p @ [k], pp_inflight := pp_inflight p + 1\<rparr>)))"

definition poll_done :: "promote_pipe \<Rightarrow> nat list" where
  "poll_done p = filter (\<lambda>i. s_state (pp_slots p ! i) = SDone) [0..<pp_W p]"

text \<open>The predicate of \<open>cv_done.wait\<close>, which may reset \<open>inflight\<close>.\<close>

definition wait_pred :: "promote_pipe \<Rightarrow> bool \<times> promote_pipe" where
  "wait_pred p =
     (if pp_stop p then (True, p)
      else if list_ex (\<lambda>i. s_state (pp_slots p ! i) = SDone) [0..<pp_W p] then (True, p)
      else let p1 = (if 0 < pp_inflight p \<and> pp_jobs p = [] \<and>
                        \<not> list_ex (\<lambda>i. s_state (pp_slots p ! i) \<noteq> SFree) [0..<pp_W p]
                     then p\<lparr>pp_inflight := 0\<rparr> else p)
           in (pp_inflight p1 = 0, p1))"

definition pipe_release :: "nat \<Rightarrow> promote_pipe \<Rightarrow> promote_pipe" where
  "pipe_release k p =
     (let prev = s_state (pp_slots p ! k);
          p1 = p\<lparr>pp_slots := (pp_slots p)[k := (pp_slots p ! k)\<lparr>s_state := SFree, s_ptr := None, s_len := 0\<rparr>]\<rparr>
      in if prev = SDone \<or> prev = SQueued
         then (if 0 < pp_inflight p1 then p1\<lparr>pp_inflight := pp_inflight p1 - 1\<rparr> else p1)
         else p1)"

text \<open>One action of worker \<open>t\<close> on the image \<open>ssd\<close>; \<open>None\<close> when it is blocked or gone.\<close>

definition pipe_pages :: "nat \<Rightarrow> nat" where
  "pipe_pages n = (let k = (n + kPipePage - 1) div kPipePage in if k < 1 then 1 else k)"

definition pipe_act :: "(nat \<Rightarrow> byte) \<Rightarrow> nat \<Rightarrow> promote_pipe \<Rightarrow> promote_pipe option" where
  "pipe_act ssd t p =
     (case pp_workers p ! t of
        PWait \<Rightarrow>
          (if pp_stop p \<and> pp_jobs p = [] then Some (p\<lparr>pp_workers := (pp_workers p)[t := PExit]\<rparr>)
           else (case pp_jobs p of
                   [] \<Rightarrow> None
                 | k # ks \<Rightarrow> Some (p\<lparr>pp_workers := (pp_workers p)[t := PGot k], pp_jobs := ks\<rparr>)))
      | PGot k \<Rightarrow>
          (let s = pp_slots p ! k;
               bs = (case s_ptr s of None \<Rightarrow> [] | Some a \<Rightarrow> image_bytes ssd a (s_len s))
           in Some (p\<lparr>pp_slots := (pp_slots p)[k := s\<lparr>s_host := mem_write 0 bs (s_host s)\<rparr>],
                      pp_metrics := map_option (\<lambda>m. m\<lparr>ssd_misses := ssd_misses m + 1,
                        promote_bytes := promote_bytes m + pipe_pages (s_len s) * kPipePage,
                        prefetch_pages := prefetch_pages m + pipe_pages (s_len s)\<rparr>) (pp_metrics p),
                      pp_workers := (pp_workers p)[t := PCopied k]\<rparr>))
      | PCopied k \<Rightarrow>
          Some (p\<lparr>pp_slots := (pp_slots p)[k := (pp_slots p ! k)\<lparr>s_state := SDone\<rparr>],
                  pp_workers := (pp_workers p)[t := PWait]\<rparr>)
      | PExit \<Rightarrow> None)"

section \<open>Runs\<close>

text \<open>The search thread releases only slots it has seen done.\<close>

inductive pipe_step :: "(nat \<Rightarrow> byte) \<Rightarrow> promote_pipe \<Rightarrow> promote_pipe \<Rightarrow> bool" for ssd where
  pst_submit: "\<not> pp_stop p \<Longrightarrow> pipe_step ssd p (snd (try_submit i ptr n p))"
| pst_wait: "pipe_step ssd p (snd (wait_pred p))"
| pst_release: "k \<in> set (poll_done p) \<Longrightarrow> pipe_step ssd p (pipe_release k p)"
| pst_stop: "pipe_step ssd p (pipe_stop_request p)"
| pst_work: "t < length (pp_workers p) \<Longrightarrow> pipe_act ssd t p = Some q \<Longrightarrow> pipe_step ssd p q"

inductive pipe_reach :: "(nat \<Rightarrow> byte) \<Rightarrow> promote_pipe \<Rightarrow> promote_pipe \<Rightarrow> bool" for ssd p0 where
  prc_init: "pipe_reach ssd p0 p0"
| prc_step: "pipe_reach ssd p0 p \<Longrightarrow> pipe_step ssd p q \<Longrightarrow> pipe_reach ssd p0 q"

section \<open>The invariant\<close>

definition pc_slot :: "pipe_pc \<Rightarrow> nat list" where
  "pc_slot c = (case c of PGot k \<Rightarrow> [k] | PCopied k \<Rightarrow> [k] | _ \<Rightarrow> [])"

definition in_work :: "promote_pipe \<Rightarrow> nat list" where
  "in_work p = pp_jobs p @ concat (map pc_slot (pp_workers p))"

definition slot_flags :: "promote_pipe \<Rightarrow> bool list" where
  "slot_flags p = map (\<lambda>s. s_state s \<noteq> SFree) (take (pp_W p) (pp_slots p))"

definition pipe_inv :: "(nat \<Rightarrow> byte) \<Rightarrow> promote_pipe \<Rightarrow> bool" where
  "pipe_inv ssd p \<longleftrightarrow> pp_W p \<le> length (pp_slots p) \<and> distinct (in_work p) \<and>
     (\<forall>k. k \<in> set (in_work p) \<longleftrightarrow> k < pp_W p \<and> s_state (pp_slots p ! k) = SQueued) \<and>
     pp_inflight p = count_true (slot_flags p) \<and>
     (\<forall>k < pp_W p. s_state (pp_slots p ! k) \<noteq> SFree \<longrightarrow>
        s_ptr (pp_slots p ! k) \<noteq> None \<and> length (s_host (pp_slots p ! k)) = s_len (pp_slots p ! k)) \<and>
     (\<forall>k < pp_W p. s_state (pp_slots p ! k) = SDone \<or> PCopied k \<in> set (pp_workers p) \<longrightarrow>
        s_host (pp_slots p ! k) = image_bytes ssd (the (s_ptr (pp_slots p ! k))) (s_len (pp_slots p ! k)))"

lemma first_free_Some: "first_free ss w i = Some k \<Longrightarrow> i \<le> k \<and> k < w \<and> s_state (ss ! k) = SFree"
proof (induction ss w i rule: first_free.induct)
  case (1 ss w i)
  then show ?case by (fastforce simp: first_free.simps [of ss w i] split: if_splits)
qed

lemma first_free_None: "first_free ss w i = None \<Longrightarrow> i \<le> j \<Longrightarrow> j < w \<Longrightarrow> s_state (ss ! j) \<noteq> SFree"
proof (induction ss w i rule: first_free.induct)
  case (1 ss w i)
  then show ?case by (cases "j = i") (auto simp: first_free.simps [of ss w i] split: if_splits)
qed

lemma pc_slot_simps [simp]:
  "pc_slot PWait = []" "pc_slot (PGot k) = [k]" "pc_slot (PCopied k) = [k]" "pc_slot PExit = []"
  by (simp_all add: pc_slot_def)

lemma pc_update:
  "t < length cs \<Longrightarrow> mset (concat (map pc_slot (cs[t := c]))) + mset (pc_slot (cs ! t)) =
     mset (concat (map pc_slot cs)) + mset (pc_slot c)"
proof (induction cs arbitrary: t)
  case (Cons a cs)
  then show ?case by (cases t) (auto simp: ac_simps)
qed simp

lemma in_work_work:
  assumes "mset (in_work q) = mset (in_work p)"
  shows "distinct (in_work q) = distinct (in_work p)" "set (in_work q) = set (in_work p)"
  using assms by (metis mset_eq_imp_distinct_iff, metis mset_eq_setD)

lemma slot_flags_update:
  assumes "k < pp_W p" "pp_W p \<le> length (pp_slots p)"
  shows "map (\<lambda>s. s_state s \<noteq> SFree) (take (pp_W p) ((pp_slots p)[k := s])) = (slot_flags p)[k := s_state s \<noteq> SFree]"
  using assms by (simp add: slot_flags_def take_update_swap map_update)

lemma slot_flags_nth:
  assumes "k < pp_W p" "pp_W p \<le> length (pp_slots p)"
  shows "slot_flags p ! k = (s_state (pp_slots p ! k) \<noteq> SFree)" "k < length (slot_flags p)"
  using assms by (simp_all add: slot_flags_def)

lemma slot_flags_same:
  assumes "(s_state s \<noteq> SFree) = (s_state (pp_slots p ! k) \<noteq> SFree)"
    and "pp_slots q = (pp_slots p)[k := s]" "pp_W q = pp_W p" "pp_W p \<le> length (pp_slots p)"
  shows "slot_flags q = slot_flags p"
  using assms
  by (cases "k < length (pp_slots p)"; intro nth_equalityI) (auto simp: slot_flags_def nth_list_update)

lemma pipe_act_inv:
  assumes inv: "pipe_inv ssd p" and t: "t < length (pp_workers p)" and act: "pipe_act ssd t p = Some q"
  shows "pipe_inv ssd q"
proof (cases "pp_workers p ! t")
  case PWait
  show ?thesis
  proof (cases "pp_jobs p")
    case Nil
    then have q: "q = p\<lparr>pp_workers := (pp_workers p)[t := PExit]\<rparr>"
      using act PWait by (auto simp: pipe_act_def split: if_splits)
    have "mset (in_work q) = mset (in_work p)" using pc_update [OF t, of PExit] PWait by (simp add: q in_work_def)
    note W = in_work_work [OF this]
    have "PCopied k \<in> set (pp_workers p)" if "PCopied k \<in> set ((pp_workers p)[t := PExit])" for k
      using that set_update_subset_insert by fastforce
    with inv W show ?thesis by (auto simp: pipe_inv_def q slot_flags_def)
  next
    case (Cons k ks)
    then have q: "q = p\<lparr>pp_workers := (pp_workers p)[t := PGot k], pp_jobs := ks\<rparr>"
      using act PWait by (auto simp: pipe_act_def)
    have "mset (in_work q) = mset (in_work p)" using pc_update [OF t, of "PGot k"] PWait Cons by (simp add: q in_work_def)
    note W = in_work_work [OF this]
    have "PCopied j \<in> set (pp_workers p)" if "PCopied j \<in> set ((pp_workers p)[t := PGot k])" for j
      using that set_update_subset_insert by fastforce
    with inv W show ?thesis by (auto simp: pipe_inv_def q slot_flags_def)
  qed
next
  case (PGot k)
  let ?s = "pp_slots p ! k"
  have kw: "k \<in> set (in_work p)" using PGot t by (force simp: in_work_def in_set_conv_nth)
  then have k: "k < pp_W p" "s_state ?s = SQueued" "k < length (pp_slots p)" using inv by (auto simp: pipe_inv_def)
  obtain a where a: "s_ptr ?s = Some a" "length (s_host ?s) = s_len ?s" using inv k by (auto simp: pipe_inv_def)
  have host: "mem_write 0 (image_bytes ssd a (s_len ?s)) (s_host ?s) = image_bytes ssd a (s_len ?s)"
    using a(2) by (simp add: mem_write_def)
  let ?s' = "?s\<lparr>s_host := image_bytes ssd a (s_len ?s)\<rparr>"
  have q: "pp_slots q = (pp_slots p)[k := ?s']" "pp_workers q = (pp_workers p)[t := PCopied k]" "pp_jobs q = pp_jobs p"
    "pp_W q = pp_W p" "pp_inflight q = pp_inflight p"
    using act PGot a host by (auto simp: pipe_act_def Let_def)
  have "mset (in_work q) = mset (in_work p)" using pc_update [OF t, of "PCopied k"] PGot by (simp add: q in_work_def)
  note W = in_work_work [OF this]
  have fl: "slot_flags q = slot_flags p"
    using inv by (intro slot_flags_same [OF _ q(1,4)]) (simp_all add: pipe_inv_def)
  have pc: "PCopied j \<in> set (pp_workers p) \<or> j = k" if "PCopied j \<in> set (pp_workers q)" for j
    using that set_update_subset_insert unfolding q by fastforce
  have at: "pp_slots q ! j = (if j = k then ?s' else pp_slots p ! j)" for j using k by (simp add: q)
  have st: "s_state (pp_slots q ! j) = s_state (pp_slots p ! j)" for j by (simp add: at)
  have old: "\<forall>j. j \<in> set (in_work p) \<longleftrightarrow> j < pp_W p \<and> s_state (pp_slots p ! j) = SQueued"
    "\<forall>j < pp_W p. s_state (pp_slots p ! j) \<noteq> SFree \<longrightarrow>
        s_ptr (pp_slots p ! j) \<noteq> None \<and> length (s_host (pp_slots p ! j)) = s_len (pp_slots p ! j)"
    "\<forall>j < pp_W p. s_state (pp_slots p ! j) = SDone \<or> PCopied j \<in> set (pp_workers p) \<longrightarrow>
        s_host (pp_slots p ! j) = image_bytes ssd (the (s_ptr (pp_slots p ! j))) (s_len (pp_slots p ! j))"
    using inv by (auto simp only: pipe_inv_def)
  have "\<forall>j. j \<in> set (in_work q) \<longleftrightarrow> j < pp_W q \<and> s_state (pp_slots q ! j) = SQueued"
    using old(1) by (simp add: W st q(4))
  moreover have "\<forall>j < pp_W q. s_state (pp_slots q ! j) \<noteq> SFree \<longrightarrow>
        s_ptr (pp_slots q ! j) \<noteq> None \<and> length (s_host (pp_slots q ! j)) = s_len (pp_slots q ! j)"
    using old(2) a by (simp add: at q(4))
  moreover have "\<forall>j < pp_W q. s_state (pp_slots q ! j) = SDone \<or> PCopied j \<in> set (pp_workers q) \<longrightarrow>
        s_host (pp_slots q ! j) = image_bytes ssd (the (s_ptr (pp_slots q ! j))) (s_len (pp_slots q ! j))"
    using old(3) pc a by (auto simp: at q(4))
  ultimately show ?thesis
    using inv W(1) fl by (simp only: pipe_inv_def q(4,5) length_list_update q(1) simp_thms)
next
  case (PCopied k)
  let ?s = "pp_slots p ! k"
  have kw: "k \<in> set (in_work p)" using PCopied t by (force simp: in_work_def in_set_conv_nth)
  then have k: "k < pp_W p" "s_state ?s = SQueued" "k < length (pp_slots p)" using inv by (auto simp: pipe_inv_def)
  have q: "q = p\<lparr>pp_slots := (pp_slots p)[k := ?s\<lparr>s_state := SDone\<rparr>], pp_workers := (pp_workers p)[t := PWait]\<rparr>"
    using act PCopied by (auto simp: pipe_act_def)
  have m: "mset (in_work p) = add_mset k (mset (in_work q))"
    using pc_update [OF t, of PWait] PCopied by (simp add: q in_work_def)
  have d: "distinct (in_work p)" using inv by (simp add: pipe_inv_def)
  have dq: "distinct (in_work q)" and nk: "k \<notin> set (in_work q)" and sp: "set (in_work p) = insert k (set (in_work q))"
    using m d by (metis distinct.simps(2) mset.simps(2) mset_eq_imp_distinct_iff, metis distinct.simps(2) mset.simps(2) mset_eq_imp_distinct_iff,
      metis list.simps(15) mset.simps(2) mset_eq_setD)
  have fl: "slot_flags q = slot_flags p"
    using inv k by (intro slot_flags_same [of "?s\<lparr>s_state := SDone\<rparr>" p k]) (simp_all add: pipe_inv_def q)
  have pc: "PCopied j \<in> set (pp_workers p)" if "PCopied j \<in> set ((pp_workers p)[t := PWait])" for j
    using that set_update_subset_insert by fastforce
  have ck: "PCopied k \<in> set (pp_workers p)" using PCopied t by (metis nth_mem)
  have wk: "\<forall>j. j \<in> set (in_work q) \<longleftrightarrow> j < pp_W q \<and> s_state (pp_slots q ! j) = SQueued"
    using inv nk sp k unfolding pipe_inv_def by (auto simp: q nth_list_update split: if_splits)
  show ?thesis
    using inv dq wk fl k pc ck unfolding pipe_inv_def
    by (auto simp: q nth_list_update split: if_splits)
qed (use act in \<open>simp add: pipe_act_def\<close>)

lemma try_submit_inv:
  assumes inv: "pipe_inv ssd p"
  shows "pipe_inv ssd (snd (try_submit i ptr n p))"
proof (cases "fst (try_submit i ptr n p)")
  case None
  then have "snd (try_submit i ptr n p) = p"
    by (auto simp: try_submit_def Let_def split: if_splits option.splits)
  with inv show ?thesis by simp
next
  case (Some k)
  let ?s = "pp_slots p ! k"
  let ?s' = "?s\<lparr>s_id := i, s_ptr := ptr, s_len := n, s_host := take n (s_host ?s) @ replicate (n - length (s_host ?s)) 0,
               s_state := SQueued\<rparr>"
  obtain q where q: "snd (try_submit i ptr n p) = q" "q = p\<lparr>pp_slots := (pp_slots p)[k := ?s'],
      pp_jobs := pp_jobs p @ [k], pp_inflight := pp_inflight p + 1\<rparr>"
    and ff: "first_free (pp_slots p) (pp_W p) 0 = Some k" and ptr: "ptr \<noteq> None"
    using Some by (auto simp: try_submit_def Let_def split: if_splits option.splits)
  have k: "k < pp_W p" "s_state ?s = SFree" using first_free_Some [OF ff] by simp_all
  then have kl: "k < length (pp_slots p)" "pp_W p \<le> length (pp_slots p)" using inv by (auto simp: pipe_inv_def)
  have m: "mset (in_work q) = add_mset k (mset (in_work p))" by (simp add: q in_work_def)
  have nk: "k \<notin> set (in_work p)" using inv k by (auto simp: pipe_inv_def)
  have sq: "set (in_work q) = insert k (set (in_work p))" by (auto simp: q in_work_def)
  have at: "pp_slots q ! j = (if j = k then ?s' else pp_slots p ! j)" for j using kl by (simp add: q)
  have qf: "pp_W q = pp_W p" "pp_workers q = pp_workers p" "length (pp_slots q) = length (pp_slots p)"
    by (simp_all add: q)
  have old: "distinct (in_work p)"
    "\<forall>j. j \<in> set (in_work p) \<longleftrightarrow> j < pp_W p \<and> s_state (pp_slots p ! j) = SQueued"
    "pp_inflight p = count_true (slot_flags p)"
    "\<forall>j < pp_W p. s_state (pp_slots p ! j) \<noteq> SFree \<longrightarrow>
        s_ptr (pp_slots p ! j) \<noteq> None \<and> length (s_host (pp_slots p ! j)) = s_len (pp_slots p ! j)"
    "\<forall>j < pp_W p. s_state (pp_slots p ! j) = SDone \<or> PCopied j \<in> set (pp_workers p) \<longrightarrow>
        s_host (pp_slots p ! j) = image_bytes ssd (the (s_ptr (pp_slots p ! j))) (s_len (pp_slots p ! j))"
    using inv by (auto simp only: pipe_inv_def)
  have "distinct (in_work q)" using m old(1) nk by (metis distinct.simps(2) mset.simps(2) mset_eq_imp_distinct_iff)
  moreover have "\<forall>j. j \<in> set (in_work q) \<longleftrightarrow> j < pp_W q \<and> s_state (pp_slots q ! j) = SQueued"
  proof
    fix j show "j \<in> set (in_work q) \<longleftrightarrow> j < pp_W q \<and> s_state (pp_slots q ! j) = SQueued"
      using old(2) k(1) by (cases "j = k") (simp_all add: sq at qf)
  qed
  moreover have "slot_flags q = (slot_flags p)[k := True]"
    by (simp add: slot_flags_def q take_update_swap map_update)
  then have "pp_inflight q = count_true (slot_flags q)"
    using count_true_update [OF slot_flags_nth(2) [OF k(1) kl(2)], of True] slot_flags_nth(1) [OF k(1) kl(2)] k(2) old(3)
    by (simp add: q)
  moreover have "\<forall>j < pp_W q. s_state (pp_slots q ! j) \<noteq> SFree \<longrightarrow>
        s_ptr (pp_slots q ! j) \<noteq> None \<and> length (s_host (pp_slots q ! j)) = s_len (pp_slots q ! j)"
  proof (intro allI impI)
    fix j assume j: "j < pp_W q" "s_state (pp_slots q ! j) \<noteq> SFree"
    show "s_ptr (pp_slots q ! j) \<noteq> None \<and> length (s_host (pp_slots q ! j)) = s_len (pp_slots q ! j)"
    proof (cases "j = k")
      case True
      then show ?thesis using ptr by (simp add: at)
    next
      case False
      with j old(4) show ?thesis by (simp add: at qf)
    qed
  qed
  moreover have "PCopied k \<notin> set (pp_workers p)"
  proof
    assume "PCopied k \<in> set (pp_workers p)"
    then have "k \<in> set (in_work p)" by (force simp: in_work_def)
    with nk show False ..
  qed
  then have "\<forall>j < pp_W q. s_state (pp_slots q ! j) = SDone \<or> PCopied j \<in> set (pp_workers q) \<longrightarrow>
        s_host (pp_slots q ! j) = image_bytes ssd (the (s_ptr (pp_slots q ! j))) (s_len (pp_slots q ! j))"
    using old(5) by (simp add: at qf)
  ultimately show ?thesis using kl by (simp add: pipe_inv_def q(1) qf)
qed

lemma pipe_release_inv:
  assumes inv: "pipe_inv ssd p" and k: "k \<in> set (poll_done p)"
  shows "pipe_inv ssd (pipe_release k p)"
proof -
  let ?s = "pp_slots p ! k" and ?q = "pipe_release k p"
  let ?s' = "?s\<lparr>s_state := SFree, s_ptr := None, s_len := 0\<rparr>"
  have k: "k < pp_W p" "s_state ?s = SDone" using k by (auto simp: poll_done_def)
  then have kl: "k < length (pp_slots p)" "pp_W p \<le> length (pp_slots p)" using inv by (auto simp: pipe_inv_def)
  have old: "\<forall>j. j \<in> set (in_work p) \<longleftrightarrow> j < pp_W p \<and> s_state (pp_slots p ! j) = SQueued"
    "pp_inflight p = count_true (slot_flags p)"
    "\<forall>j < pp_W p. s_state (pp_slots p ! j) \<noteq> SFree \<longrightarrow>
        s_ptr (pp_slots p ! j) \<noteq> None \<and> length (s_host (pp_slots p ! j)) = s_len (pp_slots p ! j)"
    "\<forall>j < pp_W p. s_state (pp_slots p ! j) = SDone \<or> PCopied j \<in> set (pp_workers p) \<longrightarrow>
        s_host (pp_slots p ! j) = image_bytes ssd (the (s_ptr (pp_slots p ! j))) (s_len (pp_slots p ! j))"
    using inv by (auto simp only: pipe_inv_def)
  have q: "pp_slots ?q = (pp_slots p)[k := ?s']" "pp_workers ?q = pp_workers p" "pp_jobs ?q = pp_jobs p"
    "pp_W ?q = pp_W p" "pp_inflight ?q = pp_inflight p - 1"
    using k by (simp_all add: pipe_release_def Let_def)
  have w: "in_work ?q = in_work p" by (simp add: in_work_def q)
  have at: "pp_slots ?q ! j = (if j = k then ?s' else pp_slots p ! j)" for j using kl by (simp add: q)
  have nk: "k \<notin> set (in_work p)" using old(1) k by simp
  have nc: "PCopied k \<notin> set (pp_workers p)"
  proof
    assume "PCopied k \<in> set (pp_workers p)"
    then have "k \<in> set (in_work p)" by (force simp: in_work_def)
    with nk show False ..
  qed
  have "slot_flags ?q = (slot_flags p)[k := False]" by (simp add: slot_flags_def q take_update_swap map_update)
  then have "pp_inflight ?q = count_true (slot_flags ?q)"
    using count_true_update [OF slot_flags_nth(2) [OF k(1) kl(2)], of False] slot_flags_nth(1) [OF k(1) kl(2)] k(2) old(2)
    by (simp add: q)
  moreover have "\<forall>j. j \<in> set (in_work ?q) \<longleftrightarrow> j < pp_W ?q \<and> s_state (pp_slots ?q ! j) = SQueued"
    using old(1) nk k by (simp add: w at q(4))
  moreover have "\<forall>j < pp_W ?q. s_state (pp_slots ?q ! j) \<noteq> SFree \<longrightarrow>
        s_ptr (pp_slots ?q ! j) \<noteq> None \<and> length (s_host (pp_slots ?q ! j)) = s_len (pp_slots ?q ! j)"
    using old(3) by (simp add: at q(4))
  moreover have "\<forall>j < pp_W ?q. s_state (pp_slots ?q ! j) = SDone \<or> PCopied j \<in> set (pp_workers ?q) \<longrightarrow>
        s_host (pp_slots ?q ! j) = image_bytes ssd (the (s_ptr (pp_slots ?q ! j))) (s_len (pp_slots ?q ! j))"
    using old(4) nc by (simp add: at q(2,4))
  ultimately show ?thesis using inv by (simp add: pipe_inv_def w q(1,4))
qed

text \<open>The reset of a lost count in \<open>wait_done\<close> never happens: the count is exact.\<close>

lemma wait_pred_same:
  assumes inv: "pipe_inv ssd p"
  shows "snd (wait_pred p) = p"
proof -
  have "count_true (slot_flags p) = 0" if "\<not> list_ex (\<lambda>i. s_state (pp_slots p ! i) \<noteq> SFree) [0..<pp_W p]"
  proof -
    have "slot_flags p = replicate (length (slot_flags p)) False"
      using that inv by (intro nth_equalityI) (auto simp: slot_flags_def list_ex_iff pipe_inv_def)
    then show ?thesis by (metis count_true_replicate_False)
  qed
  with inv show ?thesis by (auto simp: wait_pred_def Let_def pipe_inv_def)
qed

lemma pipe_step_inv: "pipe_step ssd p q \<Longrightarrow> pipe_inv ssd p \<Longrightarrow> pipe_inv ssd q"
proof (induction rule: pipe_step.induct)
  case (pst_stop p)
  then show ?case by (auto simp: pipe_stop_request_def pipe_inv_def in_work_def slot_flags_def)
qed (simp_all add: try_submit_inv wait_pred_same pipe_release_inv pipe_act_inv)

lemma pipe_reach_inv: "pipe_reach ssd p0 p \<Longrightarrow> pipe_inv ssd p0 \<Longrightarrow> pipe_inv ssd p"
  by (induction rule: pipe_reach.induct) (auto intro: pipe_step_inv)

text \<open>The object as constructed, and started.\<close>

definition pipe_new :: "metrics option \<Rightarrow> promote_pipe" where
  "pipe_new m = \<lparr>pp_W = 4, pp_metrics = m,
     pp_slots = replicate kMaxW \<lparr>s_state = SFree, s_id = 0, s_ptr = None, s_len = 0, s_host = []\<rparr>,
     pp_jobs = [], pp_stop = False, pp_workers = [], pp_inflight = 0, pp_started = False\<rparr>"

lemma pipe_start_inv: "pipe_inv ssd (pipe_start w m (pipe_new m))"
proof -
  have f: "slot_flags (pipe_start w m (pipe_new m)) = replicate (pp_W (pipe_start w m (pipe_new m))) False"
    by (auto simp: slot_flags_def pipe_start_def pipe_new_def Let_def kMaxW_def take_map intro!: nth_equalityI)
  show ?thesis
    using f by (auto simp: pipe_inv_def pipe_start_def pipe_new_def in_work_def kMaxW_def Let_def)
qed

text \<open>C30. At any point of any interleaving of the search thread and the workers, in which the
  search thread releases only slots that \<open>poll_done\<close> reported (\<open>release\<close> would
  also accept a slot still queued, which is not among the steps), a slot that \<open>poll_done\<close>
  reports holds exactly the SSD bytes of the address and length it was submitted with, at most
  \<open>W\<close> slots are outstanding, and the count that bounds them is exact.\<close>
theorem pipe_done_holds_ssd_bytes:
  assumes "pipe_reach ssd (pipe_start w m (pipe_new m)) p"
  shows "(\<forall>k \<in> set (poll_done p). \<exists>a. s_ptr (pp_slots p ! k) = Some a \<and>
      s_host (pp_slots p ! k) = image_bytes ssd a (s_len (pp_slots p ! k))) \<and>
    pp_inflight p = count_true (slot_flags p) \<and> pp_inflight p \<le> pp_W p"
proof -
  have inv: "pipe_inv ssd p" by (rule pipe_reach_inv [OF assms pipe_start_inv])
  have "count_true (slot_flags p) \<le> pp_W p" using count_true_le [of "slot_flags p"] by (simp add: slot_flags_def)
  with inv show ?thesis by (auto simp: pipe_inv_def poll_done_def)
qed

definition demo_pipe :: "nat \<Rightarrow> promote_pipe" where
  "demo_pipe k = ((the \<circ> pipe_act (\<lambda>i. of_nat i) 0) ^^ k)
     (snd (try_submit 1 (Some 2) 2 (pipe_start 1 None (pipe_new None))))"

lemma demo_pipe_some:
  "pipe_act (\<lambda>i. of_nat i) 0 (demo_pipe 0) \<noteq> None" "pipe_act (\<lambda>i. of_nat i) 0 (demo_pipe 1) \<noteq> None"
  "pipe_act (\<lambda>i. of_nat i) 0 (demo_pipe 2) \<noteq> None"
  by code_simp+

lemma demo_pipe_acts:
  assumes "k < 3"
  shows "pipe_act (\<lambda>i. of_nat i) 0 (demo_pipe k) = Some (demo_pipe (Suc k))"
proof -
  have "pipe_act (\<lambda>i. of_nat i) 0 (demo_pipe k) \<noteq> None"
    using assms demo_pipe_some by (auto simp: less_Suc_eq numeral_eq_Suc)
  moreover have "demo_pipe (Suc k) = the (pipe_act (\<lambda>i. of_nat i) 0 (demo_pipe k))" by (simp add: demo_pipe_def)
  ultimately show ?thesis by simp
qed

lemma demo_pipe_workers: "k < 3 \<Longrightarrow> 0 < length (pp_workers (demo_pipe k))"
proof -
  assume "k < 3"
  moreover have "0 < length (pp_workers (demo_pipe 0))" "0 < length (pp_workers (demo_pipe 1))"
    "0 < length (pp_workers (demo_pipe 2))" by code_simp+
  ultimately show ?thesis by (auto simp: less_Suc_eq numeral_eq_Suc)
qed

lemma demo_pipe_reach: "k \<le> 3 \<Longrightarrow> pipe_reach (\<lambda>i. of_nat i) (pipe_start 1 None (pipe_new None)) (demo_pipe k)"
proof (induction k)
  case 0
  have "\<not> pp_stop (pipe_start 1 None (pipe_new None))" by code_simp
  then show ?case
    unfolding demo_pipe_def by (simp add: prc_step [OF prc_init pst_submit])
next
  case (Suc k)
  then have "pipe_act (\<lambda>i. of_nat i) 0 (demo_pipe k) = Some (demo_pipe (Suc k))" by (simp add: demo_pipe_acts)
  moreover have "0 < length (pp_workers (demo_pipe k))" using demo_pipe_workers Suc.prems by simp
  ultimately show ?case using Suc prc_step pst_work by (metis Suc_leD)
qed

theorem pipe_done_holds_ssd_bytes_witness: "s_host (pp_slots (demo_pipe 3) ! 0) = [2, 3]"
proof -
  have "poll_done (demo_pipe 3) = [0]" "s_ptr (pp_slots (demo_pipe 3) ! 0) = Some 2" "s_len (pp_slots (demo_pipe 3) ! 0) = 2"
    by (simp_all add: demo_pipe_def numeral_eq_Suc pipe_act_def try_submit_def first_free.simps pipe_start_def
        pipe_new_def kMaxW_def poll_done_def Let_def)
  moreover have "image_bytes (\<lambda>i. of_nat i :: byte) 2 2 = [2, 3]" by code_simp
  ultimately show ?thesis using pipe_done_holds_ssd_bytes [OF demo_pipe_reach [of 3, simplified]] by simp
qed

end
