(* ===== verification/Pq_Table.thy ===== *)
theory Pq_Table
  imports Prelude
begin

text \<open>
  \<open>serving/pq_table.hpp\<close>: the product quantizer. Files are byte lists; the floats in them
  are decoded by a parameter \<open>dec\<close> (the bytes of one \<open>float\<close>). Distances are computed
  over any type with the ring operations, in the order of the code; the properties are for
  exact arithmetic. The packed bit set \<open>seen\<close> is a list of booleans and the codes are
  a list of rows of \<open>nchunks\<close> bytes.
\<close>

section \<open>State\<close>

record 'a pq_table =
  pq_n :: nat
  pq_dim :: nat
  nchunks :: nat
  tables_T :: "'a list"
  chunk_off :: "nat list"
  codes :: "nat list list"
  lut :: "'a list"

definition kCentroids :: nat where
  "kCentroids = 256"

definition pq_loaded :: "'a pq_table \<Rightarrow> bool" where
  "pq_loaded t \<longleftrightarrow> pq_n t \<noteq> 0 \<and> nchunks t \<noteq> 0 \<and> codes t \<noteq> [] \<and> lut t \<noteq> []"

section \<open>Reading the files\<close>

definition le_bytes :: "byte list \<Rightarrow> nat" where
  "le_bytes bs = foldr (\<lambda>b a. unat b + 256 * a) bs 0"

text \<open>\<open>in.seekg(off); in.read(buf, k)\<close>: \<open>None\<close> is a stream that is no longer good.\<close>

definition read_at :: "byte list \<Rightarrow> nat \<Rightarrow> nat \<Rightarrow> byte list option" where
  "read_at f off k = (if off + k \<le> length f then Some (mem_read off k f) else None)"

definition u32_at :: "byte list \<Rightarrow> nat \<Rightarrow> nat option" where
  "u32_at f off = map_option le_bytes (read_at f off 4)"

text \<open>\<open>sz\<close> is \<open>sizeof(T)\<close>, \<open>dec\<close> the meaning of its bytes; result: rows, columns, data.\<close>

definition read_bin_at :: "nat \<Rightarrow> (byte list \<Rightarrow> 'b) \<Rightarrow> byte list \<Rightarrow> nat \<Rightarrow> (nat \<times> nat \<times> 'b list) option" where
  "read_bin_at sz dec f off =
     (case (u32_at f off, u32_at f (off + 4)) of
        (Some nr, Some nc) \<Rightarrow>
          if nr = 0 \<or> nc = 0 then None
          else map_option (\<lambda>bs. (nr, nc, map (\<lambda>i. dec (mem_read (i * sz) sz bs)) [0..<nr * nc]))
                 (read_at f (off + 8) (nr * nc * sz))
      | _ \<Rightarrow> None)"

definition load_pivots :: "(byte list \<Rightarrow> 'a :: zero) \<Rightarrow> byte list option \<Rightarrow> 'a pq_table \<Rightarrow> 'a pq_table option" where
  "load_pivots dec file t =
     Option.bind file (\<lambda>f.
     Option.bind (u32_at f 0) (\<lambda>nr.
     Option.bind (u32_at f 4) (\<lambda>nc.
     if nr \<noteq> 5 \<or> nc \<noteq> 1 then None else
     Option.bind (read_at f 8 40) (\<lambda>ob.
     let offs = map (\<lambda>i. le_bytes (mem_read (i * 8) 8 ob)) [0..<5] in
     Option.bind (read_bin_at 4 dec f (offs ! 0)) (\<lambda>(tr, d, rows).
     if tr \<noteq> kCentroids then None else
     Option.bind (read_bin_at 4 dec f (offs ! 1)) (\<lambda>(cr, cc, centroid).
     if cr \<noteq> d \<or> cc \<noteq> 1 then None else
     Option.bind (read_bin_at 4 le_bytes f (offs ! 2)) (\<lambda>(cr, cc, rearrange).
     if cr \<noteq> d \<or> cc \<noteq> 1 then None else
     Option.bind (read_bin_at 4 le_bytes f (offs ! 3)) (\<lambda>(cr, cc, co).
     if cc \<noteq> 1 \<or> cr < 2 then None
     else if co ! (cr - 1) \<noteq> d then None
     else Some (t\<lparr>pq_dim := d, chunk_off := co, nchunks := cr - 1,
            tables_T := map (\<lambda>k. rows ! (k mod kCentroids * d + k div kCentroids)) [0..<d * kCentroids],
            lut := replicate ((cr - 1) * kCentroids) 0\<rparr>)))))))))"

section \<open>Permuting the codes in place\<close>

text \<open>
  The inner loop: from \<open>cur\<close> on the cycle of \<open>i\<close>, \<open>tmp\<close> the saved row of \<open>i\<close>.
  \<open>Inl ()\<close> is \<open>return false\<close>. The loop has no bound, so it is a partial function.
\<close>

partial_function (option) cycle_rows ::
  "nat list \<Rightarrow> nat \<Rightarrow> nat \<Rightarrow> nat list \<Rightarrow> nat \<Rightarrow> nat list list \<Rightarrow> bool list \<Rightarrow>
   (unit + nat list list \<times> bool list) option" where
  "cycle_rows ro n i tmp cur rows seen =
     (let seen1 = seen[cur := True]; s = ro ! cur
      in if n \<le> s then Some (Inl ())
         else if s = i then Some (Inr (rows[cur := tmp], seen1))
         else cycle_rows ro n i tmp s (rows[cur := rows ! s]) seen1)"

fun permute_from ::
  "nat list \<Rightarrow> nat \<Rightarrow> nat list \<Rightarrow> nat list list \<Rightarrow> bool list \<Rightarrow> (unit + nat list list) option" where
  "permute_from ro n [] rows seen = Some (Inr rows)"
| "permute_from ro n (i # is) rows seen =
     (if seen ! i then permute_from ro n is rows seen
      else Option.bind (cycle_rows ro n i (rows ! i) i rows seen)
             (\<lambda>r. case r of Inl u \<Rightarrow> Some (Inl u)
                  | Inr (rows1, seen1) \<Rightarrow> permute_from ro n is rows1 seen1))"

text \<open>
  The outer \<open>option\<close> is termination, \<open>Inl ()\<close> is \<open>return false\<close>. The new-to-old map is
  \<open>None\<close> for a null pointer.
\<close>

definition load_codes ::
  "byte list option \<Rightarrow> nat list option \<Rightarrow> 'a pq_table \<Rightarrow> (unit + 'a pq_table) option" where
  "load_codes file new_to_old t =
     (case file of
        None \<Rightarrow> Some (Inl ())
      | Some f \<Rightarrow>
          (case (u32_at f 0, u32_at f 4) of
             (Some npts, Some nc) \<Rightarrow>
               if npts = 0 \<or> nc = 0 \<or> nc \<noteq> nchunks t then Some (Inl ())
               else (case read_at f 8 (npts * nc) of
                       None \<Rightarrow> Some (Inl ())
                     | Some bs \<Rightarrow>
                         (let rows = map (\<lambda>i. map unat (mem_read (i * nc) nc bs)) [0..<npts];
                              t1 = t\<lparr>pq_n := npts, codes := rows\<rparr>
                          in case new_to_old of
                               None \<Rightarrow> Some (Inr t1)
                             | Some ro \<Rightarrow>
                                 if length ro \<noteq> npts then Some (Inr t1)
                                 else map_option (\<lambda>r. case r of Inl u \<Rightarrow> Inl u | Inr rows' \<Rightarrow> Inr (t1\<lparr>codes := rows'\<rparr>))
                                        (permute_from ro npts [0..<npts] rows (replicate npts False))))
           | _ \<Rightarrow> Some (Inl ())))"

section \<open>Query tables and distances\<close>

definition fill_lut_ip :: "'a :: comm_ring pq_table \<Rightarrow> 'a list \<Rightarrow> 'a list" where
  "fill_lut_ip t q =
     fold (\<lambda>c dst0.
       fold (\<lambda>d dst1.
         fold (\<lambda>i dst. dst[c * kCentroids + i :=
                 dst ! (c * kCentroids + i) - q ! d * tables_T t ! (d * kCentroids + i)])
           [0..<kCentroids] dst1)
         [chunk_off t ! c..<chunk_off t ! (c + 1)] dst0)
       [0..<nchunks t] (replicate (nchunks t * kCentroids) 0)"

definition pq_dist :: "'a :: comm_ring pq_table \<Rightarrow> nat \<Rightarrow> 'a list \<Rightarrow> 'a" where
  "pq_dist t i qlut =
     fold (\<lambda>ch a. a + qlut ! (ch * kCentroids + codes t ! i ! ch)) [0..<nchunks t] 0"

text \<open>\<open>begin_query_ip\<close> makes the table of the query the thread's; without it \<open>lut\<close> is used.\<close>

definition begin_query_ip :: "'a :: comm_ring pq_table \<Rightarrow> 'a list \<Rightarrow> 'a list option" where
  "begin_query_ip t q = Some (fill_lut_ip t q)"

definition pq_dist_tls :: "'a :: comm_ring pq_table \<Rightarrow> 'a list option \<Rightarrow> nat \<Rightarrow> 'a" where
  "pq_dist_tls t tls i = pq_dist t i (case tls of Some l \<Rightarrow> l | None \<Rightarrow> lut t)"

definition dist_many :: "'a :: comm_ring pq_table \<Rightarrow> 'a list option \<Rightarrow> nat list \<Rightarrow> 'a list" where
  "dist_many t tls ids = map (pq_dist_tls t tls) ids"

section \<open>The cycle loop gathers\<close>

definition gathered :: "nat list \<Rightarrow> nat list list \<Rightarrow> nat set \<Rightarrow> nat list list \<Rightarrow> bool" where
  "gathered ro rows0 D rows \<longleftrightarrow> length rows = length rows0 \<and>
     (\<forall>j < length rows0. rows ! j = (if j \<in> D then rows0 ! (ro ! j) else rows0 ! j))"

definition seen_set :: "bool list \<Rightarrow> nat set" where
  "seen_set seen = {j. j < length seen \<and> seen ! j}"

definition perm_list :: "nat list \<Rightarrow> bool" where
  "perm_list ro \<longleftrightarrow> distinct ro \<and> (\<forall>x \<in> set ro. x < length ro)"

lemma perm_nth: "perm_list ro \<Longrightarrow> j < length ro \<Longrightarrow> ro ! j < length ro"
  by (simp add: perm_list_def)

lemma perm_inj: "perm_list ro \<Longrightarrow> j < length ro \<Longrightarrow> k < length ro \<Longrightarrow> ro ! j = ro ! k \<Longrightarrow> j = k"
  by (simp add: perm_list_def nth_eq_iff_index_eq)

lemma seen_set_update: "c < length seen \<Longrightarrow> seen_set (seen[c := True]) = insert c (seen_set seen)"
  by (auto simp: seen_set_def nth_list_update)

lemma cycle_rows_gathers:
  assumes "perm_list ro" "length ro = n" "length rows0 = n" "length seen = n" "i < n" "cur < n"
    and "gathered ro rows0 (seen_set seen) rows" "tmp = rows0 ! i"
    and "insert cur (seen_set seen) = insert i ((\<lambda>j. ro ! j) ` seen_set seen)" "cur \<notin> seen_set seen"
  shows "\<exists>rows' seen'. cycle_rows ro n i tmp cur rows seen = Some (Inr (rows', seen')) \<and>
    length seen' = n \<and> gathered ro rows0 (seen_set seen') rows' \<and>
    (\<lambda>j. ro ! j) ` seen_set seen' = seen_set seen' \<and> insert cur (seen_set seen) \<subseteq> seen_set seen'"
  using assms
proof (induction "n - card (seen_set seen)" arbitrary: cur rows seen rule: less_induct)
  case less
  let ?D = "seen_set seen" and ?s = "ro ! cur" and ?seen1 = "seen[cur := True]"
  let ?f = "\<lambda>j. ro ! j"
  have D1: "seen_set ?seen1 = insert cur ?D" using less.prems by (intro seen_set_update) simp
  have sn: "?s < n" using less.prems perm_nth [of ro cur] by simp
  have Dn: "?D \<subseteq> {..<n}" using less.prems(4) by (auto simp: seen_set_def)
  have unfold: "cycle_rows ro n i tmp cur rows seen =
      (if ?s = i then Some (Inr (rows[cur := tmp], ?seen1))
       else cycle_rows ro n i tmp ?s (rows[cur := rows ! ?s]) ?seen1)"
    using sn by (subst cycle_rows.simps) (simp add: Let_def)
  have len: "cur < length rows" using less.prems by (simp add: gathered_def)
  show ?case
  proof (cases "?s = i")
    case True
    have "gathered ro rows0 (insert cur ?D) (rows[cur := tmp])"
      using less.prems True len by (auto simp: gathered_def nth_list_update)
    moreover have "?f ` insert cur ?D = insert cur ?D"
    proof -
      have "?f ` insert cur ?D = insert i (?f ` ?D)" using True by simp
      also have "\<dots> = insert cur ?D" by (rule less.prems(9) [symmetric])
      finally show ?thesis .
    qed
    ultimately show ?thesis using True less.prems(4) by (auto simp: unfold D1)
  next
    case False
    have nD: "?s \<notin> insert cur ?D"
    proof
      assume "?s \<in> insert cur ?D"
      then have "?s \<in> ?f ` ?D" using less.prems(9) False by auto
      then obtain d where d: "d \<in> ?D" "?s = ro ! d" by auto
      then have "cur = d" using perm_inj [OF less.prems(1)] less.prems(2,6) Dn by auto
      with d less.prems(10) show False by simp
    qed
    have nD': "?s \<notin> ?D" using nD by blast
    have rs: "rows ! ?s = rows0 ! ?s" using less.prems(3,7) sn nD' by (simp add: gathered_def)
    have g: "gathered ro rows0 (seen_set ?seen1) (rows[cur := rows ! ?s])"
      using less.prems len by (auto simp: gathered_def nth_list_update D1 rs)
    have cyc: "insert ?s (seen_set ?seen1) = insert i (?f ` seen_set ?seen1)"
      using less.prems(9) unfolding D1 image_insert by blast
    have fin: "finite ?D" using Dn finite_subset by blast
    have "insert cur ?D \<subseteq> {..<n}" using Dn less.prems(6) by simp
    from card_mono [OF _ this] have "card (insert cur ?D) \<le> n" by simp
    then have dec: "n - card (seen_set ?seen1) < n - card ?D"
      using fin less.prems(10) by (simp add: D1)
    have "\<exists>rows' seen'. cycle_rows ro n i tmp ?s (rows[cur := rows ! ?s]) ?seen1 = Some (Inr (rows', seen')) \<and>
      length seen' = n \<and> gathered ro rows0 (seen_set seen') rows' \<and>
      ?f ` seen_set seen' = seen_set seen' \<and> insert ?s (seen_set ?seen1) \<subseteq> seen_set seen'"
      using less.prems sn nD g cyc by (intro less.hyps [OF dec]) (simp_all add: D1)
    then show ?thesis using False by (auto simp: unfold D1)
  qed
qed

lemma permute_from_gathers:
  assumes "perm_list ro" "length ro = n" "length rows0 = n" "length seen = n" "\<forall>i \<in> set is. i < n"
    and "gathered ro rows0 (seen_set seen) rows" "(\<lambda>j. ro ! j) ` seen_set seen = seen_set seen"
  shows "\<exists>rows'. permute_from ro n is rows seen = Some (Inr rows') \<and>
    (\<exists>D. gathered ro rows0 D rows' \<and> seen_set seen \<union> set is \<subseteq> D)"
  using assms
proof (induction "is" arbitrary: rows seen)
  case Nil
  then show ?case by auto
next
  case (Cons i "is")
  show ?case
  proof (cases "seen ! i")
    case True
    with Cons.prems have "i \<in> seen_set seen" by (simp add: seen_set_def)
    with True Cons.IH [OF Cons.prems(1-4) _ Cons.prems(6,7)] Cons.prems(5) show ?thesis by auto
  next
    case False
    then have i: "i < n" "i \<notin> seen_set seen" using Cons.prems by (simp_all add: seen_set_def)
    have "rows ! i = rows0 ! i" using Cons.prems(3,6) i by (simp add: gathered_def)
    moreover have "insert i (seen_set seen) = insert i ((\<lambda>j. ro ! j) ` seen_set seen)" using Cons.prems(7) by simp
    ultimately obtain rows' seen' where c: "cycle_rows ro n i (rows ! i) i rows seen = Some (Inr (rows', seen'))"
      "length seen' = n" "gathered ro rows0 (seen_set seen') rows'"
      "(\<lambda>j. ro ! j) ` seen_set seen' = seen_set seen'" "insert i (seen_set seen) \<subseteq> seen_set seen'"
      using cycle_rows_gathers [OF Cons.prems(1-4) i(1) i(1) Cons.prems(6)] i by blast
    from Cons.IH [OF Cons.prems(1-3) c(2) _ c(3,4)] Cons.prems(5)
    obtain rows'' D where "permute_from ro n is rows' seen' = Some (Inr rows'')"
      "gathered ro rows0 D rows''" "seen_set seen' \<union> set is \<subseteq> D" by auto
    with False c show ?thesis by auto
  qed
qed

lemma permute_codes:
  assumes "perm_list ro" "length rows = length ro"
  shows "permute_from ro (length ro) [0..<length ro] rows (replicate (length ro) False) =
    Some (Inr (map (\<lambda>i. rows ! (ro ! i)) [0..<length ro]))"
proof -
  let ?n = "length ro"
  have e: "seen_set (replicate ?n False) = {}" by (auto simp: seen_set_def)
  have "gathered ro rows {} rows" using assms by (simp add: gathered_def)
  then obtain rows' D where r: "permute_from ro ?n [0..<?n] rows (replicate ?n False) = Some (Inr rows')"
    "gathered ro rows D rows'" "set [0..<?n] \<subseteq> D"
    using permute_from_gathers [OF assms(1) refl assms(2), of "replicate ?n False" "[0..<?n]" rows] e by auto
  have "rows' = map (\<lambda>i. rows ! (ro ! i)) [0..<?n]"
    using r(2,3) assms(2) by (intro nth_equalityI) (auto simp: gathered_def subset_iff)
  with r(1) show ?thesis by simp
qed

section \<open>The lookup table\<close>

lemma fold_range_inv:
  assumes "P 0 s" and "\<And>k u. k < n \<Longrightarrow> P k u \<Longrightarrow> P (Suc k) (g k u)"
  shows "P n (fold g [0..<n] s)"
  using assms(2)
proof (induction n)
  case 0
  show ?case using assms(1) by simp
next
  case (Suc n)
  then have "P n (fold g [0..<n] s)" by simp
  then show ?case using Suc.prems [of n] by simp
qed

text \<open>One dimension: all 256 entries of the chunk lose \<open>q[d] * centers[i]\<close>.\<close>

definition lut_dim :: "'a :: comm_ring pq_table \<Rightarrow> 'a list \<Rightarrow> nat \<Rightarrow> nat \<Rightarrow> 'a list \<Rightarrow> 'a list" where
  "lut_dim t q c d = fold (\<lambda>i dst. dst[c * kCentroids + i :=
     dst ! (c * kCentroids + i) - q ! d * tables_T t ! (d * kCentroids + i)]) [0..<kCentroids]"

lemma lut_dim_nth:
  assumes "c * kCentroids + kCentroids \<le> length ds" "j < length ds"
  shows "length (lut_dim t q c d ds) = length ds \<and>
    lut_dim t q c d ds ! j = (if c * kCentroids \<le> j \<and> j < c * kCentroids + kCentroids
       then ds ! j - q ! d * tables_T t ! (d * kCentroids + (j - c * kCentroids)) else ds ! j)"
proof -
  have "length (lut_dim t q c d ds) = length ds \<and>
    (\<forall>j < length ds. lut_dim t q c d ds ! j = (if c * kCentroids \<le> j \<and> j < c * kCentroids + kCentroids
       then ds ! j - q ! d * tables_T t ! (d * kCentroids + (j - c * kCentroids)) else ds ! j))"
    unfolding lut_dim_def
    by (rule fold_range_inv [where P = "\<lambda>k u. length u = length ds \<and> (\<forall>j < length ds. u ! j =
        (if c * kCentroids \<le> j \<and> j < c * kCentroids + k
         then ds ! j - q ! d * tables_T t ! (d * kCentroids + (j - c * kCentroids)) else ds ! j))"])
      (use assms(1) in \<open>auto simp: nth_list_update less_Suc_eq\<close>)
  with assms(2) show ?thesis by blast
qed

lemma lut_dims_nth:
  assumes "c * kCentroids + kCentroids \<le> length ds"
  shows "length (fold (lut_dim t q c) dims ds) = length ds \<and>
    (\<forall>j < length ds. fold (lut_dim t q c) dims ds ! j =
      (if c * kCentroids \<le> j \<and> j < c * kCentroids + kCentroids
       then ds ! j - (\<Sum>d\<leftarrow>dims. q ! d * tables_T t ! (d * kCentroids + (j - c * kCentroids))) else ds ! j))"
  using assms
proof (induction dims arbitrary: ds)
  case (Cons d dims)
  note L = lut_dim_nth [OF Cons.prems, of _ t q d]
  have "0 < length ds" by (rule order_less_le_trans [OF _ Cons.prems]) (simp add: kCentroids_def)
  then have len: "length (lut_dim t q c d ds) = length ds" using L by blast
  show ?case using Cons.IH [of "lut_dim t q c d ds"] Cons.prems L by (simp add: len diff_diff_eq)
qed simp

text \<open>The terms of one chunk for the centroid \<open>b\<close>.\<close>

definition chunk_ip :: "'a :: comm_ring pq_table \<Rightarrow> 'a list \<Rightarrow> nat \<Rightarrow> nat \<Rightarrow> 'a" where
  "chunk_ip t q c b = (\<Sum>d\<leftarrow>[chunk_off t ! c..<chunk_off t ! (c + 1)]. q ! d * tables_T t ! (d * kCentroids + b))"

lemma fill_lut_fold:
  "fill_lut_ip t q = fold (\<lambda>c. fold (lut_dim t q c) [chunk_off t ! c..<chunk_off t ! (c + 1)])
     [0..<nchunks t] (replicate (nchunks t * kCentroids) 0)"
  by (simp add: fill_lut_ip_def lut_dim_def [abs_def])

lemma fill_lut_nth:
  "length (fill_lut_ip t q) = nchunks t * kCentroids \<and>
   (\<forall>c < nchunks t. \<forall>b < kCentroids. fill_lut_ip t q ! (c * kCentroids + b) = - chunk_ip t q c b)"
proof -
  let ?N = "nchunks t * kCentroids"
  let ?P = "\<lambda>k u. length u = ?N \<and> (\<forall>c < nchunks t. \<forall>b < kCentroids.
      u ! (c * kCentroids + b) = (if c < k then - chunk_ip t q c b else 0))"
  have cell: "c * kCentroids + b < ?N" if "c < nchunks t" "b < kCentroids" for c b
    using frame_in_arena [OF that(1), of kCentroids ?N] that(2) by simp
  have "?P (nchunks t) (fill_lut_ip t q)"
    unfolding fill_lut_fold
  proof (rule fold_range_inv [where P = ?P])
    show "?P 0 (replicate ?N 0)" using cell by simp
  next
    fix k u assume k: "k < nchunks t" and u: "?P k u"
    have lim: "k * kCentroids + kCentroids \<le> length u" using u frame_in_arena [OF k, of kCentroids ?N] by simp
    note L = lut_dims_nth [OF lim, of t q "[chunk_off t ! k..<chunk_off t ! (k + 1)]"]
    show "?P (Suc k) (fold (lut_dim t q k) [chunk_off t ! k..<chunk_off t ! (k + 1)] u)"
    proof (intro conjI allI impI)
      fix c b assume c: "c < nchunks t" and b: "b < kCentroids"
      have "k * kCentroids \<le> c * kCentroids + b \<and> c * kCentroids + b < k * kCentroids + kCentroids \<longleftrightarrow> c = k"
        using b frames_disjoint [of c k kCentroids] by (cases "c = k") (simp, linarith)
      then show "fold (lut_dim t q k) [chunk_off t ! k..<chunk_off t ! (k + 1)] u ! (c * kCentroids + b) =
          (if c < Suc k then - chunk_ip t q c b else 0)"
        using L u c b cell [OF c b] by (auto simp: chunk_ip_def less_Suc_eq)
    qed (use L u in simp)
  qed
  then show ?thesis by simp
qed

lemma pq_dist_sum: "pq_dist t i l = (\<Sum>ch\<leftarrow>[0..<nchunks t]. l ! (ch * kCentroids + codes t ! i ! ch))"
proof -
  have "fold (\<lambda>ch a. a + g ch) xs z = z + (\<Sum>x\<leftarrow>xs. g x)" for g :: "nat \<Rightarrow> 'a" and xs z
    by (induction xs arbitrary: z) (simp_all add: add.assoc)
  then show ?thesis by (simp add: pq_dist_def)
qed

section \<open>Properties\<close>

text \<open>C32. A code file in old order and a new-to-old permutation: the in-place cycle loops end
  and the table holds, at every new id, the row of the old id it came from.\<close>
theorem load_codes_permutes:
  assumes "perm_list ro" and "length ro = n" and "0 < n" and "0 < nchunks t"
    and "u32_at f 0 = Some n" and "u32_at f 4 = Some (nchunks t)"
    and "read_at f 8 (n * nchunks t) = Some bs"
  shows "\<exists>t'. load_codes (Some f) (Some ro) t = Some (Inr t') \<and> pq_n t' = n \<and>
    (\<forall>i < n. codes t' ! i = map unat (mem_read (ro ! i * nchunks t) (nchunks t) bs))"
proof -
  let ?rows = "map (\<lambda>i. map unat (mem_read (i * nchunks t) (nchunks t) bs)) [0..<n]"
  have "permute_from ro n [0..<n] ?rows (replicate n False) = Some (Inr (map (\<lambda>i. ?rows ! (ro ! i)) [0..<n]))"
    using permute_codes [OF assms(1), of ?rows] assms(2) by simp
  then show ?thesis
    using assms perm_nth [OF assms(1)] by (auto simp: load_codes_def Let_def)
qed

definition demo_codes :: "byte list" where
  "demo_codes = [3, 0, 0, 0, 2, 0, 0, 0, 10, 11, 20, 21, 30, 31]"

definition demo_pq :: "int pq_table" where
  "demo_pq = \<lparr>pq_n = 0, pq_dim = 0, nchunks = 2, tables_T = [], chunk_off = [], codes = [], lut = []\<rparr>"

theorem load_codes_permutes_witness:
  "\<exists>t'. load_codes (Some demo_codes) (Some [2, 0, 1]) demo_pq = Some (Inr t') \<and> codes t' ! 0 = [30, 31]"
proof -
  have "perm_list [2, 0, 1]" by (auto simp: perm_list_def)
  moreover have "u32_at demo_codes 0 = Some 3" "u32_at demo_codes 4 = Some 2"
    "read_at demo_codes 8 6 = Some [10, 11, 20, 21, 30, 31]" "nchunks demo_pq = 2"
    "map unat (mem_read 4 2 [10, 11, 20, 21, 30, 31 :: byte]) = [30, 31]"
    by (simp_all add: u32_at_def read_at_def demo_codes_def le_bytes_def mem_read_def demo_pq_def)
  ultimately show ?thesis
    using load_codes_permutes [of "[2, 0, 1]" 3 demo_pq demo_codes "[10, 11, 20, 21, 30, 31]"] by fastforce
qed

text \<open>A new-to-old map that is in range but not a permutation can hold the loader for ever:
  with the map 1, 2, 1 the walk from 0 never meets 0 again.\<close>
theorem load_codes_diverges: "load_codes (Some demo_codes) (Some [1, 2, 1]) demo_pq = None"
proof -
  let ?bad = "\<lambda>ro n i cur. ro = [1, 2, 1] \<and> n = 3 \<and> i = 0 \<and> cur \<in> {0, 1, 2 :: nat}"
  have never: "\<not> ?bad ro n i cur" if "cycle_rows ro n i tmp cur rows seen = Some r" for ro n i tmp cur rows seen r
  proof (rule cycle_rows.raw_induct [where P = "\<lambda>ro n i tmp cur rows seen r. \<not> ?bad ro n i cur", OF _ that])
    fix f :: "nat list \<Rightarrow> nat \<Rightarrow> nat \<Rightarrow> nat list \<Rightarrow> nat \<Rightarrow> nat list list \<Rightarrow> bool list \<Rightarrow> (unit + nat list list \<times> bool list) option"
    fix ro n i tmp cur rows seen y
    assume IH: "\<And>ro n i tmp cur rows seen y. f ro n i tmp cur rows seen = Some y \<Longrightarrow> \<not> ?bad ro n i cur"
      and body: "(let seen1 = seen[cur := True]; s = ro ! cur
        in if n \<le> s then Some (Inl ())
           else if s = i then Some (Inr (rows[cur := tmp], seen1))
           else f ro n i tmp s (rows[cur := rows ! s]) seen1) = Some y"
    show "\<not> ?bad ro n i cur"
    proof
      assume b: "?bad ro n i cur"
      then have "ro ! cur \<noteq> i" "\<not> n \<le> ro ! cur" "ro ! cur \<in> {0, 1, 2}" by auto
      with body have "f ro n i tmp (ro ! cur) (rows[cur := rows ! (ro ! cur)]) (seen[cur := True]) = Some y"
        by (simp add: Let_def)
      from IH [OF this] b \<open>ro ! cur \<in> {0, 1, 2}\<close> show False by blast
    qed
  qed
  have "cycle_rows [1, 2, 1] 3 0 tmp 0 rows seen = None" for tmp rows seen
  proof (rule ccontr)
    assume "cycle_rows [1, 2, 1] 3 0 tmp 0 rows seen \<noteq> None"
    then obtain r where "cycle_rows [1, 2, 1] 3 0 tmp 0 rows seen = Some r" by blast
    from never [OF this] show False by simp
  qed
  moreover have "u32_at demo_codes 0 = Some 3" "u32_at demo_codes 4 = Some 2"
    "read_at demo_codes 8 6 = Some [10, 11, 20, 21, 30, 31]" "nchunks demo_pq = 2"
    by (simp_all add: u32_at_def read_at_def demo_codes_def le_bytes_def mem_read_def demo_pq_def)
  ultimately show ?thesis
    by (simp add: load_codes_def Let_def upt_rec)
qed

text \<open>C33. In exact arithmetic the table lookup of \<open>dist\<close> after \<open>begin_query_ip\<close> is minus
  the inner product of the query with the centroids the codes of the id select.\<close>
theorem pq_adc_is_inner_product:
  assumes "\<forall>ch < nchunks t. codes t ! i ! ch < kCentroids"
  shows "pq_dist_tls t (begin_query_ip t q) i =
    - (\<Sum>ch\<leftarrow>[0..<nchunks t]. \<Sum>d\<leftarrow>[chunk_off t ! ch..<chunk_off t ! (ch + 1)].
         q ! d * tables_T t ! (d * kCentroids + codes t ! i ! ch))"
proof -
  have "(\<Sum>ch\<leftarrow>[0..<nchunks t]. fill_lut_ip t q ! (ch * kCentroids + codes t ! i ! ch)) =
      (\<Sum>ch\<leftarrow>[0..<nchunks t]. - chunk_ip t q ch (codes t ! i ! ch))"
    using fill_lut_nth [of t q] assms by (intro arg_cong [where f = sum_list] map_cong) auto
  also have "\<dots> = - (\<Sum>ch\<leftarrow>[0..<nchunks t]. chunk_ip t q ch (codes t ! i ! ch))"
  proof -
    have "(\<Sum>x\<leftarrow>xs. - g x) = - (\<Sum>x\<leftarrow>xs. g x)" for g :: "nat \<Rightarrow> 'a" and xs
      by (induction xs) simp_all
    then show ?thesis .
  qed
  finally show ?thesis by (simp add: pq_dist_tls_def begin_query_ip_def pq_dist_sum chunk_ip_def)
qed

definition demo_pq2 :: "int pq_table" where
  "demo_pq2 = \<lparr>pq_n = 1, pq_dim = 3, nchunks = 2,
     tables_T = replicate 256 2 @ replicate 256 3 @ replicate 256 5, chunk_off = [0, 1, 3],
     codes = [[0, 0]], lut = []\<rparr>"

theorem pq_adc_is_inner_product_witness:
  "pq_dist_tls demo_pq2 (begin_query_ip demo_pq2 [1, 10, 100]) 0 = - (1 * 2 + (10 * 3 + 100 * 5))"
proof -
  have "\<forall>ch < nchunks demo_pq2. codes demo_pq2 ! 0 ! ch < kCentroids"
    by (auto simp: demo_pq2_def kCentroids_def less_Suc_eq numeral_2_eq_2)
  from pq_adc_is_inner_product [OF this, of "[1, 10, 100]"]
  show ?thesis by (simp add: demo_pq2_def kCentroids_def upt_rec nth_append)
qed

end
