(* ===== verification/Vmem_Batch.thy ===== *)
theory Vmem_Batch
  imports Prelude
begin

text \<open>
  \<open>serving/vmem_prefetch.hpp\<close>: the batched requests to the vmem driver, at most 256 pages
  per \<open>ioctl\<close>. The driver is not part of the repository's build: the three ioctls are
  parameters, functions on a device state \<open>'d\<close> that return whether the call succeeded
  (and, for the cached read, the hit flags). Offsets are absolute: \<open>image_off\<close> is added.
\<close>

section \<open>State\<close>

record vmem_io =
  vio_fd :: "nat option"
  image_off :: nat
  vio_prefetch :: bool

definition VMEM_BATCH_MAX :: nat where
  "VMEM_BATCH_MAX = 256"

section \<open>Operations\<close>

text \<open>The filling of one request: the next pages, at most 256.\<close>

definition batch_of :: "vmem_io \<Rightarrow> (nat \<times> 'dst) list \<Rightarrow> (nat \<times> 'dst) list" where
  "batch_of io ps = map (\<lambda>(off, d). (image_off io + off, d)) (take VMEM_BATCH_MAX ps)"

text \<open>\<open>None\<close> is the result \<open>-1\<close>; pages are paired with their destinations.\<close>

function read_cached_loop ::
  "((nat \<times> 'dst) list \<Rightarrow> 'd \<Rightarrow> (bool list option \<times> 'd)) \<Rightarrow> vmem_io \<Rightarrow> (nat \<times> 'dst) list \<Rightarrow>
   bool list \<Rightarrow> 'd \<Rightarrow> bool list option \<times> 'd" where
  "read_cached_loop call io ps hit d =
     (if ps = [] then (Some hit, d)
      else let b = batch_of io ps; (r, d1) = call b d
           in case r of
                None \<Rightarrow> (None, d1)
              | Some hs \<Rightarrow> read_cached_loop call io (drop VMEM_BATCH_MAX ps) (hit @ take (length b) hs) d1)"
  by pat_completeness auto
termination
  by (relation "measure (\<lambda>(call, io, ps, hit, d). length ps)") (auto simp: VMEM_BATCH_MAX_def)

declare read_cached_loop.simps [simp del]

definition vmem_read_cached ::
  "((nat \<times> 'dst) list \<Rightarrow> 'd \<Rightarrow> (bool list option \<times> 'd)) \<Rightarrow> vmem_io \<Rightarrow> (nat \<times> 'dst) list \<Rightarrow> 'd \<Rightarrow>
   bool list option \<times> 'd" where
  "vmem_read_cached call io ps d =
     (if vio_fd io = None \<or> ps = [] then (None, d) else read_cached_loop call io ps [] d)"

text \<open>The loop of the other two requests: the number of pages issued.\<close>

function issue_loop ::
  "((nat \<times> 'dst) list \<Rightarrow> 'd \<Rightarrow> (bool \<times> 'd)) \<Rightarrow> vmem_io \<Rightarrow> (nat \<times> 'dst) list \<Rightarrow> nat \<Rightarrow> 'd \<Rightarrow>
   nat option \<times> 'd" where
  "issue_loop call io ps issued d =
     (if ps = [] then (Some issued, d)
      else let b = batch_of io ps; (ok, d1) = call b d
           in if \<not> ok then (None, d1)
              else issue_loop call io (drop VMEM_BATCH_MAX ps) (issued + length b) d1)"
  by pat_completeness auto
termination
  by (relation "measure (\<lambda>(call, io, ps, hit, d). length ps)") (auto simp: VMEM_BATCH_MAX_def)

declare issue_loop.simps [simp del]

definition vmem_prefetch_pages ::
  "((nat \<times> unit) list \<Rightarrow> 'd \<Rightarrow> (bool \<times> 'd)) \<Rightarrow> vmem_io \<Rightarrow> nat list \<Rightarrow> 'd \<Rightarrow> nat option \<times> 'd" where
  "vmem_prefetch_pages call io offs d =
     (if \<not> vio_prefetch io \<or> vio_fd io = None \<or> offs = [] then (Some 0, d)
      else issue_loop call io (map (\<lambda>off. (off, ())) offs) 0 d)"

definition vmem_read_pages ::
  "((nat \<times> 'dst) list \<Rightarrow> 'd \<Rightarrow> (bool \<times> 'd)) \<Rightarrow> vmem_io \<Rightarrow> (nat \<times> 'dst) list \<Rightarrow> 'd \<Rightarrow> nat option \<times> 'd" where
  "vmem_read_pages call io ps d =
     (if \<not> vio_prefetch io \<or> vio_fd io = None \<or> ps = [] then (Some 0, d)
      else issue_loop call io ps 0 d)"

section \<open>What reaches the driver\<close>

text \<open>A driver that records the requests it gets and fails from the request number \<open>k\<close> on.\<close>

definition recording :: "nat option \<Rightarrow> (nat \<times> 'dst) list \<Rightarrow> (nat \<times> 'dst) list list \<Rightarrow> bool \<times> (nat \<times> 'dst) list list" where
  "recording k b rs = (case k of Some j \<Rightarrow> length rs < j | None \<Rightarrow> True, rs @ [b])"

lemma length_batch_of: "length (batch_of io ps) = min VMEM_BATCH_MAX (length ps)"
  by (simp add: batch_of_def min.commute)

lemma issue_loop_Nil [simp]: "issue_loop call io [] k d = (Some k, d)"
  by (simp add: issue_loop.simps)

text \<open>With a driver that accepts everything, all pages arrive, in order, in full batches but
  the last.\<close>

lemma issue_loop_all:
  "issue_loop (recording None) io ps k rs = (Some (k + length ps), rs @ bs) \<Longrightarrow>
   concat bs = map (\<lambda>(off, d). (image_off io + off, d)) ps \<and> (\<forall>b \<in> set bs. b \<noteq> [] \<and> length b \<le> VMEM_BATCH_MAX)"
proof (induction "length ps" arbitrary: ps k rs bs rule: less_induct)
  case less
  show ?case
  proof (cases "ps = []")
    case True
    with less.prems show ?thesis by simp
  next
    case False
    let ?b = "batch_of io ps" and ?rest = "drop VMEM_BATCH_MAX ps"
    have len: "k + length ?b + length ?rest = k + length ps" by (simp add: length_batch_of)
    have step: "issue_loop (recording None) io ?rest (k + length ?b) (rs @ [?b]) = (Some (k + length ps), rs @ bs)"
      using less.prems False by (simp add: issue_loop.simps [of _ io ps] recording_def Let_def)
    have ex: "\<exists>cs. snd (issue_loop (recording None) io qs k rs) = rs @ cs" for qs :: "(nat \<times> 'a) list" and k rs
    proof (induction "length qs" arbitrary: qs k rs rule: less_induct)
      case less
      show ?case
      proof (cases "qs = []")
        case False
        then have "length (drop VMEM_BATCH_MAX qs) < length qs" by (simp add: VMEM_BATCH_MAX_def)
        from less [OF this, of "k + length (batch_of io qs)" "rs @ [batch_of io qs]"] False show ?thesis
          by (auto simp: issue_loop.simps [of _ io qs] recording_def Let_def)
      qed simp
    qed
    obtain cs where cs: "bs = ?b # cs"
      using ex [of ?rest "k + length ?b" "rs @ [?b]"] step by auto
    have "concat cs = map (\<lambda>(off, d). (image_off io + off, d)) ?rest \<and>
        (\<forall>b \<in> set cs. b \<noteq> [] \<and> length b \<le> VMEM_BATCH_MAX)"
    proof (rule less.hyps)
      show "length ?rest < length ps" using False by (simp add: VMEM_BATCH_MAX_def)
      show "issue_loop (recording None) io ?rest (k + length ?b) (rs @ [?b]) =
          (Some (k + length ?b + length ?rest), (rs @ [?b]) @ cs)"
        using step cs len by simp
    qed
    moreover have "?b @ map (\<lambda>(off, d). (image_off io + off, d)) ?rest = map (\<lambda>(off, d). (image_off io + off, d)) ps"
      by (simp add: batch_of_def flip: map_append)
    moreover have "?b \<noteq> []" "length ?b \<le> VMEM_BATCH_MAX" using False by (simp_all add: batch_of_def VMEM_BATCH_MAX_def)
    ultimately show ?thesis using cs by simp
  qed
qed

lemma issue_loop_total: "\<exists>bs. issue_loop (recording None) io ps k rs = (Some (k + length ps), rs @ bs)"
proof (induction "length ps" arbitrary: ps k rs rule: less_induct)
  case less
  show ?case
  proof (cases "ps = []")
    case False
    then have "length (drop VMEM_BATCH_MAX ps) < length ps" by (simp add: VMEM_BATCH_MAX_def)
    from less [OF this, of "k + length (batch_of io ps)" "rs @ [batch_of io ps]"] False show ?thesis
      by (auto simp: issue_loop.simps [of _ io ps] recording_def Let_def length_batch_of)
  qed simp
qed

text \<open>A read of any number of pages reaches the driver as one request per 256 pages:
  every page once, in order, at its absolute offset and with its destination; the result is
  the number of pages.\<close>
theorem read_pages_batches:
  assumes "vio_prefetch io" and "vio_fd io \<noteq> None"
  shows "\<exists>bs. vmem_read_pages (recording None) io ps [] = (Some (length ps), bs) \<and>
    concat bs = map (\<lambda>(off, d). (image_off io + off, d)) ps \<and>
    (\<forall>b \<in> set bs. b \<noteq> [] \<and> length b \<le> VMEM_BATCH_MAX)"
proof (cases "ps = []")
  case True
  then show ?thesis by (simp add: vmem_read_pages_def)
next
  case False
  obtain bs where bs: "issue_loop (recording None) io ps 0 [] = (Some (0 + length ps), [] @ bs)"
    using issue_loop_total [of io ps 0 "[]"] by auto
  from issue_loop_all [OF this] bs assms False show ?thesis by (simp add: vmem_read_pages_def)
qed

theorem read_pages_batches_witness:
  "\<exists>bs. vmem_read_pages (recording None) \<lparr>vio_fd = Some 3, image_off = 4096, vio_prefetch = True\<rparr> [(0, 7), (8192, 9 :: nat)] []
     = (Some 2, bs) \<and> concat bs = [(4096, 7), (12288, 9)]"
  using read_pages_batches [of "\<lparr>vio_fd = Some 3, image_off = 4096, vio_prefetch = True\<rparr>" "[(0, 7), (8192, 9 :: nat)]"]
  by auto

end
