(* ===== verification/Nav_Graph.thy ===== *)
theory Nav_Graph
  imports Placement
begin

text \<open>
  \<open>serving/nav_graph.hpp\<close>: the host-only sample of the corpus from which a search gets its
  entry point, by an exact scan. The file is a byte list, floats are decoded by a parameter
  and compared in a linear order; vectors are lists.
\<close>

record nav_graph =
  nav_n0 :: nat
  nav_dim :: nat
  nav_R :: nat
  nav_ids :: "nat list"
  nav_recs :: "byte list"
  rec_bytes :: nat

definition nav_loaded :: "nav_graph \<Rightarrow> bool" where
  "nav_loaded g \<longleftrightarrow> 0 < nav_n0 g \<and> nav_recs g \<noteq> []"

text \<open>\<open>None\<close> is \<open>return false\<close>: the file is missing, too short, or its count is out of range.\<close>

definition nav_load :: "byte list option \<Rightarrow> nav_graph option" where
  "nav_load file =
     (case file of
        None \<Rightarrow> None
      | Some f \<Rightarrow>
          if length f < 12 then None
          else let n0 = u32_le (mem_read 0 4 f); dm = u32_le (mem_read 4 4 f); R = u32_le (mem_read 8 4 f)
               in if n0 = 0 \<or> 1000000 < n0 then None
                  else let rb = diskann_payload_bytes dm 4 R
                       in if length f < 12 + n0 * 4 + n0 * rb then None
                          else Some \<lparr>nav_n0 = n0, nav_dim = dm, nav_R = R,
                                 nav_ids = map (\<lambda>i. u32_le (mem_read (12 + 4 * i) 4 f)) [0..<n0],
                                 nav_recs = mem_read (12 + n0 * 4) (n0 * rb) f, rec_bytes = rb\<rparr>)"

definition nav_vec :: "(byte list \<Rightarrow> 'a) \<Rightarrow> nav_graph \<Rightarrow> nat \<Rightarrow> 'a list" where
  "nav_vec dec g i = map (\<lambda>d. dec (mem_read (i * rec_bytes g + 4 * d) 4 (nav_recs g))) [0..<nav_dim g]"

definition nav_nbrs :: "nav_graph \<Rightarrow> nat \<Rightarrow> nat list" where
  "nav_nbrs g i = map (\<lambda>k. u32_le (mem_read (i * rec_bytes g + nav_dim g * 4 + 4 + 4 * k) 4 (nav_recs g))) [0..<nav_R g]"

definition mips_neg :: "'a :: {zero, plus, times, uminus} list \<Rightarrow> 'a list \<Rightarrow> nat \<Rightarrow> 'a" where
  "mips_neg a b d = - fold (\<lambda>i s. s + a ! i * b ! i) [0..<d] 0"

text \<open>The scan keeps the first index of the smallest distance.\<close>

definition scan_best :: "(nat \<Rightarrow> 'b :: linorder) \<Rightarrow> nat \<Rightarrow> nat" where
  "scan_best score n =
     fst (fold (\<lambda>i (bi, b). if score i < b then (i, score i) else (bi, b)) [1..<n] (0, score 0))"

definition search_entry :: "(byte list \<Rightarrow> 'a :: linordered_idom) \<Rightarrow> nav_graph \<Rightarrow> 'a list \<Rightarrow> nat" where
  "search_entry dec g q =
     (if \<not> nav_loaded g then 0
      else nav_ids g ! scan_best (\<lambda>i. mips_neg (nav_vec dec g i) q (nav_dim g)) (nav_n0 g))"

lemma scan_best_least:
  "0 < n \<Longrightarrow> scan_best score n < n \<and> (\<forall>i < n. score (scan_best score n) \<le> score i) \<and>
     (\<forall>i < scan_best score n. score (scan_best score n) < score i)"
proof -
  let ?g = "\<lambda>i (bi, b). if score i < b then (i, score i) else (bi, b)"
  have "0 < n \<Longrightarrow> (case fold ?g [1..<n] (0, score 0) of (bi, b) \<Rightarrow>
      b = score bi \<and> bi < n \<and> (\<forall>i < n. b \<le> score i) \<and> (\<forall>i < bi. b < score i))"
  proof (induction n)
    case (Suc n)
    show ?case
    proof (cases "n = 0")
      case False
      obtain bi b where f: "fold ?g [1..<n] (0, score 0) = (bi, b)" by (cases "fold ?g [1..<n] (0, score 0)")
      with Suc.IH False have i: "b = score bi" "bi < n" "\<forall>i < n. b \<le> score i" "\<forall>i < bi. b < score i" by auto
      have "fold ?g [1..<Suc n] (0, score 0) = ?g n (bi, b)" using False f by simp
      with i show ?thesis by (auto simp: less_Suc_eq)
    qed simp
  qed simp
  moreover assume "0 < n"
  ultimately show ?thesis
    by (auto simp: scan_best_def split: prod.splits)
qed

text \<open>The entry point is the id of the sample vector with the largest inner product with
  the query, the first one among equals.\<close>
theorem search_entry_best:
  assumes "nav_loaded g"
  shows "\<exists>b < nav_n0 g. search_entry dec g q = nav_ids g ! b \<and>
    (\<forall>i < nav_n0 g. mips_neg (nav_vec dec g b) q (nav_dim g) \<le> mips_neg (nav_vec dec g i) q (nav_dim g)) \<and>
    (\<forall>i < b. mips_neg (nav_vec dec g b) q (nav_dim g) < mips_neg (nav_vec dec g i) q (nav_dim g))"
  using assms scan_best_least [of "nav_n0 g" "\<lambda>i. mips_neg (nav_vec dec g i) q (nav_dim g)"]
  by (auto simp: search_entry_def nav_loaded_def)

definition demo_nav :: nav_graph where
  "demo_nav = \<lparr>nav_n0 = 3, nav_dim = 1, nav_R = 0, nav_ids = [10, 20, 30],
     nav_recs = [1, 0, 0, 0, 0, 0, 0, 0, 5, 0, 0, 0, 0, 0, 0, 0, 5, 0, 0, 0, 0, 0, 0, 0], rec_bytes = 8\<rparr>"

theorem search_entry_best_witness: "search_entry (int \<circ> u32_le) demo_nav [1] = 20"
proof -
  have l: "nav_loaded demo_nav" by (simp add: nav_loaded_def demo_nav_def)
  have v: "nav_vec (int \<circ> u32_le) demo_nav 0 = [1]" "nav_vec (int \<circ> u32_le) demo_nav 1 = [5]"
    "nav_vec (int \<circ> u32_le) demo_nav 2 = [5]" "nav_n0 demo_nav = 3" "nav_dim demo_nav = 1" "nav_ids demo_nav = [10, 20, 30]"
    by (simp_all add: nav_vec_def demo_nav_def u32_le_eq mem_read_def)
  obtain b where b: "b < 3" "search_entry (int \<circ> u32_le) demo_nav [1] = [10, 20, 30] ! b"
    "\<forall>i < 3. mips_neg (nav_vec (int \<circ> u32_le) demo_nav b) [1] 1 \<le> mips_neg (nav_vec (int \<circ> u32_le) demo_nav i) [1] 1"
    "\<forall>i < b. mips_neg (nav_vec (int \<circ> u32_le) demo_nav b) [1] 1 < mips_neg (nav_vec (int \<circ> u32_le) demo_nav i) [1] 1"
    using search_entry_best [OF l, of "int \<circ> u32_le" "[1]"] v(4-6) by auto
  have m: "mips_neg [1] [1] 1 = (-1 :: int)" "mips_neg [5] [1] 1 = (-5 :: int)" by (simp_all add: mips_neg_def)
  have "b \<noteq> 0"
  proof
    assume "b = 0"
    with b(3) [rule_format, of 1] show False by (simp only: v m) simp
  qed
  moreover have "b \<noteq> 2"
  proof
    assume "b = 2"
    with b(4) [rule_format, of 1] show False by (simp only: v m) simp
  qed
  ultimately have "b = 1" using b(1) by simp
  with b(2) show ?thesis by simp
qed

end
