(* ===== verification/Hide_Pages.thy ===== *)
theory Hide_Pages
  imports Placement Sorting
begin

text \<open>
  The page lists of \<open>serving/hide_fill.hpp\<close>: which pages a vector, an entry or a bundle
  needs, and the two functions that fill holes between the pages of one issue.
\<close>

section \<open>Collecting pages\<close>

text \<open>The loop over the pages of \<open>[off, off + len)\<close>; \<open>seen\<close> is \<open>None\<close> for a null pointer.\<close>

definition collect_span ::
  "nat \<Rightarrow> nat \<Rightarrow> nat \<Rightarrow> nat list \<times> nat set option \<Rightarrow> nat list \<times> nat set option" where
  "collect_span pb off len ps =
     (case ps of
        (pages, None) \<Rightarrow> (pages @ page_span pb off len, None)
      | (pages, Some seen) \<Rightarrow>
          (let (pages', seen') = fold push_new (page_span pb off len) (pages, seen)
           in (pages', Some seen')))"

definition hide_collect_vec_pages ::
  "placement \<Rightarrow> layout_header \<Rightarrow> nat \<Rightarrow> nat \<Rightarrow> nat \<Rightarrow> nat list \<times> nat set option \<Rightarrow> nat list \<times> nat set option" where
  "hide_collect_vec_pages p h vb pb i ps =
     (let off = (if diskann_layout p then entry_off p h i else vec_off p h i);
          len = (if diskann_layout p \<and> vec_stride p \<noteq> 0 then vec_stride p else vb)
      in collect_span pb off len ps)"

definition hide_collect_entry_pages ::
  "placement \<Rightarrow> layout_header \<Rightarrow> nat \<Rightarrow> nat \<Rightarrow> nat \<Rightarrow> nat list \<times> nat set option \<Rightarrow> nat list \<times> nat set option" where
  "hide_collect_entry_pages p h vb pb i ps = hide_collect_vec_pages p h vb pb i ps"

text \<open>The bin of the histogram for the fraction \<open>w / on\<close> of wanted ids.\<close>

definition use_bin :: "nat \<Rightarrow> nat \<Rightarrow> nat" where
  "use_bin w on =
     (let u = (of_nat w / of_nat on :: rat)
      in if u < 1 / 5 then 0 else if u < 2 / 5 then 1 else if u < 3 / 5 then 2 else if u < 4 / 5 then 3 else 4)"

definition note_bundle_use :: "nat \<Rightarrow> nat \<Rightarrow> metrics \<Rightarrow> metrics" where
  "note_bundle_use on w m =
     (let m1 = m\<lparr>pf_issue_slots := pf_issue_slots m + on, pf_issue_want_slots := pf_issue_want_slots m + w\<rparr>
      in if 0 < on
         then m1\<lparr>issue_use_hist := (issue_use_hist m1)[use_bin w on := issue_use_hist m1 ! use_bin w on + 1]\<rparr>
         else m1)"

text \<open>One page of the inner loop; the state is the page list, the seen set and the metrics.\<close>

type_synonym collect_state = "(nat list \<times> nat set option) \<times> metrics option"

definition bundle_page ::
  "placement \<Rightarrow> layout_header \<Rightarrow> nat \<Rightarrow> nat \<Rightarrow> nat set \<Rightarrow> rat \<Rightarrow> nat \<Rightarrow> collect_state \<Rightarrow> collect_state" where
  "bundle_page p h vb pb want min_use pg st =
     (case st of ((pages, seen), m) \<Rightarrow>
        (if (case seen of Some s \<Rightarrow> pg \<in> s | None \<Rightarrow> False) then st
         else let seen1 = map_option (insert pg) seen;
                  ids = ids_contained_in_page p pg pb;
                  cnt = want \<noteq> {} \<and> (m \<noteq> None \<or> 0 < min_use);
                  on = (if cnt then length ids else 0);
                  w = (if cnt then length (filter (\<lambda>i. i \<in> want) ids) else 0)
              in if 0 < min_use \<and> 0 < on \<and> of_nat w / of_nat on < min_use
                 then (fold (\<lambda>i ps. if i \<in> want then hide_collect_vec_pages p h vb pb i ps else ps) ids (pages, seen1), m)
                 else ((pages @ [pg], seen1), if want \<noteq> {} then map_option (note_bundle_use on w) m else m)))"

definition bundle_nbr ::
  "placement \<Rightarrow> layout_header \<Rightarrow> nat \<Rightarrow> nat \<Rightarrow> nat \<Rightarrow> nat list \<Rightarrow> nat set \<Rightarrow> rat \<Rightarrow> nat \<Rightarrow> collect_state \<Rightarrow> collect_state" where
  "bundle_nbr p h vb pb u nbs want min_use k st =
     (if want \<noteq> {} \<and> nbs ! k \<notin> want then st
      else fold (bundle_page p h vb pb want min_use)
             (page_span pb (bundle_off p + u * bundle_stride p + k * packed_vec_bytes p) (packed_vec_bytes p)) st)"

definition hide_collect_bundle_pages ::
  "placement \<Rightarrow> layout_header \<Rightarrow> nat \<Rightarrow> nat \<Rightarrow> nat \<Rightarrow> nat list \<Rightarrow> nat set \<Rightarrow> rat \<Rightarrow> collect_state \<Rightarrow> collect_state" where
  "hide_collect_bundle_pages p h vb pb u nbs want min_use st =
     (if \<not> has_bundle p \<or> nbs = [] then st
      else fold (bundle_nbr p h vb pb u nbs want min_use) [0..<length nbs] st)"

definition hide_read_nbrs :: "placement \<Rightarrow> layout_header \<Rightarrow> nat \<Rightarrow> nat \<Rightarrow> nat list" where
  "hide_read_nbrs p h i R = map (nbr_at p (nbrs p h i)) [0..<R]"

text \<open>\<open>Some (i, in_page)\<close> is \<open>hosts[i] + in_page\<close>.\<close>

definition hide_bounce_lookup :: "nat list \<Rightarrow> nat \<Rightarrow> nat \<Rightarrow> nat \<Rightarrow> nat \<Rightarrow> (nat \<times> nat) option" where
  "hide_bounce_lookup pages page_off in_page len pb =
     (if pb < in_page + len then None
      else map_option (\<lambda>i. (i, in_page)) (List.find (\<lambda>i. pages ! i = page_off) [0..<length pages]))"

section \<open>Filling holes\<close>

definition sort_unique :: "nat list \<Rightarrow> nat list" where
  "sort_unique ps = remdups_adj (std_sort (<) ps)"

definition hide_extent_run :: "nat list \<Rightarrow> nat \<Rightarrow> nat \<Rightarrow> nat list" where
  "hide_extent_run pages pb max_span =
     (if length pages < 2 \<or> pb = 0 then pages
      else let ps = sort_unique pages; lo = hd ps; hi = List.last ps; span = (hi - lo) div pb + 1
           in if span \<le> 1 \<or> max_span < span then ps
              else if length ps * 2 < span then ps
              else pages_from pb lo hi)"

text \<open>The run of pages from the head on that lie in the stripe of the head.\<close>

function stripe_extra :: "nat \<Rightarrow> nat \<Rightarrow> nat list \<Rightarrow> nat list" where
  "stripe_extra pb max_span [] = []"
| "stripe_extra pb max_span (p # ps) =
     (let same = takeWhile (\<lambda>q. q div 2 ^ 21 = p div 2 ^ 21) ps;
          lo = p; hi = List.last (p # same); span = (hi - lo) div pb + 1
      in (if 1 < span \<and> span \<le> max_span then pages_from pb lo hi else [])
         @ stripe_extra pb max_span (dropWhile (\<lambda>q. q div 2 ^ 21 = p div 2 ^ 21) ps))"
  by pat_completeness auto
termination
  by (relation "measure (\<lambda>(pb, m, ps). length ps)") (auto simp: length_dropWhile_le less_Suc_eq_le)

definition hide_stripe_fill :: "nat list \<Rightarrow> nat \<Rightarrow> nat \<Rightarrow> nat list" where
  "hide_stripe_fill pages pb max_span =
     (if length pages < 2 \<or> pb = 0 then pages
      else let ps = sort_unique pages; extra = stripe_extra pb max_span ps
           in if extra = [] then ps else sort_unique (ps @ extra))"

section \<open>Lemmas\<close>

lemma set_sort_unique [simp]: "set (sort_unique ps) = set ps"
  by (simp add: sort_unique_def ascending.set_srt)

lemma sorted_sort_unique: "sorted (sort_unique ps)"
  by (simp add: sort_unique_def std_sort_nat sorted_remdups_adj)

lemma distinct_remdups_adj_sorted: "sorted (xs :: nat list) \<Longrightarrow> distinct (remdups_adj xs)"
  by (induction xs rule: remdups_adj.induct) force+

lemma distinct_sort_unique: "distinct (sort_unique ps)"
  unfolding sort_unique_def std_sort_nat by (rule distinct_remdups_adj_sorted) simp

lemma sort_unique_ends:
  assumes "ps \<noteq> []" and "x \<in> set ps"
  shows "hd (sort_unique ps) \<le> x" and "x \<le> List.last (sort_unique ps)"
    and "hd (sort_unique ps) \<in> set ps" and "List.last (sort_unique ps) \<in> set ps"
proof -
  have ne: "sort_unique ps \<noteq> []" using assms by (metis empty_iff empty_set set_sort_unique)
  then obtain y ys where y: "sort_unique ps = y # ys" by (cases "sort_unique ps") auto
  show "hd (sort_unique ps) \<le> x"
    using sorted_sort_unique [of ps] assms(2) set_sort_unique [of ps] by (auto simp: y)
  show "x \<le> List.last (sort_unique ps)"
  proof -
    obtain i where "i < length (sort_unique ps)" "sort_unique ps ! i = x"
      using assms(2) set_sort_unique [of ps] by (metis in_set_conv_nth)
    moreover have "i \<le> length (sort_unique ps) - 1" "length (sort_unique ps) - 1 < length (sort_unique ps)"
      using calculation(1) ne by auto
    ultimately have "x \<le> sort_unique ps ! (length (sort_unique ps) - 1)"
      using sorted_nth_mono [OF sorted_sort_unique] by metis
    then show ?thesis using ne by (simp add: last_conv_nth)
  qed
  show "hd (sort_unique ps) \<in> set ps" "List.last (sort_unique ps) \<in> set ps"
    using ne set_sort_unique [of ps] by (metis hd_in_set, metis last_in_set)
qed

lemma collect_span_set:
  "set (fst (collect_span pb off len (pages, seen))) =
     set pages \<union> (set (page_span pb off len) - (case seen of Some s \<Rightarrow> s | None \<Rightarrow> {}))"
proof (cases seen)
  case (Some s)
  obtain pages' s' where "fold push_new (page_span pb off len) (pages, s) = (pages', s')"
    by (cases "fold push_new (page_span pb off len) (pages, s)")
  then show ?thesis using Some fold_push_new_set [of "page_span pb off len" pages s]
    by (auto simp: collect_span_def)
qed (simp add: collect_span_def)

lemma collect_vec_covers:
  assumes "pow2 pb" and "diskann_layout p" and "vec_stride p \<noteq> 0"
    and "entry_off p h i \<le> a" and "a < entry_off p h i + vec_stride p"
  shows "page_floor pb a \<in> set (fst (hide_collect_vec_pages p h vb pb i ([], None)))"
  using assms page_span_covers [of pb "entry_off p h i" a "vec_stride p"]
  by (simp add: hide_collect_vec_pages_def collect_span_set)

lemma stripe_extra_stripe:
  assumes "0 < pb" and "q \<in> set (stripe_extra pb ms ps)"
  shows "\<exists>p \<in> set ps. q div 2 ^ 21 = p div 2 ^ 21"
  using assms
proof (induction pb ms ps rule: stripe_extra.induct)
  case (2 pb ms p ps)
  define same where "same = takeWhile (\<lambda>q. q div 2 ^ 21 = p div 2 ^ 21) ps"
  define rest where "rest = dropWhile (\<lambda>q. q div 2 ^ 21 = p div 2 ^ 21) ps"
  have e: "stripe_extra pb ms (p # ps) = (let span = (List.last (p # same) - p) div pb + 1 in
      (if 1 < span \<and> span \<le> ms then pages_from pb p (List.last (p # same)) else []))
      @ stripe_extra pb ms rest"
    by (simp only: stripe_extra.simps Let_def same_def rest_def)
  have IH: "\<exists>r \<in> set rest. q div 2 ^ 21 = r div 2 ^ 21" if "q \<in> set (stripe_extra pb ms rest)"
    using that 2 unfolding rest_def by blast
  consider "q \<in> set (pages_from pb p (List.last (p # same)))" | "q \<in> set (stripe_extra pb ms rest)"
    using 2(3) unfolding e by (auto simp: Let_def split: if_splits)
  then show ?case
  proof cases
    case 1
    then have b: "p \<le> q" "q \<le> List.last (p # same)" using 2(2) by (simp_all add: set_pages_from)
    have "List.last (p # same) = p \<or> List.last (p # same) \<in> set same" by simp
    moreover have "x div 2 ^ 21 = p div 2 ^ 21" if "x \<in> set same" for x
      using that set_takeWhileD unfolding same_def by metis
    ultimately have "List.last (p # same) div 2 ^ 21 = p div 2 ^ 21" by metis
    then have "q div 2 ^ 21 = p div 2 ^ 21"
      using div_le_mono [OF b(1), of "2 ^ 21"] div_le_mono [OF b(2), of "2 ^ 21"] by linarith
    then show ?thesis by auto
  next
    case 2
    then have "\<exists>r \<in> set rest. q div 2 ^ 21 = r div 2 ^ 21"
      using IH by blast
    then show ?thesis using set_dropWhileD by (fastforce simp: rest_def)
  qed
qed simp

lemma hide_extent_run_cases:
  assumes "0 < pb" and "2 \<le> length ps"
  obtains "hide_extent_run ps pb ms = sort_unique ps"
  | "hide_extent_run ps pb ms = pages_from pb (hd (sort_unique ps)) (List.last (sort_unique ps))"
    "length (pages_from pb (hd (sort_unique ps)) (List.last (sort_unique ps))) \<le> 2 * length (sort_unique ps)"
proof -
  define lo where "lo = hd (sort_unique ps)"
  define hi where "hi = List.last (sort_unique ps)"
  have l: "length (pages_from pb lo hi) \<le> (hi - lo) div pb + 1"
    using assms by (simp add: length_pages_from)
  show ?thesis
  proof (cases "(hi - lo) div pb + 1 \<le> 1 \<or> ms < (hi - lo) div pb + 1 \<or> length (sort_unique ps) * 2 < (hi - lo) div pb + 1")
    case True
    then show ?thesis using that(1) assms by (auto simp: hide_extent_run_def Let_def lo_def hi_def)
  next
    case False
    with l have "length (pages_from pb lo hi) \<le> 2 * length (sort_unique ps)" by linarith
    moreover have "hide_extent_run ps pb ms = pages_from pb lo hi"
      using False assms by (auto simp: hide_extent_run_def Let_def lo_def hi_def)
    ultimately show ?thesis using that(2) by (simp add: lo_def hi_def)
  qed
qed

lemma length_sort_unique: "length (sort_unique ps) \<le> length ps"
  by (metis card_length distinct_card distinct_sort_unique set_sort_unique)

lemma hide_extent_run_superset:
  assumes "0 < pb" and "\<And>p. p \<in> set ps \<Longrightarrow> pb dvd p"
  shows "set ps \<subseteq> set (hide_extent_run ps pb ms)"
proof (cases "2 \<le> length ps")
  case True
  then have ne: "ps \<noteq> []" by auto
  from assms(1) True show ?thesis
  proof (cases rule: hide_extent_run_cases [of pb ps ms])
    case 2
    show ?thesis
    proof
      fix x assume x: "x \<in> set ps"
      note e = sort_unique_ends [OF ne x]
      have "pb dvd (x - hd (sort_unique ps))" using e(3) x assms(2) by (intro dvd_diff_nat) auto
      then show "x \<in> set (hide_extent_run ps pb ms)" using e assms(1) 2(1) by (simp add: set_pages_from)
    qed
  qed simp
qed (simp add: hide_extent_run_def)

lemma hide_stripe_fill_set:
  assumes "0 < pb"
  shows "set ps \<subseteq> set (hide_stripe_fill ps pb ms)"
    and "q \<in> set (hide_stripe_fill ps pb ms) \<Longrightarrow> \<exists>p \<in> set ps. q div 2 ^ 21 = p div 2 ^ 21"
  using stripe_extra_stripe [OF assms, of q ms "sort_unique ps"]
  by (auto simp: hide_stripe_fill_def Let_def split: if_splits)

section \<open>Properties\<close>

text \<open>Filling the holes of an issue (\<open>hide_extent_run\<close>) keeps every page asked for, adds
  only pages between the smallest and the largest of them, puts them in ascending order without
  repetition, and never doubles the number of pages that are copied.\<close>
theorem extent_run_is_tight:
  assumes "0 < pb" and "2 \<le> length ps" and "\<And>p. p \<in> set ps \<Longrightarrow> pb dvd p"
  shows "set ps \<subseteq> set (hide_extent_run ps pb ms)
    \<and> sorted (hide_extent_run ps pb ms) \<and> distinct (hide_extent_run ps pb ms)
    \<and> length (hide_extent_run ps pb ms) \<le> 2 * length ps
    \<and> set (hide_extent_run ps pb ms) \<subseteq> {q. pb dvd q \<and> Min (set ps) \<le> q \<and> q \<le> Max (set ps)}"
proof (intro conjI)
  have ne: "ps \<noteq> []" using assms(2) by auto
  define lo where "lo = hd (sort_unique ps)"
  define hi where "hi = List.last (sort_unique ps)"
  have ends: "lo = Min (set ps)" "hi = Max (set ps)"
    unfolding lo_def hi_def using sort_unique_ends [OF ne] hd_in_set [OF ne]
    by (auto intro!: Min_eqI [symmetric] Max_eqI [symmetric])
  have alo: "pb dvd lo" using assms(3) ends ne by simp
  show "set ps \<subseteq> set (hide_extent_run ps pb ms)" using assms(1,3) by (rule hide_extent_run_superset)
  from assms(1,2) show "set (hide_extent_run ps pb ms) \<subseteq> {q. pb dvd q \<and> Min (set ps) \<le> q \<and> q \<le> Max (set ps)}"
  proof (cases rule: hide_extent_run_cases [of pb ps ms])
    case 1
    then show ?thesis using assms(3) ne by auto
  next
    case 2
    then have "hide_extent_run ps pb ms = pages_from pb lo hi" by (simp add: lo_def hi_def)
    moreover have "pb dvd q" if "lo \<le> q" "pb dvd (q - lo)" for q using that alo by (metis dvd_diffD)
    ultimately show ?thesis using assms(1) ends by (auto simp: set_pages_from)
  qed
  from assms(1,2) show "sorted (hide_extent_run ps pb ms)" "distinct (hide_extent_run ps pb ms)"
    "length (hide_extent_run ps pb ms) \<le> 2 * length ps"
    using length_sort_unique [of ps]
    by (cases rule: hide_extent_run_cases [of pb ps ms],
        simp_all add: sorted_sort_unique distinct_sort_unique sorted_pages_from distinct_pages_from)+
qed

lemma extent_run_is_tight_witness:
  "hide_extent_run [24, 8, 16, 8] 4 32 = [8, 12, 16, 20, 24]
   \<and> length (hide_extent_run [24, 8, 16, 8] 4 32) \<le> 2 * length [24, 8, 16, 8 :: nat]"
proof
  have s: "sort_unique [24, 8, 16, 8] = [8, 16, 24]" by (simp add: sort_unique_def std_sort_nat)
  have "pages_from 4 8 24 = [8, 12, 16, 20, 24]" by (simp add: pages_from.simps)
  then show "hide_extent_run [24, 8, 16, 8] 4 32 = [8, 12, 16, 20, 24]"
    by (simp add: hide_extent_run_def s)
  show "length (hide_extent_run [24, 8, 16, 8] 4 32) \<le> 2 * length [24, 8, 16, 8 :: nat]"
  proof -
    have "4 dvd p" if "p \<in> set [24, 8, 16, 8 :: nat]" for p using that by auto
    then show ?thesis using extent_run_is_tight [of 4 "[24, 8, 16, 8]" 32] by simp
  qed
qed

end
