(* ===== verification/Hide_Fill.thy ===== *)
theory Hide_Fill
  imports Hide_Pages Vmem_Batch
begin

text \<open>
  \<open>serving/hide_fill.hpp\<close>, one issue of pages: \<open>HideInflight\<close>, \<open>hide_pump\<close>,
  \<open>hide_wait\<close>, \<open>hide_issue\<close> and the jobs it hands to the copy pool. The host slab is the list
  of its pages, uninitialised but for the first byte of each; in a direct fill the destination of page \<open>i\<close> is frame \<open>frames[i]\<close> of the
  window. The driver calls are parameters that act on a memory of destinations and a device
  state; \<open>yield\<close> is a parameter too, a function that says what the workers do meanwhile.
\<close>

section \<open>State\<close>

datatype hide_score = Score_window | Score_bounce | Score_vmem

record hide_inflight =
  hi_pages :: "nat list"
  hi_host :: "byte list list option"
  hi_host_n :: nat
  hi_host_pb :: nat
  hi_frames :: "nat list"
  hi_ready :: "bool list option"
  hi_consumed :: "bool list"
  hi_ready_n :: nat
  hi_ttl :: nat
  hi_active :: bool
  hi_direct :: bool
  hi_tok :: nat

definition hide_empty :: hide_inflight where
  "hide_empty = \<lparr>hi_pages = [], hi_host = None, hi_host_n = 0, hi_host_pb = 0, hi_frames = [],
     hi_ready = None, hi_consumed = [], hi_ready_n = 0, hi_ttl = 32, hi_active = False,
     hi_direct = False, hi_tok = 0\<rparr>"

definition hide_clear :: "hide_inflight \<Rightarrow> hide_inflight" where
  "hide_clear fl = fl\<lparr>hi_pages := [], hi_host := None, hi_host_n := 0, hi_host_pb := 0,
     hi_frames := [], hi_ready := None, hi_consumed := [], hi_ready_n := 0, hi_active := False,
     hi_direct := False, hi_tok := 0\<rparr>"

definition ready_at :: "hide_inflight \<Rightarrow> nat \<Rightarrow> bool" where
  "ready_at fl i = (case hi_ready fl of Some r \<Rightarrow> r ! i | None \<Rightarrow> False)"

definition host_page :: "hide_inflight \<Rightarrow> nat \<Rightarrow> byte list option" where
  "host_page fl i = map_option (\<lambda>h. h ! i) (hi_host fl)"

section \<open>Pumping\<close>

definition consume :: "nat \<Rightarrow> hide_inflight \<Rightarrow> hide_inflight" where
  "consume i fl = fl\<lparr>hi_consumed := (hi_consumed fl)[i := True]\<rparr>"

definition count_ready :: "nat \<Rightarrow> hide_inflight \<Rightarrow> hide_inflight" where
  "count_ready n fl = fl\<lparr>hi_ready_n := hi_ready_n fl + n\<rparr>"

definition fresh_ready :: "hide_inflight \<Rightarrow> nat \<Rightarrow> bool" where
  "fresh_ready fl i \<longleftrightarrow> \<not> hi_consumed fl ! i \<and> ready_at fl i"

definition pump_mark :: "nat \<Rightarrow> hide_inflight \<Rightarrow> hide_inflight" where
  "pump_mark i fl = (if fresh_ready fl i then count_ready 1 (consume i fl) else fl)"

definition pump_direct :: "nat \<Rightarrow> hide_inflight \<times> dram_window \<Rightarrow> hide_inflight \<times> dram_window" where
  "pump_direct i st =
     (case st of (fl, w) \<Rightarrow>
        if fresh_ready fl i
        then (count_ready 1 (consume i fl), commit_fill (hi_pages fl ! i) (hi_frames fl ! i) (hi_ttl fl) w)
        else st)"

text \<open>The batch of at most 256 pages, the issue and the window.\<close>

type_synonym pump_state = "(nat \<times> byte list option) list \<times> hide_inflight \<times> dram_window"

definition pump_flush :: "pump_state \<Rightarrow> pump_state" where
  "pump_flush st =
     (case st of (buf, fl, w) \<Rightarrow>
        if buf = [] then st
        else ([], count_ready (length buf) fl, install_full_pages buf (hi_ttl fl) w))"

definition pump_copy :: "nat \<Rightarrow> pump_state \<Rightarrow> pump_state" where
  "pump_copy i st =
     (case st of (buf, fl, w) \<Rightarrow>
        if fresh_ready fl i
        then let buf1 = buf @ [(hi_pages fl ! i, host_page fl i)]; st1 = (buf1, consume i fl, w)
             in if length buf1 = 256 then pump_flush st1 else st1
        else st)"

definition hide_pump :: "hide_score \<Rightarrow> hide_inflight \<times> dram_window \<Rightarrow> hide_inflight \<times> dram_window" where
  "hide_pump score st =
     (case st of (fl, w) \<Rightarrow>
        let is = [0..<length (hi_pages fl)]
        in if \<not> hi_active fl then st
           else if score \<noteq> Score_window then (fold pump_mark is fl, w)
           else if hi_direct fl then fold pump_direct is st
           else snd (pump_flush (fold pump_copy is ([], fl, w))))"

section \<open>Waiting\<close>

text \<open>The loop ends only when every page has been consumed; \<open>None\<close> is a wait that never returns.\<close>

partial_function (option) wait_loop ::
  "hide_score \<Rightarrow> (hide_inflight \<times> dram_window \<times> 'd \<Rightarrow> hide_inflight \<times> dram_window \<times> 'd) \<Rightarrow>
   hide_inflight \<times> dram_window \<times> 'd \<Rightarrow> (hide_inflight \<times> dram_window \<times> 'd) option" where
  [code]: "wait_loop score yld st =
     (case st of (fl, w, d) \<Rightarrow>
        if hi_ready_n fl < length (hi_pages fl)
        then (case hide_pump score (fl, w) of (inf1, w1) \<Rightarrow>
                wait_loop score yld
                  (if hi_ready_n inf1 < length (hi_pages inf1) then yld (inf1, w1, d) else (inf1, w1, d)))
        else Some st)"

definition hide_wait ::
  "hide_score \<Rightarrow> (hide_inflight \<times> dram_window \<times> 'd \<Rightarrow> hide_inflight \<times> dram_window \<times> 'd) \<Rightarrow>
   hide_inflight \<times> dram_window \<times> 'd \<Rightarrow> (hide_inflight \<times> dram_window \<times> 'd) option" where
  "hide_wait score yld st =
     (if \<not> hi_active (fst st) then Some st
      else map_option (\<lambda>(fl, w, d). case hide_pump score (fl, w) of (inf1, w1) \<Rightarrow>
              (if score = Score_window then hide_clear inf1 else inf1, w1, d))
             (wait_loop score yld st))"

section \<open>Issuing\<close>

text \<open>The slab of an issue comes from \<open>new uint8_t[]\<close>: its bytes are what the heap has there (\<open>heap\<close>), but
  for the first one of each page, which the issue sets to zero.\<close>

definition fresh_slab :: "(nat \<Rightarrow> byte) \<Rightarrow> nat \<Rightarrow> nat \<Rightarrow> byte list list" where
  "fresh_slab heap n pb = map (\<lambda>i. map (\<lambda>j. if j = 0 then 0 else heap (i * pb + j)) [0..<pb]) [0..<n]"

definition wanted_pages :: "bool \<Rightarrow> dram_window \<Rightarrow> nat list \<Rightarrow> nat list" where
  "wanted_pages use_window w ps =
     filter (\<lambda>p. \<not> (use_window \<and> is_resident p 1 w)) (dedup ps)"

definition hide_miss :: "bool \<Rightarrow> bool \<Rightarrow> dram_window \<Rightarrow> nat list \<Rightarrow> nat list" where
  "hide_miss use_window run w ps =
     (let miss = wanted_pages use_window w ps
      in if run then hide_extent_run miss (page_bytes w) 32 else miss)"

text \<open>Pages, frames and window after reserving a frame for every page that gets one.\<close>

definition reserve_one :: "nat \<Rightarrow> (nat list \<times> nat list) \<times> dram_window \<Rightarrow> (nat list \<times> nat list) \<times> dram_window" where
  "reserve_one p st =
     (case st of ((ps, frs), w) \<Rightarrow>
        (case reserve_fill p w of
           (None, w1) \<Rightarrow> ((ps, frs), w1)
         | (Some fr, w1) \<Rightarrow> ((ps @ [p], frs @ [fr]), w1)))"

definition hide_start :: "nat \<Rightarrow> hide_inflight \<Rightarrow> hide_inflight" where
  "hide_start ttl fl =
     fl\<lparr>hi_ready := Some (replicate (length (hi_pages fl)) False),
         hi_consumed := replicate (length (hi_pages fl)) False, hi_ttl := ttl, hi_active := True\<rparr>"

definition chunk_jobs :: "nat \<Rightarrow> (nat \<times> nat) list" where
  "chunk_jobs n = map (\<lambda>k. (32 * k, if n - 32 * k < 32 then n - 32 * k else 32)) [0..<(n + 31) div 32]"

definition count_issue :: "placement \<Rightarrow> nat \<Rightarrow> bool \<Rightarrow> nat list \<Rightarrow> metrics \<Rightarrow> metrics" where
  "count_issue p pb lookahead ps m =
     (let m1 = note_fetched_pages (length ps) m;
          m2 = m1\<lparr>promote_bytes := promote_bytes m1 + length ps * pb,
                  prefetch_pages := prefetch_pages m1 + length ps\<rparr>;
          m3 = note_pf_issue ps lookahead m2
      in fold (\<lambda>q. fold note_pf_slot_id (ids_contained_in_page p q pb)) ps m3)"

text \<open>The issue, the window, the metrics and the jobs \<open>(off, n1)\<close> submitted to the pool.\<close>

definition hide_issue ::
  "(nat \<Rightarrow> byte) \<Rightarrow> placement \<Rightarrow> nat list \<Rightarrow> nat \<Rightarrow> bool \<Rightarrow> bool \<Rightarrow> bool \<Rightarrow> bool \<Rightarrow> bool \<Rightarrow>
   hide_inflight \<times> dram_window \<times> metrics option \<Rightarrow>
   (hide_inflight \<times> dram_window \<times> metrics option) \<times> (nat \<times> nat) list" where
  "hide_issue heap p pages_in ttl lookahead run direct prefetch_only use_window st =
     (case st of (fl, w, m) \<Rightarrow>
        let pb = page_bytes w; miss = hide_miss use_window run w pages_in
        in if miss = [] then (st, [])
           else let inf0 = (hide_clear fl)\<lparr>hi_direct := direct \<and> \<not> prefetch_only\<rparr>;
                    (inf1, w1) =
                      (if prefetch_only then (inf0\<lparr>hi_pages := miss\<rparr>, w)
                       else if direct then
                         (case fold reserve_one miss (([], []), w) of
                            ((ps, frs), w') \<Rightarrow> (inf0\<lparr>hi_pages := ps, hi_frames := frs\<rparr>, w'))
                       else (inf0\<lparr>hi_pages := miss, hi_host_n := length miss, hi_host_pb := pb,
                                  hi_host := Some (fresh_slab heap (length miss) pb)\<rparr>, w))
                in if hi_pages inf1 = [] then ((inf1, w1, m), [])
                   else let ps = hi_pages inf1
                        in ((hide_start ttl inf1, w1, map_option (count_issue p pb lookahead ps) m),
                            chunk_jobs (length ps)))"

section \<open>The jobs\<close>

text \<open>What a job leaves in its destinations: the read of the driver, or a copy of the image.\<close>

type_synonym 'd driver =
  "((nat \<times> nat) list \<Rightarrow> (nat \<Rightarrow> byte list) \<times> 'd \<Rightarrow> bool \<times> (nat \<Rightarrow> byte list) \<times> 'd) \<times>
   ((nat \<times> unit) list \<Rightarrow> 'd \<Rightarrow> bool \<times> 'd)"

definition job_prefetch :: "'d driver \<Rightarrow> vmem_io option \<Rightarrow> nat list \<Rightarrow> 'd \<Rightarrow> 'd" where
  "job_prefetch drv vio offs d =
     (case vio of
        None \<Rightarrow> d
      | Some io \<Rightarrow> if vio_fd io = None then d else snd (vmem_prefetch_pages (snd drv) io offs d))"

definition job_read ::
  "'d driver \<Rightarrow> vmem_io option \<Rightarrow> placement \<Rightarrow> nat \<Rightarrow> nat list \<Rightarrow> (nat \<Rightarrow> byte list) \<Rightarrow> 'd \<Rightarrow>
   (nat \<Rightarrow> byte list) \<times> 'd" where
  "job_read drv vio p pb offs mem d =
     (let (rd, mem1, d1) =
        (case vio of
           None \<Rightarrow> (None, mem, d)
         | Some io \<Rightarrow> if vio_fd io = None then (None, mem, d)
                      else vmem_read_pages (fst drv) io (zip offs [0..<length offs]) (mem, d))
      in if (case rd of None \<Rightarrow> True | Some k \<Rightarrow> k = 0)
         then (\<lambda>i. if i < length offs then image_bytes (ssd_image p) (offs ! i) pb else mem1 i,
               job_prefetch drv vio offs d1)
         else (mem1, d1))"

definition set_ready :: "nat \<Rightarrow> nat \<Rightarrow> hide_inflight \<Rightarrow> hide_inflight" where
  "set_ready off n fl =
     fl\<lparr>hi_ready := map_option (fold (\<lambda>i r. r[i := True]) [off..<off + n]) (hi_ready fl)\<rparr>"

definition run_job ::
  "'d driver \<Rightarrow> vmem_io option \<Rightarrow> placement \<Rightarrow> bool \<Rightarrow> nat \<times> nat \<Rightarrow>
   hide_inflight \<times> dram_window \<times> 'd \<Rightarrow> hide_inflight \<times> dram_window \<times> 'd" where
  "run_job drv vio p only_pf job st =
     (case (job, st) of ((off, n1), (fl, w, d)) \<Rightarrow>
        let offs = take n1 (drop off (hi_pages fl)); pb = page_bytes w
        in if only_pf then (set_ready off n1 fl, w, job_prefetch drv vio offs d)
           else if hi_direct fl then
             (case job_read drv vio p pb offs
                     (\<lambda>i. mem_read (hi_frames fl ! (off + i) * pb) pb (arena w)) d of
                (mem, d1) \<Rightarrow>
                  (set_ready off n1 fl,
                   fold (\<lambda>i. arena_write (hi_frames fl ! (off + i) * pb) (mem i)) [0..<n1] w, d1))
           else
             (case job_read drv vio p pb offs (\<lambda>i. the (hi_host fl) ! (off + i)) d of
                (mem, d1) \<Rightarrow>
                  (set_ready off n1
                     (fl\<lparr>hi_host := map_option (fold (\<lambda>i h. h[off + i := mem i]) [0..<n1]) (hi_host fl)\<rparr>),
                   w, d1)))"

end
