(* ===== verification/Hide_Pipe.thy ===== *)
theory Hide_Pipe
  imports Hide_Fill
begin

text \<open>
  \<open>HidePipe\<close> of \<open>serving/hide_fill.hpp\<close>: 32 issues in flight over one window. The jobs handed
  to the copy pool that have not run yet are kept with the pipe, each with the token of its
  issue: a job captures pointers into its slot, so it may only run while the slot still
  belongs to that issue. In the code a job whose slot was given up meanwhile runs all the same,
  on freed memory; that is undefined behaviour, here \<open>run_pipe_job\<close> is \<open>None\<close> and what is proved
  of pipes speaks of executions without it. \<open>hp_heap\<close> has the bytes that a fresh slab of the
  issue with a token finds in the heap. The callbacks \<open>after_pump\<close> and
  \<open>on_inflight\<close>, which only observe, are empty.
\<close>

section \<open>State\<close>

definition kSlots :: nat where
  "kSlots = 32"

record 'd hide_pipe =
  hp_slots :: "hide_inflight list"
  hp_win :: dram_window
  hp_pl :: placement
  hp_vio :: "vmem_io option"
  hp_m :: "metrics option"
  hp_extent_run :: bool
  hp_direct_install :: bool
  hp_score :: hide_score
  next_tok :: nat
  last_miss_n :: nat
  last_issue_n :: nat
  hp_jobs :: "(nat \<times> nat \<times> nat \<times> nat) list"
  hp_dev :: 'd
  hp_heap :: "nat \<Rightarrow> nat \<Rightarrow> byte"

abbreviation slot :: "'d hide_pipe \<Rightarrow> nat \<Rightarrow> hide_inflight" where
  "slot hp i \<equiv> hp_slots hp ! i"

section \<open>Questions\<close>

definition active_slots :: "'d hide_pipe \<Rightarrow> nat" where
  "active_slots hp = length (filter hi_active (hp_slots hp))"

definition active_pages :: "'d hide_pipe \<Rightarrow> nat" where
  "active_pages hp = sum_list (map (length \<circ> hi_pages) (filter hi_active (hp_slots hp)))"

definition hp_use_window :: "'d hide_pipe \<Rightarrow> bool" where
  "hp_use_window hp \<longleftrightarrow> hp_score hp = Score_window"

definition page_in_slot :: "nat \<Rightarrow> 'd hide_pipe \<Rightarrow> bool" where
  "page_in_slot p hp \<longleftrightarrow> list_ex (\<lambda>s. hi_active s \<and> p \<in> set (hi_pages s)) (hp_slots hp)"

definition page_ready :: "nat \<Rightarrow> 'd hide_pipe \<Rightarrow> bool" where
  "page_ready p hp \<longleftrightarrow>
     list_ex (\<lambda>s. hi_active s \<and>
       list_ex (\<lambda>i. hi_pages s ! i = p \<and> ready_at s i) [0..<length (hi_pages s)]) (hp_slots hp)"

definition hp_covers :: "nat \<Rightarrow> 'd hide_pipe \<Rightarrow> bool" where
  "hp_covers p hp = (if hp_use_window hp then is_resident p 1 (hp_win hp) else page_ready p hp)"

definition covers_all :: "nat list \<Rightarrow> 'd hide_pipe \<Rightarrow> bool" where
  "covers_all need hp = list_all (\<lambda>p. hp_covers p hp) need"

text \<open>The first page of a slab that has the offset; \<open>None\<close> is the null pointer.\<close>

definition slot_page :: "nat \<Rightarrow> hide_inflight \<Rightarrow> byte list list" where
  "slot_page q s =
     (if \<not> hi_active s then []
      else case hi_host s of
             None \<Rightarrow> []
           | Some h \<Rightarrow> map (\<lambda>i. h ! i) (filter (\<lambda>i. hi_pages s ! i = q \<and> i < hi_host_n s) [0..<length (hi_pages s)]))"

definition bounce_page :: "nat \<Rightarrow> 'd hide_pipe \<Rightarrow> byte list option" where
  "bounce_page q hp = (case concat (map (slot_page q) (hp_slots hp)) of [] \<Rightarrow> None | b # bs \<Rightarrow> Some b)"

text \<open>\<open>vec_src\<close>: the bytes behind the pointer, \<open>None\<close> for the null pointer.\<close>

definition vec_src :: "nat \<Rightarrow> nat \<Rightarrow> 'd hide_pipe \<Rightarrow> byte list option" where
  "vec_src off vb hp =
     (if hp_score hp = Score_vmem then Some (image_bytes (ssd_image (hp_pl hp)) off vb)
      else let pb = page_bytes (hp_win hp); page = page_floor pb off; in_page = off - page
           in if pb < in_page + vb then None
              else if hp_score hp = Score_bounce then map_option (mem_read in_page vb) (bounce_page page hp)
              else map_option (\<lambda>a. mem_read a vb (arena (hp_win hp))) (try_ptr_resident off vb (hp_win hp)))"

text \<open>The copy loop of the bounce mode.\<close>

function bounce_copy :: "nat \<Rightarrow> nat \<Rightarrow> nat \<Rightarrow> 'd hide_pipe \<Rightarrow> byte list option" where
  "bounce_copy off vb copied hp =
     (let pb = page_bytes (hp_win hp)
      in if copied < vb \<and> 0 < pb then
           (let cur = off + copied; page = page_floor pb cur; in_page = cur - page;
                k = min (vb - copied) (pb - in_page)
            in case bounce_page page hp of
                 None \<Rightarrow> None
               | Some b \<Rightarrow> map_option ((@) (mem_read in_page k b)) (bounce_copy off vb (copied + k) hp))
         else Some [])"
  by pat_completeness auto
termination
proof (relation "measure (\<lambda>(off, vb, copied, hp). vb - copied)", goal_cases)
  case (2 off vb copied hp pb cur page in_page k b)
  then have "in_page < pb" by (simp add: page_floor_diff_less)
  with 2 have "0 < k" and "copied < vb" by simp_all
  then show ?case by simp
qed auto

declare bounce_copy.simps [simp del]

definition copy_vec :: "nat \<Rightarrow> nat \<Rightarrow> 'd hide_pipe \<Rightarrow> byte list option" where
  "copy_vec off vb hp =
     (case hp_score hp of
        Score_vmem \<Rightarrow> Some (image_bytes (ssd_image (hp_pl hp)) off vb)
      | Score_bounce \<Rightarrow> bounce_copy off vb 0 hp
      | Score_window \<Rightarrow> fst (try_copy_resident off vb (hp_win hp)))"

section \<open>Releasing\<close>

definition release_tok :: "nat \<Rightarrow> 'd hide_pipe \<Rightarrow> 'd hide_pipe" where
  "release_tok tok hp =
     (if hp_use_window hp \<or> tok = 0 then hp
      else hp\<lparr>hp_slots := map (\<lambda>s. if hi_active s \<and> hi_tok s = tok then hide_clear s else s) (hp_slots hp)\<rparr>)"

definition owns_pages :: "nat list \<Rightarrow> hide_inflight \<Rightarrow> bool" where
  "owns_pages need s \<longleftrightarrow> hi_active s \<and> hi_pages s \<noteq> [] \<and> list_all (\<lambda>p. p \<in> set (hi_pages s)) need"

definition release_pages :: "nat list \<Rightarrow> 'd hide_pipe \<Rightarrow> 'd hide_pipe" where
  "release_pages need hp =
     (if hp_use_window hp \<or> need = [] then hp
      else hp\<lparr>hp_slots := map (\<lambda>s. if owns_pages need s then hide_clear s else s) (hp_slots hp)\<rparr>)"

section \<open>Pumping and waiting\<close>

definition set_slot :: "nat \<Rightarrow> hide_inflight \<times> dram_window \<Rightarrow> 'd hide_pipe \<Rightarrow> 'd hide_pipe" where
  "set_slot i st hp = hp\<lparr>hp_slots := (hp_slots hp)[i := fst st], hp_win := snd st\<rparr>"

definition pump_slot :: "nat \<Rightarrow> 'd hide_pipe \<Rightarrow> 'd hide_pipe" where
  "pump_slot i hp =
     (case hide_pump (hp_score hp) (slot hp i, hp_win hp) of (fl, w) \<Rightarrow>
        set_slot i (if hp_use_window hp \<and> hi_active fl \<and> length (hi_pages fl) \<le> hi_ready_n fl
                    then hide_clear fl else fl, w) hp)"

definition hp_pump :: "'d hide_pipe \<Rightarrow> 'd hide_pipe" where
  "hp_pump hp = fold pump_slot [0..<length (hp_slots hp)] hp"

text \<open>\<open>yld\<close> says what the workers do to the pipe while the thread yields.\<close>

definition wait_slot :: "('d hide_pipe \<Rightarrow> 'd hide_pipe) \<Rightarrow> nat \<Rightarrow> 'd hide_pipe \<Rightarrow> 'd hide_pipe option" where
  "wait_slot yld i hp =
     map_option (\<lambda>(fl, w, hp'). set_slot i (fl, w) hp')
       (hide_wait (hp_score hp)
          (\<lambda>(fl, w, hp'). let hp1 = yld (set_slot i (fl, w) hp') in (slot hp1 i, hp_win hp1, hp1))
          (slot hp i, hp_win hp, hp))"

fun wait_slots :: "('d hide_pipe \<Rightarrow> 'd hide_pipe) \<Rightarrow> nat list \<Rightarrow> 'd hide_pipe \<Rightarrow> 'd hide_pipe option" where
  "wait_slots yld [] hp = Some hp"
| "wait_slots yld (i # is) hp =
     (case wait_slot yld i hp of None \<Rightarrow> None | Some hp1 \<Rightarrow> wait_slots yld is hp1)"

definition wait_all :: "('d hide_pipe \<Rightarrow> 'd hide_pipe) \<Rightarrow> 'd hide_pipe \<Rightarrow> 'd hide_pipe option" where
  "wait_all yld hp = wait_slots yld [0..<length (hp_slots hp)] hp"

definition free_or_older :: "'d hide_pipe \<Rightarrow> nat" where
  "free_or_older hp =
     (if \<not> hi_active (slot hp 0) then 0
      else if \<not> hi_active (slot hp 1) then 1
      else if hi_ready_n (slot hp 0) \<le> hi_ready_n (slot hp 1) then 0 else 1)"

section \<open>Issuing\<close>

definition inflight_pages :: "'d hide_pipe \<Rightarrow> nat set" where
  "inflight_pages hp = (\<Union>s \<in> set (filter hi_active (hp_slots hp)). set (hi_pages s))"

definition issue_miss :: "nat list \<Rightarrow> 'd hide_pipe \<Rightarrow> nat list" where
  "issue_miss pages hp =
     filter (\<lambda>p. p \<notin> inflight_pages hp) (wanted_pages (hp_use_window hp) (hp_win hp) pages)"

definition free_slot :: "'d hide_pipe \<Rightarrow> nat option" where
  "free_slot hp = List.find (\<lambda>i. \<not> hi_active (slot hp i)) [0..<length (hp_slots hp)]"

text \<open>The stall of the bounce and vmem modes: pump and yield until a slot is free.\<close>

partial_function (option) stall_loop ::
  "('d hide_pipe \<Rightarrow> 'd hide_pipe) \<Rightarrow> 'd hide_pipe \<Rightarrow> (nat \<times> 'd hide_pipe) option" where
  [code]: "stall_loop yld hp =
     (let hp1 = hp_pump hp
      in case free_slot hp1 of
           Some i \<Rightarrow> Some (i, hp1)
         | None \<Rightarrow> stall_loop yld (yld hp1))"

definition fullest_slot :: "'d hide_pipe \<Rightarrow> nat" where
  "fullest_slot hp =
     fold (\<lambda>i best. if hi_ready_n (slot hp best) \<le> hi_ready_n (slot hp i) then i else best)
       [1..<length (hp_slots hp)] 0"

text \<open>\<open>None\<close>: never returns; \<open>Some (None, hp)\<close>: no slot.\<close>

definition take_slot ::
  "('d hide_pipe \<Rightarrow> 'd hide_pipe) \<Rightarrow> bool \<Rightarrow> 'd hide_pipe \<Rightarrow> (nat option \<times> 'd hide_pipe) option" where
  "take_slot yld stall hp =
     (case free_slot hp of
        Some i \<Rightarrow> Some (Some i, hp)
      | None \<Rightarrow>
          if \<not> stall then Some (None, hp)
          else if \<not> hp_use_window hp then map_option (\<lambda>(i, h). (Some i, h)) (stall_loop yld hp)
          else map_option (\<lambda>h. (Some (fullest_slot hp), h)) (wait_slot yld (fullest_slot hp) hp))"

definition issue_into :: "nat \<Rightarrow> nat list \<Rightarrow> nat \<Rightarrow> bool \<Rightarrow> 'd hide_pipe \<Rightarrow> nat \<times> 'd hide_pipe" where
  "issue_into i miss ttl lookahead hp =
     (case hide_issue (hp_heap hp (next_tok hp)) (hp_pl hp) miss ttl lookahead (hp_extent_run hp)
             (hp_use_window hp \<and> hp_direct_install hp) (hp_score hp = Score_vmem) (hp_use_window hp)
             (slot hp i, hp_win hp, hp_m hp) of
        ((fl, w, m), jobs) \<Rightarrow>
          let hp1 = hp\<lparr>last_miss_n := length miss, hp_win := w, hp_m := m,
                       last_issue_n := (if hi_active fl then length (hi_pages fl) else 0)\<rparr>
          in if hi_active fl
             then (next_tok hp,
                   hp1\<lparr>hp_slots := (hp_slots hp)[i := fl\<lparr>hi_tok := next_tok hp\<rparr>],
                       next_tok := next_tok hp + 1,
                       hp_jobs := hp_jobs hp @ map (\<lambda>(off, n). (i, next_tok hp, off, n)) jobs\<rparr>)
             else (0, hp1\<lparr>hp_slots := (hp_slots hp)[i := fl]\<rparr>))"

definition hp_issue ::
  "('d hide_pipe \<Rightarrow> 'd hide_pipe) \<Rightarrow> nat list \<Rightarrow> nat \<Rightarrow> bool \<Rightarrow> bool \<Rightarrow> 'd hide_pipe \<Rightarrow>
   (nat \<times> 'd hide_pipe) option" where
  "hp_issue yld pages ttl stall lookahead hp =
     (let hp0 = hp_pump hp; miss = issue_miss pages hp0
      in if miss = [] then Some (0, hp0)
         else case take_slot yld stall hp0 of
                None \<Rightarrow> None
              | Some (None, hp1) \<Rightarrow> Some (0, hp1)
              | Some (Some i, hp1) \<Rightarrow> Some (issue_into i (take 1024 miss) ttl lookahead hp1))"

text \<open>\<open>wait_covering\<close>; the second result is \<open>extra_toks\<close>.\<close>

partial_function (option) cover_loop ::
  "('d hide_pipe \<Rightarrow> 'd hide_pipe) \<Rightarrow> nat list \<Rightarrow> nat list \<Rightarrow> 'd hide_pipe \<Rightarrow> (nat list \<times> 'd hide_pipe) option" where
  [code]: "cover_loop yld need toks hp =
     (let hp1 = hp_pump hp;
          left = filter (\<lambda>p. \<not> hp_covers p hp1) need;
          orphans = filter (\<lambda>p. \<not> page_in_slot p hp1) left
      in if left = [] then Some (toks, hp1)
         else if \<not> hp_use_window hp1 \<and> orphans \<noteq> [] then
           (case hp_issue yld orphans 128 True False hp1 of
              None \<Rightarrow> None
            | Some (t, hp2) \<Rightarrow> cover_loop yld left (if t = 0 then toks else toks @ [t]) hp2)
         else if active_slots hp1 = 0 then Some (toks, hp1)
         else cover_loop yld left toks (yld hp1))"

definition wait_covering ::
  "('d hide_pipe \<Rightarrow> 'd hide_pipe) \<Rightarrow> nat list \<Rightarrow> 'd hide_pipe \<Rightarrow> (nat list \<times> 'd hide_pipe) option" where
  "wait_covering yld need hp =
     (if need = [] then Some ([], hp)
      else map_option (\<lambda>(toks, h). (toks, hp_pump h)) (cover_loop yld (dedup need) [] hp))"

section \<open>The workers\<close>

text \<open>Job \<open>k\<close> of the queue runs; it is undefined when its slot has been given up meanwhile.\<close>

definition job_live :: "nat \<times> nat \<times> nat \<times> nat \<Rightarrow> 'd hide_pipe \<Rightarrow> bool" where
  "job_live job hp \<longleftrightarrow> (case job of (i, tok, off, n) \<Rightarrow>
     i < length (hp_slots hp) \<and> hi_active (slot hp i) \<and> hi_tok (slot hp i) = tok)"

definition run_pipe_job :: "'d driver \<Rightarrow> nat \<Rightarrow> 'd hide_pipe \<Rightarrow> 'd hide_pipe option" where
  "run_pipe_job drv k hp =
     (case hp_jobs hp ! k of (i, tok, off, n) \<Rightarrow>
        if \<not> job_live (hp_jobs hp ! k) hp then None
        else case run_job drv (hp_vio hp) (hp_pl hp) (hp_score hp = Score_vmem) (off, n)
                    (slot hp i, hp_win hp, hp_dev hp) of
               (fl, w, d) \<Rightarrow>
                 Some ((set_slot i (fl, w) hp)\<lparr>hp_dev := d,
                         hp_jobs := take k (hp_jobs hp) @ drop (Suc k) (hp_jobs hp)\<rparr>))"

end
