(* ===== verification/Hide_Bounce.thy ===== *)
theory Hide_Bounce
  imports Hide_Pipe Window_Ops
begin

text \<open>
  The bounce mode of \<open>HidePipe\<close>: the invariant that a ready page of a slab holds the bytes of
  the image and that no page is in two places, kept by pumping, issuing, releasing and by the
  workers, and what a covered vector then reads.
\<close>

section \<open>Invariant\<close>

definition slot_pages :: "hide_inflight \<Rightarrow> nat list" where
  "slot_pages s = (if hi_active s then hi_pages s else [])"

definition pages_apart :: "hide_inflight list \<Rightarrow> bool" where
  "pages_apart ss \<longleftrightarrow> distinct (concat (map slot_pages ss))"

definition slot_good :: "(nat \<Rightarrow> byte) \<Rightarrow> nat \<Rightarrow> hide_inflight \<Rightarrow> bool" where
  "slot_good ssd pb s \<longleftrightarrow> (hi_active s \<longrightarrow>
     (\<exists>r h. hi_ready s = Some r \<and> length r = length (hi_pages s) \<and>
        hi_host s = Some h \<and> length h = length (hi_pages s) \<and> hi_host_n s = length (hi_pages s) \<and>
        \<not> hi_direct s \<and>
        (\<forall>i < length r. r ! i \<longrightarrow> h ! i = image_bytes ssd (hi_pages s ! i) pb)))"

definition job_fits :: "'d hide_pipe \<Rightarrow> nat \<times> nat \<times> nat \<times> nat \<Rightarrow> bool" where
  "job_fits hp job \<longleftrightarrow> (case job of (i, tok, off, n) \<Rightarrow>
     0 < tok \<and> tok < next_tok hp \<and> n \<le> 32 \<and> (job_live job hp \<longrightarrow> off + n \<le> length (hi_pages (slot hp i))))"

definition bounce_inv :: "'d hide_pipe \<Rightarrow> bool" where
  "bounce_inv hp \<longleftrightarrow>
     hp_score hp = Score_bounce \<and> \<not> hp_extent_run hp \<and> pow2 (page_bytes (hp_win hp)) \<and> 0 < next_tok hp \<and>
     list_all (slot_good (ssd_image (hp_pl hp)) (page_bytes (hp_win hp))) (hp_slots hp) \<and>
     pages_apart (hp_slots hp) \<and> list_all (job_fits hp) (hp_jobs hp)"

section \<open>Lists of lists\<close>

lemma distinct_concat_nth:
  assumes "distinct (concat xss)" and "a < length xss" and "c < length xss"
    and "i < length (xss ! a)" and "j < length (xss ! c)" and "xss ! a ! i = xss ! c ! j"
  shows "a = c \<and> i = j"
  using assms
proof (induction xss arbitrary: a c)
  case (Cons xs xss)
  have "xss ! k ! l \<in> set (concat xss)" if "k < length xss" "l < length (xss ! k)" for k l
    using that by (auto intro!: bexI [of _ "xss ! k"])
  then have out: "xss ! k ! l \<notin> set xs" if "k < length xss" "l < length (xss ! k)" for k l
    using that Cons.prems(1) by (metis concat.simps(2) disjoint_iff distinct_append)
  consider "a = 0" "c = 0" | c' where "a = 0" "c = Suc c'" | a' where "a = Suc a'" "c = 0"
    | a' c' where "a = Suc a'" "c = Suc c'" by (cases a; cases c) auto
  then show ?case
  proof cases
    case 1
    then show ?thesis using Cons.prems by (simp add: nth_eq_iff_index_eq)
  next
    case 2
    then have "xs ! i \<notin> set xs" using Cons.prems out [of c' j] by simp
    moreover have "xs ! i \<in> set xs" using 2 Cons.prems(4) by (intro nth_mem) simp
    ultimately show ?thesis by blast
  next
    case 3
    then have "xs ! j \<notin> set xs" using Cons.prems out [of a' i] by simp
    moreover have "xs ! j \<in> set xs" using 3 Cons.prems(5) by (intro nth_mem) simp
    ultimately show ?thesis by blast
  next
    case 4
    then show ?thesis using Cons.prems Cons.IH [of a' c'] by simp
  qed
qed simp

lemma concat_update_nil:
  assumes "i < length xss" and "xss ! i = []" and "distinct (concat xss)"
    and "distinct ys" and "set ys \<inter> set (concat xss) = {}"
  shows "distinct (concat (xss[i := ys]))"
  using assms
proof (induction xss arbitrary: i)
  case (Cons xs xss)
  then show ?case
  proof (cases i)
    case (Suc i')
    have "set (concat (xss[i' := ys])) \<subseteq> set ys \<union> set (concat xss)"
      using set_update_subset_insert [of xss i' ys] by auto
    with Suc Cons show ?thesis by auto blast+
  qed auto
qed simp

lemma concat_shrink:
  assumes "list_all2 (\<lambda>xs ys. ys = xs \<or> ys = []) xss yss" and "distinct (concat xss)"
  shows "distinct (concat yss) \<and> set (concat yss) \<subseteq> set (concat xss)"
  using assms by (induction rule: list_all2_induct) auto

lemma dedup_distinct: "distinct xs \<Longrightarrow> dedup xs = xs"
proof -
  have "distinct xs \<Longrightarrow> set xs \<inter> seen = {} \<Longrightarrow> fst (fold push_new xs (out, seen)) = out @ xs" for out seen
    by (induction xs arbitrary: out seen) (auto simp: push_new_simp)
  then show "distinct xs \<Longrightarrow> dedup xs = xs" by (simp add: dedup_def)
qed

section \<open>What pumping changes\<close>

definition same_slot :: "hide_inflight \<Rightarrow> hide_inflight \<Rightarrow> bool" where
  "same_slot s t \<longleftrightarrow> t = s\<lparr>hi_consumed := hi_consumed t, hi_ready_n := hi_ready_n t\<rparr>"

lemma same_slot_refl [simp]: "same_slot s s"
  by (simp add: same_slot_def)

lemma same_slot_fields:
  assumes "same_slot s t"
  shows "hi_pages t = hi_pages s" "hi_host t = hi_host s" "hi_host_n t = hi_host_n s"
    "hi_ready t = hi_ready s" "hi_active t = hi_active s" "hi_direct t = hi_direct s" "hi_tok t = hi_tok s"
proof -
  obtain c n where "t = s\<lparr>hi_consumed := c, hi_ready_n := n\<rparr>" using assms unfolding same_slot_def by blast
  then show "hi_pages t = hi_pages s" "hi_host t = hi_host s" "hi_host_n t = hi_host_n s"
    "hi_ready t = hi_ready s" "hi_active t = hi_active s" "hi_direct t = hi_direct s" "hi_tok t = hi_tok s"
    by simp_all
qed

lemma pump_mark_same: "same_slot s (pump_mark i s)"
  by (simp add: same_slot_def pump_mark_def consume_def count_ready_def)

lemma same_slot_trans: "same_slot s t \<Longrightarrow> same_slot t u \<Longrightarrow> same_slot s u"
  unfolding same_slot_def by (cases s, cases t, cases u) simp

lemma fold_pump_mark_same: "same_slot s (fold pump_mark is s)"
  by (induction "is" arbitrary: s) (auto intro: same_slot_trans pump_mark_same)

definition same_pipe :: "'d hide_pipe \<Rightarrow> 'd hide_pipe \<Rightarrow> bool" where
  "same_pipe hp hp' \<longleftrightarrow> hp' = hp\<lparr>hp_slots := hp_slots hp'\<rparr> \<and> list_all2 same_slot (hp_slots hp) (hp_slots hp')"

lemma same_pipe_refl [simp]: "same_pipe hp hp"
  by (simp add: same_pipe_def list_all2_refl)

lemma same_pipe_trans: "same_pipe a b \<Longrightarrow> same_pipe b c \<Longrightarrow> same_pipe a c"
proof -
  assume ab: "same_pipe a b" and bc: "same_pipe b c"
  have "list_all2 same_slot (hp_slots a) (hp_slots c)"
    using ab bc same_slot_trans unfolding same_pipe_def by (blast intro: list_all2_trans)
  moreover have "c = a\<lparr>hp_slots := hp_slots c\<rparr>"
    using ab bc unfolding same_pipe_def by (cases a, cases b, cases c) simp
  ultimately show ?thesis by (simp add: same_pipe_def)
qed

lemma same_pipe_frame:
  assumes "same_pipe hp hp'"
  shows "hp_win hp' = hp_win hp" "hp_pl hp' = hp_pl hp" "hp_vio hp' = hp_vio hp" "hp_m hp' = hp_m hp"
    "hp_extent_run hp' = hp_extent_run hp" "hp_score hp' = hp_score hp" "next_tok hp' = next_tok hp"
    "hp_jobs hp' = hp_jobs hp" "hp_dev hp' = hp_dev hp" "length (hp_slots hp') = length (hp_slots hp)"
    "hp_direct_install hp' = hp_direct_install hp"
proof -
  obtain ss where "hp' = hp\<lparr>hp_slots := ss\<rparr>" "list_all2 same_slot (hp_slots hp) ss"
    using assms unfolding same_pipe_def by metis
  then show "hp_win hp' = hp_win hp" "hp_pl hp' = hp_pl hp" "hp_vio hp' = hp_vio hp" "hp_m hp' = hp_m hp"
    "hp_extent_run hp' = hp_extent_run hp" "hp_score hp' = hp_score hp" "next_tok hp' = next_tok hp"
    "hp_jobs hp' = hp_jobs hp" "hp_dev hp' = hp_dev hp" "length (hp_slots hp') = length (hp_slots hp)"
    "hp_direct_install hp' = hp_direct_install hp"
    by (simp_all add: list_all2_lengthD)
qed

lemma same_pipe_slot:
  assumes "same_pipe hp hp'" and "i < length (hp_slots hp)"
  shows "same_slot (slot hp i) (slot hp' i)"
  using assms by (simp add: same_pipe_def list_all2_nthD)

lemma pump_slot_same:
  assumes "hp_score hp \<noteq> Score_window" and "i < length (hp_slots hp)"
  shows "same_pipe hp (pump_slot i hp)"
proof -
  define fl where "fl = (if hi_active (slot hp i) then fold pump_mark [0..<length (hi_pages (slot hp i))] (slot hp i) else slot hp i)"
  have "hide_pump (hp_score hp) (slot hp i, hp_win hp) = (fl, hp_win hp)"
    using assms(1) by (simp add: hide_pump_def fl_def Let_def)
  then have e: "pump_slot i hp = hp\<lparr>hp_slots := (hp_slots hp)[i := fl]\<rparr>"
    using assms(1) by (simp add: pump_slot_def set_slot_def hp_use_window_def)
  have "same_slot (slot hp i) fl" by (simp add: fl_def fold_pump_mark_same)
  then have "list_all2 same_slot (hp_slots hp) ((hp_slots hp)[i := fl])"
    using assms(2) by (auto simp: list_all2_conv_all_nth nth_list_update)
  then show ?thesis by (simp add: same_pipe_def e)
qed

lemma hp_pump_same: "hp_score hp \<noteq> Score_window \<Longrightarrow> same_pipe hp (hp_pump hp)"
proof -
  have "hp_score hp \<noteq> Score_window \<Longrightarrow> list_all (\<lambda>i. i < length (hp_slots hp)) is \<Longrightarrow>
    same_pipe hp (fold pump_slot is hp)" for "is"
  proof (induction "is" arbitrary: hp)
    case (Cons i "is")
    have s: "same_pipe hp (pump_slot i hp)" using Cons.prems by (auto intro: pump_slot_same)
    note f = same_pipe_frame [OF s]
    have "same_pipe (pump_slot i hp) (fold pump_slot is (pump_slot i hp))"
      using Cons.prems f by (intro Cons.IH) simp_all
    with s show ?case using same_pipe_trans by simp blast
  qed simp
  then show "hp_score hp \<noteq> Score_window \<Longrightarrow> same_pipe hp (hp_pump hp)"
    by (simp add: hp_pump_def list_all_iff)
qed

section \<open>Pumping and releasing keep the invariant\<close>

lemma same_slot_good: "same_slot s t \<Longrightarrow> slot_good ssd pb s \<Longrightarrow> slot_good ssd pb t"
  by (simp add: slot_good_def same_slot_fields)

lemma same_pipe_pages:
  assumes "same_pipe hp hp'"
  shows "map slot_pages (hp_slots hp') = map slot_pages (hp_slots hp)"
  using assms by (auto simp: same_pipe_def list_all2_conv_all_nth slot_pages_def same_slot_fields
      intro!: nth_equalityI)

lemma same_pipe_live: "same_pipe hp hp' \<Longrightarrow> job_live job hp' = job_live job hp"
  by (cases job) (auto simp: job_live_def same_pipe_frame(10) same_slot_fields [OF same_pipe_slot])

lemma same_pipe_inv:
  assumes "same_pipe hp hp'" and "bounce_inv hp"
  shows "bounce_inv hp'"
proof -
  have "slot_good ssd pb (slot hp' i)" if "i < length (hp_slots hp)" "slot_good ssd pb (slot hp i)" for i ssd pb
    using that same_slot_good [OF same_pipe_slot [OF assms(1) that(1)]] by blast
  moreover have "job_fits hp' job = job_fits hp job" for job
    by (cases job) (auto simp: job_fits_def job_live_def same_pipe_frame [OF assms(1)]
        same_slot_fields [OF same_pipe_slot [OF assms(1)]])
  ultimately show ?thesis
    using assms(2) by (simp add: bounce_inv_def same_pipe_frame [OF assms(1)] pages_apart_def
        same_pipe_pages [OF assms(1)] list_all_length)
qed

text \<open>Giving up slots.\<close>

lemma hide_clear_fields [simp]:
  "hi_active (hide_clear s) = False" "hi_tok (hide_clear s) = 0" "slot_pages (hide_clear s) = []"
  "slot_good ssd pb (hide_clear s)"
  by (simp_all add: hide_clear_def slot_pages_def slot_good_def)

definition some_cleared :: "'d hide_pipe \<Rightarrow> 'd hide_pipe \<Rightarrow> bool" where
  "some_cleared hp hp' \<longleftrightarrow> hp' = hp\<lparr>hp_slots := hp_slots hp'\<rparr> \<and>
     list_all2 (\<lambda>s t. t = s \<or> t = hide_clear s) (hp_slots hp) (hp_slots hp')"

lemma some_cleared_inv:
  assumes "some_cleared hp hp'" and "bounce_inv hp"
  shows "bounce_inv hp'"
proof -
  obtain ss where ss: "hp' = hp\<lparr>hp_slots := ss\<rparr>"
    and a: "list_all2 (\<lambda>s t. t = s \<or> t = hide_clear s) (hp_slots hp) ss"
    using assms(1) unfolding some_cleared_def by blast
  have n: "ss ! i = slot hp i \<or> ss ! i = hide_clear (slot hp i)" if "i < length (hp_slots hp)" for i
    using a that by (simp add: list_all2_conv_all_nth)
  have l: "length ss = length (hp_slots hp)" using a by (simp add: list_all2_lengthD)
  have "list_all2 (\<lambda>xs ys. ys = xs \<or> ys = []) (map slot_pages (hp_slots hp)) (map slot_pages ss)"
    using n l by (fastforce simp: list_all2_conv_all_nth)
  then have "pages_apart ss" using assms(2) concat_shrink by (auto simp: pages_apart_def bounce_inv_def)
  moreover have "slot_good ssd pb (ss ! i)" if "i < length ss" "slot_good ssd pb (slot hp i)" for i ssd pb
    using n [of i] that l by auto
  moreover have "job_fits hp' job" if "job_fits hp job" for job
    using that n l by (cases job) (fastforce simp: job_fits_def job_live_def ss)
  ultimately show ?thesis using assms(2) l by (simp add: bounce_inv_def ss list_all_length)
qed

lemma release_tok_inv: "bounce_inv hp \<Longrightarrow> bounce_inv (release_tok tok hp)"
  by (rule some_cleared_inv [of hp])
    (auto simp: some_cleared_def release_tok_def list_all2_conv_all_nth)

lemma release_pages_inv: "bounce_inv hp \<Longrightarrow> bounce_inv (release_pages need hp)"
  by (rule some_cleared_inv [of hp])
    (auto simp: some_cleared_def release_pages_def list_all2_conv_all_nth)

lemma bounce_score: "bounce_inv hp \<Longrightarrow> hp_score hp = Score_bounce" "bounce_inv hp \<Longrightarrow> \<not> hp_use_window hp"
  by (simp_all add: bounce_inv_def hp_use_window_def)

lemma hp_pump_inv: "bounce_inv hp \<Longrightarrow> bounce_inv (hp_pump hp)"
  using same_pipe_inv hp_pump_same by (metis bounce_score(1) hide_score.distinct(1))

section \<open>Issuing keeps the invariant\<close>

lemma wanted_pages_distinct [simp]: "distinct (wanted_pages u w ps)"
  by (simp add: wanted_pages_def)

lemma wanted_pages_False [simp]: "wanted_pages False w ps = dedup ps"
  by (simp add: wanted_pages_def)

lemma set_inflight: "inflight_pages hp = set (concat (map slot_pages (hp_slots hp)))"
  by (auto simp: inflight_pages_def slot_pages_def split: if_splits)

lemma issue_miss_facts: "distinct (issue_miss pages hp)" "set (issue_miss pages hp) \<inter> inflight_pages hp = {}"
  "set (issue_miss pages hp) \<subseteq> set pages"
  by (auto simp: issue_miss_def wanted_pages_def)

lemma chunk_jobs_fit: "(off, k) \<in> set (chunk_jobs n) \<Longrightarrow> k \<le> 32 \<and> 0 < k \<and> off + k \<le> n"
  by (auto simp: chunk_jobs_def)

text \<open>The slot of a bounce issue.\<close>

definition bounce_slot :: "(nat \<Rightarrow> byte) \<Rightarrow> nat list \<Rightarrow> nat \<Rightarrow> nat \<Rightarrow> hide_inflight \<Rightarrow> hide_inflight" where
  "bounce_slot heap miss pb ttl fl = hide_start ttl
     (hide_clear fl\<lparr>hi_direct := False, hi_pages := miss, hi_host_n := length miss, hi_host_pb := pb,
        hi_host := Some (fresh_slab heap (length miss) pb)\<rparr>)"

lemma bounce_slot_fields [simp]:
  "hi_active (bounce_slot heap miss pb ttl fl)" "hi_pages (bounce_slot heap miss pb ttl fl) = miss"
  "hi_tok (bounce_slot heap miss pb ttl fl) = 0"
  by (simp_all add: bounce_slot_def hide_start_def hide_clear_def)

lemma bounce_slot_good [simp]: "slot_good ssd pb ((bounce_slot heap miss pb ttl fl)\<lparr>hi_tok := t\<rparr>)"
  by (auto simp: slot_good_def bounce_slot_def hide_start_def hide_clear_def fresh_slab_def)

lemma hide_issue_bounce:
  assumes "distinct miss" and "miss \<noteq> []"
  shows "\<exists>m'. hide_issue heap p miss ttl look False False False False (fl, w, m) =
    ((bounce_slot heap miss (page_bytes w) ttl fl, w, m'), chunk_jobs (length miss))"
  using assms by (simp add: hide_issue_def hide_miss_def dedup_distinct bounce_slot_def Let_def)

lemma issue_into_bounce:
  assumes b: "bounce_inv hp" and d: "distinct miss" "miss \<noteq> []"
  obtains m' where "issue_into i miss ttl look hp = (next_tok hp,
    hp\<lparr>last_miss_n := length miss, hp_m := m', last_issue_n := length miss,
       hp_slots := (hp_slots hp)[i := (bounce_slot (hp_heap hp (next_tok hp)) miss (page_bytes (hp_win hp)) ttl (slot hp i))\<lparr>hi_tok := next_tok hp\<rparr>],
       next_tok := next_tok hp + 1,
       hp_jobs := hp_jobs hp @ map (\<lambda>(off, n). (i, next_tok hp, off, n)) (chunk_jobs (length miss))\<rparr>)"
proof -
  have u: "hp_use_window hp = False" "hp_extent_run hp = False" "(hp_score hp = Score_vmem) = False"
    using b by (auto simp: bounce_inv_def hp_use_window_def)
  obtain m' where m': "hide_issue (hp_heap hp (next_tok hp)) (hp_pl hp) miss ttl look False False False False (slot hp i, hp_win hp, hp_m hp) =
    ((bounce_slot (hp_heap hp (next_tok hp)) miss (page_bytes (hp_win hp)) ttl (slot hp i), hp_win hp, m'), chunk_jobs (length miss))"
    using hide_issue_bounce [OF d] by blast
  show ?thesis
    by (rule that [of m']) (simp add: issue_into_def u m' Let_def)
qed

lemma issue_into_inv:
  assumes b: "bounce_inv hp" and d: "distinct miss" "miss \<noteq> []" and out: "set miss \<inter> inflight_pages hp = {}"
    and i: "i < length (hp_slots hp)" "\<not> hi_active (slot hp i)"
  shows "bounce_inv (snd (issue_into i miss ttl look hp))"
proof -
  define s' where "s' = (bounce_slot (hp_heap hp (next_tok hp)) miss (page_bytes (hp_win hp)) ttl (slot hp i))\<lparr>hi_tok := next_tok hp\<rparr>"
  obtain m' where e: "issue_into i miss ttl look hp = (next_tok hp,
    hp\<lparr>last_miss_n := length miss, hp_m := m', last_issue_n := length miss,
       hp_slots := (hp_slots hp)[i := s'], next_tok := next_tok hp + 1,
       hp_jobs := hp_jobs hp @ map (\<lambda>(off, n). (i, next_tok hp, off, n)) (chunk_jobs (length miss))\<rparr>)"
    unfolding s'_def using issue_into_bounce [OF b d] .
  have s': "hi_active s'" "hi_pages s' = miss" "hi_tok s' = next_tok hp" "slot_good ssd (page_bytes (hp_win hp)) s'" for ssd
    by (simp_all add: s'_def)
  have "slot_pages (slot hp i) = []" using i by (simp add: slot_pages_def)
  moreover have "slot_pages s' = miss" using s' by (simp add: slot_pages_def)
  ultimately have "pages_apart ((hp_slots hp)[i := s'])"
    using concat_update_nil [of i "map slot_pages (hp_slots hp)" miss] b d i out
    by (simp add: pages_apart_def bounce_inv_def set_inflight map_update)
  moreover have "list_all (slot_good (ssd_image (hp_pl hp)) (page_bytes (hp_win hp))) ((hp_slots hp)[i := s'])"
    using b s'(4) i by (simp add: bounce_inv_def list_all_length nth_list_update)
  moreover have "job_fits (snd (issue_into i miss ttl look hp)) job" if "job_fits hp job" for job
  proof -
    obtain a tk c k where job: "job = (a, tk, c, k)" by (cases job)
    show ?thesis
    proof (cases "a = i")
      case True
      then show ?thesis using that s' i by (auto simp: e job job_fits_def job_live_def)
    next
      case False
      then show ?thesis using that by (auto simp: e job job_fits_def job_live_def)
    qed
  qed
  moreover have "job_fits (snd (issue_into i miss ttl look hp)) (i, next_tok hp, off, n)"
    if "(off, n) \<in> set (chunk_jobs (length miss))" for off n
    using chunk_jobs_fit [OF that] s' i b by (auto simp: e job_fits_def job_live_def bounce_inv_def)
  ultimately show ?thesis using b by (auto simp: bounce_inv_def e list_all_iff)
qed

lemma free_slot_Some: "free_slot hp = Some i \<Longrightarrow> i < length (hp_slots hp) \<and> \<not> hi_active (slot hp i)"
  by (auto simp: free_slot_def find_Some_iff)

lemma free_slot_None: "free_slot hp = None \<Longrightarrow> i < length (hp_slots hp) \<Longrightarrow> hi_active (slot hp i)"
  by (auto simp: free_slot_def find_None_iff)

lemma hp_issue_cases:
  assumes "bounce_inv hp" and "hp_issue yld pages ttl False look hp = Some (t, hp')"
  obtains "hp' = hp_pump hp" "t = 0" "issue_miss pages (hp_pump hp) = [] \<or> free_slot (hp_pump hp) = None"
  | i miss where "free_slot (hp_pump hp) = Some i" "miss = take 1024 (issue_miss pages (hp_pump hp))"
    "(t, hp') = issue_into i miss ttl look (hp_pump hp)"
    "distinct miss" "miss \<noteq> []" "set miss \<inter> inflight_pages (hp_pump hp) = {}"
proof (cases "issue_miss pages (hp_pump hp) = [] \<or> free_slot (hp_pump hp) = None")
  case True
  then have "hp' = hp_pump hp \<and> t = 0" using assms(2)
    by (auto simp: hp_issue_def take_slot_def Let_def split: if_splits)
  then show ?thesis using True that(1) by blast
next
  case False
  then obtain i where i: "free_slot (hp_pump hp) = Some i" by blast
  have "(t, hp') = issue_into i (take 1024 (issue_miss pages (hp_pump hp))) ttl look (hp_pump hp)"
    using False assms(2) i by (auto simp: hp_issue_def take_slot_def Let_def)
  moreover have "set (take 1024 (issue_miss pages (hp_pump hp))) \<inter> inflight_pages (hp_pump hp) = {}"
    using issue_miss_facts(2) [of pages "hp_pump hp"] set_take_subset [of 1024 "issue_miss pages (hp_pump hp)"] by auto
  ultimately show ?thesis using that(2) [OF i refl] False by (simp add: issue_miss_facts)
qed

lemma hp_issue_inv:
  assumes "bounce_inv hp" and "hp_issue yld pages ttl False look hp = Some (t, hp')"
  shows "bounce_inv hp'"
  using assms
proof (cases rule: hp_issue_cases)
  case 1
  then show ?thesis using hp_pump_inv [OF assms(1)] by simp
next
  case (2 i miss)
  then have "hp' = snd (issue_into i miss ttl look (hp_pump hp))" by (metis snd_conv)
  then show ?thesis
    using issue_into_inv [OF hp_pump_inv [OF assms(1)] 2(4-6)] free_slot_Some [OF 2(1)] by simp
qed

section \<open>A worker keeps the invariant\<close>

text \<open>The read request of the driver, when it succeeds, delivers the bytes of the image.\<close>

definition driver_reads :: "'d driver \<Rightarrow> vmem_io option \<Rightarrow> (nat \<Rightarrow> byte) \<Rightarrow> nat \<Rightarrow> bool" where
  "driver_reads drv vio ssd pb \<longleftrightarrow> (\<forall>io b mem d. vio = Some io \<and> distinct (map snd b) \<and> fst (fst drv b (mem, d)) \<longrightarrow>
     (\<forall>(a, j) \<in> set b. fst (snd (fst drv b (mem, d))) j = image_bytes ssd (a - image_off io) pb))"

lemma driver_readsD:
  assumes "driver_reads drv vio ssd pb" and "vio = Some io" and "distinct (map snd b)"
    and "fst drv b (mem, d) = (True, mem1, d1)" and "(a, j) \<in> set b"
  shows "mem1 j = image_bytes ssd (a - image_off io) pb"
proof -
  have "\<forall>(a, j) \<in> set b. fst (snd (fst drv b (mem, d))) j = image_bytes ssd (a - image_off io) pb"
    using assms(1-4) unfolding driver_reads_def by (metis fst_conv)
  then show ?thesis using assms(4,5) by auto
qed

lemma vmem_read_one:
  assumes "ps \<noteq> []" and "length ps \<le> 32" and "vio_fd io \<noteq> None"
  shows "vmem_read_pages call io ps d =
    (if \<not> vio_prefetch io then (Some 0, d)
     else case call (batch_of io ps) d of (ok, d1) \<Rightarrow> (if ok then Some (length ps) else None, d1))"
  using assms by (auto simp: vmem_read_pages_def issue_loop.simps [of call io ps] batch_of_def
      VMEM_BATCH_MAX_def issue_loop.simps split: prod.split)

lemma job_read_image:
  assumes drv: "driver_reads drv vio (ssd_image p) pb" and n: "length offs \<le> 32" and i: "i < length offs"
  shows "fst (job_read drv vio p pb offs mem d) i = image_bytes (ssd_image p) (offs ! i) pb"
proof (cases "\<exists>io. vio = Some io \<and> vio_fd io \<noteq> None \<and> vio_prefetch io")
  case False
  show ?thesis
  proof (cases vio)
    case (Some io)
    then show ?thesis using False i by (auto simp: job_read_def vmem_read_pages_def)
  qed (use i in \<open>simp add: job_read_def\<close>)
next
  case True
  then obtain io where io: "vio = Some io" "vio_fd io \<noteq> None" "vio_prefetch io" by blast
  define ps where "ps = zip offs [0..<length offs]"
  have z: "ps \<noteq> []" "length ps \<le> 32" using i n by (auto simp: ps_def)
  obtain ok mem1 d1 where c: "fst drv (batch_of io ps) (mem, d) = (ok, mem1, d1)"
    by (cases "fst drv (batch_of io ps) (mem, d)") auto
  have b: "batch_of io ps = map (\<lambda>(off, j). (image_off io + off, j)) ps"
    using z by (simp add: batch_of_def VMEM_BATCH_MAX_def)
  show ?thesis
  proof (cases ok)
    case False
    then show ?thesis using io i c vmem_read_one [OF z io(2), of "fst drv" "(mem, d)"]
      by (simp add: job_read_def ps_def)
  next
    case True
    have "map snd (batch_of io ps) = [0..<length offs]"
      by (rule nth_equalityI) (simp_all add: b, simp_all add: ps_def)
    moreover have "(image_off io + offs ! i, i) \<in> set (batch_of io ps)"
      unfolding b set_map using i by (intro rev_image_eqI [of "(offs ! i, i)"]) (auto simp: ps_def set_zip)
    ultimately have "mem1 i = image_bytes (ssd_image p) (offs ! i) pb"
      using driver_readsD [OF drv io(1), of "batch_of io ps" mem d mem1 d1 "image_off io + offs ! i" i] c True
      by simp
    then show ?thesis using io i c True vmem_read_one [OF z io(2), of "fst drv" "(mem, d)"] z
      by (simp add: job_read_def ps_def)
  qed
qed

lemma fold_set_at:
  "length (fold (\<lambda>i h. h[off + i := f i]) [0..<n] h) = length h"
  "k < length h \<Longrightarrow> fold (\<lambda>i h. h[off + i := f i]) [0..<n] h ! k =
     (if off \<le> k \<and> k < off + n then f (k - off) else h ! k)"
proof -
  show l: "length (fold (\<lambda>i h. h[off + i := f i]) [0..<n] h) = length h" for n
    by (induction n) simp_all
  show "k < length h \<Longrightarrow> fold (\<lambda>i h. h[off + i := f i]) [0..<n] h ! k =
     (if off \<le> k \<and> k < off + n then f (k - off) else h ! k)"
    by (induction n) (auto simp: nth_list_update l less_Suc_eq)
qed

lemma fold_set_True:
  "length (fold (\<lambda>i r. r[i := True]) [off..<off + n] r) = length r"
  "k < length r \<Longrightarrow> fold (\<lambda>i r. r[i := True]) [off..<off + n] r ! k \<longleftrightarrow> (off \<le> k \<and> k < off + n) \<or> r ! k"
proof -
  show l: "length (fold (\<lambda>i r. r[i := True]) [off..<off + n] r) = length r" for n
    by (induction n) simp_all
  show "k < length r \<Longrightarrow> fold (\<lambda>i r. r[i := True]) [off..<off + n] r ! k \<longleftrightarrow> (off \<le> k \<and> k < off + n) \<or> r ! k"
  proof (induction n)
    case (Suc n)
    then show ?case by (cases "k = off + n") (auto simp: nth_list_update l)
  qed auto
qed

text \<open>A job in bounce mode: the window is left alone, the slot stays good.\<close>

lemma run_job_bounce:
  assumes g: "slot_good (ssd_image p) (page_bytes w) fl" and a: "hi_active fl"
    and fit: "off + n \<le> length (hi_pages fl)" "n \<le> 32"
    and drv: "driver_reads drv vio (ssd_image p) (page_bytes w)"
  obtains fl' d' where "run_job drv vio p False (off, n) (fl, w, d) = (fl', w, d')"
    and "slot_good (ssd_image p) (page_bytes w) fl'"
    and "hi_active fl'" "hi_pages fl' = hi_pages fl" "hi_tok fl' = hi_tok fl"
    and "\<And>i. i < length (hi_pages fl) \<Longrightarrow> ready_at fl' i \<longleftrightarrow> (off \<le> i \<and> i < off + n) \<or> ready_at fl i"
proof -
  obtain r h where rh: "hi_ready fl = Some r" "length r = length (hi_pages fl)" "hi_host fl = Some h"
    "length h = length (hi_pages fl)" "hi_host_n fl = length (hi_pages fl)" "\<not> hi_direct fl"
    and ok: "\<And>i. i < length r \<Longrightarrow> r ! i \<Longrightarrow> h ! i = image_bytes (ssd_image p) (hi_pages fl ! i) (page_bytes w)"
    using g a by (auto simp: slot_good_def)
  define offs where "offs = take n (drop off (hi_pages fl))"
  have lo: "length offs = n" using fit by (simp add: offs_def)
  obtain mem d' where m: "job_read drv vio p (page_bytes w) offs (\<lambda>i. h ! (off + i)) d = (mem, d')"
    by (cases "job_read drv vio p (page_bytes w) offs (\<lambda>i. h ! (off + i)) d")
  have mi: "mem i = image_bytes (ssd_image p) (hi_pages fl ! (off + i)) (page_bytes w)" if "i < n" for i
    using job_read_image [OF drv, of offs i "\<lambda>i. h ! (off + i)" d] that fit lo m by (simp add: offs_def)
  define r' where "r' = fold (\<lambda>i r. r[i := True]) [off..<off + n] r"
  define h' where "h' = fold (\<lambda>i h. h[off + i := mem i]) [0..<n] h"
  define fl' where "fl' = fl\<lparr>hi_host := Some h', hi_ready := Some r'\<rparr>"
  have e: "run_job drv vio p False (off, n) (fl, w, d) = (fl', w, d')"
    using rh m by (simp add: run_job_def offs_def set_ready_def fl'_def h'_def r'_def)
  have len: "length r' = length r" "length h' = length h"
    by (simp_all add: r'_def h'_def fold_set_True fold_set_at)
  have "h' ! i = image_bytes (ssd_image p) (hi_pages fl ! i) (page_bytes w)" if "i < length r" "r' ! i" for i
  proof (cases "off \<le> i \<and> i < off + n")
    case True
    then have "h' ! i = mem (i - off)" using that rh by (simp add: h'_def fold_set_at(2))
    moreover have "i - off < n" "off + (i - off) = i" using True by auto
    ultimately show ?thesis using mi [of "i - off"] by simp
  next
    case False
    then have "h' ! i = h ! i" "r' ! i = r ! i"
      using that rh by (auto simp: h'_def fold_set_at(2) r'_def fold_set_True(2))
    then show ?thesis using that ok by simp
  qed
  then have "slot_good (ssd_image p) (page_bytes w) fl'"
    using rh a len by (simp add: slot_good_def fl'_def)
  then show ?thesis
    using that [OF e] a rh by (simp add: fl'_def ready_at_def r'_def fold_set_True(2))
qed

lemma pages_apart_update:
  assumes "i < length ss" and "slot_pages t = slot_pages (ss ! i)"
  shows "pages_apart (ss[i := t]) = pages_apart ss"
proof -
  have "map slot_pages (ss[i := t]) = map slot_pages ss"
    using assms by (intro nth_equalityI) (auto simp: nth_list_update)
  then show ?thesis by (simp add: pages_apart_def)
qed

text \<open>What a worker does to the pipe.\<close>

lemma run_pipe_job_facts:
  assumes b: "bounce_inv hp" and drv: "driver_reads drv (hp_vio hp) (ssd_image (hp_pl hp)) (page_bytes (hp_win hp))"
    and k: "k < length (hp_jobs hp)" and run: "run_pipe_job drv k hp = Some hp'"
  obtains i tok off n fl' d' where "hp_jobs hp ! k = (i, tok, off, n)" "i < length (hp_slots hp)"
    "hp' = hp\<lparr>hp_slots := (hp_slots hp)[i := fl'], hp_dev := d', hp_jobs := take k (hp_jobs hp) @ drop (Suc k) (hp_jobs hp)\<rparr>"
    "slot_good (ssd_image (hp_pl hp)) (page_bytes (hp_win hp)) fl'"
    "hi_active fl'" "hi_active (slot hp i)" "hi_pages fl' = hi_pages (slot hp i)" "hi_tok fl' = hi_tok (slot hp i)"
    "\<And>j. j < length (hi_pages fl') \<Longrightarrow> ready_at fl' j \<longleftrightarrow> (off \<le> j \<and> j < off + n) \<or> ready_at (slot hp i) j"
proof -
  obtain i tok off n where j: "hp_jobs hp ! k = (i, tok, off, n)" by (cases "hp_jobs hp ! k")
  have live: "job_live (i, tok, off, n) hp" using run j by (auto simp: run_pipe_job_def split: if_splits)
  have fit: "job_fits hp (i, tok, off, n)" using b k j by (auto simp: bounce_inv_def list_all_length)
  have i: "i < length (hp_slots hp)" "hi_active (slot hp i)" using live by (simp_all add: job_live_def)
  have g: "slot_good (ssd_image (hp_pl hp)) (page_bytes (hp_win hp)) (slot hp i)"
    using b i by (simp add: bounce_inv_def list_all_length)
  have f: "off + n \<le> length (hi_pages (slot hp i))" "n \<le> 32" using fit live by (simp_all add: job_fits_def)
  have nv: "(hp_score hp = Score_vmem) = False" using b by (simp add: bounce_inv_def)
  obtain fl' d' where r: "run_job drv (hp_vio hp) (hp_pl hp) False (off, n) (slot hp i, hp_win hp, hp_dev hp) = (fl', hp_win hp, d')"
    and q: "slot_good (ssd_image (hp_pl hp)) (page_bytes (hp_win hp)) fl'"
      "hi_active fl'" "hi_pages fl' = hi_pages (slot hp i)" "hi_tok fl' = hi_tok (slot hp i)"
      "\<And>j. j < length (hi_pages (slot hp i)) \<Longrightarrow> ready_at fl' j \<longleftrightarrow> (off \<le> j \<and> j < off + n) \<or> ready_at (slot hp i) j"
    using run_job_bounce [OF g i(2) f drv, of "hp_dev hp"] by metis
  have "hp' = hp\<lparr>hp_slots := (hp_slots hp)[i := fl'], hp_dev := d', hp_jobs := take k (hp_jobs hp) @ drop (Suc k) (hp_jobs hp)\<rparr>"
    using run live j by (simp add: run_pipe_job_def nv r set_slot_def)
  with j i q show ?thesis using that by simp
qed

lemma run_pipe_job_inv:
  assumes b: "bounce_inv hp" and drv: "driver_reads drv (hp_vio hp) (ssd_image (hp_pl hp)) (page_bytes (hp_win hp))"
    and k: "k < length (hp_jobs hp)" and run: "run_pipe_job drv k hp = Some hp'"
  shows "bounce_inv hp'"
proof -
  obtain i tok off n fl' d' where j: "hp_jobs hp ! k = (i, tok, off, n)" and i: "i < length (hp_slots hp)"
    and e: "hp' = hp\<lparr>hp_slots := (hp_slots hp)[i := fl'], hp_dev := d', hp_jobs := take k (hp_jobs hp) @ drop (Suc k) (hp_jobs hp)\<rparr>"
    and q: "slot_good (ssd_image (hp_pl hp)) (page_bytes (hp_win hp)) fl'"
    "hi_active fl'" "hi_active (slot hp i)" "hi_pages fl' = hi_pages (slot hp i)" "hi_tok fl' = hi_tok (slot hp i)"
    using run_pipe_job_facts [OF assms] by metis
  have "pages_apart ((hp_slots hp)[i := fl'])"
    using b i q by (simp add: pages_apart_update slot_pages_def bounce_inv_def)
  moreover have "list_all (slot_good (ssd_image (hp_pl hp)) (page_bytes (hp_win hp))) ((hp_slots hp)[i := fl'])"
    using b q(1) i by (simp add: bounce_inv_def list_all_length nth_list_update)
  moreover have "job_fits hp' job" if "job_fits hp job" for job
    using that i q by (cases job) (auto simp: e job_fits_def job_live_def nth_list_update split: if_splits)
  ultimately show ?thesis using b by (auto simp: bounce_inv_def e list_all_iff dest: in_set_takeD in_set_dropD)
qed

section \<open>What a covered vector reads\<close>

lemma slot_pages_unique:
  assumes "pages_apart ss" and "a < length ss" and "b < length ss"
    and "hi_active (ss ! a)" and "hi_active (ss ! b)"
    and "i < length (hi_pages (ss ! a))" and "j < length (hi_pages (ss ! b))"
    and "hi_pages (ss ! a) ! i = hi_pages (ss ! b) ! j"
  shows "a = b \<and> i = j"
  using assms distinct_concat_nth [of "map slot_pages ss" a b i j]
  by (simp add: pages_apart_def slot_pages_def)

lemma bounce_page_ready:
  assumes b: "bounce_inv hp" and r: "page_ready q hp"
  shows "bounce_page q hp = Some (image_bytes (ssd_image (hp_pl hp)) q (page_bytes (hp_win hp)))"
proof -
  let ?img = "image_bytes (ssd_image (hp_pl hp)) q (page_bytes (hp_win hp))"
  obtain a i where a: "a < length (hp_slots hp)" "hi_active (slot hp a)" "i < length (hi_pages (slot hp a))"
    "hi_pages (slot hp a) ! i = q" "ready_at (slot hp a) i"
    using r by (auto simp: page_ready_def list_ex_iff in_set_conv_nth)
  have good: "slot_good (ssd_image (hp_pl hp)) (page_bytes (hp_win hp)) (slot hp k)" if "k < length (hp_slots hp)" for k
    using b that by (simp add: bounce_inv_def list_all_length)
  have all: "x = ?img" if "x \<in> set (concat (map (slot_page q) (hp_slots hp)))" for x
  proof -
    have "\<exists>s \<in> set (hp_slots hp). x \<in> set (slot_page q s)" using that by auto
    then obtain c where c: "c < length (hp_slots hp)" "x \<in> set (slot_page q (slot hp c))"
      by (metis in_set_conv_nth)
    then obtain h j where h: "hi_active (slot hp c)" "hi_host (slot hp c) = Some h" "x = h ! j"
      "j < length (hi_pages (slot hp c))" "hi_pages (slot hp c) ! j = q"
      by (cases "hi_host (slot hp c)") (auto simp: slot_page_def split: if_splits)
    have "a = c \<and> i = j"
      using slot_pages_unique [of "hp_slots hp" a c i j] b a c h by (simp add: bounce_inv_def)
    then show ?thesis using good [OF c(1)] h a by (auto simp: slot_good_def ready_at_def)
  qed
  have "slot_page q (slot hp a) \<noteq> []"
  proof -
    have "i \<in> set (filter (\<lambda>i. hi_pages (slot hp a) ! i = q \<and> i < hi_host_n (slot hp a)) [0..<length (hi_pages (slot hp a))])"
      using a good [OF a(1)] by (auto simp: slot_good_def)
    then have "filter (\<lambda>i. hi_pages (slot hp a) ! i = q \<and> i < hi_host_n (slot hp a)) [0..<length (hi_pages (slot hp a))] \<noteq> []"
      by (metis empty_iff empty_set)
    moreover obtain h where "hi_host (slot hp a) = Some h"
      using a(2) good [OF a(1)] unfolding slot_good_def by blast
    ultimately show ?thesis using a(2) by (simp add: slot_page_def)
  qed
  then have "concat (map (slot_page q) (hp_slots hp)) \<noteq> []" using a(1) by (auto simp: concat_eq_Nil_conv)
  then obtain x xs where "concat (map (slot_page q) (hp_slots hp)) = x # xs"
    unfolding neq_Nil_conv by blast
  then show ?thesis using all [of x] by (simp add: bounce_page_def)
qed

lemma bounce_copy_image:
  assumes b: "bounce_inv hp" and r: "\<And>q. q \<in> set (page_span (page_bytes (hp_win hp)) off vb) \<Longrightarrow> page_ready q hp"
    and c: "copied \<le> vb"
  shows "bounce_copy off vb copied hp = Some (image_bytes (ssd_image (hp_pl hp)) (off + copied) (vb - copied))"
  using c
proof (induction "vb - copied" arbitrary: copied rule: less_induct)
  case less
  let ?pb = "page_bytes (hp_win hp)" and ?img = "ssd_image (hp_pl hp)"
  have pb: "pow2 ?pb" "0 < ?pb" using b by (auto simp: bounce_inv_def)
  show ?case
  proof (cases "copied < vb")
    case True
    define page where "page = page_floor ?pb (off + copied)"
    define k where "k = min (vb - copied) (?pb - (off + copied - page))"
    have le: "page \<le> off + copied" "off + copied - page < ?pb"
      using pb by (simp_all add: page_def page_floor_le page_floor_in_page)
    then have k: "0 < k" "k \<le> vb - copied" "off + copied - page + k \<le> ?pb" using True by (auto simp: k_def)
    have "page_ready page hp"
      using r page_span_covers [OF pb(1), of off "off + copied" vb] True by (simp add: page_def)
    then have bp: "bounce_page page hp = Some (image_bytes ?img page ?pb)" by (rule bounce_page_ready [OF b])
    have "bounce_copy off vb (copied + k) hp = Some (image_bytes ?img (off + (copied + k)) (vb - (copied + k)))"
      using less.hyps [of "copied + k"] k True by simp
    moreover have "mem_read (off + copied - page) k (image_bytes ?img page ?pb) = image_bytes ?img (off + copied) k"
      using mem_read_image_bytes [OF k(3), of ?img page] le by simp
    ultimately have "bounce_copy off vb copied hp =
        Some (image_bytes ?img (off + copied) k @ image_bytes ?img (off + copied + k) (vb - copied - k))"
      using True pb bp unfolding bounce_copy.simps [of off vb copied]
      by (simp add: Let_def flip: page_def k_def) (simp add: add.assoc)
    then show ?thesis using k by (simp add: image_bytes_append)
  qed (use less.prems in \<open>simp add: bounce_copy.simps [of off vb vb]\<close>)
qed

section \<open>Reachable pipes\<close>

text \<open>What the search thread and the workers do to a pipe in bounce mode. A wait is a sequence of
  these steps.\<close>

inductive hide_step :: "'d driver \<Rightarrow> 'd hide_pipe \<Rightarrow> 'd hide_pipe \<Rightarrow> bool" for drv where
  hs_pump: "hide_step drv hp (hp_pump hp)"
| hs_issue: "hp_issue id pages ttl False look hp = Some (t, hp') \<Longrightarrow> hide_step drv hp hp'"
| hs_release_tok: "hide_step drv hp (release_tok tok hp)"
| hs_release_pages: "hide_step drv hp (release_pages need hp)"
| hs_worker: "k < length (hp_jobs hp) \<Longrightarrow> run_pipe_job drv k hp = Some hp' \<Longrightarrow> hide_step drv hp hp'"

inductive hide_reach :: "'d driver \<Rightarrow> 'd hide_pipe \<Rightarrow> 'd hide_pipe \<Rightarrow> bool" for drv hp where
  hr_refl: "hide_reach drv hp hp"
| hr_step: "hide_reach drv hp hp1 \<Longrightarrow> hide_step drv hp1 hp2 \<Longrightarrow> hide_reach drv hp hp2"

definition fresh_pipe :: "(nat \<Rightarrow> nat \<Rightarrow> byte) \<Rightarrow> dram_window \<Rightarrow> placement \<Rightarrow> vmem_io option \<Rightarrow> metrics option \<Rightarrow> hide_score \<Rightarrow> bool \<Rightarrow> bool \<Rightarrow> 'd \<Rightarrow> 'd hide_pipe" where
  "fresh_pipe heap w p vio m score run direct d =
     \<lparr>hp_slots = replicate kSlots hide_empty, hp_win = w, hp_pl = p, hp_vio = vio, hp_m = m,
      hp_extent_run = run, hp_direct_install = direct, hp_score = score, next_tok = 1,
      last_miss_n = 0, last_issue_n = 0, hp_jobs = [], hp_dev = d, hp_heap = heap\<rparr>"

lemma fresh_pipe_inv:
  assumes "pow2 (page_bytes w)"
  shows "bounce_inv (fresh_pipe heap w p vio m Score_bounce False direct d)"
proof -
  have "slot_pages hide_empty = []" "slot_good ssd pb hide_empty" for ssd pb
    by (simp_all add: slot_pages_def slot_good_def hide_empty_def)
  then have "pages_apart (replicate kSlots hide_empty)" "list_all (slot_good ssd pb) (replicate kSlots hide_empty)" for ssd pb
    by (auto simp: pages_apart_def list_all_iff concat_eq_Nil_conv)
  then show ?thesis using assms by (simp add: bounce_inv_def fresh_pipe_def)
qed

text \<open>The parts of the pipe no step touches.\<close>

definition same_setting :: "'d hide_pipe \<Rightarrow> 'd hide_pipe \<Rightarrow> bool" where
  "same_setting hp hp' \<longleftrightarrow> hp_win hp' = hp_win hp \<and> hp_pl hp' = hp_pl hp \<and> hp_vio hp' = hp_vio hp"

lemma release_setting:
  "same_setting hp (release_tok tok hp)" "same_setting hp (release_pages need hp)"
  by (simp_all add: same_setting_def release_tok_def release_pages_def)

lemma hp_pump_setting: "bounce_inv hp \<Longrightarrow> same_setting hp (hp_pump hp)"
proof -
  assume "bounce_inv hp"
  then have "same_pipe hp (hp_pump hp)" by (intro hp_pump_same) (simp add: bounce_inv_def)
  then show "same_setting hp (hp_pump hp)" by (simp add: same_setting_def same_pipe_frame)
qed

lemma issue_into_setting:
  "bounce_inv hp \<Longrightarrow> distinct miss \<Longrightarrow> miss \<noteq> [] \<Longrightarrow> same_setting hp (snd (issue_into i miss ttl look hp))"
  by (rule issue_into_bounce [of hp miss i ttl look]) (simp_all add: same_setting_def)

lemma hide_step_inv:
  assumes "hide_step drv hp hp'" and "bounce_inv hp"
    and "driver_reads drv (hp_vio hp) (ssd_image (hp_pl hp)) (page_bytes (hp_win hp))"
  shows "bounce_inv hp' \<and> same_setting hp hp'"
  using assms
proof (cases rule: hide_step.cases)
  case hs_pump
  then show ?thesis using hp_pump_inv [OF assms(2)] hp_pump_setting [OF assms(2)] by simp
next
  case (hs_issue pages ttl look t)
  have s: "same_setting hp (hp_pump hp)" by (rule hp_pump_setting [OF assms(2)])
  from assms(2) hs_issue(1) have "same_setting hp hp'"
  proof (cases rule: hp_issue_cases)
    case (2 i miss)
    then have "hp' = snd (issue_into i miss ttl look (hp_pump hp))" by (metis snd_conv)
    then have "same_setting (hp_pump hp) hp'"
      using issue_into_setting [OF hp_pump_inv [OF assms(2)] 2(4,5)] by simp
    then show ?thesis using s by (simp add: same_setting_def)
  qed (use s in simp)
  then show ?thesis using hs_issue assms(2) hp_issue_inv by blast
next
  case (hs_release_tok tok)
  then show ?thesis using release_tok_inv [OF assms(2)] release_setting(1) by blast
next
  case (hs_release_pages need)
  then show ?thesis using release_pages_inv [OF assms(2)] release_setting(2) by blast
next
  case (hs_worker k)
  have "same_setting hp hp'"
    by (rule run_pipe_job_facts [OF assms(2,3) hs_worker]) (simp add: same_setting_def)
  then show ?thesis using run_pipe_job_inv [OF assms(2,3) hs_worker] by blast
qed

lemma hide_reach_inv:
  assumes "hide_reach drv hp hp'" and "bounce_inv hp"
    and "driver_reads drv (hp_vio hp) (ssd_image (hp_pl hp)) (page_bytes (hp_win hp))"
  shows "bounce_inv hp' \<and> same_setting hp hp'"
  using assms(1)
proof induction
  case (hr_step hp1 hp2)
  then show ?case using hide_step_inv [OF hr_step.hyps(2)] assms(3) by (simp add: same_setting_def)
qed (simp add: assms(2) same_setting_def)

end
