(* ===== verification/Hide_Props.thy ===== *)
theory Hide_Props
  imports Hide_Bounce
begin

text \<open>
  Properties of the fill pipe: what a covered vector reads, what one issue does, how the window
  is filled, when needed pages are covered, and where a full or released pipe goes wrong.
\<close>

section \<open>Demo pipes\<close>

definition demo_ssd :: "nat \<Rightarrow> byte" where
  "demo_ssd a = word_of_nat (a + 1)"

definition demo_pl :: placement where
  "demo_pl = \<lparr>hdr = None, ssd_image = demo_ssd, ssd_bytes = 64, vec_stride = 0, graph_host = None,
     diskann_layout = False, id_to_slot = [], slot_to_id = [], bundle_off = 0, bundle_stride = 0, bundle_bytes = 0\<rparr>"

definition demo_window :: dram_window where
  "demo_window = win_init (replicate 16 0) None 4
     \<lparr>arena = [], capacity = 0, page_bytes = 4, soft_pin_neighbors = False, n_frames = 0, wmetrics = None,
      wmap = Map.empty, frame_key = [], frame_pinned = [], frame_filling = [], frame_soft_ttl = [],
      soft_pin_frames = [], pinned_pages = {}, clock_hand = 0, pin_bytes_used = 0, pin_bytes_cap = 8,
      soft_pin_bytes_used = 0, soft_pin_bytes_cap = 8, spill = [], spill_hand = 0\<rparr>"

definition demo_pipe :: "hide_score \<Rightarrow> bool \<Rightarrow> unit hide_pipe" where
  "demo_pipe score run = fresh_pipe (\<lambda>_ _. 255) demo_window demo_pl None None score run False ()"

definition demo_driver :: "unit driver" where
  "demo_driver = (\<lambda>b st. (False, st), \<lambda>b d. (False, d))"

lemma demo_driver_reads: "driver_reads demo_driver vio ssd pb"
  by (simp add: driver_reads_def demo_driver_def)

lemma demo_page: "page_bytes demo_window = 4"
  by (simp add: demo_window_def win_init_def Let_def)

lemma demo_setting [simp]: "hp_win (demo_pipe s r) = demo_window" "hp_pl (demo_pipe s r) = demo_pl"
  "hp_vio (demo_pipe s r) = None" "hp_score (demo_pipe s r) = s"
  by (simp_all add: demo_pipe_def fresh_pipe_def)

lemma demo_pipe_inv: "bounce_inv (demo_pipe Score_bounce False)"
  by (simp add: demo_pipe_def fresh_pipe_inv demo_page pow2_4)

text \<open>Pages 0 and 4 issued, their job run.\<close>

definition demo_filled :: "unit hide_pipe" where
  "demo_filled = the (run_pipe_job demo_driver 0 (snd (the (hp_issue id [0, 4] 32 False False (demo_pipe Score_bounce False)))))"

section \<open>Reading covered vectors\<close>

text \<open>C14. In bounce mode with extent runs off, a page size that is a power of two, and a driver
  that reads the image: after any pumps, non-stalling issues and releases of the search thread and any
  fill jobs of the workers, where no fill job runs after its slot was given up (undefined in the code), a
  vector whose pages are all covered is copied by \<open>copy_vec\<close> with exactly the bytes the SSD
  image has for it.\<close>
theorem bounce_covered_is_ssd:
  assumes "hide_reach drv (fresh_pipe heap w p vio m Score_bounce False direct d) hp"
    and "pow2 (page_bytes w)"
    and "driver_reads drv vio (ssd_image p) (page_bytes w)"
    and "\<forall>q \<in> set (page_span (page_bytes w) off vb). hp_covers q hp"
  shows "copy_vec off vb hp = Some (image_bytes (ssd_image p) off vb)"
proof -
  let ?hp0 = "fresh_pipe heap w p vio m Score_bounce False direct d"
  have "bounce_inv hp \<and> same_setting ?hp0 hp"
    using hide_reach_inv [OF assms(1) fresh_pipe_inv [OF assms(2)]] assms(3) by (simp add: fresh_pipe_def)
  then have b: "bounce_inv hp" and e: "hp_win hp = w" "hp_pl hp = p"
    by (simp_all add: same_setting_def fresh_pipe_def)
  have "page_ready q hp" if "q \<in> set (page_span (page_bytes (hp_win hp)) off vb)" for q
    using that assms(4) bounce_score(2) [OF b] by (simp add: hp_covers_def e)
  then show ?thesis
    using bounce_copy_image [OF b, of off vb 0] b by (simp add: copy_vec_def bounce_inv_def e)
qed

lemma demo_filled_reach: "hide_reach demo_driver (demo_pipe Score_bounce False) demo_filled"
proof -
  let ?r = "hp_issue id [0, 4] 32 False False (demo_pipe Score_bounce False)"
  let ?h = "snd (the ?r)"
  have "?r \<noteq> None \<and> hp_jobs ?h = [(0, 1, 0, 2)]" by code_simp
  moreover then have "hide_step demo_driver (demo_pipe Score_bounce False) ?h"
    by (intro hs_issue [of "[0, 4]" 32 False _ "fst (the ?r)"]) auto
  moreover have "run_pipe_job demo_driver 0 ?h \<noteq> None" by code_simp
  ultimately have "hide_step demo_driver (demo_pipe Score_bounce False) ?h" "hide_step demo_driver ?h demo_filled"
    by (auto simp: demo_filled_def intro!: hs_worker [of 0])
  then show ?thesis by (blast intro: hide_reach.intros)
qed

lemma bounce_covered_is_ssd_witness: "copy_vec 2 4 demo_filled = Some [3, 4, 5, 6]"
proof -
  have "page_span 4 2 4 = [0, 4]" by (simp add: page_span_def page_last_def page_floor_eq pow2_4 pages_from.simps)
  moreover have "hp_covers 0 demo_filled \<and> hp_covers 4 demo_filled" by code_simp
  ultimately have "copy_vec 2 4 demo_filled = Some (image_bytes (ssd_image demo_pl) 2 4)"
    using bounce_covered_is_ssd [OF demo_filled_reach [unfolded demo_pipe_def], of 2 4]
    by (simp add: demo_page pow2_4 demo_driver_reads)
  moreover have "image_bytes (ssd_image demo_pl) 2 4 = [3, 4, 5, 6]" by code_simp
  ultimately show ?thesis by simp
qed

section \<open>One issue\<close>

lemma chunk_jobs_ranges: "concat (map (\<lambda>(off, k). [off..<off + k]) (chunk_jobs n)) = [0..<n]"
proof -
  have "concat (map (\<lambda>k. [32 * k..<32 * k + (if n - 32 * k < 32 then n - 32 * k else 32)]) [0..<c]) = [0..<min n (32 * c)]" for c
  proof (induction c)
    case (Suc c)
    have "[0..<min n (32 * c)] @ [32 * c..<32 * c + (if n - 32 * c < 32 then n - 32 * c else 32)] = [0..<min n (32 * Suc c)]"
    proof (cases "n \<le> 32 * c")
      case False
      then have "32 * c + (if n - 32 * c < 32 then n - 32 * c else 32) = min n (32 * Suc c)" by auto
      moreover have "min n (32 * c) = 32 * c" "32 * c \<le> min n (32 * Suc c)" using False by auto
      ultimately show ?thesis by (metis le_add_diff_inverse upt_add_eq_append zero_le)
    qed simp
    with Suc show ?case by simp
  qed simp
  moreover have "min n (32 * ((n + 31) div 32)) = n" by simp
  ultimately show ?thesis by (simp add: chunk_jobs_def o_def)
qed

lemma inflight_page_in_slot: "p \<in> inflight_pages hp \<longleftrightarrow> page_in_slot p hp"
  by (auto simp: inflight_pages_def page_in_slot_def list_ex_iff)

lemma same_pipe_in_slot: "same_pipe hp hp' \<Longrightarrow> page_in_slot p hp' = page_in_slot p hp"
  using same_pipe_pages [of hp hp'] by (metis inflight_page_in_slot set_inflight)

text \<open>C16. In bounce mode with extent runs off, on a pipe that meets the invariant (as every
  reachable one does), a non-stalling issue that returns a nonzero token has put into one free slot
  exactly the first 1024 of the pages asked for that no slot was fetching yet, each once, and has queued
  jobs of at most 32 pages that together cover every page of the slot exactly once; the other slots keep
  their pages.\<close>
theorem issue_takes_missing_pages:
  assumes "bounce_inv hp" and "hp_issue id pages ttl False look hp = Some (t, hp')" and "t \<noteq> 0"
  shows "\<exists>i n jobs. i < length (hp_slots hp) \<and> \<not> hi_active (slot hp i)
    \<and> hi_active (slot hp' i) \<and> hi_tok (slot hp' i) = t
    \<and> hi_pages (slot hp' i) = take 1024 (filter (\<lambda>p. \<not> page_in_slot p hp) (dedup pages))
    \<and> map slot_pages (hp_slots hp') = (map slot_pages (hp_slots hp))[i := hi_pages (slot hp' i)]
    \<and> n = length (hi_pages (slot hp' i)) \<and> hp_jobs hp' = hp_jobs hp @ map (\<lambda>(off, k). (i, t, off, k)) jobs
    \<and> concat (map (\<lambda>(off, k). [off..<off + k]) jobs) = [0..<n] \<and> list_all (\<lambda>(off, k). k \<le> 32) jobs"
  using assms(1,2)
proof (cases rule: hp_issue_cases)
  case (2 i miss)
  have s: "same_pipe hp (hp_pump hp)" using assms(1) by (intro hp_pump_same) (simp add: bounce_inv_def)
  note f = same_pipe_frame [OF s]
  obtain m' where e: "issue_into i miss ttl look (hp_pump hp) = (next_tok (hp_pump hp),
    (hp_pump hp)\<lparr>last_miss_n := length miss, hp_m := m', last_issue_n := length miss,
       hp_slots := (hp_slots (hp_pump hp))[i := (bounce_slot (hp_heap (hp_pump hp) (next_tok (hp_pump hp))) miss (page_bytes (hp_win (hp_pump hp))) ttl (slot (hp_pump hp) i))\<lparr>hi_tok := next_tok (hp_pump hp)\<rparr>],
       next_tok := next_tok (hp_pump hp) + 1,
       hp_jobs := hp_jobs (hp_pump hp) @ map (\<lambda>(off, n). (i, next_tok (hp_pump hp), off, n)) (chunk_jobs (length miss))\<rparr>)"
    using issue_into_bounce [OF hp_pump_inv [OF assms(1)] 2(4,5)] .
  have i: "i < length (hp_slots hp)" "\<not> hi_active (slot hp i)"
    using free_slot_Some [OF 2(1)] f(10) same_slot_fields [OF same_pipe_slot [OF s]] by auto
  have miss: "miss = take 1024 (filter (\<lambda>p. \<not> page_in_slot p hp) (dedup pages))"
    using 2(2) bounce_score(2) [OF hp_pump_inv [OF assms(1)]]
    by (simp add: issue_miss_def inflight_page_in_slot same_pipe_in_slot [OF s])
  have hp': "t = next_tok hp" "hi_active (slot hp' i)" "hi_tok (slot hp' i) = t" "hi_pages (slot hp' i) = miss"
    "hp_jobs hp' = hp_jobs hp @ map (\<lambda>(off, k). (i, t, off, k)) (chunk_jobs (length miss))"
    "map slot_pages (hp_slots hp') = (map slot_pages (hp_slots hp))[i := miss]"
    using 2(3) e i f by (auto simp: map_update same_pipe_pages [OF s] slot_pages_def)
  have "list_all (\<lambda>(off, k). k \<le> 32) (chunk_jobs (length miss))"
    using chunk_jobs_fit [of _ _ "length miss"] by (auto simp: list_all_iff)
  then show ?thesis using i hp' miss chunk_jobs_ranges [of "length miss"] by blast
qed (use assms(3) in simp)

lemma issue_takes_missing_pages_witness:
  "\<exists>hp' i. hp_issue id [8, 8, 0] 32 False False demo_filled = Some (2, hp') \<and> hi_pages (slot hp' i) = [8]"
proof -
  let ?r = "hp_issue id [8, 8, 0] 32 False False demo_filled"
  have t: "fst (the ?r) = 2 \<and> ?r \<noteq> None" by code_simp
  then have r: "?r = Some (2, snd (the ?r))" by auto
  have b: "bounce_inv demo_filled"
    using hide_reach_inv [OF demo_filled_reach demo_pipe_inv] by (simp add: demo_driver_reads)
  have "dedup [8, 8, 0 :: nat] = [8, 0]" by code_simp
  moreover have "page_in_slot 0 demo_filled \<and> \<not> page_in_slot 8 demo_filled" by code_simp
  ultimately have "take 1024 (filter (\<lambda>p. \<not> page_in_slot p demo_filled) (dedup [8, 8, 0])) = [8]" by simp
  then show ?thesis using issue_takes_missing_pages [OF b r] r by fastforce
qed

section \<open>Pumping into the window\<close>

text \<open>The issue after every page that is ready has been consumed, on the first \<open>k\<close> pages.\<close>

definition pumped :: "nat \<Rightarrow> hide_inflight \<Rightarrow> hide_inflight" where
  "pumped k fl = fl\<lparr>hi_consumed := map (\<lambda>i. hi_consumed fl ! i \<or> i < k \<and> ready_at fl i) [0..<length (hi_consumed fl)],
     hi_ready_n := hi_ready_n fl + length (filter (fresh_ready fl) [0..<k])\<rparr>"

definition fresh_pages :: "nat \<Rightarrow> hide_inflight \<Rightarrow> (nat \<times> byte list option) list" where
  "fresh_pages k fl = map (\<lambda>i. (hi_pages fl ! i, host_page fl i)) (filter (fresh_ready fl) [0..<k])"

lemma pumped_0: "pumped 0 fl = fl"
  by (simp add: pumped_def map_nth)

lemma pumped_fields [simp]: "hi_pages (pumped k fl) = hi_pages fl" "hi_ready (pumped k fl) = hi_ready fl"
  "hi_host (pumped k fl) = hi_host fl" "hi_ttl (pumped k fl) = hi_ttl fl" "hi_active (pumped k fl) = hi_active fl"
  "hi_direct (pumped k fl) = hi_direct fl" "hi_frames (pumped k fl) = hi_frames fl"
  "length (hi_consumed (pumped k fl)) = length (hi_consumed fl)"
  "ready_at (pumped k fl) i = ready_at fl i" "host_page (pumped k fl) i = host_page fl i"
  by (simp_all add: pumped_def ready_at_def host_page_def)

lemma fresh_pumped: "k < length (hi_consumed fl) \<Longrightarrow> fresh_ready (pumped k fl) k = fresh_ready fl k"
  by (auto simp: fresh_ready_def pumped_def ready_at_def)

lemma pumped_Suc:
  assumes "k < length (hi_consumed fl)"
  shows "pumped (Suc k) fl = (if fresh_ready fl k then count_ready 1 (consume k (pumped k fl)) else pumped k fl)"
proof -
  have "map (\<lambda>i. hi_consumed fl ! i \<or> i < Suc k \<and> ready_at fl i) [0..<length (hi_consumed fl)] =
    (if fresh_ready fl k then (map (\<lambda>i. hi_consumed fl ! i \<or> i < k \<and> ready_at fl i) [0..<length (hi_consumed fl)])[k := True]
     else map (\<lambda>i. hi_consumed fl ! i \<or> i < k \<and> ready_at fl i) [0..<length (hi_consumed fl)])"
    by (rule nth_equalityI) (use assms in \<open>auto simp: fresh_ready_def nth_list_update less_Suc_eq split: if_splits\<close>)
  then show ?thesis by (simp add: pumped_def consume_def count_ready_def)
qed

lemma pump_mark_loop: "k \<le> length (hi_consumed fl) \<Longrightarrow> fold pump_mark [0..<k] fl = pumped k fl"
  by (induction k) (simp_all add: pumped_0 pumped_Suc pump_mark_def fresh_pumped)

lemma pump_direct_loop: "k \<le> length (hi_consumed fl) \<Longrightarrow> fst (fold pump_direct [0..<k] (fl, w)) = pumped k fl"
proof (induction k)
  case (Suc k)
  then obtain w' where e: "fold pump_direct [0..<k] (fl, w) = (pumped k fl, w')"
    by (cases "fold pump_direct [0..<k] (fl, w)") auto
  have "fold pump_direct [0..<Suc k] (fl, w) = pump_direct k (pumped k fl, w')" by (simp add: e)
  moreover have "fst (pump_direct k (pumped k fl, w')) = pumped (Suc k) fl"
    using Suc.prems by (simp add: pump_direct_def pumped_Suc fresh_pumped)
  ultimately show ?case by (simp only:)
qed (simp add: pumped_0)

text \<open>The batched loop: what is buffered plus what has been installed is what was ready.\<close>

lemma pump_copy_loop:
  assumes "k \<le> length (hi_consumed fl)"
  shows "\<exists>done buf. done @ buf = fresh_pages k fl \<and>
    fold pump_copy [0..<k] ([], fl, w) =
      (buf, (pumped k fl)\<lparr>hi_ready_n := hi_ready_n fl + length done\<rparr>, install_full_pages done (hi_ttl fl) w)"
  using assms
proof (induction k)
  case 0
  have "fl\<lparr>hi_ready_n := hi_ready_n fl\<rparr> = fl" by simp
  then show ?case by (intro exI [of _ "[]"]) (simp add: fresh_pages_def pumped_0 install_full_pages_def)
next
  case (Suc k)
  then obtain "done" buf where d: "done @ buf = fresh_pages k fl"
    and f: "fold pump_copy [0..<k] ([], fl, w) =
      (buf, (pumped k fl)\<lparr>hi_ready_n := hi_ready_n fl + length done\<rparr>, install_full_pages done (hi_ttl fl) w)"
    by auto
  let ?p = "(hi_pages fl ! k, host_page fl k)"
  have fr: "fresh_ready ((pumped k fl)\<lparr>hi_ready_n := n\<rparr>) k = fresh_ready fl k" for n
    using fresh_pumped [of k fl] Suc.prems by (simp add: fresh_ready_def ready_at_def)
  have hp: "host_page ((pumped k fl)\<lparr>hi_ready_n := n\<rparr>) k = host_page fl k" for n
    by (simp add: host_page_def)
  have st: "fold pump_copy [0..<Suc k] ([], fl, w) = pump_copy k
      (buf, (pumped k fl)\<lparr>hi_ready_n := hi_ready_n fl + length done\<rparr>, install_full_pages done (hi_ttl fl) w)"
    using f by simp
  show ?case
  proof (cases "fresh_ready fl k")
    case False
    then have "fold pump_copy [0..<Suc k] ([], fl, w) =
        (buf, (pumped (Suc k) fl)\<lparr>hi_ready_n := hi_ready_n fl + length done\<rparr>, install_full_pages done (hi_ttl fl) w)"
      unfolding st using fr Suc.prems by (simp add: pump_copy_def pumped_Suc)
    moreover have "done @ buf = fresh_pages (Suc k) fl" using d False by (simp add: fresh_pages_def)
    ultimately show ?thesis by blast
  next
    case True
    have c: "consume k ((pumped k fl)\<lparr>hi_ready_n := n\<rparr>) = (pumped (Suc k) fl)\<lparr>hi_ready_n := n\<rparr>" for n
      using True Suc.prems by (simp add: pumped_Suc consume_def count_ready_def)
    have d': "done @ buf @ [?p] = fresh_pages (Suc k) fl"
      using d True by (simp add: fresh_pages_def flip: append_assoc)
    show ?thesis
    proof (cases "length (buf @ [?p]) = 256")
      case True
      have "fold pump_copy [0..<Suc k] ([], fl, w) =
        ([], (pumped (Suc k) fl)\<lparr>hi_ready_n := hi_ready_n fl + length (done @ buf @ [?p])\<rparr>,
         install_full_pages (done @ buf @ [?p]) (hi_ttl fl) w)"
        unfolding st using fr hp c True \<open>fresh_ready fl k\<close>
        by (simp add: pump_copy_def pump_flush_def count_ready_def install_full_pages_def add.assoc)
      then show ?thesis using d' by (metis append_Nil2)
    next
      case False
      then have "fold pump_copy [0..<Suc k] ([], fl, w) =
        (buf @ [?p], (pumped (Suc k) fl)\<lparr>hi_ready_n := hi_ready_n fl + length done\<rparr>, install_full_pages done (hi_ttl fl) w)"
        unfolding st using fr hp c \<open>fresh_ready fl k\<close> by (simp add: pump_copy_def)
      then show ?thesis using d' by blast
    qed
  qed
qed

lemma fresh_pages_length: "length (fresh_pages k fl) = length (filter (fresh_ready fl) [0..<k])"
  by (simp add: fresh_pages_def)

lemma pump_window_eq:
  assumes "hi_active fl" and "\<not> hi_direct fl" and "length (hi_consumed fl) = length (hi_pages fl)"
  shows "hide_pump Score_window (fl, w) =
    (pumped (length (hi_pages fl)) fl, install_full_pages (fresh_pages (length (hi_pages fl)) fl) (hi_ttl fl) w)"
proof -
  let ?n = "length (hi_pages fl)"
  obtain "done" buf where d: "done @ buf = fresh_pages ?n fl"
    and f: "fold pump_copy [0..<?n] ([], fl, w) =
      (buf, (pumped ?n fl)\<lparr>hi_ready_n := hi_ready_n fl + length done\<rparr>, install_full_pages done (hi_ttl fl) w)"
    using pump_copy_loop [of ?n fl w] assms by auto
  have n: "hi_ready_n (pumped ?n fl) = hi_ready_n fl + length done + length buf"
    using d by (simp add: pumped_def flip: fresh_pages_length) (metis length_append)
  have "(pumped ?n fl)\<lparr>hi_ready_n := hi_ready_n fl + length done + length buf\<rparr> = pumped ?n fl"
    by (simp flip: n)
  then show ?thesis using assms f d
    by (auto simp: hide_pump_def Let_def pump_flush_def count_ready_def install_full_pages_def simp flip: d)
qed

lemma hide_pump_issue:
  assumes "hi_active fl" and "length (hi_consumed fl) = length (hi_pages fl)"
  shows "fst (hide_pump score (fl, w)) = pumped (length (hi_pages fl)) fl"
  using assms pump_mark_loop [of "length (hi_pages fl)" fl] pump_direct_loop [of "length (hi_pages fl)" fl w]
    pump_window_eq [of fl w]
  by (cases "score = Score_window"; cases "hi_direct fl") (simp_all add: hide_pump_def Let_def)

text \<open>C22. In window mode without direct install, for a coherent window whose pin budget and fills
  leave a frame to evict (\<open>pin_room\<close>) and an active issue whose ready pages hold their SSD
  bytes, one pump installs exactly the pages that have become ready, in the order of the issue and
  whatever the batch size, marks them consumed and counts them; the window stays coherent and keeps its
  pins.\<close>
theorem pump_fills_window:
  assumes "good ssd w" and "pin_room w" and "slot_good ssd (page_bytes w) fl" and "hi_active fl"
    and "length (hi_consumed fl) = length (hi_pages fl)"
  shows "\<exists>w'. hide_pump Score_window (fl, w) = (pumped (length (hi_pages fl)) fl, w')
    \<and> w' = install_full_pages (fresh_pages (length (hi_pages fl)) fl) (hi_ttl fl) w
    \<and> good ssd w' \<and> pinned_pages w \<subseteq> pinned_pages w'"
proof -
  let ?n = "length (hi_pages fl)"
  obtain r h where rh: "hi_ready fl = Some r" "length r = ?n" "hi_host fl = Some h" "\<not> hi_direct fl"
    and ok: "\<And>i. i < length r \<Longrightarrow> r ! i \<Longrightarrow> h ! i = image_bytes ssd (hi_pages fl ! i) (page_bytes w)"
    using assms(3,4) by (auto simp: slot_good_def)
  have "bs = image_bytes ssd p (page_bytes w)" if "(p, Some bs) \<in> set (fresh_pages ?n fl)" for p bs
    using that rh ok by (auto simp: fresh_pages_def fresh_ready_def ready_at_def host_page_def)
  then have "win_step_ok ssd w (install_full_pages (fresh_pages ?n fl) (hi_ttl fl) w)"
    using assms(1,2) by (intro install_full_pages_ok)
  then show ?thesis
    using pump_window_eq [OF assms(4) rh(4) assms(5)] by (simp add: win_step_ok_def win_le_def)
qed

definition ready_slot :: hide_inflight where
  "ready_slot = (bounce_slot (\<lambda>_. 255) [0, 4] 4 32 hide_empty)\<lparr>hi_ready := Some [True, False],
     hi_host := Some [[1, 2, 3, 4], [0, 0, 0, 0]]\<rparr>"

lemma demo_win_good: "good demo_ssd demo_window \<and> pin_room demo_window"
proof -
  have "good demo_ssd demo_window" unfolding demo_window_def
    by (rule win_init_good) (simp_all add: pow2_4)
  then show ?thesis by (simp add: pin_room_def demo_window_def win_init_def Let_def)
qed

lemma pump_fills_window_witness:
  "\<exists>w'. hide_pump Score_window (ready_slot, demo_window) = (pumped (length [0, 4 :: nat]) ready_slot, w') \<and> good demo_ssd w'"
proof -
  have "demo_ssd 0 = 1" "demo_ssd (Suc 0) = 2" "demo_ssd 2 = 3" "demo_ssd 3 = 4"
    by (simp_all add: demo_ssd_def)
  then have "slot_good demo_ssd 4 ready_slot"
    by (auto simp: slot_good_def ready_slot_def bounce_slot_def hide_start_def hide_clear_def hide_empty_def
        less_Suc_eq numeral_eq_Suc image_bytes_def upt_rec)
  moreover have "hi_active ready_slot" "hi_pages ready_slot = [0, 4]"
    "length (hi_consumed ready_slot) = length (hi_pages ready_slot)"
    by (simp_all add: ready_slot_def bounce_slot_def hide_start_def hide_clear_def)
  ultimately show ?thesis
    using pump_fills_window [of demo_ssd demo_window ready_slot] demo_win_good by (simp add: demo_page)
qed

section \<open>When every page is ready\<close>

definition all_ready :: "hide_inflight \<Rightarrow> bool" where
  "all_ready fl \<longleftrightarrow> (\<forall>i < length (hi_pages fl). ready_at fl i)"

definition issue_ok :: "hide_inflight \<Rightarrow> bool" where
  "issue_ok fl \<longleftrightarrow> length (hi_consumed fl) = length (hi_pages fl) \<and> hi_ready_n fl = count_true (hi_consumed fl)"

lemma count_pumped:
  assumes "length (hi_consumed fl) = length (hi_pages fl)"
  shows "count_true (hi_consumed (pumped (length (hi_pages fl)) fl)) =
    count_true (hi_consumed fl) + length (filter (fresh_ready fl) [0..<length (hi_pages fl)])"
proof -
  have "count_true (map (\<lambda>i. c i \<or> i < n \<and> r i) [0..<k]) =
    count_true (map c [0..<k]) + length (filter (\<lambda>i. \<not> c i \<and> r i) [0..<k])" if "k \<le> n" for k n :: nat and c r
    using that by (induction k) (auto simp: count_true_def)
  from this [of "length (hi_pages fl)" "length (hi_pages fl)" "\<lambda>i. hi_consumed fl ! i" "ready_at fl"]
  show ?thesis using assms map_nth [of "hi_consumed fl"] by (simp add: pumped_def fresh_ready_def [abs_def])
qed

lemma issue_ok_pumped: "issue_ok fl \<Longrightarrow> issue_ok (pumped (length (hi_pages fl)) fl)"
  by (simp add: issue_ok_def count_pumped) (simp add: pumped_def)

lemma pumped_all:
  assumes "issue_ok fl"
  shows "hi_ready_n (pumped (length (hi_pages fl)) fl) = length (hi_pages fl) \<or> \<not> all_ready fl"
proof (cases "all_ready fl")
  case True
  then have "hi_consumed (pumped (length (hi_pages fl)) fl) = replicate (length (hi_pages fl)) True"
    using assms by (auto simp: pumped_def all_ready_def issue_ok_def intro!: nth_equalityI)
  moreover have "count_true (replicate n True) = n" for n by (induction n) auto
  ultimately show ?thesis using issue_ok_pumped [OF assms] by (simp add: issue_ok_def)
qed simp

section \<open>Waiting for needed pages\<close>

text \<open>Workers never take a ready page back and never free a slot.\<close>

definition workers_keep :: "('d hide_pipe \<Rightarrow> 'd hide_pipe) \<Rightarrow> bool" where
  "workers_keep yld \<longleftrightarrow> (\<forall>hp. hp_score (yld hp) = hp_score hp \<and> length (hp_slots (yld hp)) = length (hp_slots hp)
     \<and> (\<forall>i < length (hp_slots hp). hi_active (slot (yld hp) i) = hi_active (slot hp i))
     \<and> (\<forall>q. page_ready q hp \<longrightarrow> page_ready q (yld hp)))"

lemma same_pipe_ready: "same_pipe hp hp' \<Longrightarrow> page_ready q hp \<Longrightarrow> page_ready q hp'"
proof -
  assume s: "same_pipe hp hp'" and "page_ready q hp"
  then obtain i j where i: "i < length (hp_slots hp)" "hi_active (slot hp i)" "j < length (hi_pages (slot hp i))"
    "hi_pages (slot hp i) ! j = q" "ready_at (slot hp i) j"
    by (auto simp: page_ready_def list_ex_iff in_set_conv_nth)
  then show "page_ready q hp'"
    using same_slot_fields [OF same_pipe_slot [OF s i(1)]] same_pipe_frame(10) [OF s]
    by (auto simp: page_ready_def list_ex_iff ready_at_def intro!: bexI [of _ "slot hp' i"])
qed

definition kept :: "'d hide_pipe \<Rightarrow> 'd hide_pipe \<Rightarrow> bool" where
  "kept hp hp' \<longleftrightarrow> hp_score hp' = hp_score hp \<and> (\<forall>q. page_ready q hp \<longrightarrow> page_ready q hp')"

lemma kept_trans: "kept a b \<Longrightarrow> kept b c \<Longrightarrow> kept a c"
  by (simp add: kept_def)

lemma kept_pump: "hp_score hp \<noteq> Score_window \<Longrightarrow> kept hp (hp_pump hp)"
  using hp_pump_same same_pipe_ready same_pipe_frame(6) unfolding kept_def by blast

lemma kept_issue_into:
  assumes "i < length (hp_slots hp)" and "\<not> hi_active (slot hp i)"
  shows "kept hp (snd (issue_into i miss ttl look hp))"
proof -
  obtain fl' w m jobs where "hide_issue (hp_heap hp (next_tok hp)) (hp_pl hp) miss ttl look (hp_extent_run hp)
             (hp_use_window hp \<and> hp_direct_install hp) (hp_score hp = Score_vmem) (hp_use_window hp)
             (slot hp i, hp_win hp, hp_m hp) = ((fl', w, m), jobs)" by (metis prod.exhaust)
  then obtain fl where e: "hp_slots (snd (issue_into i miss ttl look hp)) = (hp_slots hp)[i := fl]"
      "hp_score (snd (issue_into i miss ttl look hp)) = hp_score hp"
    by (cases "hi_active fl'") (auto simp: issue_into_def Let_def)
  have "page_ready q (snd (issue_into i miss ttl look hp))" if "page_ready q hp" for q
  proof -
    obtain k where k: "k < length (hp_slots hp)" "hi_active (slot hp k)"
      "list_ex (\<lambda>j. hi_pages (slot hp k) ! j = q \<and> ready_at (slot hp k) j) [0..<length (hi_pages (slot hp k))]"
      using \<open>page_ready q hp\<close> by (auto simp: page_ready_def list_ex_iff [of _ "hp_slots hp"] in_set_conv_nth)
    then have "(hp_slots hp)[i := fl] ! k = slot hp k" using assms(2) by (metis nth_list_update_neq)
    then have "slot hp k \<in> set ((hp_slots hp)[i := fl])" using k(1) by (metis length_list_update nth_mem)
    then show ?thesis using k by (auto simp: page_ready_def e list_ex_iff [of _ "_[i := fl]"])
  qed
  then show ?thesis by (simp add: kept_def e)
qed

lemma workers_kept: "workers_keep yld \<Longrightarrow> kept hp (yld hp)"
  by (simp add: workers_keep_def kept_def)

lemma stall_loop_induct [consumes 1, case_names step]:
  assumes "stall_loop yld hp = Some r"
    and "\<And>stall yld hp r. (\<And>yld hp r. stall yld hp = Some r \<Longrightarrow> P yld hp r) \<Longrightarrow>
      (let hp1 = hp_pump hp in case free_slot hp1 of Some i \<Rightarrow> Some (i, hp1) | None \<Rightarrow> stall yld (yld hp1)) = Some r \<Longrightarrow>
      P yld hp r"
  shows "P yld hp r"
  by (rule stall_loop.raw_induct [OF assms(2) assms(1)])

lemma stall_loop_kept:
  assumes "stall_loop yld hp = Some r" and "workers_keep yld" and "hp_score hp \<noteq> Score_window"
  shows "kept hp (snd r) \<and> fst r < length (hp_slots (snd r)) \<and> \<not> hi_active (slot (snd r) (fst r))"
  using assms
proof (induction rule: stall_loop_induct)
  case (step stall yld hp r)
  have k: "kept hp (hp_pump hp)" using step(4) by (rule kept_pump)
  show ?case
  proof (cases "free_slot (hp_pump hp)")
    case None
    have y: "kept (hp_pump hp) (yld (hp_pump hp))" using step(3) by (rule workers_kept)
    moreover have "stall yld (yld (hp_pump hp)) = Some r" using step(2) None by (simp add: Let_def)
    ultimately show ?thesis using step(1) [of yld "yld (hp_pump hp)" r] step(3,4) k kept_trans
      by (metis kept_def)
  next
    case (Some j)
    then show ?thesis using step(2) k free_slot_Some [OF Some] by (auto simp: Let_def)
  qed
qed

lemma hp_issue_kept:
  assumes "hp_issue yld pages ttl stall look hp = Some (t, hp')" and "workers_keep yld" and "hp_score hp \<noteq> Score_window"
  shows "kept hp hp'"
proof -
  have k: "kept hp (hp_pump hp)" using assms(3) by (rule kept_pump)
  have nw: "\<not> hp_use_window (hp_pump hp)" "hp_score (hp_pump hp) \<noteq> Score_window"
    using k assms(3) by (simp_all add: hp_use_window_def kept_def)
  consider "hp' = hp_pump hp"
    | i where "free_slot (hp_pump hp) = Some i" "hp' = snd (issue_into i (take 1024 (issue_miss pages (hp_pump hp))) ttl look (hp_pump hp))"
    | i h where "stall_loop yld (hp_pump hp) = Some (i, h)" "hp' = snd (issue_into i (take 1024 (issue_miss pages (hp_pump hp))) ttl look h)"
  proof (cases "issue_miss pages (hp_pump hp) = []")
    case True
    then show ?thesis using that(1) assms(1) by (simp add: hp_issue_def Let_def)
  next
    case miss: False
    show ?thesis
    proof (cases "free_slot (hp_pump hp)")
      case (Some i)
      then show ?thesis using that(2) assms(1) miss by (simp add: hp_issue_def Let_def take_slot_def)
    next
      case None
      show ?thesis
      proof (cases "stall \<and> stall_loop yld (hp_pump hp) \<noteq> None")
        case True
        then obtain i h where "stall_loop yld (hp_pump hp) = Some (i, h)" by auto
        then show ?thesis using that(3) [of i h] assms(1) miss None nw True
          by (simp add: hp_issue_def Let_def take_slot_def)
      next
        case False
        then show ?thesis using that(1) assms(1) miss None nw
          by (cases stall; cases "stall_loop yld (hp_pump hp)")
            (auto simp: hp_issue_def Let_def take_slot_def split: if_splits)
      qed
    qed
  qed
  then show ?thesis
  proof cases
    case 1
    then show ?thesis using k by simp
  next
    case (2 i)
    then show ?thesis using k kept_issue_into free_slot_Some [OF 2(1)] kept_trans by metis
  next
    case (3 i h)
    then show ?thesis using k stall_loop_kept [OF 3(1) assms(2) nw(2)] kept_issue_into kept_trans
      by (metis fst_conv snd_conv)
  qed
qed

lemma cover_loop_induct [consumes 1, case_names step]:
  assumes "cover_loop yld need toks hp = Some r"
    and "\<And>loop yld need toks hp r. (\<And>yld need toks hp r. loop yld need toks hp = Some r \<Longrightarrow> P yld need toks hp r) \<Longrightarrow>
      (let hp1 = hp_pump hp; left = filter (\<lambda>p. \<not> hp_covers p hp1) need;
           orphans = filter (\<lambda>p. \<not> page_in_slot p hp1) left
       in if left = [] then Some (toks, hp1)
          else if \<not> hp_use_window hp1 \<and> orphans \<noteq> [] then
            (case hp_issue yld orphans 128 True False hp1 of
               None \<Rightarrow> None
             | Some (t, hp2) \<Rightarrow> loop yld left (if t = 0 then toks else toks @ [t]) hp2)
          else if active_slots hp1 = 0 then Some (toks, hp1)
          else loop yld left toks (yld hp1)) = Some r \<Longrightarrow>
      P yld need toks hp r"
  shows "P yld need toks hp r"
  by (rule cover_loop.raw_induct [OF assms(2) assms(1)])

lemma cover_loop_covers:
  assumes "cover_loop yld need toks hp = Some r" and "workers_keep yld" and "hp_score hp \<noteq> Score_window"
  shows "kept hp (snd r) \<and> (\<forall>q \<in> set need. hp_covers q (snd r))"
  using assms
proof (induction rule: cover_loop_induct)
  case (step loop yld need toks hp r)
  define hp1 where "hp1 = hp_pump hp"
  define left where "left = filter (\<lambda>p. \<not> hp_covers p hp1) need"
  have k: "kept hp hp1" unfolding hp1_def using step(4) by (rule kept_pump)
  have nw: "\<not> hp_use_window h" "hp_score h \<noteq> Score_window" if "kept hp h" for h
    using that step(4) by (simp_all add: hp_use_window_def kept_def)
  have rest: ?case if h: "kept hp h" and l: "kept hp1 h" "loop yld left t h = Some r" for t h
  proof -
    have r: "kept h (snd r)" "\<forall>q \<in> set left. hp_covers q (snd r)"
      using step(1) [OF l(2) step(3)] nw(2) [OF h] by blast+
    then have "kept hp1 (snd r)" "kept hp (snd r)" using h l(1) kept_trans by blast+
    then have "hp_covers q (snd r)" if "q \<in> set need" for q
      using r(2) that nw(1) [OF k] nw(1) [of "snd r"]
      by (cases "hp_covers q hp1") (auto simp: left_def hp_covers_def kept_def)
    then show ?thesis using \<open>kept hp (snd r)\<close> by blast
  qed
  define orphans where "orphans = filter (\<lambda>p. \<not> page_in_slot p hp1) left"
  consider "left = []" | "left \<noteq> []" "orphans \<noteq> []" | "left \<noteq> []" "orphans = []" by blast
  then show ?case
  proof cases
    case 1
    then have "snd r = hp1" using step(2) by (auto simp: Let_def hp1_def left_def)
    then show ?thesis using k 1 by (auto simp: left_def filter_empty_conv)
  next
    case 2
    then obtain t h where i: "hp_issue yld orphans 128 True False hp1 = Some (t, h)"
      and l: "loop yld left (if t = 0 then toks else toks @ [t]) h = Some r"
      using step(2) nw(1) [OF k]
      by (auto simp: Let_def hp1_def left_def orphans_def split: option.splits if_splits)
    have "kept hp1 h" using hp_issue_kept [OF i step(3) nw(2) [OF k]] .
    then show ?thesis using rest l k kept_trans by blast
  next
    case 3
    obtain p where p: "p \<in> set left" using 3(1) by (cases left) auto
    then have "page_in_slot p hp1" using 3(2) by (auto simp: orphans_def filter_empty_conv)
    then have "active_slots hp1 \<noteq> 0"
      by (auto simp: page_in_slot_def active_slots_def list_ex_iff filter_empty_conv)
    then have "loop yld left toks (yld hp1) = Some r"
      using step(2) 3 by (auto simp: Let_def hp1_def left_def orphans_def)
    moreover have "kept hp1 (yld hp1)" using step(3) by (rule workers_kept)
    ultimately show ?thesis using rest k kept_trans by blast
  qed
qed

text \<open>C24. When \<open>wait_covering\<close> returns in the bounce or the vmem mode, every needed page is
  covered, pages that were in no slot when it was called included: it never gives up early.\<close>
theorem wait_covering_covers:
  assumes "wait_covering yld need hp = Some (toks, hp')" and "workers_keep yld" and "hp_score hp \<noteq> Score_window"
  shows "covers_all need hp'"
proof (cases "need = []")
  case False
  then obtain h where h: "cover_loop yld (dedup need) [] hp = Some (toks, h)" "hp' = hp_pump h"
    using assms(1) by (auto simp: wait_covering_def)
  have c: "kept hp h" "\<forall>q \<in> set need. hp_covers q h"
    using cover_loop_covers [OF h(1) assms(2,3)] by simp_all
  then have "hp_score h \<noteq> Score_window" using assms(3) by (simp add: kept_def)
  then have "kept h hp'" unfolding h(2) by (rule kept_pump)
  then show ?thesis using c assms(3)
    by (auto simp: covers_all_def list_all_iff hp_covers_def hp_use_window_def kept_def)
qed (simp add: covers_all_def)

lemma workers_keep_id: "workers_keep id"
  by (simp add: workers_keep_def)

lemma wait_covering_covers_witness:
  "covers_all [0, 4] (snd (the (wait_covering id [0, 4] demo_filled)))"
proof -
  have "wait_covering id [0, 4] demo_filled \<noteq> None" by code_simp
  then obtain toks hp where "wait_covering id [0, 4] demo_filled = Some (toks, hp)" by auto
  moreover have "hp_score demo_filled \<noteq> Score_window" by code_simp
  ultimately show ?thesis using wait_covering_covers [OF _ workers_keep_id] by fastforce
qed

section \<open>A full pipe\<close>

text \<open>C34. In the bounce and vmem modes, when all slots are in use, an issue that is told to stall
  never returns: its loop waits for a free slot, and nothing the workers do frees one.\<close>
theorem full_pipe_stalls_forever:
  assumes "hp_score hp \<noteq> Score_window" and "workers_keep yld"
    and "\<forall>i < length (hp_slots hp). hi_active (slot hp i)" and "issue_miss pages (hp_pump hp) \<noteq> []"
  shows "hp_issue yld pages ttl True look hp = None"
proof -
  have full: "free_slot (hp_pump h) = None"
    if "hp_score h \<noteq> Score_window" "\<forall>i < length (hp_slots h). hi_active (slot h i)" for h
  proof -
    have s: "same_pipe h (hp_pump h)" using that(1) by (rule hp_pump_same)
    then show ?thesis using that(2) same_pipe_frame(10) [OF s] same_slot_fields(5) [OF same_pipe_slot [OF s]]
      by (auto simp: free_slot_def find_None_iff)
  qed
  have loop: "stall_loop yld h = Some r \<Longrightarrow> hp_score h \<noteq> Score_window \<Longrightarrow>
      \<forall>i < length (hp_slots h). hi_active (slot h i) \<Longrightarrow> workers_keep yld \<Longrightarrow> False" for h r
  proof (induction rule: stall_loop_induct)
    case (step stall yld h r)
    have s: "same_pipe h (hp_pump h)" using step(3) by (rule hp_pump_same)
    have "stall yld (yld (hp_pump h)) = Some r" using step(2) full [OF step(3,4)] by (simp add: Let_def)
    moreover have "hp_score (yld (hp_pump h)) \<noteq> Score_window"
      "\<forall>i < length (hp_slots (yld (hp_pump h))). hi_active (slot (yld (hp_pump h)) i)"
      using step(3,4,5) same_pipe_frame(6,10) [OF s] same_slot_fields(5) [OF same_pipe_slot [OF s]]
      unfolding workers_keep_def by simp_all
    ultimately show ?case using step(1,5) by blast
  qed
  have p: "hp_score (hp_pump hp) \<noteq> Score_window" "\<forall>i < length (hp_slots (hp_pump hp)). hi_active (slot (hp_pump hp) i)"
    using assms(1,3) same_pipe_frame(6,10) [OF hp_pump_same [OF assms(1)]]
      same_slot_fields(5) [OF same_pipe_slot [OF hp_pump_same [OF assms(1)]]] by simp_all
  have "stall_loop yld (hp_pump hp) = None"
    using loop [OF _ p assms(2)] by (cases "stall_loop yld (hp_pump hp)") auto
  then show ?thesis using assms(4) full [OF assms(1,3)] p(1)
    by (simp add: hp_issue_def take_slot_def Let_def hp_use_window_def)
qed

definition demo_full :: "unit hide_pipe" where
  "demo_full = (demo_pipe Score_bounce False)\<lparr>hp_slots := replicate kSlots (bounce_slot (\<lambda>_. 255) [0] 4 32 hide_empty)\<rparr>"

lemma full_pipe_stalls_forever_witness: "hp_issue id [8] 32 True False demo_full = None"
proof -
  have "issue_miss [8] (hp_pump demo_full) \<noteq> []" by code_simp
  moreover have "\<forall>i < length (hp_slots demo_full). hi_active (slot demo_full i)"
    by (simp add: demo_full_def)
  moreover have "hp_score demo_full \<noteq> Score_window" by (simp add: demo_full_def)
  ultimately show ?thesis using full_pipe_stalls_forever [OF _ workers_keep_id] by blast
qed

section \<open>Two hazards of the bounce mode\<close>

definition stale_issue1 :: "unit hide_pipe" where
  "stale_issue1 = snd (the (hp_issue id [4] 32 False False (demo_pipe Score_bounce True)))"

definition stale_issue2 :: "unit hide_pipe" where
  "stale_issue2 = snd (the (hp_issue id [0, 8] 32 False False stale_issue1))"

definition stale_pipe :: "unit hide_pipe" where
  "stale_pipe = the (run_pipe_job demo_driver 1 stale_issue2)"

text \<open>C35. With \<open>extent_run\<close> on, a page can be in two slots at once: the pipe then calls it
  covered because the later copy is ready, while \<open>copy_vec\<close> reads the earlier one, whose bytes
  have not arrived, and returns success with the wrong bytes.\<close>
theorem extent_run_reads_unfilled_page:
  "hide_reach demo_driver (demo_pipe Score_bounce True) stale_pipe \<and> covers_all [4] stale_pipe
   \<and> copy_vec 4 4 stale_pipe = Some [0, 255, 255, 255] \<and> image_bytes (ssd_image (hp_pl stale_pipe)) 4 4 = [5, 6, 7, 8]"
proof (intro conjI)
  have "hp_issue id [4] 32 False False (demo_pipe Score_bounce True) \<noteq> None" by code_simp
  then have 1: "hide_step demo_driver (demo_pipe Score_bounce True) stale_issue1"
    by (auto simp: stale_issue1_def intro: hs_issue)
  have "hp_issue id [0, 8] 32 False False stale_issue1 \<noteq> None" by code_simp
  then have 2: "hide_step demo_driver stale_issue1 stale_issue2" by (auto simp: stale_issue2_def intro: hs_issue)
  have "1 < length (hp_jobs stale_issue2)" "run_pipe_job demo_driver 1 stale_issue2 \<noteq> None" by code_simp+
  then have 3: "hide_step demo_driver stale_issue2 stale_pipe" by (auto simp: stale_pipe_def intro: hs_worker)
  show "hide_reach demo_driver (demo_pipe Score_bounce True) stale_pipe"
    using 1 2 3 by (blast intro: hide_reach.intros)
  show "covers_all [4] stale_pipe" "copy_vec 4 4 stale_pipe = Some [0, 255, 255, 255]"
    "image_bytes (ssd_image (hp_pl stale_pipe)) 4 4 = [5, 6, 7, 8]" by code_simp+
qed

definition busy_issue :: "unit hide_pipe" where
  "busy_issue = snd (the (hp_issue id (map ((*) 4) [0..<33]) 32 False False (demo_pipe Score_bounce False)))"

definition busy_pipe :: "unit hide_pipe" where
  "busy_pipe = the (run_pipe_job demo_driver 0 busy_issue)"

text \<open>\<open>release_pages\<close> gives up a slot whose needed pages are covered while a job of that slot
  is still queued: the job, which held pointers into the slot, is left without it.\<close>
theorem release_frees_busy_slot:
  "hide_reach demo_driver (demo_pipe Score_bounce False) busy_pipe \<and> covers_all [0] busy_pipe
   \<and> run_pipe_job demo_driver 0 busy_pipe \<noteq> None
   \<and> hp_jobs (release_pages [0] busy_pipe) = [(0, 1, 32, 1)]
   \<and> run_pipe_job demo_driver 0 (release_pages [0] busy_pipe) = None"
proof (intro conjI)
  have "hp_issue id (map ((*) 4) [0..<33]) 32 False False (demo_pipe Score_bounce False) \<noteq> None" by code_simp
  then have 1: "hide_step demo_driver (demo_pipe Score_bounce False) busy_issue"
    by (auto simp: busy_issue_def intro: hs_issue)
  have "0 < length (hp_jobs busy_issue)" "run_pipe_job demo_driver 0 busy_issue \<noteq> None" by code_simp+
  then have 2: "hide_step demo_driver busy_issue busy_pipe" by (auto simp: busy_pipe_def intro: hs_worker)
  show "hide_reach demo_driver (demo_pipe Score_bounce False) busy_pipe"
    using 1 2 by (blast intro: hide_reach.intros)
  show "covers_all [0] busy_pipe" "run_pipe_job demo_driver 0 busy_pipe \<noteq> None"
    "hp_jobs (release_pages [0] busy_pipe) = [(0, 1, 32, 1)]"
    "run_pipe_job demo_driver 0 (release_pages [0] busy_pipe) = None" by code_simp+
qed

end
