(* ===== verification/Hide_Warm.thy ===== *)
theory Hide_Warm
  imports Hide_Fill
begin

text \<open>
  \<open>hide_warm_entry_ball\<close> of \<open>serving/hide_fill.hpp\<close>: before the timed loop, the vectors of the
  entry point, its neighbours and their neighbours are fetched into the window and pinned. An
  \<open>unordered_set\<close> of ids is the list of its elements in insertion order; \<open>iter\<close> is the order in
  which the library walks it.
\<close>

section \<open>The ball\<close>

definition insert_id :: "nat \<Rightarrow> nat list \<Rightarrow> nat list" where
  "insert_id i ids = (if i \<in> set ids then ids else ids @ [i])"

definition add_nbrs :: "placement \<Rightarrow> layout_header \<Rightarrow> nat \<Rightarrow> nat \<Rightarrow> nat list \<Rightarrow> nat list" where
  "add_nbrs p h R i ids =
     (if h_n h \<le> i then ids
      else fold (\<lambda>v ids. if v < h_n h then insert_id v ids else ids) (hide_read_nbrs p h i R) ids)"

definition warm_hop1 :: "placement \<Rightarrow> layout_header \<Rightarrow> nat \<Rightarrow> nat \<Rightarrow> nat list" where
  "warm_hop1 p h R entry = add_nbrs p h R entry [entry]"

definition warm_ids :: "(nat list \<Rightarrow> nat list) \<Rightarrow> placement \<Rightarrow> layout_header \<Rightarrow> nat \<Rightarrow> nat list \<Rightarrow> nat \<Rightarrow> nat list" where
  "warm_ids iter p h R extra entry =
     (let hop1 = warm_hop1 p h R entry;
          ids = fold (add_nbrs p h R) (iter hop1) hop1
      in fold insert_id extra ids)"

definition warm_pages :: "(nat list \<Rightarrow> nat list) \<Rightarrow> placement \<Rightarrow> layout_header \<Rightarrow> nat \<Rightarrow> nat \<Rightarrow> nat list \<Rightarrow> nat \<Rightarrow> nat \<Rightarrow> nat list" where
  "warm_pages iter p h pb R extra entry cap =
     (let vb = h_dim h * h_vec_bytes h;
          seeds = fold insert_id (iter (warm_hop1 p h R entry)) [entry];
          ps0 = (if has_bundle p
                 then fst (fold (\<lambda>i. hide_collect_bundle_pages p h vb pb i (hide_read_nbrs p h i R) {} 0)
                        (iter seeds) (([], Some {}), None))
                 else ([], Some {}));
          pages = fst (fold (hide_collect_vec_pages p h vb pb) (iter (warm_ids iter p h R extra entry)) ps0)
      in if cap \<noteq> 0 \<and> pb \<noteq> 0 \<and> cap < length pages * pb then take (cap div pb) pages else pages)"

definition hide_warm_entry_ball ::
  "(hide_inflight \<times> dram_window \<times> 'd \<Rightarrow> hide_inflight \<times> dram_window \<times> 'd) \<Rightarrow> (nat list \<Rightarrow> nat list) \<Rightarrow>
   (nat \<Rightarrow> byte) \<Rightarrow> placement \<Rightarrow> layout_header \<Rightarrow> nat list \<Rightarrow> nat \<Rightarrow> nat \<Rightarrow> dram_window \<times> 'd \<Rightarrow> (nat \<times> dram_window \<times> 'd) option" where
  "hide_warm_entry_ball yld iter heap p h extra entry cap st =
     (case st of (w, d) \<Rightarrow>
        let vb = h_dim h * h_vec_bytes h; pb = page_bytes w; R = (if 64 < h_R h then 64 else h_R h);
            ids = warm_ids iter p h R extra entry;
            pages = warm_pages iter p h pb R extra entry cap;
            ((fl, w1, m1), jobs) = hide_issue heap p pages 128 False False False False True (hide_empty, w, wmetrics w)
        in (case hide_wait Score_window yld (fl, w1\<lparr>wmetrics := m1\<rparr>, d) of
              None \<Rightarrow> None
            | Some (fl2, w2, d2) \<Rightarrow>
                Some (length ids,
                      fold (\<lambda>i w. if diskann_layout p \<and> vec_stride p \<noteq> 0
                                  then win_pin (ssd_image p) (entry_off p h i) (vec_stride p) w
                                  else win_pin (ssd_image p) (vec_off p h i) vb w) (iter ids) w2,
                      d2)))"

section \<open>Lemmas\<close>

lemma set_insert_id [simp]: "set (insert_id i ids) = insert i (set ids)"
  by (auto simp: insert_id_def)

lemma set_add_nbrs:
  "set (add_nbrs p h R i ids) =
     set ids \<union> (if i < h_n h then {v \<in> set (hide_read_nbrs p h i R). v < h_n h} else {})"
proof -
  have "set (fold (\<lambda>v ids. if v < h_n h then insert_id v ids else ids) vs ids) = set ids \<union> {v \<in> set vs. v < h_n h}" for vs
    by (induction vs arbitrary: ids) auto
  then show ?thesis by (auto simp: add_nbrs_def)
qed

lemma set_fold_add_nbrs:
  "set (fold (add_nbrs p h R) is ids) =
     set ids \<union> {v. v < h_n h \<and> (\<exists>i \<in> set is. i < h_n h \<and> v \<in> set (hide_read_nbrs p h i R))}"
  by (induction "is" arbitrary: ids) (auto simp: set_add_nbrs)

definition valid_nbrs :: "placement \<Rightarrow> layout_header \<Rightarrow> nat \<Rightarrow> nat \<Rightarrow> nat set" where
  "valid_nbrs p h R i = (if i < h_n h then {v \<in> set (hide_read_nbrs p h i R). v < h_n h} else {})"

text \<open>The ids are the entry, its neighbours, their neighbours, and the extra ids.\<close>

lemma set_warm_ids:
  assumes "\<And>xs. set (iter xs) = set xs"
  shows "set (warm_ids iter p h R extra entry) =
    {entry} \<union> valid_nbrs p h R entry \<union> (\<Union>i \<in> {entry} \<union> valid_nbrs p h R entry. valid_nbrs p h R i) \<union> set extra"
proof -
  have "set (fold insert_id xs ids) = set ids \<union> set xs" for xs ids
    by (induction xs arbitrary: ids) auto
  then show ?thesis
    by (auto simp: warm_ids_def warm_hop1_def Let_def set_fold_add_nbrs assms(1) set_add_nbrs valid_nbrs_def split: if_splits)
qed

end
