(* ===== verification/Cont_Batch.thy ===== *)
theory Cont_Batch
  imports Hide_Props
begin

text \<open>
  \<open>serving/cont_batch.hpp\<close>: which seat a thread that keeps several queries in flight serves
  next, and \<open>PrefetchHub\<close>, one fill pipe shared by all threads behind a mutex. Seats are a
  list; \<open>covering\<close> is \<open>None\<close> for a null pointer. A decision's slot \<open>-1\<close> is \<open>None\<close>.
\<close>

section \<open>Seats and decisions\<close>

datatype cb_st = CbEmpty | CbReady | CbWait | CbBusy | CbDone | CbHold

datatype pipe2_act = AFill | ARank | AWait | ADone | APump | AIssue

type_synonym pipe2_dec = "pipe2_act \<times> nat option"

definition pipe2_stagger_us :: "int \<Rightarrow> nat \<Rightarrow> nat" where
  "pipe2_stagger_us t us = (if t \<le> 0 \<or> us = 0 then 0 else us * nat t)"

definition issue_qd_ok :: "nat \<Rightarrow> nat \<Rightarrow> bool" where
  "issue_qd_ok infl qd \<longleftrightarrow> qd = 0 \<or> infl < qd"

definition effective_issue_qd :: "nat \<Rightarrow> int \<Rightarrow> nat" where
  "effective_issue_qd cli nthreads =
     (if cli = 0 then (if 0 < nthreads then nat nthreads else 1) else cli)"

text \<open>The first seat of a kind.\<close>

definition first_seat :: "(nat \<Rightarrow> bool) \<Rightarrow> cb_st list \<Rightarrow> nat option" where
  "first_seat P st = List.find P [0..<length st]"

definition seat_is :: "cb_st list \<Rightarrow> cb_st \<Rightarrow> nat \<Rightarrow> bool" where
  "seat_is st k i \<longleftrightarrow> st ! i = k"

definition rankable :: "cb_st list \<Rightarrow> bool list option \<Rightarrow> nat \<Rightarrow> bool" where
  "rankable st covering i \<longleftrightarrow> (seat_is st CbWait i \<or> seat_is st CbReady i) \<and>
     (case covering of Some c \<Rightarrow> c ! i | None \<Rightarrow> False)"

definition steal_decide :: "cb_st list \<Rightarrow> bool list option \<Rightarrow> bool \<Rightarrow> bool \<Rightarrow> pipe2_dec" where
  "steal_decide st covering has_more qd_ok =
     (case (if qd_ok then first_seat (seat_is st CbHold) st else None) of
        Some i \<Rightarrow> (AIssue, Some i)
      | None \<Rightarrow>
     (case (if has_more then first_seat (seat_is st CbEmpty) st else None) of
        Some i \<Rightarrow> (AFill, Some i)
      | None \<Rightarrow>
     (case first_seat (rankable st covering) st of
        Some i \<Rightarrow> (ARank, Some i)
      | None \<Rightarrow>
     (case first_seat (\<lambda>i. seat_is st CbWait i \<or> seat_is st CbHold i) st of
        Some i \<Rightarrow> (APump, Some i)
      | None \<Rightarrow> (ADone, None)))))"

definition pipe2_decide :: "cb_st list \<Rightarrow> bool list option \<Rightarrow> bool \<Rightarrow> pipe2_dec" where
  "pipe2_decide st covering has_more =
     (case (if has_more then first_seat (seat_is st CbEmpty) st else None) of
        Some i \<Rightarrow> (AFill, Some i)
      | None \<Rightarrow>
     (case first_seat (rankable st covering) st of
        Some i \<Rightarrow> (ARank, Some i)
      | None \<Rightarrow>
     (case first_seat (\<lambda>i. seat_is st CbWait i \<or> seat_is st CbReady i) st of
        Some i \<Rightarrow> (AWait, Some i)
      | None \<Rightarrow> (ADone, None))))"

text \<open>Null parts are \<open>None\<close>.\<close>

definition merge_unique_pages :: "nat list option list \<Rightarrow> nat list" where
  "merge_unique_pages parts =
     fst (fold (\<lambda>q st. case q of None \<Rightarrow> st | Some ps \<Rightarrow> fold push_new ps st) parts ([], {}))"

definition pick_ready :: "cb_st list \<Rightarrow> nat option" where
  "pick_ready st = first_seat (seat_is st CbReady) st"

definition ring_find :: "(nat \<Rightarrow> bool) \<Rightarrow> nat \<Rightarrow> nat \<Rightarrow> nat option" where
  "ring_find P n start = map_option (\<lambda>k. (start + k) mod n) (List.find (\<lambda>k. P ((start + k) mod n)) [0..<n])"

definition pick_steal :: "cb_st list \<Rightarrow> int \<Rightarrow> nat option" where
  "pick_steal st start0 =
     (let n = length st; start = nat (if start0 < 0 then 0 else start0)
      in if n = 0 then None
         else case ring_find (seat_is st CbReady) n start of
                Some i \<Rightarrow> Some i
              | None \<Rightarrow> ring_find (seat_is st CbWait) n start)"

section \<open>The shared pipe\<close>

record 'd prefetch_hub =
  hub_pipe :: "'d hide_pipe"
  issue_n :: nat
  issue_pages :: nat

definition hub_bind :: "dram_window \<Rightarrow> placement \<Rightarrow> vmem_io option \<Rightarrow> metrics option \<Rightarrow> 'd prefetch_hub \<Rightarrow> 'd prefetch_hub" where
  "hub_bind w p vio m h = h\<lparr>hub_pipe := (hub_pipe h)\<lparr>hp_win := w, hp_pl := p, hp_vio := vio, hp_m := m\<rparr>\<rparr>"

definition hub_send :: "('d hide_pipe \<Rightarrow> 'd hide_pipe) \<Rightarrow> bool \<Rightarrow> nat list \<Rightarrow> 'd prefetch_hub \<Rightarrow> (nat \<times> 'd prefetch_hub) option" where
  "hub_send yld stall pages h =
     (if pages = [] then Some (0, h)
      else map_option (\<lambda>(t, p). (t, h\<lparr>issue_n := issue_n h + 1, issue_pages := issue_pages h + length pages, hub_pipe := p\<rparr>))
             (hp_issue yld pages 128 stall False (hub_pipe h)))"

definition hub_submit :: "('d hide_pipe \<Rightarrow> 'd hide_pipe) \<Rightarrow> nat list \<Rightarrow> 'd prefetch_hub \<Rightarrow> (nat \<times> 'd prefetch_hub) option" where
  "hub_submit yld pages h = hub_send yld False pages h"

definition hub_submit_block :: "('d hide_pipe \<Rightarrow> 'd hide_pipe) \<Rightarrow> nat list \<Rightarrow> 'd prefetch_hub \<Rightarrow> (nat \<times> 'd prefetch_hub) option" where
  "hub_submit_block yld pages h = hub_send yld True pages h"

definition hub_wait_covering :: "('d hide_pipe \<Rightarrow> 'd hide_pipe) \<Rightarrow> nat list \<Rightarrow> 'd prefetch_hub \<Rightarrow> (nat list \<times> 'd prefetch_hub) option" where
  "hub_wait_covering yld need h =
     map_option (\<lambda>(ts, p). (ts, h\<lparr>hub_pipe := p\<rparr>)) (wait_covering yld need (hub_pipe h))"

definition hub_pump :: "'d prefetch_hub \<Rightarrow> 'd prefetch_hub" where
  "hub_pump h = h\<lparr>hub_pipe := hp_pump (hub_pipe h)\<rparr>"

definition free_slots :: "'d prefetch_hub \<Rightarrow> nat" where
  "free_slots h = length (filter (\<lambda>s. \<not> hi_active s) (hp_slots (hub_pipe h)))"

definition any_inflight :: "'d prefetch_hub \<Rightarrow> bool" where
  "any_inflight h = list_ex hi_active (hp_slots (hub_pipe h))"

section \<open>Lemmas\<close>

lemma first_seat_Some: "first_seat P st = Some i \<longleftrightarrow> i < length st \<and> P i \<and> (\<forall>j < i. \<not> P j)"
  by (auto simp: first_seat_def find_Some_iff)

lemma first_seat_None: "first_seat P st = None \<longleftrightarrow> (\<forall>i < length st. \<not> P i)"
  by (auto simp: first_seat_def find_None_iff)

lemma ring_find_Some:
  assumes "ring_find P n start = Some i" and "0 < n"
  shows "i < n \<and> P i"
  using assms by (auto simp: ring_find_def find_Some_iff)

lemma ring_find_None:
  assumes "ring_find P n start = None" and "i < n"
  shows "\<not> P i"
proof -
  have lt: "start mod n < n" using assms(2) by simp
  then have "start mod n + (n - start mod n + i) = n + i" by simp
  then have "(start + (n - start mod n + i) mod n) mod n = (n + i) mod n" by (metis mod_add_left_eq mod_add_right_eq)
  then have "(start + (n - start mod n + i) mod n) mod n = i" using assms(2) by simp
  moreover have "(n - start mod n + i) mod n < n" using assms(2) by simp
  ultimately show ?thesis using assms(1)
    by (auto simp: ring_find_def find_None_iff)
qed

lemma pick_steal_spec:
  "(case pick_steal st s of
      Some i \<Rightarrow> i < length st \<and> (st ! i = CbReady \<or> st ! i = CbWait \<and> (\<forall>j < length st. st ! j \<noteq> CbReady))
    | None \<Rightarrow> \<forall>j < length st. st ! j \<noteq> CbReady \<and> st ! j \<noteq> CbWait)"
proof (cases "st = []")
  case True
  then show ?thesis by (simp add: pick_steal_def)
next
  case False
  define a where "a = nat (if s < 0 then 0 else s)"
  show ?thesis
  proof (cases "ring_find (seat_is st CbReady) (length st) a")
    case (Some i)
    then show ?thesis using False ring_find_Some [OF Some] by (simp add: pick_steal_def Let_def a_def seat_is_def)
  next
    case None
    then have nr: "\<forall>j < length st. st ! j \<noteq> CbReady" using ring_find_None [OF None] by (auto simp: seat_is_def)
    have e: "pick_steal st s = ring_find (seat_is st CbWait) (length st) a"
      using False None by (simp add: pick_steal_def Let_def a_def)
    show ?thesis
    proof (cases "pick_steal st s")
      case (Some i)
      then show ?thesis using False nr ring_find_Some [of "seat_is st CbWait" "length st" a i]
        by (simp add: e seat_is_def)
    next
      case w: None
      then show ?thesis using nr ring_find_None [of "seat_is st CbWait" "length st" a] by (auto simp: e seat_is_def)
    qed
  qed
qed

lemma merge_unique_set: "set (merge_unique_pages parts) = (\<Union>ps \<in> set (List.map_filter id parts). set ps)"
  and merge_unique_distinct: "distinct (merge_unique_pages parts)"
proof -
  let ?f = "\<lambda>q st. case q of None \<Rightarrow> st | Some ps \<Rightarrow> fold push_new ps st"
  have e: "fold ?f parts st = fold push_new (concat (List.map_filter id parts)) st" for st
    by (induction parts arbitrary: st) (auto simp: List.map_filter_simps split: option.split)
  have m: "merge_unique_pages parts = dedup (concat (List.map_filter id parts))"
    by (simp add: merge_unique_pages_def dedup_def e)
  show "set (merge_unique_pages parts) = (\<Union>ps \<in> set (List.map_filter id parts). set ps)"
    "distinct (merge_unique_pages parts)" by (simp_all add: m)
qed

section \<open>Properties\<close>

text \<open>The decision of the stealing scheduler (\<open>steal_decide\<close>) is the first that applies of:
  issue a held query while the queue has room, fill an empty seat, rank a waiting query whose
  pages are in, pump; the seat it names is in the state the action needs. It reports Done exactly
  when no action applies, and it never asks a thread to wait.\<close>
theorem steal_decide_priority:
  "case steal_decide st covering has_more qd_ok of
     (AIssue, s) \<Rightarrow> (\<exists>i < length st. s = Some i \<and> st ! i = CbHold \<and> qd_ok)
   | (AFill, s) \<Rightarrow> (\<exists>i < length st. s = Some i \<and> st ! i = CbEmpty) \<and> has_more
       \<and> (qd_ok \<longrightarrow> CbHold \<notin> set st)
   | (ARank, s) \<Rightarrow> (\<exists>i < length st. s = Some i \<and> rankable st covering i)
       \<and> (qd_ok \<longrightarrow> CbHold \<notin> set st) \<and> (has_more \<longrightarrow> CbEmpty \<notin> set st)
   | (APump, s) \<Rightarrow> (\<exists>i < length st. s = Some i \<and> (st ! i = CbWait \<or> st ! i = CbHold))
       \<and> (\<forall>i < length st. \<not> rankable st covering i)
   | (ADone, s) \<Rightarrow> s = None \<and> CbWait \<notin> set st \<and> CbHold \<notin> set st \<and> (has_more \<longrightarrow> CbEmpty \<notin> set st)
       \<and> (\<forall>i < length st. \<not> rankable st covering i)
   | (AWait, s) \<Rightarrow> False"
proof -
  have n: "first_seat (seat_is st k) st = None \<longleftrightarrow> k \<notin> set st" for k
    by (auto simp: first_seat_None seat_is_def in_set_conv_nth)
  have wh: "first_seat (\<lambda>i. seat_is st CbWait i \<or> seat_is st CbHold i) st = None \<longleftrightarrow> CbWait \<notin> set st \<and> CbHold \<notin> set st"
    by (auto simp: first_seat_None seat_is_def in_set_conv_nth)
  show ?thesis
  proof (cases "if qd_ok then first_seat (seat_is st CbHold) st else None")
    case (Some i)
    then show ?thesis by (simp add: steal_decide_def first_seat_Some seat_is_def split: if_splits)
  next
    case h: None
    then have h': "qd_ok \<longrightarrow> CbHold \<notin> set st" by (simp add: n split: if_splits)
    show ?thesis
    proof (cases "if has_more then first_seat (seat_is st CbEmpty) st else None")
      case (Some i)
      then show ?thesis using h' by (simp add: steal_decide_def h first_seat_Some seat_is_def split: if_splits)
    next
      case e: None
      then have e': "has_more \<longrightarrow> CbEmpty \<notin> set st" by (simp add: n split: if_splits)
      show ?thesis
      proof (cases "first_seat (rankable st covering) st")
        case (Some i)
        then have "i < length st \<and> rankable st covering i" by (simp add: first_seat_Some)
        with Some show ?thesis using h' e' by (simp add: steal_decide_def h e)
      next
        case r: None
        then have r': "\<forall>i < length st. \<not> rankable st covering i" by (simp add: first_seat_None)
        show ?thesis
        proof (cases "first_seat (\<lambda>i. seat_is st CbWait i \<or> seat_is st CbHold i) st")
          case (Some i)
          then have "i < length st \<and> (st ! i = CbWait \<or> st ! i = CbHold)" by (simp add: first_seat_Some seat_is_def)
          with Some show ?thesis using h' e' r' by (simp add: steal_decide_def h e r)
        next
          case None
          with wh have "CbWait \<notin> set st \<and> CbHold \<notin> set st" by simp
          with None show ?thesis using h' e' r' by (simp add: steal_decide_def h e r)
        qed
      qed
    qed
  qed
qed

lemma steal_decide_priority_witness:
  "fst (steal_decide [CbWait, CbHold, CbEmpty] (Some [True, False, False]) True False) = AFill \<and>
   steal_decide [CbWait, CbHold, CbEmpty] (Some [True, False, False]) True False \<noteq> (ARank, Some 0)"
proof -
  have "steal_decide [CbWait, CbHold, CbEmpty] (Some [True, False, False]) True False = (AFill, Some 2)" by code_simp
  then show ?thesis
    using steal_decide_priority [where st = "[CbWait, CbHold, CbEmpty]" and covering = "Some [True, False, False]"
      and has_more = True and qd_ok = False] by simp
qed

end
