(* ===== verification/Beam.thy ===== *)
theory Beam
  imports Sorting
begin

text \<open>
  The candidate list and the greedy loop that every search of \<open>serving/search_beam.cpp\<close> has in
  common: \<open>insert_cand\<close>, \<open>pick_best\<close>, the expansion of one node and the loop that stops when all
  candidates are expanded or the number of expansions is used up. Scoring and reading neighbours
  act on a state \<open>'s\<close> (window, prefetcher, metrics); a score of \<open>None\<close> is an id the code skips.
  Distances are any linear order.
\<close>

section \<open>Candidates\<close>

type_synonym 'f cand = "'f \<times> nat"

text \<open>\<open>std::max_element\<close>: the first largest.\<close>

definition worst_at :: "('f :: linorder) cand list \<Rightarrow> nat" where
  "worst_at cs = fold (\<lambda>i b. if fst (cs ! b) < fst (cs ! i) then i else b) [1..<length cs] 0"

text \<open>With no candidate allowed the code would write through the end iterator; here nothing happens.\<close>

definition insert_cand :: "nat \<Rightarrow> nat \<Rightarrow> 'f \<Rightarrow> ('f :: linorder) cand list \<Rightarrow> 'f cand list" where
  "insert_cand L i d cs =
     (if L \<le> length cs
      then (if cs = [] \<or> fst (cs ! worst_at cs) \<le> d then cs else cs[worst_at cs := (d, i)])
      else cs @ [(d, i)])"

definition pick_best :: "nat set \<Rightarrow> ('f :: linorder) cand list \<Rightarrow> nat option" where
  "pick_best expanded cs =
     fold (\<lambda>i b. if snd (cs ! i) \<in> expanded then b
                 else case b of None \<Rightarrow> Some i | Some j \<Rightarrow> if fst (cs ! i) < fst (cs ! j) then Some i else b)
       [0..<length cs] None"

definition cand_less :: "('f :: linorder) cand \<Rightarrow> 'f cand \<Rightarrow> bool" where
  "cand_less a b \<longleftrightarrow> fst a < fst b"

definition take_top :: "nat \<Rightarrow> ('f :: linorder) cand list \<Rightarrow> nat list" where
  "take_top k cs = map snd (take k (std_sort cand_less cs))"

section \<open>The loop\<close>

record ('f, 's) beam =
  b_cand :: "'f cand list"
  b_seen :: "nat set"
  b_expanded :: "nat set"
  b_expands :: nat
  b_st :: 's

definition score_into :: "nat \<Rightarrow> (nat \<Rightarrow> 's \<Rightarrow> 'f option \<times> 's) \<Rightarrow> nat \<Rightarrow> ('f :: linorder, 's) beam \<Rightarrow> ('f, 's) beam" where
  "score_into L score i b =
     (case score i (b_st b) of
        (None, s) \<Rightarrow> b\<lparr>b_st := s\<rparr>
      | (Some d, s) \<Rightarrow> b\<lparr>b_st := s, b_cand := insert_cand L i d (b_cand b)\<rparr>)"

definition visit_nbr :: "nat \<Rightarrow> nat \<Rightarrow> (nat \<Rightarrow> 's \<Rightarrow> 'f option \<times> 's) \<Rightarrow> nat \<Rightarrow> ('f :: linorder, 's) beam \<Rightarrow> ('f, 's) beam" where
  "visit_nbr L n score nb b =
     (if n \<le> nb \<or> nb \<in> b_seen b then b
      else score_into L score nb (b\<lparr>b_seen := insert nb (b_seen b)\<rparr>))"

definition mark_expanded :: "nat \<Rightarrow> ('f, 's) beam \<Rightarrow> ('f, 's) beam" where
  "mark_expanded cur b = b\<lparr>b_expanded := insert cur (b_expanded b), b_expands := b_expands b + 1\<rparr>"

definition expand_one ::
  "nat \<Rightarrow> nat \<Rightarrow> (nat \<Rightarrow> 's \<Rightarrow> nat list \<times> 's) \<Rightarrow> (nat \<Rightarrow> 's \<Rightarrow> 'f option \<times> 's) \<Rightarrow> nat \<Rightarrow> ('f :: linorder, 's) beam \<Rightarrow> ('f, 's) beam" where
  "expand_one L n nbrs_of score cur b =
     (case nbrs_of cur (b_st b) of
        (ns, s) \<Rightarrow> fold (visit_nbr L n score) ns (b\<lparr>b_st := s\<rparr>))"

text \<open>\<open>pre\<close> runs at the head of every iteration, \<open>post\<close> after the \<open>k\<close>-th expansion; \<open>iters = 0\<close>
  means no limit. \<open>None\<close> is a loop that does not end.\<close>

partial_function (option) beam_loop ::
  "nat \<Rightarrow> nat \<Rightarrow> nat \<Rightarrow> ('s \<Rightarrow> 's) \<Rightarrow> (nat \<Rightarrow> 's \<Rightarrow> 's) \<Rightarrow> (nat \<Rightarrow> 's \<Rightarrow> nat list \<times> 's) \<Rightarrow>
   (nat \<Rightarrow> 's \<Rightarrow> 'f option \<times> 's) \<Rightarrow> ('f :: linorder, 's) beam \<Rightarrow> ('f, 's) beam option" where
  [code]: "beam_loop L n iters pre post nbrs_of score b0 =
     (let b = b0\<lparr>b_st := pre (b_st b0)\<rparr>
      in case pick_best (b_expanded b) (b_cand b) of
           None \<Rightarrow> Some b
         | Some bi \<Rightarrow>
             if iters \<noteq> 0 \<and> iters \<le> b_expands b then Some b
             else (let cur = snd (b_cand b ! bi);
                       b1 = expand_one L n nbrs_of score cur (mark_expanded cur b)
                   in beam_loop L n iters pre post nbrs_of score
                        (b1\<lparr>b_st := post (b_expands b1) (b_st b1)\<rparr>)))"

definition beam_start :: "'s \<Rightarrow> ('f, 's) beam" where
  "beam_start s = \<lparr>b_cand = [], b_seen = {}, b_expanded = {}, b_expands = 0, b_st = s\<rparr>"

definition beam_entry :: "nat \<Rightarrow> (nat \<Rightarrow> 's \<Rightarrow> 'f option \<times> 's) \<Rightarrow> nat \<Rightarrow> 's \<Rightarrow> ('f :: linorder, 's) beam" where
  "beam_entry L score entry s = score_into L score entry ((beam_start s)\<lparr>b_seen := {entry}\<rparr>)"

section \<open>Picking\<close>

lemma pick_best_spec:
  "case pick_best E cs of
     None \<Rightarrow> \<forall>i < length cs. snd (cs ! i) \<in> E
   | Some j \<Rightarrow> j < length cs \<and> snd (cs ! j) \<notin> E \<and>
       (\<forall>i < length cs. snd (cs ! i) \<notin> E \<longrightarrow> fst (cs ! j) \<le> fst (cs ! i))"
proof -
  define f where "f = (\<lambda>i b. if snd (cs ! i) \<in> E then b
    else case b of None \<Rightarrow> Some i | Some j \<Rightarrow> if fst (cs ! i) < fst (cs ! j) then Some i else b)"
  have "case fold f [0..<k] None of
     None \<Rightarrow> \<forall>i < k. snd (cs ! i) \<in> E
   | Some j \<Rightarrow> j < k \<and> snd (cs ! j) \<notin> E \<and> (\<forall>i < k. snd (cs ! i) \<notin> E \<longrightarrow> fst (cs ! j) \<le> fst (cs ! i))" for k
  proof (induction k)
    case (Suc k)
    show ?case
    proof (cases "fold f [0..<k] None")
      case None
      then show ?thesis using Suc by (auto simp: f_def less_Suc_eq)
    next
      case (Some j)
      then show ?thesis using Suc by (auto simp: f_def less_Suc_eq not_less)
    qed
  qed simp
  from this [of "length cs"] show ?thesis by (simp only: pick_best_def f_def)
qed

lemma pick_best_Some:
  assumes "pick_best E cs = Some j"
  shows "j < length cs" "snd (cs ! j) \<notin> E" "\<And>i. i < length cs \<Longrightarrow> snd (cs ! i) \<notin> E \<Longrightarrow> fst (cs ! j) \<le> fst (cs ! i)"
  using pick_best_spec [where E = E and cs = cs] assms by auto

lemma pick_best_None: "pick_best E cs = None \<Longrightarrow> snd ` set cs \<subseteq> E"
  using pick_best_spec [where E = E and cs = cs] by (metis (no_types, lifting) image_subsetI in_set_conv_nth option.case(1))

lemma worst_at_spec:
  assumes "cs \<noteq> []"
  shows "worst_at cs < length cs" and "c \<in> set cs \<Longrightarrow> fst c \<le> fst (cs ! worst_at cs)"
proof -
  define f where "f = (\<lambda>i b. if fst (cs ! b) < fst (cs ! i) then i else b)"
  have step: "f (Suc k) b \<le> Suc k \<and> (\<forall>i \<le> Suc k. fst (cs ! i) \<le> fst (cs ! f (Suc k) b))"
    if "b \<le> k" "\<forall>i \<le> k. fst (cs ! i) \<le> fst (cs ! b)" for k b
  proof (cases "fst (cs ! b) < fst (cs ! Suc k)")
    case True
    then have e: "f (Suc k) b = Suc k" by (simp add: f_def)
    have "fst (cs ! i) \<le> fst (cs ! Suc k)" if i: "i \<le> Suc k" for i
      using that \<open>\<forall>i \<le> k. fst (cs ! i) \<le> fst (cs ! b)\<close> True by (cases "i = Suc k") (auto simp: le_Suc_eq intro: order_trans less_imp_le)
    then show ?thesis by (simp add: e)
  next
    case False
    then have e: "f (Suc k) b = b" by (simp add: f_def)
    show ?thesis using that False by (auto simp: e le_Suc_eq)
  qed
  have "fold f [1..<Suc k] 0 \<le> k \<and> (\<forall>i \<le> k. fst (cs ! i) \<le> fst (cs ! fold f [1..<Suc k] 0))" for k
  proof (induction k)
    case (Suc k)
    have "fold f [1..<Suc (Suc k)] 0 = f (Suc k) (fold f [1..<Suc k] 0)" by simp
    with step [of "fold f [1..<Suc k] 0" k] Suc show ?case by metis
  qed simp
  from this [of "length cs - 1"] assms have "worst_at cs \<le> length cs - 1"
    "\<forall>i \<le> length cs - 1. fst (cs ! i) \<le> fst (cs ! worst_at cs)"
    by (simp_all add: worst_at_def f_def)
  moreover have "length cs - 1 < length cs" using assms by simp
  ultimately show "worst_at cs < length cs" "c \<in> set cs \<Longrightarrow> fst c \<le> fst (cs ! worst_at cs)"
    by (linarith, metis Suc_diff_1 in_set_conv_nth length_pos_if_in_set less_Suc_eq_le)
qed

section \<open>The best candidates so far\<close>

text \<open>\<open>best_of L f S cs\<close>: \<open>cs\<close> holds \<open>L\<close> of the best ids of \<open>S\<close>, or all of them.\<close>

definition best_of :: "nat \<Rightarrow> (nat \<Rightarrow> 'f) \<Rightarrow> nat set \<Rightarrow> ('f :: linorder) cand list \<Rightarrow> bool" where
  "best_of L f S cs \<longleftrightarrow>
     distinct (map snd cs) \<and> snd ` set cs \<subseteq> S \<and> (\<forall>c \<in> set cs. fst c = f (snd c)) \<and> length cs \<le> L \<and>
     (\<forall>i \<in> S - snd ` set cs. length cs = L \<and> (\<forall>c \<in> set cs. fst c \<le> f i))"

lemma best_of_Nil [simp]: "best_of L f {} []"
  by (simp add: best_of_def)

lemma insert_cand_best:
  assumes b: "best_of L f S cs" and i: "i \<notin> S" and L: "0 < L"
  shows "best_of L f (insert i S) (insert_cand L i (f i) cs)"
proof (cases "L \<le> length cs")
  case False
  then have "S \<subseteq> snd ` set cs" using b by (auto simp: best_of_def)
  then show ?thesis using False b i by (auto simp: best_of_def insert_cand_def)
next
  case True
  then have len: "length cs = L" and ne: "cs \<noteq> []" using b L by (auto simp: best_of_def)
  let ?w = "worst_at cs"
  note w = worst_at_spec [OF ne]
  show ?thesis
  proof (cases "fst (cs ! ?w) \<le> f i")
    case keep: True
    then have "\<forall>c \<in> set cs. fst c \<le> f i" using w(2) order_trans by blast
    moreover have "insert_cand L i (f i) cs = cs" using True keep by (simp add: insert_cand_def)
    ultimately show ?thesis using b len unfolding best_of_def by (auto; force)
  next
    case False
    then have lt: "f i < fst (cs ! ?w)" by simp
    define cs' where "cs' = cs[?w := (f i, i)]"
    have e: "insert_cand L i (f i) cs = cs'" using True ne False by (simp add: insert_cand_def cs'_def)
    have dist: "distinct (map snd cs)" using b by (simp add: best_of_def)
    have ids: "map snd cs' = (map snd cs)[?w := i]" by (simp add: cs'_def map_update)
    have inS: "snd ` set cs \<subseteq> S" using b by (simp add: best_of_def)
    have "distinct (map snd cs')"
      unfolding ids using dist inS i w(1) by (intro distinct_list_update) auto
    moreover have s': "set cs' \<subseteq> insert (f i, i) (set cs)" by (simp add: cs'_def set_update_subset_insert)
    moreover have mem: "c \<in> set cs'" if "c \<in> set cs" "c \<noteq> cs ! ?w" for c
    proof -
      obtain k where "k < length cs" "cs ! k = c" using \<open>c \<in> set cs\<close> by (metis in_set_conv_nth)
      moreover then have "k \<noteq> ?w" using that by auto
      ultimately show ?thesis unfolding cs'_def by (metis length_list_update nth_list_update_neq nth_mem)
    qed
    moreover have "(f i, i) \<in> set cs'" unfolding cs'_def using w(1) by (rule set_update_memI)
    moreover have "\<forall>c \<in> set cs'. fst c \<le> fst (cs ! ?w)" using s' w(2) lt by auto
    moreover have "fst (cs ! ?w) \<le> f j" if "j \<in> insert i S - snd ` set cs'" for j
    proof (cases "j \<in> snd ` set cs")
      case True
      then obtain c where c: "c \<in> set cs" "snd c = j" by auto
      have "c \<notin> set cs'" using that c(2) by blast
      then have "c = cs ! ?w" using mem c(1) by blast
      then show ?thesis using b c by (auto simp: best_of_def)
    next
      case False
      then have "j \<in> S - snd ` set cs" using that \<open>(f i, i) \<in> set cs'\<close> by force
      then show ?thesis using b w(1) by (auto simp: best_of_def)
    qed
    moreover have "snd ` set cs' \<subseteq> insert i S" using s' inS by force
    moreover have "\<forall>c \<in> set cs'. fst c = f (snd c)" using s' b by (auto simp: best_of_def)
    moreover have "length cs' = L" by (simp add: cs'_def len)
    ultimately show ?thesis unfolding e best_of_def by (meson order_trans order_refl)
  qed
qed

lemma cand_less_weak: "strict_weak cand_less"
  unfolding cand_less_def [abs_def] by (rule strict_weak_key)

interpretation by_dist: sorter cand_less "std_sort cand_less"
  by (rule sorter_std_sort [OF cand_less_weak])

text \<open>The ids returned are the best candidates, best first.\<close>

lemma take_top_best:
  assumes "best_of L f S cs" and "k \<le> L"
  shows "distinct (take_top k cs)" "set (take_top k cs) \<subseteq> S" "length (take_top k cs) = min k (length cs)"
    "sorted (map f (take_top k cs))" "i \<in> S \<Longrightarrow> i \<notin> set (take_top k cs) \<Longrightarrow> j \<in> set (take_top k cs) \<Longrightarrow> f j \<le> f i"
proof -
  let ?s = "std_sort cand_less cs"
  have ss: "set ?s = set cs" by (rule by_dist.set_srt)
  have fs: "fst c = f (snd c)" if "c \<in> set cs" for c using assms(1) that by (simp add: best_of_def)
  show "distinct (take_top k cs)"
    using assms(1) by_dist.distinct_map_srt [of snd cs] by (simp add: take_top_def best_of_def distinct_take flip: take_map)
  show "set (take_top k cs) \<subseteq> S"
    using assms(1) set_take_subset [of k ?s] ss by (auto simp: take_top_def best_of_def)
  show "length (take_top k cs) = min k (length cs)"
    by (simp add: take_top_def by_dist.length_srt min.commute)
  have "sorted (map fst (take k ?s))"
  proof -
    have "sorted_wrt (\<lambda>x y. \<not> cand_less y x) (take k ?s)" using by_dist.ordered by (rule sorted_wrt_take)
    then show ?thesis by (simp add: sorted_map cand_less_def not_less)
  qed
  moreover have "map f (take_top k cs) = map fst (take k ?s)"
    using fs set_take_subset [of k ?s] ss by (auto simp: take_top_def)
  ultimately show "sorted (map f (take_top k cs))" by simp
  show "f j \<le> f i" if i: "i \<in> S" "i \<notin> set (take_top k cs)" and j: "j \<in> set (take_top k cs)"
  proof -
    obtain c where c: "c \<in> set (take k ?s)" "snd c = j" using j by (auto simp: take_top_def)
    then have cc: "c \<in> set cs" using set_take_subset [of k ?s] ss by blast
    show ?thesis
    proof (cases "i \<in> snd ` set cs")
      case True
      then obtain d where d: "d \<in> set cs" "snd d = i" by auto
      then have "d \<notin> set (take k ?s)" using i(2) by (force simp: take_top_def)
      then have "d \<in> set (drop k ?s)" using d ss by (metis append_take_drop_id Un_iff set_append)
      then have "\<not> cand_less d c" using by_dist.take_best c(1) by blast
      then show ?thesis using fs [OF cc] fs [OF d(1)] c d by (simp add: cand_less_def not_less)
    next
      case False
      then show ?thesis using assms(1) i(1) cc fs [OF cc] c by (force simp: best_of_def)
    qed
  qed
qed

text \<open>What a search promises: the ids are the \<open>k\<close> best of all ids it reached (and may return), best
  first, with a set \<open>E\<close> of expanded nodes that accounts for everything reached; without a limit on
  the expansions every id returned was expanded.\<close>

definition best_reached ::
  "(nat \<Rightarrow> nat list) \<Rightarrow> (nat \<Rightarrow> 'f :: linorder) \<Rightarrow> (nat \<Rightarrow> bool) \<Rightarrow> nat \<Rightarrow> nat \<Rightarrow> nat \<Rightarrow> nat \<Rightarrow> nat list \<Rightarrow> bool" where
  "best_reached nbr f ok n entry iters k ids \<longleftrightarrow>
     (\<exists>E S. finite E \<and> E \<subseteq> S \<and> S = insert entry {v. v < n \<and> (\<exists>u \<in> E. v \<in> set (nbr u))} \<and>
        distinct ids \<and> set ids \<subseteq> {i \<in> S. ok i} \<and> sorted (map f ids) \<and> length ids \<le> k \<and>
        (\<forall>i \<in> S. ok i \<longrightarrow> i \<notin> set ids \<longrightarrow> length ids = k \<and> (\<forall>j \<in> set ids. f j \<le> f i)) \<and>
        (iters = 0 \<longrightarrow> set ids \<subseteq> E) \<and> (iters \<noteq> 0 \<longrightarrow> card E \<le> iters))"

lemma set_take_top: "set (take_top k cs) \<subseteq> snd ` set cs"
  using set_take_subset [of k "std_sort cand_less cs"] by_dist.set_srt [of cs] by (auto simp: take_top_def)

lemma take_top_full:
  assumes "best_of L f S cs" and "k \<le> L" and "i \<in> S" and "i \<notin> set (take_top k cs)"
  shows "length (take_top k cs) = k"
proof (cases "k \<le> length cs")
  case True
  then show ?thesis by (simp add: take_top_best(3) [OF assms(1,2)])
next
  case False
  then have "take_top k cs = map snd (std_sort cand_less cs)" by (simp add: take_top_def by_dist.length_srt)
  then have "set (take_top k cs) = snd ` set cs" by (simp add: by_dist.set_srt)
  with assms(1,3,4) have "length cs = L" by (auto simp: best_of_def)
  with False assms(2) show ?thesis by simp
qed

lemma best_reachedI:
  assumes "best_of L f {i \<in> S. ok i} cs" and "k \<le> L"
    and "finite E" "E \<subseteq> S" "S = insert entry {v. v < n \<and> (\<exists>u \<in> E. v \<in> set (nbr u))}"
    and "iters = 0 \<Longrightarrow> snd ` set cs \<subseteq> E" "iters \<noteq> 0 \<Longrightarrow> card E \<le> iters"
  shows "best_reached nbr f ok n entry iters k (take_top k cs)"
  unfolding best_reached_def
proof (intro exI conjI)
  show "finite E" "E \<subseteq> S" "S = insert entry {v. v < n \<and> (\<exists>u \<in> E. v \<in> set (nbr u))}" by fact+
  show "iters = 0 \<longrightarrow> set (take_top k cs) \<subseteq> E" using assms(6) set_take_top by blast
  show "iters \<noteq> 0 \<longrightarrow> card E \<le> iters" using assms(7) by blast
  show "\<forall>i \<in> S. ok i \<longrightarrow> i \<notin> set (take_top k cs) \<longrightarrow> length (take_top k cs) = k \<and> (\<forall>j \<in> set (take_top k cs). f j \<le> f i)"
    using take_top_full [OF assms(1,2)] take_top_best(5) [OF assms(1,2)] by blast
qed (use take_top_best [OF assms(1,2)] in auto)

section \<open>The search without its caches\<close>

text \<open>The same loop over given neighbours and scores and no state: what a search computes.\<close>

definition pure_nbrs :: "(nat \<Rightarrow> nat list) \<Rightarrow> nat \<Rightarrow> unit \<Rightarrow> nat list \<times> unit" where
  "pure_nbrs nbr i s = (nbr i, s)"

definition pure_score :: "(nat \<Rightarrow> 'f) \<Rightarrow> (nat \<Rightarrow> bool) \<Rightarrow> nat \<Rightarrow> unit \<Rightarrow> 'f option \<times> unit" where
  "pure_score f ok i s = (if ok i then Some (f i) else None, s)"

definition pure_loop ::
  "nat \<Rightarrow> nat \<Rightarrow> nat \<Rightarrow> (nat \<Rightarrow> nat list) \<Rightarrow> (nat \<Rightarrow> 'f) \<Rightarrow> (nat \<Rightarrow> bool) \<Rightarrow> ('f :: linorder, unit) beam \<Rightarrow> ('f, unit) beam option" where
  "pure_loop L n iters nbr f ok = beam_loop L n iters (\<lambda>s. s) (\<lambda>_ s. s) (pure_nbrs nbr) (pure_score f ok)"

definition erase :: "('f, 's) beam \<Rightarrow> ('f, unit) beam" where
  "erase b = \<lparr>b_cand = b_cand b, b_seen = b_seen b, b_expanded = b_expanded b, b_expands = b_expands b, b_st = ()\<rparr>"

lemma erase_simps [simp]:
  "b_cand (erase b) = b_cand b" "b_seen (erase b) = b_seen b" "b_expanded (erase b) = b_expanded b"
  "b_expands (erase b) = b_expands b" "erase (b\<lparr>b_st := s\<rparr>) = erase b"
  "erase (b\<lparr>b_cand := cs\<rparr>) = (erase b)\<lparr>b_cand := cs\<rparr>" "erase (b\<lparr>b_seen := S\<rparr>) = (erase b)\<lparr>b_seen := S\<rparr>"
  "erase (mark_expanded cur b) = mark_expanded cur (erase b)" "b_st (mark_expanded cur b) = b_st b" "(erase b)\<lparr>b_st := u\<rparr> = erase b"
  by (simp_all add: erase_def mark_expanded_def)

lemma no_state [simp]: "(b :: ('f, unit) beam)\<lparr>b_st := u\<rparr> = b"
  by (cases b) simp

section \<open>The loop on a well-behaved state\<close>

text \<open>
  What a search relies on, whatever its states are: an invariant that reading neighbours,
  scoring and the two hooks keep, and under which the neighbours of a node are \<open>nbr\<close> and the
  score of an id that is not skipped is \<open>f\<close>, of an id that is skipped none.
\<close>

locale beam_client =
  fixes inv :: "'s \<Rightarrow> bool" and nbr :: "nat \<Rightarrow> nat list" and f :: "nat \<Rightarrow> 'f :: linorder" and ok :: "nat \<Rightarrow> bool"
    and pre :: "'s \<Rightarrow> 's" and post :: "nat \<Rightarrow> 's \<Rightarrow> 's"
    and nbrs_of :: "nat \<Rightarrow> 's \<Rightarrow> nat list \<times> 's" and score :: "nat \<Rightarrow> 's \<Rightarrow> 'f option \<times> 's"
    and L :: nat and n :: nat and entry :: nat
  assumes pre_inv: "inv s \<Longrightarrow> inv (pre s)"
    and post_inv: "inv s \<Longrightarrow> inv (post k s)"
    and nbrs_ok: "inv s \<Longrightarrow> i < n \<or> i = entry \<Longrightarrow> fst (nbrs_of i s) = nbr i \<and> inv (snd (nbrs_of i s))"
    and score_ok: "inv s \<Longrightarrow> i < n \<or> i = entry \<Longrightarrow>
      fst (score i s) = (if ok i then Some (f i) else None) \<and> inv (snd (score i s))"
    and L_pos: "0 < L"
begin

definition beam_ok :: "('f, 's) beam \<Rightarrow> bool" where
  "beam_ok b \<longleftrightarrow> inv (b_st b) \<and> best_of L f {i \<in> b_seen b. ok i} (b_cand b) \<and>
     b_expanded b \<subseteq> b_seen b \<and> b_seen b \<subseteq> insert entry {..<n}"

lemma score_into_ok:
  assumes "beam_ok b" and "i \<notin> b_seen b" and "i < n \<or> i = entry"
  shows "beam_ok (score_into L score i (b\<lparr>b_seen := insert i (b_seen b)\<rparr>))"
    and "b_seen (score_into L score i (b\<lparr>b_seen := insert i (b_seen b)\<rparr>)) = insert i (b_seen b)"
    and "b_expanded (score_into L score i (b\<lparr>b_seen := insert i (b_seen b)\<rparr>)) = b_expanded b"
    and "b_cand (score_into L score i (b\<lparr>b_seen := insert i (b_seen b)\<rparr>)) =
      (if ok i then insert_cand L i (f i) (b_cand b) else b_cand b)"
    and "b_expands (score_into L score i (b\<lparr>b_seen := insert i (b_seen b)\<rparr>)) = b_expands b"
proof -
  obtain d s where sc: "score i (b_st b) = (d, s)" by (cases "score i (b_st b)")
  have r: "d = (if ok i then Some (f i) else None)" "inv s"
    using score_ok [of "b_st b" i] assms sc by (auto simp: beam_ok_def)
  have "best_of L f {j \<in> insert i (b_seen b). ok j} (if ok i then insert_cand L i (f i) (b_cand b) else b_cand b)"
  proof (cases "ok i")
    case True
    then have "{j \<in> insert i (b_seen b). ok j} = insert i {j \<in> b_seen b. ok j}" by auto
    then show ?thesis
      using True assms insert_cand_best [of L f "{j \<in> b_seen b. ok j}" "b_cand b" i] L_pos
      by (simp add: beam_ok_def)
  next
    case False
    then have "{j \<in> insert i (b_seen b). ok j} = {j \<in> b_seen b. ok j}" by auto
    then show ?thesis using False assms(1) by (simp add: beam_ok_def)
  qed
  then show "beam_ok (score_into L score i (b\<lparr>b_seen := insert i (b_seen b)\<rparr>))"
    using assms r by (cases "ok i") (auto simp: beam_ok_def score_into_def sc simp del: insert_iff)
  show "b_seen (score_into L score i (b\<lparr>b_seen := insert i (b_seen b)\<rparr>)) = insert i (b_seen b)"
    "b_expanded (score_into L score i (b\<lparr>b_seen := insert i (b_seen b)\<rparr>)) = b_expanded b"
    "b_cand (score_into L score i (b\<lparr>b_seen := insert i (b_seen b)\<rparr>)) =
      (if ok i then insert_cand L i (f i) (b_cand b) else b_cand b)"
    "b_expands (score_into L score i (b\<lparr>b_seen := insert i (b_seen b)\<rparr>)) = b_expands b"
    using r by (simp_all add: score_into_def sc)
qed

lemma visit_nbr_ok:
  assumes "beam_ok b"
  shows "beam_ok (visit_nbr L n score nb b)" and "b_expanded (visit_nbr L n score nb b) = b_expanded b"
    and "b_seen (visit_nbr L n score nb b) = b_seen b \<union> (if nb < n then {nb} else {})"
    and "b_expands (visit_nbr L n score nb b) = b_expands b"
  using assms score_into_ok [OF assms, of nb] by (auto simp: visit_nbr_def)

lemma visit_nbrs_ok:
  assumes "beam_ok b"
  shows "beam_ok (fold (visit_nbr L n score) ns b) \<and> b_expanded (fold (visit_nbr L n score) ns b) = b_expanded b
    \<and> b_seen (fold (visit_nbr L n score) ns b) = b_seen b \<union> {v \<in> set ns. v < n}
    \<and> b_expands (fold (visit_nbr L n score) ns b) = b_expands b"
  using assms
proof (induction ns arbitrary: b)
  case (Cons v ns)
  from Cons.IH [OF visit_nbr_ok(1) [OF Cons.prems, of v]] show ?case
    using visit_nbr_ok [OF Cons.prems, of v] by auto
qed simp

lemma expand_one_ok:
  assumes "beam_ok b" and "cur \<in> b_seen b"
  shows "beam_ok (expand_one L n nbrs_of score cur (mark_expanded cur b))
    \<and> b_expanded (expand_one L n nbrs_of score cur (mark_expanded cur b)) = insert cur (b_expanded b)
    \<and> b_seen (expand_one L n nbrs_of score cur (mark_expanded cur b)) = b_seen b \<union> {v \<in> set (nbr cur). v < n}
    \<and> b_expands (expand_one L n nbrs_of score cur (mark_expanded cur b)) = b_expands b + 1"
proof -
  have c: "cur < n \<or> cur = entry" using assms by (auto simp: beam_ok_def)
  obtain ns s where ns: "nbrs_of cur (b_st b) = (ns, s)" by (cases "nbrs_of cur (b_st b)")
  then have s: "ns = nbr cur" "inv s" using nbrs_ok [of "b_st b" cur] c assms(1) by (auto simp: beam_ok_def)
  then have "beam_ok ((mark_expanded cur b)\<lparr>b_st := s\<rparr>)"
    using assms by (auto simp: beam_ok_def mark_expanded_def)
  from visit_nbrs_ok [OF this, of ns] show ?thesis
    using ns s by (simp add: expand_one_def mark_expanded_def)
qed

definition settled :: "nat \<Rightarrow> ('f, 's) beam \<Rightarrow> bool" where
  "settled iters b \<longleftrightarrow> (\<forall>c \<in> set (b_cand b). snd c \<in> b_expanded b) \<or> iters \<noteq> 0 \<and> iters \<le> b_expands b"

text \<open>The seen set is what the expansions reached.\<close>

definition seen_closed :: "('f, 's) beam \<Rightarrow> bool" where
  "seen_closed b \<longleftrightarrow> b_seen b = insert entry {v. v < n \<and> (\<exists>u \<in> b_expanded b. v \<in> set (nbr u))}"

definition counted :: "nat \<Rightarrow> ('f, 's) beam \<Rightarrow> bool" where
  "counted iters b \<longleftrightarrow> b_expands b = card (b_expanded b) \<and> (iters = 0 \<or> b_expands b \<le> iters)"

lemma beam_ok_finite: "beam_ok b \<Longrightarrow> finite (b_expanded b)"
  by (auto simp: beam_ok_def intro: finite_subset)

lemma beam_loop_ok:
  assumes "beam_ok b0" and "seen_closed b0" and "counted iters b0"
  shows "\<exists>b. beam_loop L n iters pre post nbrs_of score b0 = Some b \<and> beam_ok b \<and> settled iters b \<and> seen_closed b \<and> counted iters b"
  using assms
proof (induction "card (insert entry {..<n} - b_expanded b0)" arbitrary: b0 rule: less_induct)
  case less
  define b where "b = b0\<lparr>b_st := pre (b_st b0)\<rparr>"
  have b: "beam_ok b" "seen_closed b" "counted iters b"
    using less.prems pre_inv by (auto simp: beam_ok_def seen_closed_def counted_def b_def)
  have e: "b_expanded b0 = b_expanded b" by (simp add: b_def)
  show ?case
  proof (cases "pick_best (b_expanded b) (b_cand b)")
    case None
    then have "settled iters b" using pick_best_None by (auto simp: settled_def)
    moreover have "beam_loop L n iters pre post nbrs_of score b0 = Some b"
      using None by (subst beam_loop.simps) (simp add: Let_def flip: b_def)
    ultimately show ?thesis using b by blast
  next
    case (Some bi)
    show ?thesis
    proof (cases "iters \<noteq> 0 \<and> iters \<le> b_expands b")
      case True
      then have "beam_loop L n iters pre post nbrs_of score b0 = Some b"
        using Some by (subst beam_loop.simps) (simp add: Let_def flip: b_def)
      then show ?thesis using b True by (auto simp: settled_def)
    next
      case False
      define cur where "cur = snd (b_cand b ! bi)"
      define b1 where "b1 = expand_one L n nbrs_of score cur (mark_expanded cur b)"
      define b2 where "b2 = b1\<lparr>b_st := post (b_expands b1) (b_st b1)\<rparr>"
      note p = pick_best_Some [OF Some]
      have "b_cand b ! bi \<in> set (b_cand b)" using p(1) by simp
      then have cur: "cur \<in> b_seen b" "cur \<notin> b_expanded b"
        using b(1) p(2) by (auto simp: beam_ok_def best_of_def cur_def)
      note x = expand_one_ok [OF b(1) cur(1), folded b1_def]
      have b2: "beam_ok b2" "b_expanded b2 = insert cur (b_expanded b)"
        using x post_inv by (auto simp: b2_def beam_ok_def)
      have "seen_closed b2" using x b(2) by (auto simp: b2_def seen_closed_def)
      moreover have "counted iters b2"
        using x b(3) cur(2) False beam_ok_finite [OF b(1)] by (auto simp: b2_def counted_def)
      moreover have "card (insert entry {..<n} - b_expanded b2) < card (insert entry {..<n} - b_expanded b0)"
      proof (rule psubset_card_mono)
        have "cur \<in> insert entry {..<n}" using b(1) cur(1) by (auto simp: beam_ok_def)
        then show "insert entry {..<n} - b_expanded b2 \<subset> insert entry {..<n} - b_expanded b0"
          using cur(2) b2(2) e by auto
      qed simp
      ultimately have "\<exists>b. beam_loop L n iters pre post nbrs_of score b2 = Some b \<and> beam_ok b \<and> settled iters b \<and> seen_closed b \<and> counted iters b"
        using less.hyps b2(1) by blast
      moreover have "beam_loop L n iters pre post nbrs_of score b0 = beam_loop L n iters pre post nbrs_of score b2"
        using Some False
        by (subst beam_loop.simps) (cases "iters = 0"; simp add: Let_def b2_def b1_def cur_def flip: b_def)
      ultimately show ?thesis by simp
    qed
  qed
qed

lemma beam_entry_ok:
  assumes "inv s"
  shows "beam_ok (beam_entry L score entry s)" and "seen_closed (beam_entry L score entry s)"
    and "counted iters (beam_entry L score entry s)"
proof -
  have e: "beam_entry L score entry s = score_into L score entry ((beam_start s)\<lparr>b_seen := insert entry (b_seen (beam_start s))\<rparr>)"
    by (simp add: beam_entry_def beam_start_def)
  have "beam_ok (beam_start s)" using assms by (simp add: beam_ok_def beam_start_def)
  note x = score_into_ok [OF this, of entry, folded e]
  then show "beam_ok (beam_entry L score entry s)" "seen_closed (beam_entry L score entry s)"
    "counted iters (beam_entry L score entry s)"
    by (simp_all add: beam_start_def seen_closed_def counted_def)
qed

lemma walk_best:
  assumes "beam_loop L n iters pre post nbrs_of score (beam_entry L score entry s) = Some b" and "inv s"
  shows "best_of L f {i \<in> b_seen b. ok i} (b_cand b)"
proof -
  obtain b' where "beam_loop L n iters pre post nbrs_of score (beam_entry L score entry s) = Some b'" "beam_ok b'"
    using beam_loop_ok [OF beam_entry_ok [OF assms(2)]] by blast
  with assms(1) show ?thesis by (simp add: beam_ok_def)
qed

lemma beam_search_ok:
  assumes "inv s" and "k \<le> L"
  shows "\<exists>b. beam_loop L n iters pre post nbrs_of score (beam_entry L score entry s) = Some b \<and> inv (b_st b) \<and>
    best_reached nbr f ok n entry iters k (take_top k (b_cand b))"
proof -
  obtain b where b: "beam_loop L n iters pre post nbrs_of score (beam_entry L score entry s) = Some b"
    "beam_ok b" "settled iters b" "seen_closed b" "counted iters b"
    using beam_loop_ok [OF beam_entry_ok [OF assms(1)]] by blast
  have best: "best_of L f {i \<in> b_seen b. ok i} (b_cand b)" using b(2) by (simp add: beam_ok_def)
  have "best_reached nbr f ok n entry iters k (take_top k (b_cand b))"
  proof (rule best_reachedI [OF best assms(2) beam_ok_finite [OF b(2)]])
    show "b_expanded b \<subseteq> b_seen b" using b(2) by (simp add: beam_ok_def)
    show "b_seen b = insert entry {v. v < n \<and> (\<exists>u \<in> b_expanded b. v \<in> set (nbr u))}"
      using b(4) by (simp add: seen_closed_def)
    show "snd ` set (b_cand b) \<subseteq> b_expanded b" if "iters = 0" using b(3) that by (auto simp: settled_def)
    show "card (b_expanded b) \<le> iters" if "iters \<noteq> 0" using b(5) that by (simp add: counted_def)
  qed
  with b show ?thesis by (auto simp: beam_ok_def)
qed

text \<open>Erasing the state from the search gives the search over \<open>nbr\<close> and \<open>f\<close>.\<close>

lemma score_into_erase:
  assumes "inv (b_st b)" and "i < n \<or> i = entry"
  shows "erase (score_into L score i b) = score_into L (pure_score f ok) i (erase b) \<and> inv (b_st (score_into L score i b))"
proof -
  obtain d s where sc: "score i (b_st b) = (d, s)" by (cases "score i (b_st b)")
  then have "d = (if ok i then Some (f i) else None)" "inv s" using score_ok [OF assms] by simp_all
  then show ?thesis by (simp add: score_into_def pure_score_def sc)
qed

lemma visit_nbrs_erase:
  assumes "inv (b_st b)"
  shows "erase (fold (visit_nbr L n score) ns b) = fold (visit_nbr L n (pure_score f ok)) ns (erase b) \<and>
    inv (b_st (fold (visit_nbr L n score) ns b))"
  using assms
proof (induction ns arbitrary: b)
  case (Cons v ns)
  have "erase (visit_nbr L n score v b) = visit_nbr L n (pure_score f ok) v (erase b) \<and> inv (b_st (visit_nbr L n score v b))"
    using score_into_erase [of "b\<lparr>b_seen := insert v (b_seen b)\<rparr>" v] Cons.prems by (simp add: visit_nbr_def)
  with Cons.IH show ?case by simp
qed simp

lemma expand_one_erase:
  assumes "inv (b_st b)" and "cur < n \<or> cur = entry"
  shows "erase (expand_one L n nbrs_of score cur b) = expand_one L n (pure_nbrs nbr) (pure_score f ok) cur (erase b)"
proof -
  obtain ns s where ns: "nbrs_of cur (b_st b) = (ns, s)" by (cases "nbrs_of cur (b_st b)")
  then have "ns = nbr cur" "inv s" using nbrs_ok [OF assms] by simp_all
  with visit_nbrs_erase [of "b\<lparr>b_st := s\<rparr>" ns] show ?thesis by (simp add: expand_one_def pure_nbrs_def ns)
qed

lemma beam_loop_erase:
  assumes "beam_ok b0"
  shows "map_option erase (beam_loop L n iters pre post nbrs_of score b0) = pure_loop L n iters nbr f ok (erase b0)"
  using assms
proof (induction "card (insert entry {..<n} - b_expanded b0)" arbitrary: b0 rule: less_induct)
  case less
  let ?L = "beam_loop L n iters pre post nbrs_of score" and ?P = "pure_loop L n iters nbr f ok"
  define b where "b = b0\<lparr>b_st := pre (b_st b0)\<rparr>"
  have b: "beam_ok b" using less.prems pre_inv by (simp add: beam_ok_def b_def)
  have e: "erase b0 = erase b" by (simp add: b_def)
  show ?case
  proof (cases "case pick_best (b_expanded b) (b_cand b) of None \<Rightarrow> True | Some _ \<Rightarrow> iters \<noteq> 0 \<and> iters \<le> b_expands b")
    case True
    then have "?L b0 = Some b"
      by (subst beam_loop.simps) (auto simp: Let_def simp flip: b_def split: option.splits)
    moreover have "?P (erase b) = Some (erase b)"
      unfolding pure_loop_def using True
      by (subst beam_loop.simps) (auto simp: Let_def split: option.splits)
    ultimately show ?thesis by (simp add: e)
  next
    case False
    then obtain bi where bi: "pick_best (b_expanded b) (b_cand b) = Some bi" "\<not> (iters \<noteq> 0 \<and> iters \<le> b_expands b)"
      by (auto split: option.splits)
    define cur where "cur = snd (b_cand b ! bi)"
    define b1 where "b1 = expand_one L n nbrs_of score cur (mark_expanded cur b)"
    define b2 where "b2 = b1\<lparr>b_st := post (b_expands b1) (b_st b1)\<rparr>"
    note p = pick_best_Some [OF bi(1)]
    have "b_cand b ! bi \<in> set (b_cand b)" using p(1) by simp
    then have cur: "cur \<in> b_seen b" "cur \<notin> b_expanded b" "cur < n \<or> cur = entry"
      using b p(2) by (auto simp: beam_ok_def best_of_def cur_def)
    note x = expand_one_ok [OF b cur(1), folded b1_def]
    have b2: "beam_ok b2" "b_expanded b2 = insert cur (b_expanded b)" using x post_inv by (auto simp: b2_def beam_ok_def)
    have "card (insert entry {..<n} - b_expanded b2) < card (insert entry {..<n} - b_expanded b0)"
    proof (rule psubset_card_mono)
      show "insert entry {..<n} - b_expanded b2 \<subset> insert entry {..<n} - b_expanded b0"
        using cur(2,3) b2(2) by (auto simp: b_def)
    qed simp
    then have IH: "map_option erase (?L b2) = ?P (erase b2)" using less.hyps b2(1) by blast
    have "?L b0 = ?L b2"
      using bi by (subst beam_loop.simps) (cases "iters = 0"; simp add: Let_def b2_def b1_def cur_def flip: b_def)
    moreover have "erase b2 = expand_one L n (pure_nbrs nbr) (pure_score f ok) cur (mark_expanded cur (erase b))"
      using expand_one_erase [of "mark_expanded cur b" cur] b cur(3) by (simp add: b2_def b1_def beam_ok_def)
    then have "?P (erase b) = ?P (erase b2)"
      unfolding pure_loop_def using bi
      by (subst beam_loop.simps) (cases "iters = 0"; simp add: Let_def cur_def)
    ultimately show ?thesis using IH by (simp add: e)
  qed
qed

lemma beam_search_erase:
  assumes "inv s"
  shows "map_option erase (beam_loop L n iters pre post nbrs_of score (beam_entry L score entry s)) =
    pure_loop L n iters nbr f ok (beam_entry L (pure_score f ok) entry ())"
proof -
  have "erase (beam_entry L score entry s) = beam_entry L (pure_score f ok) entry ()"
    using score_into_erase [of "(beam_start s)\<lparr>b_seen := {entry}\<rparr>" entry] assms
    by (simp add: beam_entry_def beam_start_def erase_def)
  with beam_loop_erase [OF beam_entry_ok(1) [OF assms]] show ?thesis by simp
qed

end

end
