(* ===== verification/Distances.thy ===== *)
theory Distances
  imports Nav_Graph
begin

text \<open>
  The distance functions of \<open>serving/search_beam.cpp\<close>: \<open>pq_l2\<close> in \<open>uint32_t\<close>, the conversion of
  half floats by their bits, \<open>vec_l2\<close> and the inner product with its eight AVX lanes. A float
  is the value \<open>dec\<close> gives to its 32 bits, in a ring: rounding is not modelled.
\<close>

unbundle bit_operations_syntax

section \<open>Compressed codes\<close>

definition pq_l2 :: "byte list \<Rightarrow> byte list \<Rightarrow> nat \<Rightarrow> 32 word" where
  "pq_l2 a b m =
     fold (\<lambda>i s. let d = uint (a ! i) - uint (b ! i) in s + word_of_int (d * d)) [0..<m] 0"

section \<open>Half floats\<close>

definition f16_to_f32 :: "16 word \<Rightarrow> 32 word" where
  "f16_to_f32 h =
     (let sign = push_bit 16 (ucast (h AND 0x8000));
          ex = ucast (drop_bit 10 h) AND 0x1f;
          mant = ucast h AND 0x3ff
      in if ex = 0 then sign
         else if ex = 31 then sign OR 0x7f800000 OR push_bit 13 mant
         else sign OR push_bit 23 (ex - 15 + 127) OR push_bit 13 mant)"

text \<open>IEEE 754: the fields of the two formats and the value of a finite number.\<close>

definition f16_exp :: "16 word \<Rightarrow> nat" where "f16_exp h = unat (drop_bit 10 h AND 0x1f)"
definition f16_mant :: "16 word \<Rightarrow> nat" where "f16_mant h = unat (h AND 0x3ff)"
definition f32_exp :: "32 word \<Rightarrow> nat" where "f32_exp w = unat (drop_bit 23 w AND 0xff)"
definition f32_mant :: "32 word \<Rightarrow> nat" where "f32_mant w = unat (w AND 0x7fffff)"

definition f16_value :: "16 word \<Rightarrow> rat" where
  "f16_value h = (if bit h 15 then -1 else 1) *
     (if f16_exp h = 0 then of_nat (f16_mant h) / 2 ^ 24
      else (1 + of_nat (f16_mant h) / 2 ^ 10) * 2 ^ f16_exp h / 2 ^ 15)"

definition f32_value :: "32 word \<Rightarrow> rat" where
  "f32_value w = (if bit w 31 then -1 else 1) *
     (if f32_exp w = 0 then of_nat (f32_mant w) / 2 ^ 149
      else (1 + of_nat (f32_mant w) / 2 ^ 23) * 2 ^ f32_exp w / 2 ^ 127)"

section \<open>Vectors\<close>

definition word32_at :: "byte list \<Rightarrow> nat \<Rightarrow> 32 word" where
  "word32_at raw i = of_nat (u32_le (mem_read (4 * i) 4 raw))"

definition word16_at :: "byte list \<Rightarrow> nat \<Rightarrow> 16 word" where
  "word16_at raw i = of_nat (unat (raw ! (2 * i)) + 256 * unat (raw ! (2 * i + 1)))"

text \<open>Component \<open>i\<close> of a vector in memory; everything but four bytes is read as halves.
  \<open>cvt\<close> converts a half: it is \<open>f16_to_f32\<close>, or the conversion of the compiler where it has \<open>_Float16\<close>.\<close>

definition comp_at :: "(16 word \<Rightarrow> 32 word) \<Rightarrow> (32 word \<Rightarrow> 'a) \<Rightarrow> nat \<Rightarrow> byte list \<Rightarrow> nat \<Rightarrow> 'a" where
  "comp_at cvt dec vb raw i =
     (if vb = 4 then dec (word32_at raw i) else dec (cvt (word16_at raw i)))"

definition vec_l2 :: "(16 word \<Rightarrow> 32 word) \<Rightarrow> (32 word \<Rightarrow> 'a :: comm_ring_1) \<Rightarrow> byte list \<Rightarrow> 'a list \<Rightarrow> nat \<Rightarrow> nat \<Rightarrow> 'a" where
  "vec_l2 cvt dec raw q n vb =
     fold (\<lambda>i s. let d = comp_at cvt dec vb raw i - q ! i in s + d * d) [0..<n] 0"

text \<open>One \<open>_mm256_fmadd_ps\<close>: eight products of the components from \<open>i\<close> on, added to the lanes.\<close>

definition fmadd8 :: "(nat \<Rightarrow> 'a :: comm_ring_1) \<Rightarrow> 'a list \<Rightarrow> nat \<Rightarrow> 'a list \<Rightarrow> 'a list" where
  "fmadd8 v q i acc = map (\<lambda>l. v (i + l) * q ! (i + l) + acc ! l) [0..<8]"

definition vec_mips_neg :: "(16 word \<Rightarrow> 32 word) \<Rightarrow> (32 word \<Rightarrow> 'a :: comm_ring_1) \<Rightarrow> byte list \<Rightarrow> 'a list \<Rightarrow> nat \<Rightarrow> nat \<Rightarrow> 'a" where
  "vec_mips_neg cvt dec raw q n vb =
     (let v = comp_at cvt dec vb raw
      in if vb = 4 then
           (let acc = fold (\<lambda>b. fmadd8 v q (8 * b)) [0..<n div 8] (replicate 8 0);
                s = acc ! 0 + acc ! 1 + acc ! 2 + acc ! 3 + acc ! 4 + acc ! 5 + acc ! 6 + acc ! 7
            in - fold (\<lambda>i s. s + v i * q ! i) [8 * (n div 8)..<n] s)
         else - fold (\<lambda>i s. s + v i * q ! i) [0..<n] 0)"

section \<open>Sums\<close>

lemma fold_add_sum: "m \<le> n \<Longrightarrow> fold (\<lambda>i s. s + g i) [m..<n] (z :: 'a :: comm_monoid_add) = z + (\<Sum>i \<in> {m..<n}. g i)"
  by (induction n) (auto simp: le_Suc_eq add.assoc)

lemma vec_l2_sum: "vec_l2 cvt dec raw q n vb = (\<Sum>i < n. (comp_at cvt dec vb raw i - q ! i)\<^sup>2)"
  using fold_add_sum [of 0 n "\<lambda>i. (comp_at cvt dec vb raw i - q ! i)\<^sup>2" 0]
  by (simp add: vec_l2_def Let_def power2_eq_square atLeast0LessThan)

lemma fmadd_lanes:
  fixes v :: "nat \<Rightarrow> 'a :: comm_ring_1"
  shows "l < 8 \<Longrightarrow> fold (\<lambda>b. fmadd8 v q (8 * b)) [0..<k] (replicate 8 0) ! l = (\<Sum>b < k. v (8 * b + l) * q ! (8 * b + l))"
  by (induction k) (simp_all add: fmadd8_def add.commute)

lemma sum_lanes:
  fixes g :: "nat \<Rightarrow> 'a :: comm_ring_1"
  shows "(\<Sum>i < 8 * k. g i) = (\<Sum>b < k. g (8 * b)) + (\<Sum>b < k. g (8 * b + 1)) + (\<Sum>b < k. g (8 * b + 2))
    + (\<Sum>b < k. g (8 * b + 3)) + (\<Sum>b < k. g (8 * b + 4)) + (\<Sum>b < k. g (8 * b + 5))
    + (\<Sum>b < k. g (8 * b + 6)) + (\<Sum>b < k. g (8 * b + 7))"
proof (induction k)
  case (Suc k)
  have "(\<Sum>i < 8 * Suc k. g i) = (\<Sum>i < 8 * k + 8. g i)" by (simp add: add.commute)
  also have "\<dots> = (\<Sum>i < 8 * k. g i) + (g (8 * k) + g (8 * k + 1) + g (8 * k + 2) + g (8 * k + 3)
      + g (8 * k + 4) + g (8 * k + 5) + g (8 * k + 6) + g (8 * k + 7))"
    by (simp add: numeral_eq_Suc add.assoc)
  finally show ?case unfolding Suc by (simp add: algebra_simps)
qed simp

lemma lanes_and_tail:
  fixes v :: "nat \<Rightarrow> 'a :: comm_ring_1"
  assumes "acc = fold (\<lambda>b. fmadd8 v q (8 * b)) [0..<n div 8] (replicate 8 0)"
  shows "fold (\<lambda>i s. s + v i * q ! i) [8 * (n div 8)..<n]
    (acc ! 0 + acc ! 1 + acc ! 2 + acc ! 3 + acc ! 4 + acc ! 5 + acc ! 6 + acc ! 7) = (\<Sum>i < n. v i * q ! i)"
proof -
  let ?g = "\<lambda>i. v i * q ! i"
  have n: "8 * (n div 8) \<le> n" by simp
  have "(\<Sum>i < 8 * (n div 8). ?g i) + (\<Sum>i \<in> {8 * (n div 8)..<n}. ?g i) = (\<Sum>i < n. ?g i)"
    using sum.atLeastLessThan_concat [of 0 "8 * (n div 8)" n ?g] by (simp add: atLeast0LessThan)
  then show ?thesis
    unfolding fold_add_sum [OF n, of ?g] sum_lanes [of ?g "n div 8"] assms by (simp add: fmadd_lanes)
qed

text \<open>C25. The eight fused lanes and the scalar tail of \<open>vec_mips_neg\<close> compute the negated inner
  product of all components, whatever converts the halves, the value of the plain loop that ranks the entry
  sample.\<close>
theorem avx_is_inner_product:
  fixes dec :: "32 word \<Rightarrow> 'a :: comm_ring_1"
  shows "vec_mips_neg cvt dec raw q n vb = - (\<Sum>i < n. comp_at cvt dec vb raw i * q ! i) \<and>
    vec_mips_neg cvt dec raw q n vb = mips_neg (map (comp_at cvt dec vb raw) [0..<n]) q n"
proof -
  let ?g = "\<lambda>i. comp_at cvt dec vb raw i * q ! i"
  have a: "vec_mips_neg cvt dec raw q n vb = - (\<Sum>i < n. ?g i)"
    using lanes_and_tail [OF refl, where v = "comp_at cvt dec vb raw" and q = q and n = n] fold_add_sum [of 0 n ?g]
    by (cases "vb = 4") (simp_all add: vec_mips_neg_def Let_def atLeast0LessThan)
  have "fold (\<lambda>i s. s + map (comp_at cvt dec vb raw) [0..<n] ! i * q ! i) [0..<n] 0 = fold (\<lambda>i s. s + ?g i) [0..<n] 0"
    by (rule fold_cong) auto
  then have "mips_neg (map (comp_at cvt dec vb raw) [0..<n]) q n = - (\<Sum>i < n. ?g i)"
    using fold_add_sum [of 0 n ?g 0] by (simp add: mips_neg_def atLeast0LessThan)
  with a show ?thesis by simp
qed

section \<open>Bounds\<close>

lemma byte_diff_square:
  fixes a b :: byte
  shows "0 \<le> (uint a - uint b) * (uint a - uint b)" and "(uint a - uint b) * (uint a - uint b) \<le> 65025"
proof -
  have "uint a < 256" "uint b < 256" "0 \<le> uint a" "0 \<le> uint b" by (simp_all add: uint_lt2p [where 'a = 8, simplified])
  then have "\<bar>uint a - uint b\<bar> \<le> 255" by linarith
  then have "\<bar>uint a - uint b\<bar> * \<bar>uint a - uint b\<bar> \<le> 255 * 255" by (intro mult_mono) simp_all
  then show "(uint a - uint b) * (uint a - uint b) \<le> 65025" by simp
qed simp

lemma len32: "LENGTH(32) = 32"
  by simp

text \<open>Up to 66051 subspaces, \<open>pq_l2\<close> does not wrap: its 32-bit result is the squared distance
  of the two codes.\<close>
theorem pq_l2_no_wrap:
  assumes "m \<le> 66051"
  shows "uint (pq_l2 a b m) = (\<Sum>i < m. (uint (a ! i) - uint (b ! i))\<^sup>2)"
proof -
  have "uint (pq_l2 a b m) = (\<Sum>i < m. (uint (a ! i) - uint (b ! i))\<^sup>2) \<and>
      (\<Sum>i < m. (uint (a ! i) - uint (b ! i))\<^sup>2) \<le> 65025 * int m"
    using assms
  proof (induction m)
    case (Suc m)
    let ?d = "(uint (a ! m) - uint (b ! m)) * (uint (a ! m) - uint (b ! m))"
    let ?s = "\<Sum>i < m. (uint (a ! i) - uint (b ! i))\<^sup>2"
    have d: "0 \<le> ?d" "?d \<le> 65025" using byte_diff_square by blast+
    have IH: "uint (pq_l2 a b m) = ?s" "?s \<le> 65025 * int m" "0 \<le> ?s" using Suc by (simp_all add: sum_nonneg)
    have "?s + ?d < 2 ^ 32" using IH(2) d Suc.prems by simp
    moreover have "pq_l2 a b (Suc m) = pq_l2 a b m + word_of_int ?d" by (simp add: pq_l2_def Let_def)
    then have "uint (pq_l2 a b (Suc m)) = (?s + ?d) mod 2 ^ 32"
      by (simp only: uint_word_ariths(1) IH(1) uint_word_of_int mod_add_right_eq len32)
    ultimately have "uint (pq_l2 a b (Suc m)) = ?s + ?d" using d IH(3) by simp
    with IH(2) d show ?case by (simp add: power2_eq_square)
  qed (simp add: pq_l2_def)
  then show ?thesis by simp
qed

theorem pq_l2_no_wrap_witness: "uint (pq_l2 [255, 0, 7] [0, 255, 4] 3) = 130059"
proof -
  have "{..<3 :: nat} = {0, 1, 2}" by auto
  then show ?thesis using pq_l2_no_wrap [of 3 "[255, 0, 7]" "[0, 255, 4]"] by simp
qed

section \<open>The conversion is exact\<close>

lemma field_masks:
  "(0x1f :: 'a :: len word) = mask 5" "(0x3ff :: 'a word) = mask 10"
  "(0xff :: 'a word) = mask 8" "(0x7fffff :: 'a word) = mask 23"
  by (simp_all add: mask_eq_exp_minus_1)

lemma packed_fields:
  fixes s E M :: "32 word"
  assumes "\<And>i. bit E i \<Longrightarrow> i < 8" and "\<And>i. bit M i \<Longrightarrow> i < 10" and "\<And>i. bit s i \<Longrightarrow> i = 15"
  shows "drop_bit 23 (push_bit 16 s OR push_bit 23 E OR push_bit 13 M) AND 0xff = E"
    and "(push_bit 16 s OR push_bit 23 E OR push_bit 13 M) AND 0x7fffff = push_bit 13 M"
    and "bit (push_bit 16 s OR push_bit 23 E OR push_bit 13 M) 31 = bit s 15"
proof -
  have n: "\<not> bit E i" if "8 \<le> i" for i using assms(1) [of i] that by auto
  have m: "\<not> bit M i" if "10 \<le> i" for i using assms(2) [of i] that by auto
  have z: "\<not> bit s i" if "i \<noteq> 15" for i using assms(3) [of i] that by auto
  show "drop_bit 23 (push_bit 16 s OR push_bit 23 E OR push_bit 13 M) AND 0xff = E"
    "(push_bit 16 s OR push_bit 23 E OR push_bit 13 M) AND 0x7fffff = push_bit 13 M"
    "bit (push_bit 16 s OR push_bit 23 E OR push_bit 13 M) 31 = bit s 15"
    unfolding field_masks using n m z by (auto intro!: bit_word_eqI simp: bit_simps) (use assms in fastforce)+
qed

lemma bit_small_word: "unat (w :: 32 word) < 2 ^ k \<Longrightarrow> bit w i \<Longrightarrow> i < k"
proof (rule ccontr)
  assume "unat w < 2 ^ k" "bit w i" "\<not> i < k"
  then have "unat w < 2 ^ i" by (meson leI order_less_le_trans power_increasing one_le_numeral)
  then have "\<not> bit (unat w) i" by (simp add: bit_iff_odd)
  with \<open>bit w i\<close> show False using bit_of_nat_iff [where 'a = "32 word" and m = "unat w" and n = i] by simp
qed

text \<open>What the three fields of the result are, exponent by exponent.\<close>

lemma f16_parts:
  fixes h :: "16 word"
  shows "ucast (drop_bit 10 h) AND (0x1f :: 32 word) = of_nat (f16_exp h)" and "f16_exp h < 32"
    and "ucast h AND (0x3ff :: 32 word) = of_nat (f16_mant h)" and "f16_mant h < 1024"
    and "bit (ucast (h AND 0x8000) :: 32 word) i \<longleftrightarrow> i = 15 \<and> bit h 15"
proof -
  have e: "ucast (drop_bit 10 h) AND (0x1f :: 32 word) = ucast (drop_bit 10 h AND 0x1f)"
    "ucast h AND (0x3ff :: 32 word) = ucast (h AND 0x3ff)"
    unfolding field_masks by (auto intro!: bit_word_eqI simp: bit_simps)
  show "ucast (drop_bit 10 h) AND (0x1f :: 32 word) = of_nat (f16_exp h)"
    "ucast h AND (0x3ff :: 32 word) = of_nat (f16_mant h)"
    unfolding e f16_exp_def f16_mant_def by simp_all
  have "drop_bit 10 h AND 0x1f \<le> (0x1f :: 16 word)" "h AND 0x3ff \<le> (0x3ff :: 16 word)"
    by (simp_all add: word_and_le1)
  then show "f16_exp h < 32" "f16_mant h < 1024"
    by (simp_all add: f16_exp_def f16_mant_def word_le_nat_alt)
  have "(0x8000 :: 16 word) = push_bit 15 1" by simp
  then show "bit (ucast (h AND 0x8000) :: 32 word) i \<longleftrightarrow> i = 15 \<and> bit h 15"
    by (simp only: bit_simps) (auto simp: bit_1_iff)
qed

lemma f16_to_f32_fields:
  "f32_exp (f16_to_f32 h) = (if f16_exp h = 0 then 0 else if f16_exp h = 31 then 255 else f16_exp h + 112)"
  "f32_mant (f16_to_f32 h) = (if f16_exp h = 0 then 0 else f16_mant h * 2 ^ 13)"
  "bit (f16_to_f32 h) 31 = bit h 15"
proof -
  let ?s = "ucast (h AND 0x8000) :: 32 word" and ?M = "of_nat (f16_mant h) :: 32 word"
  define E :: "32 word" where "E = (if f16_exp h = 0 then 0 else if f16_exp h = 31 then 255 else of_nat (f16_exp h + 112))"
  define M :: "32 word" where "M = (if f16_exp h = 0 then 0 else ?M)"
  note p = f16_parts [of h]
  have z: "(of_nat (f16_exp h) :: 32 word) = 0 \<longleftrightarrow> f16_exp h = 0" "(of_nat (f16_exp h) :: 32 word) = 31 \<longleftrightarrow> f16_exp h = 31"
    using p(2) by (simp_all add: word_unat_eq_iff unat_of_nat)
  have "f16_to_f32 h = push_bit 16 ?s OR push_bit 23 E OR push_bit 13 M"
    unfolding f16_to_f32_def Let_def p(1) p(3) E_def M_def by (simp add: z or.assoc add.commute)
  moreover have "unat (of_nat (f16_exp h + 112) :: 32 word) = f16_exp h + 112"
    using p(2) by (subst unat_of_nat) simp
  then have u: "unat E = (if f16_exp h = 0 then 0 else if f16_exp h = 31 then 255 else f16_exp h + 112)"
    "unat M = (if f16_exp h = 0 then 0 else f16_mant h)"
    using p(2,4) by (simp_all add: E_def M_def unat_of_nat)
  moreover have "unat E < 2 ^ 8" "unat M < 2 ^ 10" using p(2,4) by (simp_all add: u)
  then have bits: "bit E i \<Longrightarrow> i < 8" "bit M i \<Longrightarrow> i < 10" for i using bit_small_word by blast+
  moreover have "unat (push_bit 13 M) = unat M * 2 ^ 13"
    using p(4) by (simp add: push_bit_eq_mult unat_word_ariths(2) u(2))
  moreover have "bit ?s i \<Longrightarrow> i = 15" for i using p(5) by blast
  ultimately show "f32_exp (f16_to_f32 h) = (if f16_exp h = 0 then 0 else if f16_exp h = 31 then 255 else f16_exp h + 112)"
    "f32_mant (f16_to_f32 h) = (if f16_exp h = 0 then 0 else f16_mant h * 2 ^ 13)"
    "bit (f16_to_f32 h) 31 = bit h 15"
    using packed_fields [of E M ?s] p(5) by (simp_all add: f32_exp_def f32_mant_def)
qed

text \<open>C26. The bitwise conversion keeps sign, exponent and fraction: every normal half is the same
  number as a float, infinities and NaNs stay what they are. Subnormal halves become zero,
  which the conversion of the \<open>_Float16\<close> build does not do.\<close>
theorem f16_conversion_exact:
  "(if f16_exp h = 31 then f32_exp (f16_to_f32 h) = 255 \<and> f32_mant (f16_to_f32 h) = f16_mant h * 2 ^ 13
    else f32_value (f16_to_f32 h) = (if f16_exp h = 0 then 0 else f16_value h)) \<and>
   bit (f16_to_f32 h) 31 = bit h 15 \<and> f16_exp 1 = 0 \<and> f16_value 1 = 1 / 2 ^ 24"
proof -
  have "f16_value h = f32_value (f16_to_f32 h)" if "f16_exp h \<noteq> 0" "f16_exp h \<noteq> 31"
    using that by (simp add: f32_value_def f16_value_def f16_to_f32_fields power_add)
  moreover have "f16_exp 1 = 0" "f16_value 1 = 1 / 2 ^ 24" by (simp_all add: f16_value_def f16_exp_def f16_mant_def)
  ultimately show ?thesis by (simp add: f16_to_f32_fields f32_value_def)
qed

end
