(* ===== verification/Prefetch.thy ===== *)
theory Prefetch
  imports Window_Steps Placement Pq_Table Hide_Fill
begin

text \<open>
  \<open>serving/prefetch.hpp\<close>: the prefetch policies, the per-query byte budget, pinning of the entry
  region, the warm-up of a query and of an expansion, and the queue served by one prefetch
  thread. A pointer is an offset in the image; the host copy of the graph lies at the
  distance \<open>hb\<close> from the image base, since the window may be handed pointers into it.
\<close>

section \<open>State\<close>

datatype prefetch_policy = P0 | P1 | P2 | P3

record 'a prefetch =
  pf_policy :: prefetch_policy
  budget_per_query :: nat
  budget_left :: nat
  neighbor_k :: nat
  expand_batch :: nat
  issue_ahead :: nat
  pin_entry :: bool
  async_q_cap :: nat
  pipe_w :: nat
  install_top :: nat
  fetch_top :: nat
  page_group_b :: bool
  install_all_fetched :: bool
  oracle_dram :: bool
  freeze_fills :: bool
  sync_hop :: bool
  pf_extent_run :: bool
  pf_direct_install :: bool
  pf_score :: hide_score
  pq_nav :: bool
  pf_pq :: "'a pq_table option"
  pf_q :: "(nat \<times> nat) list"
  pf_stop :: bool
  pf_win :: bool
  entry_pinned :: bool

definition prefetch_new :: "'a prefetch" where
  "prefetch_new = \<lparr>pf_policy = P0, budget_per_query = 262144, budget_left = 0, neighbor_k = 64,
     expand_batch = 4, issue_ahead = 1, pin_entry = True, async_q_cap = 4096, pipe_w = 8, install_top = 64,
     fetch_top = 0, page_group_b = False, install_all_fetched = False, oracle_dram = False,
     freeze_fills = False, sync_hop = False, pf_extent_run = False, pf_direct_install = False,
     pf_score = Score_window, pq_nav = False, pf_pq = None, pf_q = [], pf_stop = False, pf_win = False,
     entry_pinned = False\<rparr>"

section \<open>The queue of the prefetch thread\<close>

definition bytes_charge :: "nat \<Rightarrow> nat \<Rightarrow> nat" where
  "bytes_charge pb len0 =
     (let len = (if len0 = 0 then pb else len0);
          n1 = (len + pb - 1) div pb;
          n2 = (if len \<le> pb \<and> pb div 2 < len then 2 else n1);
          n3 = (if n2 < 1 then 1 else n2)
      in n3 * pb)"

definition enqueue :: "nat \<Rightarrow> nat option \<Rightarrow> nat \<Rightarrow> 'a prefetch \<Rightarrow> 'a prefetch" where
  "enqueue pb ptr len pf =
     (case ptr of
        None \<Rightarrow> pf
      | Some off \<Rightarrow>
          if \<not> pf_win pf then pf
          else let need = bytes_charge pb len
               in if budget_left pf < need then pf
                  else if async_q_cap pf \<le> length (pf_q pf) then pf
                  else pf\<lparr>budget_left := budget_left pf - need, pf_q := pf_q pf @ [(off, len)]\<rparr>)"

definition enqueue_force :: "nat option \<Rightarrow> nat \<Rightarrow> 'a prefetch \<Rightarrow> 'a prefetch" where
  "enqueue_force ptr len pf =
     (case ptr of
        None \<Rightarrow> pf
      | Some off \<Rightarrow>
          if \<not> pf_win pf then pf
          else if async_q_cap pf \<le> length (pf_q pf) then pf
          else pf\<lparr>pf_q := pf_q pf @ [(off, len)]\<rparr>)"

definition start_async :: "'a prefetch \<Rightarrow> 'a prefetch" where
  "start_async pf = pf\<lparr>pf_win := True, pf_stop := False\<rparr>"

definition stop_async :: "'a prefetch \<Rightarrow> 'a prefetch" where
  "stop_async pf = pf\<lparr>pf_stop := True\<rparr>"

text \<open>The thread: waiting for work, holding the job it took, or gone.\<close>

datatype pf_worker = Pf_waiting | Pf_holding nat nat | Pf_exited

definition run_prefetch_job :: "(nat \<Rightarrow> byte) \<Rightarrow> nat \<Rightarrow> nat \<Rightarrow> dram_window \<Rightarrow> dram_window" where
  "run_prefetch_job ssd off len w =
     snd (snd (try_prefetch ssd off (Some ((2 ^ 64 - 1) div 4)) (if len = 0 then page_bytes w else len) w))"

text \<open>One turn of the thread; a wake-up with nothing to do changes nothing.\<close>

definition pf_turn ::
  "(nat \<Rightarrow> byte) \<Rightarrow> 'a prefetch \<times> pf_worker \<times> dram_window \<Rightarrow> 'a prefetch \<times> pf_worker \<times> dram_window" where
  "pf_turn ssd st =
     (case st of (pf, wk, w) \<Rightarrow>
        case wk of
          Pf_exited \<Rightarrow> st
        | Pf_holding off len \<Rightarrow> (pf, Pf_waiting, run_prefetch_job ssd off len w)
        | Pf_waiting \<Rightarrow>
            (case pf_q pf of
               [] \<Rightarrow> if pf_stop pf then (pf, Pf_exited, w) else st
             | (off, len) # js \<Rightarrow> (pf\<lparr>pf_q := js\<rparr>, Pf_holding off len, w)))"

inductive pf_step ::
  "(nat \<Rightarrow> byte) \<Rightarrow> 'a prefetch \<times> pf_worker \<times> dram_window \<Rightarrow> 'a prefetch \<times> pf_worker \<times> dram_window \<Rightarrow> bool"
  for ssd where
  pf_enqueue: "pf_step ssd (pf, wk, w) (enqueue (page_bytes w) ptr len pf, wk, w)"
| pf_force: "pf_step ssd (pf, wk, w) (enqueue_force ptr len pf, wk, w)"
| pf_new_query: "pf_step ssd (pf, wk, w) (pf\<lparr>budget_left := budget_per_query pf\<rparr>, wk, w)"
| pf_request_stop: "pf_step ssd (pf, wk, w) (stop_async pf, wk, w)"
| pf_worker_turn: "pf_step ssd st (pf_turn ssd st)"

section \<open>Entry, query and expansion\<close>

definition nbr_off :: "nat \<Rightarrow> nbr_ptr \<Rightarrow> nat" where
  "nbr_off hb ptr = (case ptr of Host_nbrs a \<Rightarrow> hb + a | Image_nbrs a \<Rightarrow> a)"

definition pin_entry_hot ::
  "nat \<Rightarrow> placement \<Rightarrow> layout_header \<Rightarrow> nat list \<Rightarrow> nat \<Rightarrow> 'a prefetch \<times> dram_window \<Rightarrow> 'a prefetch \<times> dram_window" where
  "pin_entry_hot hb p h ids start st =
     (case st of (pf, w) \<Rightarrow>
        if \<not> pin_entry pf \<or> entry_pinned pf then st
        else let vb = h_dim h * h_vec_bytes h; nb = h_R h * 4; img = ssd_image p
             in if diskann_layout p \<and> vec_stride p \<noteq> 0
                then (pf\<lparr>entry_pinned := True\<rparr>,
                      fold (\<lambda>i. win_pin img (entry_off p h i) (vec_stride p)) (take 256 ids)
                        (win_pin img (entry_off p h start) (vec_stride p) w))
                else (pf\<lparr>entry_pinned := True\<rparr>,
                      fold (\<lambda>k v. let i = ids ! k; v1 = win_pin img (nbr_off hb (nbrs p h i)) nb v
                                   in if k < 256 then win_pin img (vec_off p h i) vb v1 else v1)
                        [0..<length ids]
                        (win_pin img (nbr_off hb (nbrs p h start)) nb (win_pin img (vec_off p h start) vb w))))"

text \<open>What is prefetched for a node: its whole entry, or its vector.\<close>

definition warm_range :: "placement \<Rightarrow> layout_header \<Rightarrow> nat \<Rightarrow> nat \<times> nat" where
  "warm_range p h i =
     (if diskann_layout p \<and> vec_stride p \<noteq> 0 then (entry_off p h i, vec_stride p)
      else (vec_off p h i, h_dim h * h_vec_bytes h))"

definition warm_id :: "placement \<Rightarrow> layout_header \<Rightarrow> nat \<Rightarrow> 'a prefetch \<times> dram_window \<Rightarrow> 'a prefetch \<times> dram_window" where
  "warm_id p h i st =
     (case st of (pf, w) \<Rightarrow>
        case try_prefetch (ssd_image p) (fst (warm_range p h i)) (Some (budget_left pf)) (snd (warm_range p h i)) w of
          (_, b, v) \<Rightarrow> (pf\<lparr>budget_left := the b\<rparr>, v))"

text \<open>The loops stop for good when less than a page of the budget is left.\<close>

fun warm_while :: "placement \<Rightarrow> layout_header \<Rightarrow> nat list \<Rightarrow> 'a prefetch \<times> dram_window \<Rightarrow> 'a prefetch \<times> dram_window" where
  "warm_while p h [] st = st"
| "warm_while p h (i # is) st =
     (if budget_left (fst st) < page_bytes (snd st) then st else warm_while p h is (warm_id p h i st))"

definition on_query_begin ::
  "nat \<Rightarrow> placement \<Rightarrow> layout_header \<Rightarrow> nat list \<Rightarrow> nat \<Rightarrow> 'a prefetch \<times> dram_window \<Rightarrow> 'a prefetch \<times> dram_window" where
  "on_query_begin hb p h ids start st =
     (case st of (pf, w) \<Rightarrow>
        let st1 = pin_entry_hot hb p h ids start (pf\<lparr>budget_left := budget_per_query pf\<rparr>, w)
        in if pf_policy pf = P0 \<or> pf_policy pf = P3 then st1 else warm_while p h ids st1)"

text \<open>Where the neighbour ids of a node are looked up: offset, length and position of the ids in it.
  They are copied out of the window at once, through the pointer returned.\<close>

definition nbr_span :: "nat \<Rightarrow> placement \<Rightarrow> layout_header \<Rightarrow> nat \<Rightarrow> nat \<times> nat \<times> nat" where
  "nbr_span hb p h node =
     (if diskann_layout p \<and> vec_stride p \<noteq> 0
      then (entry_off p h node, vec_stride p, h_dim h * h_vec_bytes h + 4)
      else (nbr_off hb (nbrs p h node), h_R h * 4, 0))"

definition expand_nbrs :: "nat \<Rightarrow> placement \<Rightarrow> layout_header \<Rightarrow> nat \<Rightarrow> nat \<Rightarrow> dram_window \<Rightarrow> nat list \<times> dram_window" where
  "expand_nbrs hb p h lm node w =
     (case nbr_span hb p h node of (off, len, skip) \<Rightarrow>
        case lookup_or_promote (ssd_image p) off len w of (ptr, v) \<Rightarrow>
          (map (\<lambda>k. u32_le (wptr_bytes v ptr (skip + 4 * k) 4)) [0..<lm], v))"

definition on_expand ::
  "nat \<Rightarrow> placement \<Rightarrow> layout_header \<Rightarrow> nat \<Rightarrow> 'a prefetch \<times> dram_window \<Rightarrow> 'a prefetch \<times> dram_window" where
  "on_expand hb p h node st =
     (case st of (pf, w) \<Rightarrow>
        if pf_policy pf = P0 then st
        else let lim0 = (if neighbor_k pf < h_R h then neighbor_k pf else h_R h);
                 lm = (if 64 < lim0 then 64 else lim0);
                 (ns, v) = expand_nbrs hb p h lm node w
             in warm_while p h (filter (\<lambda>nb. nb < h_n h) ns) (pf, v))"

definition prefetch_by_cand_distance :: "('f \<times> nat) list \<Rightarrow> 'a prefetch \<Rightarrow> 'a prefetch" where
  "prefetch_by_cand_distance unexp pf = (if pf_policy pf = P0 \<or> unexp = [] then pf else pf)"

section \<open>The charge of a job\<close>

lemma page_span_count:
  assumes "pow2 pb" and "0 < len"
  shows "length (page_span pb off len) = (off mod pb + len - 1) div pb + 1"
proof -
  have pb: "0 < pb" using assms(1) by simp
  let ?a = "off div pb" and ?r = "off mod pb"
  have off: "off = ?a * pb + ?r" by simp
  have f: "page_floor pb off = ?a * pb"
    using page_floor_eq [OF assms(1), of off] by (simp add: minus_mod_eq_div_mult)
  have "off + len - 1 = ?a * pb + (?r + len - 1)" using off assms(2) by linarith
  then have d: "(off + len - 1) div pb = ?a + (?r + len - 1) div pb" using pb by simp
  have l: "page_last pb off len = (off + len - 1) div pb * pb"
    using page_floor_eq [OF assms(1), of "off + len - 1"] by (simp add: page_last_def minus_mod_eq_div_mult)
  have "page_last pb off len - ?a * pb = (?r + len - 1) div pb * pb" unfolding l d by (simp add: add_mult_distrib)
  moreover have "?a * pb \<le> page_last pb off len" unfolding l d by simp
  ultimately show ?thesis using pb by (simp add: page_span_def f length_pages_from)
qed

lemma bytes_charge_pages:
  assumes "pow2 pb" and "0 < len"
  shows "bytes_charge pb len = (if pb div 2 < len \<and> len \<le> pb then 2 else (len - 1) div pb + 1) * pb"
proof -
  have pb: "0 < pb" using assms(1) by simp
  have ne: "len \<noteq> 0" using assms(2) by simp
  define x where "x = (len - 1) div pb"
  have len: "len + pb - 1 = (len - 1) + pb" using assms(2) by simp
  have q: "(len + pb - 1) div pb = x + 1" unfolding len using pb by (simp add: x_def)
  show ?thesis unfolding bytes_charge_def Let_def if_not_P [OF ne] q x_def [symmetric] by auto
qed

text \<open>The charge of a prefetch covers the pages its bytes lie in up to one page, wherever they
  start, and covers them all when they start on a page or when the job is longer than half a
  page and fits in one. A job of at most half a page that straddles two is charged for one.\<close>
theorem charge_covers_pages:
  assumes "pow2 pb" and "0 < len"
  shows "pb * length (page_span pb off len) \<le> bytes_charge pb len + pb \<and>
    (if off mod pb = 0 \<or> pb div 2 < len \<and> len \<le> pb
     then pb * length (page_span pb off len) \<le> bytes_charge pb len
     else if len \<le> pb div 2 \<and> pb < off mod pb + len
     then bytes_charge pb len = pb \<and> pb * length (page_span pb off len) = 2 * pb
     else True)"
proof -
  have pb: "0 < pb" using assms(1) by simp
  define c where "c = (if pb div 2 < len \<and> len \<le> pb then 2 else (len - 1) div pb + 1)"
  define k where "k = (off mod pb + len - 1) div pb + 1"
  have ch: "bytes_charge pb len = c * pb" by (simp add: c_def bytes_charge_pages [OF assms])
  have sp: "length (page_span pb off len) = k" by (simp add: k_def page_span_count [OF assms])
  have r: "off mod pb < pb" using pb by simp
  have near: "k \<le> (len - 1) div pb + 2"
  proof -
    have "off mod pb + len - 1 \<le> (len - 1) + pb" using r by simp
    then have "(off mod pb + len - 1) div pb \<le> ((len - 1) + pb) div pb" by (rule div_le_mono)
    then show ?thesis using pb by (simp add: k_def)
  qed
  moreover have "k \<le> c + 1" using near pb by (auto simp: c_def)
  moreover have "k \<le> c" if "off mod pb = 0" using that by (auto simp: k_def c_def)
  moreover have "k \<le> c" if "pb div 2 < len \<and> len \<le> pb" 
  proof -
    have "(len - 1) div pb = 0" using that assms(2) by (intro div_less) linarith
    then show ?thesis using near that by (simp add: c_def)
  qed
  moreover have "k = 2" if "len \<le> pb div 2" "pb < off mod pb + len"
  proof -
    have "pb \<le> off mod pb + len - 1" using that(2) by simp
    then have "1 \<le> (off mod pb + len - 1) div pb" using pb by (simp add: Suc_le_eq div_greater_zero_iff)
    moreover have "(len - 1) div pb = 0" using that(1) assms(2) by (intro div_less) linarith
    ultimately show ?thesis using near by (simp add: k_def)
  qed
  moreover have "c = 1" if "len \<le> pb div 2" using that assms(2) by (auto simp: c_def intro!: div_less)
  ultimately show ?thesis
    unfolding ch sp using mult_le_mono2 [of k "c + 1" pb] mult_le_mono2 [of k c pb]
    by (simp add: mult.commute [of _ pb])
qed

theorem charge_covers_pages_witness:
  "4096 * length (page_span 4096 4000 200) \<le> bytes_charge 4096 200 + 4096 \<and> bytes_charge 4096 200 = 4096"
  using charge_covers_pages [OF pow2_4096, of 200 4000] by simp

section \<open>Stopping the thread\<close>

text \<open>\<open>stop_async\<close> returns: once the flag is set, the thread performs the jobs still queued, each
  once and in their order, and leaves, in two turns per job and one more.\<close>
theorem stopped_worker_drains:
  assumes "pf_stop pf"
  shows "(pf_turn ssd ^^ (2 * length (pf_q pf) + 1)) (pf, Pf_waiting, w) =
    (pf\<lparr>pf_q := []\<rparr>, Pf_exited, fold (\<lambda>(off, len). run_prefetch_job ssd off len) (pf_q pf) w)"
  using assms
proof (induction "pf_q pf" arbitrary: pf w)
  case Nil
  then have q: "pf_q pf = []" by simp
  then have "pf = pf\<lparr>pf_q := []\<rparr>" by simp
  with q Nil(2) show ?case by (simp add: pf_turn_def)
next
  case (Cons j js)
  obtain off len where j: "j = (off, len)" by (cases j)
  let ?pf = "pf\<lparr>pf_q := js\<rparr>" and ?v = "run_prefetch_job ssd off len w"
  have q: "pf_q pf = (off, len) # js" using Cons(2) j by simp
  have t: "pf_turn ssd (pf_turn ssd (pf, Pf_waiting, w)) = (?pf, Pf_waiting, ?v)"
    by (simp add: pf_turn_def q)
  have "2 * length (pf_q pf) + 1 = Suc (Suc (2 * length js + 1))" by (simp add: q)
  then have "(pf_turn ssd ^^ (2 * length (pf_q pf) + 1)) (pf, Pf_waiting, w) =
      (pf_turn ssd ^^ (2 * length (pf_q ?pf) + 1)) (?pf, Pf_waiting, ?v)"
    by (simp only: funpow_Suc_right o_apply t) simp
  also have "\<dots> = (?pf\<lparr>pf_q := []\<rparr>, Pf_exited, fold (\<lambda>(off, len). run_prefetch_job ssd off len) (pf_q ?pf) ?v)"
    using Cons(1) [of ?pf ?v] Cons(3) by simp
  finally show ?case by (simp add: q)
qed

theorem stopped_worker_drains_witness:
  "\<forall>ssd w. fst (snd ((pf_turn ssd ^^ 3) (stop_async (enqueue_force (Some 0) 8 (start_async prefetch_new)), Pf_waiting, w))) = Pf_exited"
proof (intro allI)
  fix ssd w
  let ?pf = "stop_async (enqueue_force (Some 0) 8 (start_async prefetch_new))"
  have s: "pf_stop ?pf" and n: "2 * length (pf_q ?pf) + 1 = 3"
    by (simp_all add: stop_async_def enqueue_force_def start_async_def prefetch_new_def)
  show "fst (snd ((pf_turn ssd ^^ 3) (?pf, Pf_waiting, w))) = Pf_exited"
    unfolding stopped_worker_drains [OF s, unfolded n] by simp
qed

section \<open>The window stays good\<close>

lemma win_fold_ok:
  assumes "\<And>x v. good ssd v \<Longrightarrow> pin_room v \<Longrightarrow> win_step_ok ssd v (step x v)" and "win_step_ok ssd w v"
  shows "win_step_ok ssd w (fold step xs v)"
  using assms(2)
proof (induction xs arbitrary: v)
  case (Cons x xs)
  have "win_step_ok ssd v (step x v)" using assms(1) Cons.prems by (simp add: win_step_ok_def)
  with Cons show ?case using win_step_ok_trans by (metis fold_simps(2))
qed simp

lemma pin_entry_hot_ok:
  assumes "good (ssd_image p) w" and "pin_room w"
  shows "win_step_ok (ssd_image p) w (snd (pin_entry_hot hb p h ids start (pf, w)))"
proof -
  let ?pin = "win_pin (ssd_image p)"
  note pin = win_pin_ok [where ssd = "ssd_image p"]
  have one: "win_step_ok (ssd_image p) w (?pin off len w)" for off len by (rule pin [OF assms])
  have two: "win_step_ok (ssd_image p) v (?pin off' len' (?pin off len v))"
    if "good (ssd_image p) v" "pin_room v" for off len off' len' v
    using pin [OF that] pin win_step_ok_trans by (metis win_step_ok_def)
  have step: "win_step_ok (ssd_image p) v (if k < 256 then ?pin b m (?pin a n v) else ?pin a n v)"
    if "good (ssd_image p) v" "pin_room v" for k :: nat and v a b n m
    using two [OF that] pin [OF that] by simp
  have dl: "win_step_ok (ssd_image p) w (fold (\<lambda>i. ?pin (a i) n) js (?pin b m w))" for a n b m and js :: "nat list"
    by (rule win_fold_ok [OF pin one])
  have cx: "win_step_ok (ssd_image p) w (fold (\<lambda>k v. if k < 256 then ?pin (b k) m (?pin (a k) n v) else ?pin (a k) n v)
      ks (?pin c n (?pin d m w)))" for a b c d n m and ks :: "nat list"
    by (rule win_fold_ok [OF step two [OF assms]])
  show ?thesis
    using dl cx assms by (simp add: pin_entry_hot_def Let_def win_step_ok_refl)
qed

lemma on_query_begin_ok:
  assumes "good (ssd_image p) w" and "pin_room w" and "pf_policy pf = P0 \<or> pf_policy pf = P3"
  shows "win_step_ok (ssd_image p) w (snd (on_query_begin hb p h ids start (pf, w)))"
  using pin_entry_hot_ok [OF assms(1,2)] assms(3) by (auto simp: on_query_begin_def)

end
