(* ===== verification/Search_Common.thy ===== *)
theory Search_Common
  imports Beam Prefetch Distances Hide_Pipe
begin

text \<open>
  What the searches of \<open>serving/search_beam.cpp\<close> share: the query with its placement and limits,
  the candidates of an oracle search that reads vectors straight from the mapped image, and the
  small functions around a search (entry file, device names, policy names, ground truth, recall,
  percentiles). A search ends with ids, or the process leaves with \<open>exit(2)\<close>; \<open>None\<close> stands for a
  search that does not return.
\<close>

datatype 'r outcome = Exit_2 | Result 'r

record 'a sctx =
  sc_pl :: placement
  sc_h :: layout_header
  sc_hb :: nat
  sc_dec :: "32 word \<Rightarrow> 'a"
  sc_cvt :: "16 word \<Rightarrow> 32 word"
  sc_q :: "'a list"
  sc_beam :: nat
  sc_k :: nat
  sc_iters :: nat
  sc_entry :: nat
  sc_warm :: "nat list"

abbreviation sc_img :: "'a sctx \<Rightarrow> nat \<Rightarrow> byte" where
  "sc_img c \<equiv> ssd_image (sc_pl c)"

definition sc_vb :: "'a sctx \<Rightarrow> nat" where
  "sc_vb c = h_dim (sc_h c) * h_vec_bytes (sc_h c)"

definition sc_L :: "'a sctx \<Rightarrow> nat" where
  "sc_L c = (if sc_beam c \<noteq> 0 then sc_beam c else sc_k c)"

definition sc_Rlim :: "'a sctx \<Rightarrow> nat" where
  "sc_Rlim c = (if 64 < h_R (sc_h c) then 64 else h_R (sc_h c))"

definition sc_vec :: "'a sctx \<Rightarrow> nat \<Rightarrow> nat" where
  "sc_vec c i = vec_off (sc_pl c) (sc_h c) i"

definition score_bytes :: "'a :: comm_ring_1 sctx \<Rightarrow> byte list \<Rightarrow> 'a" where
  "score_bytes c bs = vec_mips_neg (sc_cvt c) (sc_dec c) bs (sc_q c) (h_dim (sc_h c)) (h_vec_bytes (sc_h c))"

text \<open>The score of the vector on the SSD, and the neighbour ids in the host graph or the image.\<close>

definition true_score :: "'a :: comm_ring_1 sctx \<Rightarrow> nat \<Rightarrow> 'a" where
  "true_score c i = score_bytes c (image_bytes (sc_img c) (sc_vec c i) (sc_vb c))"

definition true_nbrs :: "'a sctx \<Rightarrow> nat \<Rightarrow> nat list" where
  "true_nbrs c i = hide_read_nbrs (sc_pl c) (sc_h c) i (sc_Rlim c)"

section \<open>Scoring from the mapped image\<close>

definition count_dist :: "metrics \<Rightarrow> metrics" where
  "count_dist m = m\<lparr>distance_comps := distance_comps m + 1\<rparr>"

definition score_dram :: "'a :: comm_ring_1 sctx \<Rightarrow> nat \<Rightarrow> dram_window \<Rightarrow> 'a option \<times> dram_window" where
  "score_dram c i w =
     (Some (true_score c i),
      met_upd (\<lambda>m. note_pf_scored_id i (note_score_from_window 1 (count_dist m))) w)"

definition oracle_nbrs :: "'a sctx \<Rightarrow> nat \<Rightarrow> dram_window \<Rightarrow> nat list \<times> dram_window" where
  "oracle_nbrs c cur w = (true_nbrs c cur, w)"

definition search_oracle :: "'a :: {comm_ring_1, linorder} sctx \<Rightarrow> dram_window \<Rightarrow> (nat list \<times> dram_window) option" where
  "search_oracle c w =
     map_option (\<lambda>b. (take_top (sc_k c) (b_cand b), b_st b))
       (beam_loop (sc_L c) (h_n (sc_h c)) (sc_iters c) (\<lambda>s. s) (\<lambda>_ s. s) (oracle_nbrs c) (score_dram c)
          (beam_entry (sc_L c) (score_dram c) (sc_entry c) w))"

section \<open>Around a search\<close>

record entry_graph =
  eg_entry_id :: nat
  eg_R :: nat
  eg_nodes :: "nat list"

text \<open>The reads are not checked: what a file that is too short does not give stays zero.\<close>

definition padded :: "nat \<Rightarrow> nat \<Rightarrow> byte list \<Rightarrow> byte list" where
  "padded off n f = take n (drop off f @ replicate n 0)"

definition load_entry :: "byte list \<Rightarrow> entry_graph" where
  "load_entry f =
     (let en = u32_le (padded 0 4 f); nodes = padded 12 (4 * en) f
      in \<lparr>eg_entry_id = u32_le (padded 8 4 f), eg_R = u32_le (padded 4 4 f),
          eg_nodes = map (\<lambda>i. u32_le (mem_read (4 * i) 4 nodes)) [0..<en]\<rparr>)"

definition is_dax_path :: "string option \<Rightarrow> bool" where
  "is_dax_path path = (case path of None \<Rightarrow> False | Some s \<Rightarrow> take 8 s = ''/dev/dax'')"

definition is_digit :: "char \<Rightarrow> bool" where
  "is_digit ch \<longleftrightarrow> 48 \<le> (of_char ch :: nat) \<and> (of_char ch :: nat) \<le> 57"

definition is_vmem_bar_dev :: "string option \<Rightarrow> bool" where
  "is_vmem_bar_dev path =
     (case path of
        None \<Rightarrow> False
      | Some s \<Rightarrow> s \<noteq> [] \<and> take 9 s = ''/dev/vmem'' \<and> list_all is_digit (drop 9 s))"

definition parse_policy :: "string \<Rightarrow> prefetch_policy outcome" where
  "parse_policy s =
     (if s = ''P0'' then Result P0 else if s = ''P1'' then Result P1
      else if s = ''P2'' then Result P2 else if s = ''P3'' then Result P3 else Exit_2)"

definition percentile :: "rat list \<Rightarrow> rat \<Rightarrow> rat" where
  "percentile vs p =
     (if vs = [] then 0
      else let v = std_sort (<) vs; idx = p * of_nat (length v - 1); i = nat \<lfloor>idx\<rfloor>; f = idx - of_nat i
           in if length v \<le> i + 1 then v ! (length v - 1) else v ! i * (1 - f) + v ! (i + 1) * f)"

definition load_gt_row :: "nat list \<Rightarrow> nat \<Rightarrow> nat \<Rightarrow> nat \<Rightarrow> nat list" where
  "load_gt_row gt gt_k qi k = map (\<lambda>i. gt ! (qi * gt_k + i)) [0..<min k gt_k]"

definition recall_at_k :: "nat list \<Rightarrow> nat list \<Rightarrow> rat" where
  "recall_at_k pred gt =
     (if gt = [] then 0 else of_nat (length (filter (\<lambda>i. i \<in> set gt) pred)) / of_nat (length gt))"

section \<open>The oracle search\<close>

lemma inv_met: "good ssd (met_upd f w) = good ssd w"
  by simp

interpretation in_dram: beam_client "\<lambda>_. True" "true_nbrs c" "true_score c" "\<lambda>_. True" "\<lambda>s. s" "\<lambda>_ s. s"
  "oracle_nbrs c" "score_dram c" "Suc L" n entry for c :: "'a :: {comm_ring_1, linorder} sctx" and L n entry
  by unfold_locales (simp_all add: oracle_nbrs_def score_dram_def)

lemma search_oracle_spec:
  assumes "0 < sc_L c" and "sc_k c \<le> sc_L c"
  shows "\<exists>ids v. search_oracle c w = Some (ids, v) \<and>
    best_reached (true_nbrs c) (true_score c) (\<lambda>_. True) (h_n (sc_h c)) (sc_entry c) (sc_iters c) (sc_k c) ids"
proof -
  obtain L where "sc_L c = Suc L" using assms(1) by (cases "sc_L c") auto
  then show ?thesis
    using in_dram.beam_search_ok [of "sc_k c" L "h_n (sc_h c)" "sc_iters c" c "sc_entry c" w] assms(2)
    by (auto simp: search_oracle_def)
qed

text \<open>C5. With \<open>0 < L\<close> and \<open>k \<le> L\<close> the oracle search always returns,
  and returns the \<open>k\<close> best of all ids it reached, by the exact inner product with the query,
  best first; it expands at most \<open>iters\<close> nodes, and with no limit it ends only when each id
  it returns has been expanded.\<close>
theorem oracle_returns_best_reached:
  assumes "0 < sc_L c" and "sc_k c \<le> sc_L c"
  shows "\<exists>ids v. search_oracle c w = Some (ids, v) \<and>
    best_reached (true_nbrs c) (true_score c) (\<lambda>_. True) (h_n (sc_h c)) (sc_entry c) (sc_iters c) (sc_k c) ids"
  using assms by (rule search_oracle_spec)

text \<open>A corpus of four vectors of one component, \<open>3, 9, 7, 5\<close>, and a ring of neighbours.\<close>

definition ring_image :: "nat \<Rightarrow> byte" where
  "ring_image a = (if a < 16 then [3, 0, 0, 0, 9, 0, 0, 0, 7, 0, 0, 0, 5, 0, 0, 0] ! a
     else if a < 32 then [1, 0, 0, 0, 2, 0, 0, 0, 3, 0, 0, 0, 0, 0, 0, 0] ! (a - 16) else 0)"

definition ring_header :: layout_header where
  "ring_header = \<lparr>h_magic = 0, h_version = 2, h_n = 4, h_dim = 1, h_R = 1, h_pq_bytes = 0,
     h_vec_bytes = 4, h_entry_id = 0, h_entry_nodes = 1, h_off_pq = 0, h_len_pq = 0, h_off_graph = 16,
     h_len_graph = 16, h_off_vectors = 0, h_len_vectors = 16, h_off_pivots = 0, h_len_pivots = 0,
     h_checksum = 0\<rparr>"

definition ring_place :: placement where
  "ring_place = \<lparr>hdr = Some ring_header, ssd_image = ring_image, ssd_bytes = 32, vec_stride = 4, graph_host = None,
     diskann_layout = False, id_to_slot = [], slot_to_id = [], bundle_off = 0, bundle_stride = 0,
     bundle_bytes = 0\<rparr>"

definition ring_ctx :: "int sctx" where
  "ring_ctx = \<lparr>sc_pl = ring_place, sc_h = ring_header, sc_hb = 0, sc_dec = uint, sc_cvt = f16_to_f32, sc_q = [1],
     sc_beam = 3, sc_k = 2, sc_iters = 0, sc_entry = 0, sc_warm = []\<rparr>"

theorem oracle_returns_best_reached_witness:
  "\<forall>w. \<exists>ids v. search_oracle ring_ctx w = Some (ids, v) \<and> distinct ids \<and> length ids \<le> 2 \<and> sorted (map (true_score ring_ctx) ids)"
proof
  fix w
  have "0 < sc_L ring_ctx" "sc_k ring_ctx \<le> sc_L ring_ctx" "sc_k ring_ctx = 2" by (simp_all add: sc_L_def ring_ctx_def)
  with oracle_returns_best_reached [of ring_ctx w]
  show "\<exists>ids v. search_oracle ring_ctx w = Some (ids, v) \<and> distinct ids \<and> length ids \<le> 2 \<and> sorted (map (true_score ring_ctx) ids)" by (auto simp: best_reached_def)
qed

section \<open>Recall\<close>

lemma of_nat_fraction:
  assumes "a \<le> b" and "0 < b"
  shows "(0 :: rat) \<le> of_nat a / of_nat b" and "of_nat a / of_nat b \<le> (1 :: rat)"
    and "of_nat a / of_nat b = (1 :: rat) \<longleftrightarrow> a = b"
  using assms by auto

text \<open>Recall is a fraction between 0 and 1 as long as no id is returned twice, and it is 1
  exactly when every id of a duplicate-free, non-empty ground truth was returned.\<close>
theorem recall_is_fraction:
  assumes "distinct ids" and "distinct gt" and "gt \<noteq> []"
  shows "0 \<le> recall_at_k ids gt \<and> recall_at_k ids gt \<le> 1 \<and> (recall_at_k ids gt = 1) = (set gt \<subseteq> set ids)"
proof -
  let ?hit = "length (filter (\<lambda>i. i \<in> set gt) ids)"
  have h: "?hit = card (set ids \<inter> set gt)"
    using distinct_card [of "filter (\<lambda>i. i \<in> set gt) ids"] assms(1) by (simp add: Int_def)
  have g: "length gt = card (set gt)" using assms(2) by (simp add: distinct_card)
  have le: "?hit \<le> length gt" unfolding h g by (simp add: card_mono)
  have "?hit = length gt \<longleftrightarrow> set gt \<subseteq> set ids"
    unfolding h g using card_subset_eq [of "set gt" "set ids \<inter> set gt"] by (auto simp: Int_absorb1)
  then show ?thesis
    unfolding recall_at_k_def if_not_P [OF assms(3)]
    using of_nat_fraction [OF le] assms(3) by simp
qed

theorem recall_is_fraction_witness: "recall_at_k [4, 7, 1] [7, 1] = 1 \<and> recall_at_k [4, 7] [7, 1] \<le> 1"
  using recall_is_fraction [of "[4, 7, 1]" "[7, 1]"] recall_is_fraction [of "[4, 7]" "[7, 1]"] by auto

end
