(* ===== verification/Search_Fp.thy ===== *)
theory Search_Fp
  imports Search_Common Window_Props
begin

text \<open>
  \<open>search_one_fp\<close> of \<open>serving/search_beam.cpp\<close> under the policies P0, P1 and P2 and
  \<open>search_one\<close>, the older search by compressed codes: every read goes through the CXL-DRAM
  window, which is the state of the search. The metrics of the query and of the window are the
  same object (\<open>cur_met\<close>).
\<close>

section \<open>Reads through the window\<close>

definition get_vec :: "'a sctx \<Rightarrow> nat \<Rightarrow> dram_window \<Rightarrow> wptr \<times> dram_window" where
  "get_vec c i w = (case warm_range (sc_pl c) (sc_h c) i of (off, len) \<Rightarrow> lookup_or_promote (sc_img c) off len w)"

definition get_nbr :: "'a sctx \<Rightarrow> nat \<Rightarrow> dram_window \<Rightarrow> nat list \<times> dram_window" where
  "get_nbr c cur w = expand_nbrs (sc_hb c) (sc_pl c) (sc_h c) (sc_Rlim c) cur w"

definition score_id :: "'a :: comm_ring_1 sctx \<Rightarrow> nat \<Rightarrow> dram_window \<Rightarrow> 'a option \<times> dram_window" where
  "score_id c i w =
     (case copy_through (sc_img c) (sc_vec c i) (sc_vb c) w of
        (bs, v) \<Rightarrow> (Some (score_bytes c bs), met_upd count_dist v))"

section \<open>P0 and P1: expand, then score\<close>

definition fp_begin :: "'b sctx \<Rightarrow> 'a prefetch \<times> dram_window \<Rightarrow> 'a prefetch \<times> dram_window" where
  "fp_begin c st = on_query_begin (sc_hb c) (sc_pl c) (sc_h c) (sc_warm c) (sc_entry c) st"

definition search_classic ::
  "'a :: {comm_ring_1, linorder} sctx \<Rightarrow> 'a prefetch \<times> dram_window \<Rightarrow> (nat list \<times> dram_window) outcome option" where
  "search_classic c st =
     (if 4096 < sc_vb c then Some Exit_2
      else map_option (\<lambda>b. Result (take_top (sc_k c) (b_cand b), b_st b))
        (beam_loop (sc_L c) (h_n (sc_h c)) (sc_iters c) (\<lambda>s. s) (\<lambda>_ s. s) (get_nbr c) (score_id c)
           (beam_entry (sc_L c) (score_id c) (sc_entry c) (snd (fp_begin c st)))))"

section \<open>P2: neighbours wait until they are resident\<close>

text \<open>State: the window, the queue \<open>pending\<close> and the set \<open>pending_set\<close>.\<close>

type_synonym p2_state = "dram_window \<times> nat list \<times> nat set"

abbreviation pend :: "('f, p2_state) beam \<Rightarrow> nat list" where
  "pend b \<equiv> fst (snd (b_st b))"

definition p2_score :: "'a :: comm_ring_1 sctx \<Rightarrow> nat \<Rightarrow> p2_state \<Rightarrow> 'a option \<times> p2_state" where
  "p2_score c i s = (case s of (w, pd, ps) \<Rightarrow> case score_id c i w of (d, v) \<Rightarrow> (d, (v, pd, ps)))"

definition force_one_pending ::
  "'a :: {comm_ring_1, linorder} sctx \<Rightarrow> ('a, p2_state) beam \<Rightarrow> ('a, p2_state) beam" where
  "force_one_pending c b =
     (case b_st b of
        (w, [], ps) \<Rightarrow> b
      | (w, i # pd, ps) \<Rightarrow> score_into (sc_L c) (p2_score c) i (b\<lparr>b_st := (w, pd, ps - {i})\<rparr>))"

text \<open>One turn of \<open>drain_ready\<close>: the oldest pending id is scored if it is resident, else requeued.\<close>

definition drain_one :: "'a :: {comm_ring_1, linorder} sctx \<Rightarrow> ('a, p2_state) beam \<Rightarrow> ('a, p2_state) beam" where
  "drain_one c b =
     (case b_st b of
        (w, [], ps) \<Rightarrow> b
      | (w, i # pd, ps) \<Rightarrow>
          if is_resident (sc_vec c i) (sc_vb c) w then force_one_pending c b
          else b\<lparr>b_st := (w, pd @ [i], ps)\<rparr>)"

definition drain_ready :: "'a :: {comm_ring_1, linorder} sctx \<Rightarrow> ('a, p2_state) beam \<Rightarrow> ('a, p2_state) beam" where
  "drain_ready c b = (drain_one c ^^ length (pend b)) b"

definition pend_nbr :: "nat \<Rightarrow> nat \<Rightarrow> ('f, p2_state) beam \<Rightarrow> ('f, p2_state) beam" where
  "pend_nbr n nb b =
     (if n \<le> nb \<or> nb \<in> b_seen b then b
      else case b_st b of (w, pd, ps) \<Rightarrow>
             b\<lparr>b_seen := insert nb (b_seen b),
               b_st := (if nb \<in> ps then (w, pd, ps) else (w, pd @ [nb], insert nb ps))\<rparr>)"

definition p2_nbrs :: "'a sctx \<Rightarrow> nat \<Rightarrow> dram_window \<Rightarrow> nat list \<times> dram_window" where
  "p2_nbrs c cur w =
     (case copy_through (sc_img c) (nbr_off (sc_hb c) (nbrs (sc_pl c) (sc_h c) cur)) (sc_Rlim c * 4) w of
        (bs, v) \<Rightarrow> (map (\<lambda>j. u32_le (mem_read (4 * j) 4 bs)) [0..<sc_Rlim c], v))"

definition discover :: "'a sctx \<Rightarrow> nat \<Rightarrow> ('a, p2_state) beam \<Rightarrow> ('a, p2_state) beam" where
  "discover c cur b =
     (case b_st b of (w, pd, ps) \<Rightarrow>
        case p2_nbrs c cur w of (ns, v) \<Rightarrow> fold (pend_nbr (h_n (sc_h c))) ns (b\<lparr>b_st := (v, pd, ps)\<rparr>))"

text \<open>Each forced id leaves the queue and none enters it, so the loops that force while the queue is
  too long make as many turns as it has ids too many.\<close>

definition force_down_to :: "'a :: {comm_ring_1, linorder} sctx \<Rightarrow> nat \<Rightarrow> ('a, p2_state) beam \<Rightarrow> ('a, p2_state) beam" where
  "force_down_to c cap b = (force_one_pending c ^^ (length (pend b) - cap)) b"

definition p2_expand ::
  "'a :: {comm_ring_1, linorder} sctx \<Rightarrow> nat \<Rightarrow> nat \<Rightarrow> ('a, p2_state) beam \<Rightarrow> ('a, p2_state) beam" where
  "p2_expand c cap cur b =
     (let b1 = drain_ready c (discover c cur (mark_expanded cur b));
          b2 = force_down_to c cap b1
      in if list_all (\<lambda>e. snd e \<in> b_expanded b2) (b_cand b2) \<and> pend b2 \<noteq> [] then force_one_pending c b2 else b2)"

partial_function (option) p2_loop ::
  "'a :: {comm_ring_1, linorder} sctx \<Rightarrow> nat \<Rightarrow> ('a, p2_state) beam \<Rightarrow> ('a, p2_state) beam option" where
  [code]: "p2_loop c cap b0 =
     (let b = drain_ready c b0
      in case pick_best (b_expanded b) (b_cand b) of
           None \<Rightarrow> if pend b = [] then Some b else p2_loop c cap (force_one_pending c b)
         | Some bi \<Rightarrow>
             if sc_iters c \<noteq> 0 \<and> sc_iters c \<le> b_expands b then Some (force_down_to c 0 b)
             else p2_loop c cap (p2_expand c cap (snd (b_cand b ! bi)) b))"

definition p2_cap :: "'a sctx \<Rightarrow> nat" where
  "p2_cap c = max 256 (sc_L c * 2)"

definition search_p2 ::
  "'a :: {comm_ring_1, linorder} sctx \<Rightarrow> 'a prefetch \<times> dram_window \<Rightarrow> (nat list \<times> dram_window) outcome option" where
  "search_p2 c st =
     (if 4096 < sc_vb c then Some Exit_2
      else map_option (\<lambda>b. Result (take_top (sc_k c) (b_cand b), fst (b_st b)))
        (p2_loop c (p2_cap c) (beam_entry (sc_L c) (p2_score c) (sc_entry c) (snd (fp_begin c st), [], {}))))"

section \<open>The search by compressed codes\<close>

text \<open>The neighbour ids are read one by one through the pointer \<open>get_nbr\<close> returned, while the codes
  of the neighbours pass through the same window.\<close>

definition nbr_range :: "'a sctx \<Rightarrow> nat \<Rightarrow> nat \<times> nat \<times> nat" where
  "nbr_range c i = nbr_span (sc_hb c) (sc_pl c) (sc_h c) i"

definition pq_visit ::
  "'a sctx \<Rightarrow> (32 word \<Rightarrow> 'f) \<Rightarrow> byte list \<Rightarrow> nat set \<Rightarrow> wptr \<Rightarrow> nat \<Rightarrow> nat \<Rightarrow>
   'f cand list \<times> dram_window \<Rightarrow> 'f cand list \<times> dram_window" where
  "pq_visit c cvt qpq visited ptr skip j st =
     (case st of (nxt, w) \<Rightarrow>
        let nb = u32_le (wptr_bytes w ptr (skip + 4 * j) 4)
        in if h_n (sc_h c) \<le> nb \<or> nb \<in> visited then st
           else (case lookup_or_promote (sc_img c) (pq_off (sc_h c) nb) (h_pq_bytes (sc_h c)) w of
                   (p, v) \<Rightarrow>
                     (nxt @ [(cvt (pq_l2 qpq (wptr_bytes v p 0 (h_pq_bytes (sc_h c))) (h_pq_bytes (sc_h c))), nb)],
                      met_upd count_dist v)))"

definition pq_expand ::
  "'b sctx \<Rightarrow> (32 word \<Rightarrow> 'f) \<Rightarrow> byte list \<Rightarrow> 'f cand \<Rightarrow>
   nat set \<times> 'f cand list \<times> 'a prefetch \<times> dram_window \<Rightarrow> nat set \<times> 'f cand list \<times> 'a prefetch \<times> dram_window" where
  "pq_expand c cvt qpq cd st =
     (case st of (visited, nxt, pf, w) \<Rightarrow>
        if snd cd \<in> visited then st
        else let vis = insert (snd cd) visited;
                 (pf1, w1) = on_expand (sc_hb c) (sc_pl c) (sc_h c) (snd cd) (pf, w);
                 (off, len, skip) = nbr_range c (snd cd);
                 (ptr, w2) = lookup_or_promote (sc_img c) off len w1;
                 (nxt1, w3) = fold (pq_visit c cvt qpq vis ptr skip) [0..<h_R (sc_h c)] (nxt, w2)
             in (vis, nxt1, pf1, w3))"

text \<open>\<open>it\<close> rounds; each replaces the beam by the best neighbours found, until there are none.\<close>

fun pq_rounds ::
  "'b sctx \<Rightarrow> (32 word \<Rightarrow> 'f :: linorder) \<Rightarrow> byte list \<Rightarrow> nat \<Rightarrow>
   'f cand list \<times> nat set \<times> 'a prefetch \<times> dram_window \<Rightarrow> 'f cand list \<times> nat set \<times> 'a prefetch \<times> dram_window" where
  "pq_rounds c cvt qpq 0 st = st"
| "pq_rounds c cvt qpq (Suc it) (beam_v, visited, pf, w) =
     (if beam_v = [] then (beam_v, visited, pf, w)
      else let bv = take (sc_beam c) (std_sort cand_less beam_v)
           in case fold (pq_expand c cvt qpq) bv (visited, [], pf, w) of
                (vis, nxt, pf1, w1) \<Rightarrow>
                  if nxt = [] then (bv, vis, pf1, w1)
                  else pq_rounds c cvt qpq it (take (sc_beam c) (std_sort cand_less nxt), vis, pf1, w1))"

definition rerank_one ::
  "'a :: comm_ring_1 sctx \<Rightarrow> 'f cand \<Rightarrow> 'a cand list \<times> dram_window \<Rightarrow> 'a cand list \<times> dram_window" where
  "rerank_one c cd st =
     (case st of (out, w) \<Rightarrow>
        case lookup_or_promote (sc_img c) (sc_vec c (snd cd)) (sc_vb c) w of
          (p, v) \<Rightarrow>
            (out @ [(vec_l2 (sc_cvt c) (sc_dec c) (wptr_bytes v p 0 (sc_vb c)) (sc_q c) (h_dim (sc_h c)) (h_vec_bytes (sc_h c)), snd cd)],
             met_upd count_dist v))"

definition search_by_codes ::
  "'a :: {comm_ring_1, linorder} sctx \<Rightarrow> (32 word \<Rightarrow> 'a) \<Rightarrow> byte list \<Rightarrow> bool \<Rightarrow> 'a prefetch \<times> dram_window \<Rightarrow>
   nat list \<times> dram_window" where
  "search_by_codes c cvt qpq rerank st =
     (case fp_begin c st of (pf, w) \<Rightarrow>
        case pq_rounds c cvt qpq (sc_iters c) ([(0, sc_entry c)], {}, pf, w) of
          (beam_v, _, _, w1) \<Rightarrow>
            let pool = take (max (sc_k c * 5) (sc_beam c)) (std_sort cand_less beam_v);
                (pool1, w2) = (if rerank then (let (p, v) = fold (rerank_one c) pool ([], w1) in (std_sort cand_less p, v))
                               else (pool, w1))
            in (map snd (take (sc_k c) pool1), w2))"

section \<open>Reads are those of the image\<close>

definition one_page :: "nat \<Rightarrow> nat \<Rightarrow> nat \<Rightarrow> bool" where
  "one_page pb off len \<longleftrightarrow> off - page_floor pb off + len \<le> pb"

text \<open>The neighbour lists are in the image, and no vector and no list is split by a page boundary.\<close>

definition in_pages :: "'a sctx \<Rightarrow> nat \<Rightarrow> bool" where
  "in_pages c pb \<longleftrightarrow> graph_host (sc_pl c) = None \<and>
     (\<forall>i \<in> insert (sc_entry c) {..<h_n (sc_h c)}.
        one_page pb (sc_vec c i) (sc_vb c) \<and>
        (case nbr_range c i of (off, len, skip) \<Rightarrow> one_page pb off (max len 1) \<and> skip + 4 * sc_Rlim c \<le> len))"

definition fp_inv :: "'a sctx \<Rightarrow> dram_window \<Rightarrow> bool" where
  "fp_inv c w \<longleftrightarrow> in_pages c (page_bytes w) \<and> good (sc_img c) w \<and> pin_room w"

lemma fp_inv_step: "fp_inv c w \<Longrightarrow> win_step_ok (sc_img c) w v \<Longrightarrow> fp_inv c v"
  by (simp add: fp_inv_def win_step_ok_def win_le_def)

lemma in_pages_rec:
  assumes "in_pages c pb" and "i < h_n (sc_h c) \<or> i = sc_entry c" and "nbr_range c i = (off, len, skip)"
  shows "graph_host (sc_pl c) = None" "one_page pb (sc_vec c i) (sc_vb c)" "one_page pb off (max len 1)"
    "skip + 4 * sc_Rlim c \<le> len"
proof -
  have "i \<in> insert (sc_entry c) {..<h_n (sc_h c)}" using assms(2) by auto
  then have "one_page pb (sc_vec c i) (sc_vb c) \<and>
      (case nbr_range c i of (off, len, skip) \<Rightarrow> one_page pb off (max len 1) \<and> skip + 4 * sc_Rlim c \<le> len)"
    using assms(1) unfolding in_pages_def by (metis (no_types, lifting))
  then show "one_page pb (sc_vec c i) (sc_vb c)" "one_page pb off (max len 1)" "skip + 4 * sc_Rlim c \<le> len"
    unfolding assms(3) by simp_all
  show "graph_host (sc_pl c) = None" using assms(1) by (simp add: in_pages_def)
qed

lemma wptr_bytes_sub:
  assumes "pos + n \<le> len"
  shows "wptr_bytes v ptr pos n = mem_read pos n (wptr_bytes v ptr 0 len)"
  using assms by (cases ptr) (simp_all add: wptr_bytes_def mem_read_mem_read)

lemma get_nbr_image:
  assumes "fp_inv c w" and "i < h_n (sc_h c) \<or> i = sc_entry c"
  shows "fst (get_nbr c i w) = true_nbrs c i \<and> win_step_ok (sc_img c) w (snd (get_nbr c i w))"
proof -
  obtain off len skip where r: "nbr_range c i = (off, len, skip)" by (cases "nbr_range c i")
  have g: "good (sc_img c) w" "pin_room w" and host: "graph_host (sc_pl c) = None"
    and one: "one_page (page_bytes w) off (max len 1)" "skip + 4 * sc_Rlim c \<le> len"
    using assms(1) in_pages_rec [OF _ assms(2) r] by (auto simp: fp_inv_def)
  obtain ptr v where lk: "lookup_or_promote (sc_img c) off len w = (ptr, v)"
    by (cases "lookup_or_promote (sc_img c) off len w")
  note img = lookup_or_promote_image [OF g one(1) [unfolded one_page_def] lk]
  have e: "get_nbr c i w = (map (\<lambda>k. u32_le (wptr_bytes v ptr (skip + 4 * k) 4)) [0..<sc_Rlim c], v)"
    using lk r by (simp add: get_nbr_def expand_nbrs_def nbr_range_def)
  have b: "wptr_bytes v ptr (skip + 4 * k) 4 = image_bytes (sc_img c) (off + (skip + 4 * k)) 4" if "k < sc_Rlim c" for k
  proof -
    have "skip + 4 * k + 4 \<le> len" using that one(2) by simp
    then show ?thesis using img wptr_bytes_sub [of "skip + 4 * k" 4 len v ptr] mem_read_image_bytes [of "skip + 4 * k" 4 len]
      by simp
  qed
  have "nbrs (sc_pl c) (sc_h c) i = Image_nbrs (off + skip)"
    using r host by (auto simp: nbrs_def nbr_range_def nbr_span_def nbr_off_def split: if_splits)
  then have "true_nbrs c i = map (\<lambda>k. u32_le (image_bytes (sc_img c) (off + (skip + 4 * k)) 4)) [0..<sc_Rlim c]"
    by (simp add: true_nbrs_def hide_read_nbrs_def nbr_at_def add.assoc)
  with b img show ?thesis by (simp add: e)
qed

lemma score_id_image:
  assumes "fp_inv c w" and "i < h_n (sc_h c) \<or> i = sc_entry c"
  shows "fst (score_id c i w) = Some (true_score c i) \<and> win_step_ok (sc_img c) w (snd (score_id c i w))"
proof -
  obtain off len skip where "nbr_range c i = (off, len, skip)" by (cases "nbr_range c i")
  then have "one_page (page_bytes w) (sc_vec c i) (sc_vb c)"
    using assms(1) in_pages_rec(2) [OF _ assms(2)] by (simp add: fp_inv_def)
  then show ?thesis
    using copy_through_image [of "sc_img c" w "sc_vec c i" "sc_vb c"] assms(1)
    by (auto simp: score_id_def true_score_def fp_inv_def one_page_def split: prod.split)
qed

interpretation classic: beam_client "fp_inv c" "true_nbrs c" "true_score c" "\<lambda>_. True" "\<lambda>s. s" "\<lambda>_ s. s"
  "get_nbr c" "score_id c" "Suc L" "h_n (sc_h c)" "sc_entry c" for c :: "'a :: {comm_ring_1, linorder} sctx" and L
proof (unfold_locales, goal_cases)
  case (3 s i)
  then show ?case using get_nbr_image [OF 3] fp_inv_step by blast
next
  case (4 s i)
  then show ?case using score_id_image [OF 4] fp_inv_step by auto
qed simp_all

text \<open>C4. The window is transparent under P0. If the window is coherent with the image and its pin
  budget and the frames being filled leave a frame to evict (\<open>pin_room\<close>), there is no host
  copy of the graph, no vector and no neighbour list straddles two pages and a list has room for the fixed
  number of neighbours (\<open>in_pages\<close>), \<open>0 < L\<close>, and vectors have at most 4096
  bytes, then the demand search returns, with exactly the ids that the oracle search returns on the mapped
  image, whatever pages the window holds at the start and however few frames beyond that it has, and it
  leaves the window coherent.\<close>
theorem classic_search_is_oracle:
  assumes "good (sc_img c) w" and "pin_room w" and "in_pages c (page_bytes w)" and "pf_policy pf = P0"
    and "0 < sc_L c" and "sc_vb c \<le> 4096"
  shows "\<exists>ids u v. search_classic c (pf, w) = Some (Result (ids, u)) \<and> search_oracle c w' = Some (ids, v) \<and>
    good (sc_img c) u"
proof -
  obtain L where L: "sc_L c = Suc L" using assms(5) by (cases "sc_L c") auto
  have w1: "fp_inv c (snd (fp_begin c (pf, w)))"
    using on_query_begin_ok [of "sc_pl c" w pf] assms(1-4) fp_inv_step
    by (auto simp: fp_begin_def fp_inv_def win_step_ok_def win_le_def)
  let ?n = "h_n (sc_h c)" and ?e = "sc_entry c" and ?it = "sc_iters c"
  let ?A = "beam_loop (Suc L) ?n ?it (\<lambda>s. s) (\<lambda>_ s. s) (get_nbr c) (score_id c)
      (beam_entry (Suc L) (score_id c) ?e (snd (fp_begin c (pf, w))))"
  let ?B = "beam_loop (Suc L) ?n ?it (\<lambda>s. s) (\<lambda>_ s. s) (oracle_nbrs c) (score_dram c)
      (beam_entry (Suc L) (score_dram c) ?e w')"
  have eq: "map_option erase ?A = map_option erase ?B"
    unfolding classic.beam_search_erase [OF w1] in_dram.beam_search_erase [OF TrueI] ..
  obtain a where a: "?A = Some a" "fp_inv c (b_st a)"
    using classic.beam_search_ok [OF w1, of 0 L ?it] by blast
  then obtain b where b: "?B = Some b" "erase a = erase b" using eq by (cases "?B") simp_all
  then have "b_cand a = b_cand b" by (metis erase_simps(1))
  with a b show ?thesis using assms(6) by (auto simp: search_classic_def search_oracle_def L fp_inv_def)
qed

lemma ring_in_pages: "in_pages ring_ctx (page_bytes (demo_window n c))"
proof -
  have "page_bytes (demo_window n c) = 4" by (simp add: demo_window_def win_init_def Let_def)
  moreover have "in_pages ring_ctx 4"
    by (auto simp: in_pages_def one_page_def page_floor_eq pow2_4 ring_ctx_def ring_place_def ring_header_def
        sc_vec_def vec_off_def sc_vb_def nbr_range_def nbr_span_def nbrs_def nbr_off_def sc_Rlim_def)
  ultimately show ?thesis by simp
qed

theorem classic_search_is_oracle_witness:
  "\<exists>ids u v. search_classic ring_ctx (prefetch_new, demo_window 2 4) = Some (Result (ids, u)) \<and>
    search_oracle ring_ctx (demo_window 2 4) = Some (ids, v)"
proof -
  have "pf_policy prefetch_new = P0" "0 < sc_L ring_ctx" "sc_vb ring_ctx \<le> 4096"
    by (simp_all add: prefetch_new_def sc_L_def sc_vb_def ring_ctx_def ring_header_def)
  with classic_search_is_oracle [OF demo_window_good demo_window_room ring_in_pages, of prefetch_new "demo_window 2 4"]
  show ?thesis by blast
qed

section \<open>Nothing is lost while it waits\<close>

lemma one_page_sub:
  assumes "pow2 pb" and "one_page pb off len" and "s + k \<le> len"
  shows "one_page pb (off + s) k"
proof (cases "k = 0")
  case True
  then show ?thesis using page_floor_in_page [OF assms(1), of "off + s"] by (simp add: one_page_def)
next
  case False
  have "off - page_floor pb off + s + k \<le> pb" using assms(2,3) by (simp add: one_page_def)
  moreover from this have "page_floor pb (off + s) = page_floor pb off"
    using False page_floor_le [OF assms(1), of off]
    by (intro page_floor_unique [OF assms(1)]) (simp_all add: assms(1))
  ultimately show ?thesis using page_floor_le [OF assms(1), of off] by (simp add: one_page_def)
qed

lemma p2_nbrs_image:
  assumes "fp_inv c w" and "i < h_n (sc_h c) \<or> i = sc_entry c"
  shows "fst (p2_nbrs c i w) = true_nbrs c i \<and> win_step_ok (sc_img c) w (snd (p2_nbrs c i w))"
proof -
  obtain off len skip where r: "nbr_range c i = (off, len, skip)" by (cases "nbr_range c i")
  note rec = in_pages_rec [OF _ assms(2) r]
  have g: "good (sc_img c) w" "pin_room w" "in_pages c (page_bytes w)" using assms(1) by (simp_all add: fp_inv_def)
  have ptr: "nbrs (sc_pl c) (sc_h c) i = Image_nbrs (off + skip)"
    using r rec(1) [OF g(3)] by (auto simp: nbrs_def nbr_range_def nbr_span_def nbr_off_def split: if_splits)
  have "pow2 (page_bytes w)" using g(1) by (simp add: good_def win_inv_pow2)
  then have one: "one_page (page_bytes w) (off + skip) (sc_Rlim c * 4)"
    using rec(3,4) [OF g(3)] by (intro one_page_sub [where len = "max len 1"]) (simp_all add: mult.commute)
  have "mem_read (4 * j) 4 (image_bytes (sc_img c) (off + skip) (sc_Rlim c * 4)) = image_bytes (sc_img c) (off + skip + 4 * j) 4"
    if "j < sc_Rlim c" for j using that by (intro mem_read_image_bytes) simp
  then show ?thesis
    using copy_through_image [OF g(1,2) one [unfolded one_page_def]]
    by (auto simp: p2_nbrs_def ptr nbr_off_def true_nbrs_def hide_read_nbrs_def nbr_at_def split: prod.split)
qed

definition p2_ok :: "'a :: {comm_ring_1, linorder} sctx \<Rightarrow> ('a, p2_state) beam \<Rightarrow> bool" where
  "p2_ok c b \<longleftrightarrow> fp_inv c (fst (b_st b)) \<and> distinct (pend b) \<and> snd (snd (b_st b)) = set (pend b) \<and>
     set (pend b) \<subseteq> b_seen b \<and> b_seen b \<subseteq> insert (sc_entry c) {..<h_n (sc_h c)} \<and>
     b_expanded b \<subseteq> b_seen b - set (pend b) \<and>
     best_of (sc_L c) (true_score c) (b_seen b - set (pend b)) (b_cand b)"

text \<open>What draining and forcing leave alone.\<close>

definition p2_same :: "('f, p2_state) beam \<Rightarrow> ('f, p2_state) beam \<Rightarrow> bool" where
  "p2_same b b' \<longleftrightarrow> b_seen b' = b_seen b \<and> b_expanded b' = b_expanded b \<and> b_expands b' = b_expands b \<and>
     length (pend b') \<le> length (pend b)"

lemma p2_same_trans: "p2_same a b \<Longrightarrow> p2_same b d \<Longrightarrow> p2_same a d"
  by (simp add: p2_same_def)

lemma p2_same_refl [simp]: "p2_same b b"
  by (simp add: p2_same_def)

lemma force_ok:
  assumes "p2_ok c b" and "0 < sc_L c"
  shows "p2_ok c (force_one_pending c b) \<and> p2_same b (force_one_pending c b) \<and>
    pend (force_one_pending c b) = tl (pend b)"
proof (cases "pend b")
  case Nil
  then show ?thesis using assms by (cases "b_st b") (simp add: force_one_pending_def)
next
  case (Cons i pd)
  obtain w ps where st: "b_st b = (w, i # pd, ps)" using Cons by (cases "b_st b") auto
  have inv: "fp_inv c w" "distinct (i # pd)" "ps = set (i # pd)" "i \<in> b_seen b" "set pd \<subseteq> b_seen b"
    and i: "i < h_n (sc_h c) \<or> i = sc_entry c"
    and rest: "b_seen b \<subseteq> insert (sc_entry c) {..<h_n (sc_h c)}" "b_expanded b \<subseteq> b_seen b - set (i # pd)"
    and best: "best_of (sc_L c) (true_score c) (b_seen b - set (i # pd)) (b_cand b)"
    using assms(1) by (auto simp: p2_ok_def st)
  obtain d v where sc: "score_id c i w = (d, v)" by (cases "score_id c i w")
  have d: "d = Some (true_score c i)" "fp_inv c v"
    using score_id_image [OF inv(1) i] fp_inv_step [OF inv(1)] sc by auto
  have e: "force_one_pending c b = b\<lparr>b_st := (v, pd, ps - {i}), b_cand := insert_cand (sc_L c) i (true_score c i) (b_cand b)\<rparr>"
    by (simp add: force_one_pending_def st score_into_def p2_score_def sc d)
  have s: "insert i (b_seen b - set (i # pd)) = b_seen b - set pd" using inv by auto
  have "best_of (sc_L c) (true_score c) (b_seen b - set pd) (insert_cand (sc_L c) i (true_score c i) (b_cand b))"
    using insert_cand_best [OF best _ assms(2), of i] by (simp only: s) simp
  then show ?thesis using inv rest d by (auto simp: e p2_ok_def p2_same_def st)
qed

lemma drain_one_ok:
  assumes "p2_ok c b" and "0 < sc_L c"
  shows "p2_ok c (drain_one c b) \<and> p2_same b (drain_one c b)"
proof (cases "pend b")
  case Nil
  then show ?thesis using assms by (cases "b_st b") (simp add: drain_one_def)
next
  case (Cons i pd)
  then obtain w ps where st: "b_st b = (w, i # pd, ps)" by (cases "b_st b") auto
  have "p2_ok c (b\<lparr>b_st := (w, pd @ [i], ps)\<rparr>) \<and> p2_same b (b\<lparr>b_st := (w, pd @ [i], ps)\<rparr>)"
    using assms(1) by (auto simp: p2_ok_def p2_same_def st insert_commute)
  then show ?thesis using force_ok [OF assms] by (simp add: drain_one_def st)
qed

lemma p2_iterate:
  assumes "\<And>b. p2_ok c b \<Longrightarrow> p2_ok c (f b) \<and> p2_same b (f b)" and "p2_ok c b"
  shows "p2_ok c ((f ^^ k) b) \<and> p2_same b ((f ^^ k) b)"
proof (induction k)
  case (Suc k)
  then show ?case using assms(1) p2_same_trans by (metis funpow.simps(2) o_apply)
qed (simp add: assms(2))

lemma drain_ready_ok:
  "p2_ok c b \<Longrightarrow> 0 < sc_L c \<Longrightarrow> p2_ok c (drain_ready c b) \<and> p2_same b (drain_ready c b)"
  unfolding drain_ready_def by (rule p2_iterate) (simp_all add: drain_one_ok)

lemma force_down_ok:
  assumes "p2_ok c b" and "0 < sc_L c"
  shows "p2_ok c (force_down_to c cap b) \<and> p2_same b (force_down_to c cap b) \<and> length (pend (force_down_to c cap b)) \<le> cap"
proof -
  have "p2_ok c ((force_one_pending c ^^ k) b) \<and> p2_same b ((force_one_pending c ^^ k) b) \<and>
      length (pend ((force_one_pending c ^^ k) b)) = length (pend b) - k" for k
  proof (induction k)
    case (Suc k)
    let ?b = "(force_one_pending c ^^ k) b"
    have "p2_ok c (force_one_pending c ?b) \<and> p2_same ?b (force_one_pending c ?b) \<and>
        pend (force_one_pending c ?b) = tl (pend ?b)" using Suc force_ok [OF _ assms(2)] by blast
    then show ?case using Suc p2_same_trans [of b ?b] by simp
  qed (simp add: assms)
  then show ?thesis by (simp add: force_down_to_def)
qed

lemma pend_nbr_ok:
  assumes "p2_ok c b"
  shows "p2_ok c (pend_nbr (h_n (sc_h c)) nb b)" and "b_expanded (pend_nbr (h_n (sc_h c)) nb b) = b_expanded b"
    and "b_expands (pend_nbr (h_n (sc_h c)) nb b) = b_expands b"
    and "b_seen (pend_nbr (h_n (sc_h c)) nb b) = b_seen b \<union> (if nb < h_n (sc_h c) then {nb} else {})"
proof -
  obtain w pd ps where st: "b_st b = (w, pd, ps)" by (cases "b_st b")
  have n: "insert nb (b_seen b) - set (pd @ [nb]) = b_seen b - set pd" if "nb \<notin> b_seen b" using that by auto
  show "b_expanded (pend_nbr (h_n (sc_h c)) nb b) = b_expanded b" "b_expands (pend_nbr (h_n (sc_h c)) nb b) = b_expands b"
    "b_seen (pend_nbr (h_n (sc_h c)) nb b) = b_seen b \<union> (if nb < h_n (sc_h c) then {nb} else {})"
    by (auto simp: pend_nbr_def st)
  show "p2_ok c (pend_nbr (h_n (sc_h c)) nb b)"
  proof (cases "h_n (sc_h c) \<le> nb \<or> nb \<in> b_seen b")
    case True
    then show ?thesis using assms by (simp add: pend_nbr_def)
  next
    case False
    then have e: "pend_nbr (h_n (sc_h c)) nb b = b\<lparr>b_seen := insert nb (b_seen b), b_st := (w, pd @ [nb], insert nb ps)\<rparr>"
      using assms by (auto simp: pend_nbr_def st p2_ok_def)
    show ?thesis using assms False n unfolding e by (auto simp: p2_ok_def st)
  qed
qed

lemma discover_ok:
  assumes "p2_ok c b" and "cur \<in> b_seen b"
  shows "p2_ok c (discover c cur b) \<and> b_expanded (discover c cur b) = b_expanded b \<and>
    b_expands (discover c cur b) = b_expands b \<and>
    b_seen (discover c cur b) = b_seen b \<union> {v \<in> set (true_nbrs c cur). v < h_n (sc_h c)}"
proof -
  obtain w pd ps where st: "b_st b = (w, pd, ps)" by (cases "b_st b")
  have inv: "fp_inv c w" "cur < h_n (sc_h c) \<or> cur = sc_entry c" using assms by (auto simp: p2_ok_def st)
  obtain ns v where ns: "p2_nbrs c cur w = (ns, v)" by (cases "p2_nbrs c cur w")
  have v: "ns = true_nbrs c cur" "fp_inv c v" using p2_nbrs_image [OF inv] fp_inv_step [OF inv(1)] ns by auto
  have step: "p2_ok c (fold (pend_nbr (h_n (sc_h c))) xs b') \<and> b_expanded (fold (pend_nbr (h_n (sc_h c))) xs b') = b_expanded b' \<and>
      b_expands (fold (pend_nbr (h_n (sc_h c))) xs b') = b_expands b' \<and>
      b_seen (fold (pend_nbr (h_n (sc_h c))) xs b') = b_seen b' \<union> {v \<in> set xs. v < h_n (sc_h c)}"
    if "p2_ok c b'" for xs and b' :: "('a, p2_state) beam"
    using that
  proof (induction xs arbitrary: b')
    case (Cons x xs)
    from Cons.IH [OF pend_nbr_ok(1) [OF Cons.prems, of x]] show ?case
      using pend_nbr_ok(2-) [OF Cons.prems, of x] by auto
  qed simp
  have "p2_ok c (b\<lparr>b_st := (v, pd, ps)\<rparr>)" using assms(1) v by (simp add: p2_ok_def st)
  from step [OF this, of ns] show ?thesis by (simp add: discover_def st ns v)
qed

lemma p2_expand_ok:
  assumes "p2_ok c b" and "cur \<in> b_seen b" "cur \<notin> set (pend b)" and "0 < sc_L c"
  shows "p2_ok c (p2_expand c cap cur b) \<and> b_expanded (p2_expand c cap cur b) = insert cur (b_expanded b) \<and>
    b_expands (p2_expand c cap cur b) = b_expands b + 1 \<and>
    b_seen (p2_expand c cap cur b) = b_seen b \<union> {v \<in> set (true_nbrs c cur). v < h_n (sc_h c)}"
proof -
  let ?m = "mark_expanded cur b"
  have m: "p2_ok c ?m" "b_seen ?m = b_seen b" "b_expanded ?m = insert cur (b_expanded b)" "b_expands ?m = b_expands b + 1"
    using assms(1-3) by (auto simp: p2_ok_def mark_expanded_def)
  have d: "p2_ok c (discover c cur ?m)" "b_expanded (discover c cur ?m) = insert cur (b_expanded b)"
    "b_expands (discover c cur ?m) = b_expands b + 1"
    "b_seen (discover c cur ?m) = b_seen b \<union> {v \<in> set (true_nbrs c cur). v < h_n (sc_h c)}"
    using discover_ok [OF m(1), of cur] m(2-) assms(2) by simp_all
  define b1 where "b1 = drain_ready c (discover c cur ?m)"
  define b2 where "b2 = force_down_to c cap b1"
  have 1: "p2_ok c b1" "p2_same (discover c cur ?m) b1" using drain_ready_ok [OF d(1) assms(4)] by (simp_all add: b1_def)
  have 2: "p2_ok c b2" "p2_same b1 b2" using force_down_ok [OF 1(1) assms(4)] by (simp_all add: b2_def)
  have e: "p2_expand c cap cur b = b2 \<or> p2_expand c cap cur b = force_one_pending c b2"
    by (auto simp: p2_expand_def Let_def b1_def b2_def)
  have "p2_ok c (p2_expand c cap cur b) \<and> p2_same b2 (p2_expand c cap cur b)"
    using e 2(1) force_ok [OF 2(1) assms(4)] by auto
  with 1 2 d show ?thesis by (simp add: p2_same_def)
qed

text \<open>The loop keeps \<open>p2_ok\<close> and that everything seen is accounted for by the nodes expanded.\<close>

definition p2_live :: "'a :: {comm_ring_1, linorder} sctx \<Rightarrow> ('a, p2_state) beam \<Rightarrow> bool" where
  "p2_live c b \<longleftrightarrow> p2_ok c b \<and>
     b_seen b = insert (sc_entry c) {v. v < h_n (sc_h c) \<and> (\<exists>u \<in> b_expanded b. v \<in> set (true_nbrs c u))} \<and>
     b_expands b = card (b_expanded b) \<and> (sc_iters c = 0 \<or> b_expands b \<le> sc_iters c)"

lemma p2_live_same: "p2_live c b \<Longrightarrow> p2_ok c b' \<Longrightarrow> p2_same b b' \<Longrightarrow> p2_live c b'"
  by (auto simp: p2_live_def p2_same_def)

lemma p2_live_finite: "p2_live c b \<Longrightarrow> finite (b_expanded b)"
  by (rule finite_subset [of _ "insert (sc_entry c) {..<h_n (sc_h c)}"]) (auto simp: p2_live_def p2_ok_def)

lemma p2_pick:
  assumes "p2_ok c b" and "pick_best (b_expanded b) (b_cand b) = Some bi"
  shows "snd (b_cand b ! bi) \<in> b_seen b - set (pend b)" and "snd (b_cand b ! bi) \<notin> b_expanded b"
proof -
  note p = pick_best_Some [OF assms(2)]
  have "b_cand b ! bi \<in> set (b_cand b)" using p(1) by simp
  then show "snd (b_cand b ! bi) \<in> b_seen b - set (pend b)" using assms(1) by (auto simp: p2_ok_def best_of_def)
  show "snd (b_cand b ! bi) \<notin> b_expanded b" by (rule p(2))
qed

lemma p2_live_expand:
  assumes "p2_live c b" and "pick_best (b_expanded b) (b_cand b) = Some bi" and "0 < sc_L c"
    and "\<not> (sc_iters c \<noteq> 0 \<and> sc_iters c \<le> b_expands b)"
    and "b' = p2_expand c cap (snd (b_cand b ! bi)) b"
  shows "p2_live c b'" and "b_expanded b' = insert (snd (b_cand b ! bi)) (b_expanded b)"
proof -
  have ok: "p2_ok c b" using assms(1) by (simp add: p2_live_def)
  note p = p2_pick [OF ok assms(2)]
  have x: "p2_ok c b'" "b_expanded b' = insert (snd (b_cand b ! bi)) (b_expanded b)" "b_expands b' = b_expands b + 1"
    "b_seen b' = b_seen b \<union> {v \<in> set (true_nbrs c (snd (b_cand b ! bi))). v < h_n (sc_h c)}"
    using p2_expand_ok [OF ok _ _ assms(3), of "snd (b_cand b ! bi)" cap] p(1) by (simp_all add: assms(5))
  have "card (b_expanded b') = card (b_expanded b) + 1" using x(2) p(2) p2_live_finite [OF assms(1)] by simp
  then show "p2_live c b'" using x assms(1,4) by (auto simp: p2_live_def)
  show "b_expanded b' = insert (snd (b_cand b ! bi)) (b_expanded b)" by (rule x(2))
qed

lemma p2_loop_ok:
  assumes "p2_live c b0" and "0 < sc_L c"
  shows "\<exists>b. p2_loop c cap b0 = Some b \<and> p2_live c b \<and> pend b = [] \<and>
    (sc_iters c = 0 \<longrightarrow> snd ` set (b_cand b) \<subseteq> b_expanded b)"
  using assms(1)
proof (induction b0 rule: wf_induct_rule [OF wf_measures
    [of "[\<lambda>b. card (insert (sc_entry c) {..<h_n (sc_h c)} - b_expanded b), \<lambda>b. length (pend b)]"]])
  case (1 b0)
  let ?U = "insert (sc_entry c) {..<h_n (sc_h c)}"
  define b where "b = drain_ready c b0"
  have "p2_ok c b0" using 1(2) by (simp add: p2_live_def)
  from drain_ready_ok [OF this assms(2)] have same: "p2_same b0 b" and live: "p2_live c b"
    using p2_live_same [OF 1(2)] unfolding b_def by blast+
  have ok: "p2_ok c b" using live by (simp add: p2_live_def)
  show ?case
  proof (cases "pick_best (b_expanded b) (b_cand b)")
    case None
    show ?thesis
    proof (cases "pend b = []")
      case True
      then have "p2_loop c cap b0 = Some b" using None by (subst p2_loop.simps) (simp add: Let_def flip: b_def)
      then show ?thesis using live True pick_best_None [OF None] by blast
    next
      case False
      let ?b' = "force_one_pending c b"
      note f = force_ok [OF ok assms(2)]
      have "(?b', b0) \<in> measures [\<lambda>b. card (?U - b_expanded b), \<lambda>b. length (pend b)]"
      proof -
        have "length (pend ?b') < length (pend b0)" using f same False by (cases "pend b") (simp_all add: p2_same_def)
        moreover have "b_expanded ?b' = b_expanded b0" using f same by (simp add: p2_same_def)
        ultimately show ?thesis by simp
      qed
      then have "\<exists>b. p2_loop c cap ?b' = Some b \<and> p2_live c b \<and> pend b = [] \<and>
          (sc_iters c = 0 \<longrightarrow> snd ` set (b_cand b) \<subseteq> b_expanded b)"
        using 1(1) p2_live_same [OF live] f by blast
      moreover have "p2_loop c cap b0 = p2_loop c cap ?b'"
        using None False by (subst p2_loop.simps) (simp add: Let_def flip: b_def)
      ultimately show ?thesis by simp
    qed
  next
    case (Some bi)
    show ?thesis
    proof (cases "sc_iters c \<noteq> 0 \<and> sc_iters c \<le> b_expands b")
      case True
      then have "p2_loop c cap b0 = Some (force_down_to c 0 b)"
        using Some by (subst p2_loop.simps) (simp add: Let_def flip: b_def)
      then show ?thesis using force_down_ok [OF ok assms(2), of 0] p2_live_same [OF live] True by auto
    next
      case False
      define b' where "b' = p2_expand c cap (snd (b_cand b ! bi)) b"
      note x = p2_live_expand [OF live Some assms(2) False b'_def]
      note p = p2_pick [OF ok Some]
      have "?U - b_expanded b' \<subset> ?U - b_expanded b0"
        using x(2) p same ok by (auto simp: p2_same_def p2_ok_def)
      then have "card (?U - b_expanded b') < card (?U - b_expanded b0)" by (intro psubset_card_mono) simp_all
      then have "(b', b0) \<in> measures [\<lambda>b. card (?U - b_expanded b), \<lambda>b. length (pend b)]" by simp
      then have "\<exists>b. p2_loop c cap b' = Some b \<and> p2_live c b \<and> pend b = [] \<and>
          (sc_iters c = 0 \<longrightarrow> snd ` set (b_cand b) \<subseteq> b_expanded b)"
        using 1(1) x(1) by blast
      moreover have "p2_loop c cap b0 = p2_loop c cap b'"
        using Some False by (subst p2_loop.simps) (cases "sc_iters c = 0"; simp add: Let_def b'_def flip: b_def)
      ultimately show ?thesis by simp
    qed
  qed
qed

text \<open>C6. Scoring late loses nothing. The search that parks the neighbours it discovers until
  their pages are in the window, or forces them one by one (P2), returns, and returns the \<open>k\<close>
  best of all ids it discovered, by the exact score, within its limit of expansions. This holds when no
  vector and no neighbour list straddles two pages and there is no host copy of the graph
  (\<open>in_pages\<close>), the window at the start is coherent and has a frame to evict beyond the pin
  budget and the fills (\<open>pin_room\<close>), \<open>0 < L\<close>, \<open>k \<le> L\<close>, and
  vectors have at most 4096 bytes.\<close>
theorem p2_scores_everything:
  assumes "good (sc_img c) (snd (fp_begin c st))" and "pin_room (snd (fp_begin c st))"
    and "in_pages c (page_bytes (snd (fp_begin c st)))"
    and "0 < sc_L c" and "sc_k c \<le> sc_L c" and "sc_vb c \<le> 4096"
  shows "\<exists>ids u. search_p2 c st = Some (Result (ids, u)) \<and>
    best_reached (true_nbrs c) (true_score c) (\<lambda>_. True) (h_n (sc_h c)) (sc_entry c) (sc_iters c) (sc_k c) ids"
proof -
  let ?w = "snd (fp_begin c st)"
  define b0 where "b0 = beam_entry (sc_L c) (p2_score c) (sc_entry c) (?w, [], {})"
  have inv: "fp_inv c ?w" using assms(1-3) by (simp add: fp_inv_def)
  obtain d v where sc: "score_id c (sc_entry c) ?w = (d, v)" by (cases "score_id c (sc_entry c) ?w")
  have d: "d = Some (true_score c (sc_entry c))" "fp_inv c v"
    using score_id_image [OF inv, of "sc_entry c"] fp_inv_step [OF inv] sc by auto
  have e: "b0 = \<lparr>b_cand = insert_cand (sc_L c) (sc_entry c) (true_score c (sc_entry c)) [],
      b_seen = {sc_entry c}, b_expanded = {}, b_expands = 0, b_st = (v, [], {})\<rparr>"
    by (simp add: b0_def beam_entry_def beam_start_def score_into_def p2_score_def sc d)
  have "p2_live c b0"
    using insert_cand_best [OF best_of_Nil, of "sc_entry c" "sc_L c" "true_score c"] assms(4) d(2)
    by (simp add: e p2_live_def p2_ok_def)
  then obtain b where b: "p2_loop c (p2_cap c) b0 = Some b" "p2_live c b" "pend b = []"
    "sc_iters c = 0 \<longrightarrow> snd ` set (b_cand b) \<subseteq> b_expanded b" using p2_loop_ok [OF _ assms(4)] by blast
  have "best_reached (true_nbrs c) (true_score c) (\<lambda>_. True) (h_n (sc_h c)) (sc_entry c) (sc_iters c) (sc_k c)
      (take_top (sc_k c) (b_cand b))"
  proof (rule best_reachedI [OF _ assms(5) p2_live_finite [OF b(2)]])
    have "best_of (sc_L c) (true_score c) (b_seen b) (b_cand b)" "b_expanded b \<subseteq> b_seen b"
      using b(2,3) by (auto simp: p2_live_def p2_ok_def)
    then show "best_of (sc_L c) (true_score c) {i \<in> b_seen b. True} (b_cand b)" "b_expanded b \<subseteq> b_seen b"
      by simp_all
    show "b_seen b = insert (sc_entry c) {v. v < h_n (sc_h c) \<and> (\<exists>u \<in> b_expanded b. v \<in> set (true_nbrs c u))}"
      using b(2) by (simp add: p2_live_def)
    show "snd ` set (b_cand b) \<subseteq> b_expanded b" if "sc_iters c = 0" using b(4) that by simp
    show "card (b_expanded b) \<le> sc_iters c" if "sc_iters c \<noteq> 0" using b(2) that by (simp add: p2_live_def)
  qed
  with b(1) assms(6) show ?thesis by (simp add: search_p2_def flip: b0_def)
qed

theorem p2_scores_everything_witness:
  "\<exists>ids u. search_p2 ring_ctx (prefetch_new\<lparr>pf_policy := P2, pin_entry := False\<rparr>, demo_window 2 4) = Some (Result (ids, u)) \<and> distinct ids"
proof -
  let ?pf = "prefetch_new\<lparr>pf_policy := P2, pin_entry := False\<rparr> :: int prefetch"
  have e: "snd (fp_begin ring_ctx (?pf, demo_window 2 4)) = demo_window 2 4"
    by (simp add: fp_begin_def on_query_begin_def pin_entry_hot_def ring_ctx_def prefetch_new_def Let_def)
  have "0 < sc_L ring_ctx" "sc_k ring_ctx \<le> sc_L ring_ctx" "sc_vb ring_ctx \<le> 4096"
    by (simp_all add: sc_L_def sc_vb_def ring_ctx_def ring_header_def)
  with p2_scores_everything [of ring_ctx "(?pf, demo_window 2 4)", unfolded e, OF demo_window_good demo_window_room ring_in_pages]
  show ?thesis by (auto simp: best_reached_def)
qed

end
