(* ===== verification/Search_Pq.thy ===== *)
theory Search_Pq
  imports Search_Common Cont_Batch
begin

text \<open>
  The searches by product quantization of \<open>serving/search_beam.cpp\<close>: \<open>search_one_pq\<close>, which walks
  the graph by PQ distances in host memory, then fetches the candidates in one issue and reranks
  them by their exact inner product, and the same query cut into steps that a scheduler can park
  (\<open>PqQ\<close>, the \<open>pqq_\<close> functions). The state of the long phases is the fill pipe. The counters of the
  query and of its window are one object in the code; here the pipe's \<open>hp_m\<close> and the window's
  \<open>wmetrics\<close> hold the two parts of its counts. The trace of in-flight pages and times are left out.
\<close>

section \<open>Walking by PQ distances\<close>

text \<open>Ids beyond the table are skipped; \<open>cnt\<close> counts a distance.\<close>

definition pq_insert :: "'a :: comm_ring pq_table \<Rightarrow> 'a list option \<Rightarrow> ('s \<Rightarrow> 's) \<Rightarrow> nat \<Rightarrow> 's \<Rightarrow> 'a option \<times> 's" where
  "pq_insert t tls cnt i s = (if pq_n t \<le> i then (None, s) else (Some (pq_dist_tls t tls i), cnt s))"

definition pq_nbrs :: "'b sctx \<Rightarrow> nat \<Rightarrow> 's \<Rightarrow> nat list \<times> 's" where
  "pq_nbrs c cur s = (true_nbrs c cur, s)"

definition pq_walk ::
  "'a :: {comm_ring_1, linorder} sctx \<Rightarrow> 'a pq_table \<Rightarrow> ('s \<Rightarrow> 's) \<Rightarrow> ('s \<Rightarrow> 's) \<Rightarrow> 's \<Rightarrow> ('a, 's) beam option" where
  "pq_walk c t cnt pre s =
     (let tls = begin_query_ip t (sc_q c)
      in beam_loop (sc_L c) (h_n (sc_h c)) (sc_iters c) pre (\<lambda>_ s. s) (pq_nbrs c) (pq_insert t tls cnt)
           (beam_entry (sc_L c) (pq_insert t tls cnt) (sc_entry c) s))"

text \<open>The rerank of the oracle reads every vector from the mapped image.\<close>

definition fp_rerank_dram :: "'a :: comm_ring_1 sctx \<Rightarrow> 'a cand list \<Rightarrow> dram_window \<Rightarrow> 'a cand list \<times> dram_window" where
  "fp_rerank_dram c cs w =
     (map (\<lambda>(_, i). (true_score c i, i)) cs,
      fold (\<lambda>(_, i). met_upd (\<lambda>m. note_pf_scored_id i (note_score_from_window 1 (count_dist m)))) cs w)"

definition search_pq_oracle ::
  "'a :: {comm_ring_1, linorder} sctx \<Rightarrow> 'a pq_table option \<Rightarrow> 'a prefetch \<times> dram_window \<Rightarrow>
   (nat list \<times> dram_window) outcome option" where
  "search_pq_oracle c pq st =
     (case pq of
        None \<Rightarrow> Some Exit_2
      | Some t \<Rightarrow>
          if \<not> pq_loaded t then Some Exit_2
          else case on_query_begin (sc_hb c) (sc_pl c) (sc_h c) (sc_warm c) (sc_entry c) st of (_, w) \<Rightarrow>
            map_option (\<lambda>b. case fp_rerank_dram c (b_cand b) (b_st b) of
                (cs, v) \<Rightarrow> Result (take_top (sc_k c) cs, v))
              (pq_walk c t (met_upd count_dist) (\<lambda>s. s) w))"

section \<open>Fetching and reranking\<close>

definition hp_met :: "(metrics \<Rightarrow> metrics) \<Rightarrow> 'd hide_pipe \<Rightarrow> 'd hide_pipe" where
  "hp_met f hp = hp\<lparr>hp_m := map_option f (hp_m hp)\<rparr>"

definition cand_pages :: "'b sctx \<Rightarrow> nat \<Rightarrow> nat list \<Rightarrow> nat list" where
  "cand_pages c pb ids =
     fst (fold (hide_collect_vec_pages (sc_pl c) (sc_h c) (sc_vb c) pb) ids ([], Some {}))"

text \<open>One candidate: the pointer into the pipe, else a copy out of it, else a read through the window.\<close>

definition fetch_vec :: "'b sctx \<Rightarrow> nat \<Rightarrow> 'd hide_pipe \<Rightarrow> bool \<times> byte list \<times> 'd hide_pipe" where
  "fetch_vec c i hp =
     (case vec_src (sc_vec c i) (sc_vb c) hp of
        Some bs \<Rightarrow> (True, bs, hp)
      | None \<Rightarrow>
          (case copy_vec (sc_vec c i) (sc_vb c) hp of
             Some bs \<Rightarrow> (True, bs, hp)
           | None \<Rightarrow> (case copy_through (sc_img c) (sc_vec c i) (sc_vb c) (hp_win hp) of
                       (bs, w) \<Rightarrow> (False, bs, hp\<lparr>hp_win := w\<rparr>))))"

definition note_source :: "hide_score \<Rightarrow> bool \<Rightarrow> metrics \<Rightarrow> metrics" where
  "note_source sc hit m =
     (case sc of
        Score_bounce \<Rightarrow> note_score_from_bounce 1 m
      | Score_vmem \<Rightarrow> note_score_from_cache 1 m
      | Score_window \<Rightarrow> if hit then note_score_from_window 1 m else note_score_from_bounce 1 m)"

definition rerank_cand ::
  "'a :: comm_ring_1 sctx \<Rightarrow> 'a cand \<Rightarrow> 'a cand list \<times> 'd hide_pipe \<Rightarrow> 'a cand list \<times> 'd hide_pipe" where
  "rerank_cand c cd st =
     (case st of (out, hp) \<Rightarrow>
        case fetch_vec c (snd cd) hp of
          (hit, bs, hp1) \<Rightarrow>
            (out @ [(score_bytes c bs, snd cd)],
             hp_met (\<lambda>m. note_pf_scored_id (snd cd) (note_source (hp_score hp1) hit (count_dist m))) hp1))"

text \<open>\<open>wait_covering\<close> reports the time it waited, which is 0 when it is given no page.\<close>

definition search_pq_pipe ::
  "'a :: {comm_ring_1, linorder} sctx \<Rightarrow> 'a pq_table \<Rightarrow> ('d hide_pipe \<Rightarrow> 'd hide_pipe) \<Rightarrow> 'd hide_pipe \<Rightarrow>
   (nat list \<times> 'd hide_pipe) outcome option" where
  "search_pq_pipe c t yld hp0 =
     (case pq_walk c t (hp_met count_dist) hp_pump hp0 of
        None \<Rightarrow> None
      | Some b \<Rightarrow>
          let need = cand_pages c (page_bytes (hp_win (b_st b))) (map snd (b_cand b))
          in case (if need = [] then Some (0, b_st b) else hp_issue yld need 128 True False (b_st b)) of
               None \<Rightarrow> None
             | Some (tok, hp1) \<Rightarrow>
                 (case (if need = [] then map_option (\<lambda>h. ([], h)) (wait_all yld hp1) else wait_covering yld need hp1) of
                    None \<Rightarrow> None
                  | Some (toks, hp2) \<Rightarrow>
                      if 4096 < sc_vb c then Some Exit_2
                      else (case fold (rerank_cand c) (b_cand b) ([], hp_pump hp2) of
                              (cs, hp3) \<Rightarrow>
                                let hp4 = hp_met (note_pf_used need) hp3;
                                    hp5 = fold release_tok ((if tok = 0 then [] else [tok]) @ toks) hp4
                                in Some (Result (take_top (sc_k c) cs, release_pages need hp5)))))"

definition search_one_pq ::
  "'a :: {comm_ring_1, linorder} sctx \<Rightarrow> ('d hide_pipe \<Rightarrow> 'd hide_pipe) \<Rightarrow> vmem_io option \<Rightarrow> metrics option \<Rightarrow>
   (nat \<Rightarrow> nat \<Rightarrow> byte) \<Rightarrow> 'd \<Rightarrow> 'a prefetch \<times> dram_window \<Rightarrow> (nat list \<times> dram_window) outcome option" where
  "search_one_pq c yld vio m heap d st =
     (if oracle_dram (fst st) then search_pq_oracle c (pf_pq (fst st)) st
      else case pf_pq (fst st) of
             None \<Rightarrow> Some Exit_2
           | Some t \<Rightarrow>
               if \<not> pq_loaded t then Some Exit_2
               else case on_query_begin (sc_hb c) (sc_pl c) (sc_h c) (sc_warm c) (sc_entry c) st of (pf, w) \<Rightarrow>
                 map_option (\<lambda>r. case r of Exit_2 \<Rightarrow> Exit_2 | Result (ids, hp) \<Rightarrow> Result (ids, hp_win hp))
                   (search_pq_pipe c t yld
                      (fresh_pipe heap w (sc_pl c) vio m (pf_score pf) (pf_extent_run pf) (pf_direct_install pf) d)))"

section \<open>The query in steps\<close>

record 'a pqq =
  pqq_qi :: nat
  pqq_qf :: "'a list"
  pqq_lut :: "'a list"
  pqq_beam :: "('a, unit) beam"
  pqq_st :: cb_st
  pqq_need :: "nat list"
  pqq_toks :: "nat list"
  pqq_nand_held :: bool
  pqq_fp_done :: "bool list"
  pqq_fp_n :: nat

definition pqq_new :: "'a pqq" where
  "pqq_new = \<lparr>pqq_qi = 0, pqq_qf = [], pqq_lut = [], pqq_beam = beam_start (), pqq_st = CbEmpty, pqq_need = [],
     pqq_toks = [], pqq_nand_held = False, pqq_fp_done = [], pqq_fp_n = 0\<rparr>"

definition pqq_covering :: "'d hide_pipe \<Rightarrow> nat list \<Rightarrow> bool" where
  "pqq_covering hp need = covers_all need hp"

definition pqq_insert :: "'a :: comm_ring pq_table \<Rightarrow> 'a list \<Rightarrow> nat \<Rightarrow> 's \<Rightarrow> 'a option \<times> 's" where
  "pqq_insert t qlut i s = (if pq_n t \<le> i then (None, s) else (Some (pq_dist t i qlut), s))"

text \<open>\<open>c\<close> is the context of query \<open>qi\<close>; the pages pinned and warmed are those of \<open>on_query_begin\<close>.\<close>

definition pqq_init ::
  "'a :: {comm_ring_1, linorder} sctx \<Rightarrow> 'a pq_table \<Rightarrow> nat \<Rightarrow> 'a prefetch \<times> dram_window \<Rightarrow> 'a pqq \<times> 'a prefetch \<times> dram_window" where
  "pqq_init c t qi st =
     (let qlut = fill_lut_ip t (sc_q c)
      in (pqq_new\<lparr>pqq_qi := qi, pqq_qf := sc_q c, pqq_lut := qlut, pqq_st := CbReady,
            pqq_beam := beam_entry (sc_L c) (pqq_insert t qlut) (sc_entry c) ()\<rparr>,
          on_query_begin (sc_hb c) (sc_pl c) (sc_h c) (sc_warm c) (sc_entry c) st))"

text \<open>Every sixteenth expansion pumps the hub, if there is one.\<close>

definition pump_16 :: "nat \<Rightarrow> 'd prefetch_hub option \<Rightarrow> 'd prefetch_hub option" where
  "pump_16 k hub = (if k mod 16 = 0 then map_option hub_pump hub else hub)"

definition pqq_run_beam ::
  "'a :: {comm_ring_1, linorder} sctx \<Rightarrow> 'a pq_table \<Rightarrow> 'a pqq \<times> 'd prefetch_hub option \<Rightarrow> ('a pqq \<times> 'd prefetch_hub option) option" where
  "pqq_run_beam c t st =
     (case st of (q, hub) \<Rightarrow>
        let b = pqq_beam q; k0 = b_expands b
        in map_option (\<lambda>b'. (q\<lparr>pqq_beam := erase b'\<rparr>, b_st b'))
             (beam_loop (sc_L c) (h_n (sc_h c)) (sc_iters c) (\<lambda>s. s) (\<lambda>k s. pump_16 (k - k0) s) (pq_nbrs c)
                (pqq_insert t (pqq_lut q))
                \<lparr>b_cand = b_cand b, b_seen = b_seen b, b_expanded = b_expanded b, b_expands = b_expands b, b_st = hub\<rparr>))"

definition pqq_issue ::
  "'b sctx \<Rightarrow> ('d hide_pipe \<Rightarrow> 'd hide_pipe) \<Rightarrow> bool \<Rightarrow> 'a pqq \<times> 'd prefetch_hub \<Rightarrow> ('a pqq \<times> 'd prefetch_hub) option" where
  "pqq_issue c yld stall st =
     (case st of (q, hub) \<Rightarrow>
        let need = cand_pages c (page_bytes (hp_win (hub_pipe hub))) (map snd (b_cand (pqq_beam q)))
        in map_option (\<lambda>(tok, hub1).
             (q\<lparr>pqq_need := need, pqq_toks := pqq_toks q @ (if tok = 0 then [] else [tok]),
                pqq_fp_done := replicate (length (b_cand (pqq_beam q))) False, pqq_fp_n := 0,
                pqq_st := (if pqq_st q = CbBusy then CbBusy else if need = [] then CbReady else CbWait)\<rparr>, hub1))
             (if stall then hub_submit_block yld need hub else hub_submit yld need hub))"

text \<open>The rerank of the covered candidates stops at the first vector the pipe does not have; the
  candidates before it keep their new score.\<close>

fun rank_cands ::
  "'a :: comm_ring_1 sctx \<Rightarrow> 'a cand list \<Rightarrow> 'a cand list \<Rightarrow> 'd hide_pipe \<Rightarrow> bool \<times> 'a cand list \<times> 'd hide_pipe" where
  "rank_cands c acc [] hp = (True, acc, hp)"
| "rank_cands c acc (cd # cs) hp =
     (case (case vec_src (sc_vec c (snd cd)) (sc_vb c) hp of
              Some bs \<Rightarrow> Some bs
            | None \<Rightarrow> copy_vec (sc_vec c (snd cd)) (sc_vb c) hp) of
        None \<Rightarrow> (False, acc @ cd # cs, hp)
      | Some bs \<Rightarrow>
          rank_cands c (acc @ [(score_bytes c bs, snd cd)]) cs
            (hp_met (\<lambda>m. note_pf_scored_id (snd cd) (note_source (hp_score hp) True (count_dist m))) hp))"

definition pqq_rank ::
  "'a :: {comm_ring_1, linorder} sctx \<Rightarrow> 'a pqq \<times> 'd hide_pipe \<Rightarrow> (bool \<times> 'a pqq \<times> 'd hide_pipe) outcome" where
  "pqq_rank c st =
     (case st of (q, hp) \<Rightarrow>
        if \<not> pqq_covering hp (pqq_need q) then Result (False, q, hp)
        else if 4096 < sc_vb c then Exit_2
        else let ids = map snd (b_cand (pqq_beam q))
             in (case rank_cands c [] (b_cand (pqq_beam q)) hp of
                   (ok, cs, hp1) \<Rightarrow>
                     let q1 = q\<lparr>pqq_beam := (pqq_beam q)\<lparr>b_cand := cs\<rparr>\<rparr>
                     in if \<not> ok then Result (False, q1, hp1)
                        else let hp2 = hp_met (note_pf_used (cand_pages c (page_bytes (hp_win hp1)) ids)) hp1;
                                 hp3 = release_pages (pqq_need q) (fold release_tok (pqq_toks q) hp2)
                             in Result (True, q1\<lparr>pqq_st := CbDone\<rparr>, hp3)))"

definition pqq_finish :: "nat \<Rightarrow> ('a :: linorder) pqq \<Rightarrow> nat list" where
  "pqq_finish k q = take_top k (b_cand (pqq_beam q))"

section \<open>The walk\<close>

lemma pqq_insert_eq: "pqq_insert t qlut = pq_insert t (Some qlut) (\<lambda>s. s)"
  by (intro ext) (simp add: pqq_insert_def pq_insert_def pq_dist_tls_def)

interpretation by_pq: beam_client "\<lambda>_. True" "true_nbrs c" "pq_dist_tls t tls" "\<lambda>i. i < pq_n t" pre post
  "pq_nbrs c" "pq_insert t tls cnt" "Suc L" n entry
  for c :: "'b sctx" and t :: "'a :: {comm_ring_1, linorder} pq_table" and tls pre post cnt L n entry
  by unfold_locales (auto simp: pq_nbrs_def pq_insert_def)

text \<open>The candidates a walk by PQ distances ends with, as a function of the query alone.\<close>

definition pq_pure :: "'a :: {comm_ring_1, linorder} sctx \<Rightarrow> 'a pq_table \<Rightarrow> ('a, unit) beam option" where
  "pq_pure c t =
     (let d = pq_dist_tls t (begin_query_ip t (sc_q c)); ok = (\<lambda>i. i < pq_n t)
      in pure_loop (sc_L c) (h_n (sc_h c)) (sc_iters c) (true_nbrs c) d ok
           (beam_entry (sc_L c) (pure_score d ok) (sc_entry c) ()))"

lemma pq_walk_pure:
  assumes "0 < sc_L c"
  shows "map_option erase (pq_walk c t cnt pre s) = pq_pure c t"
proof -
  obtain L where "sc_L c = Suc L" using assms by (cases "sc_L c") auto
  then show ?thesis
    using by_pq.beam_search_erase [OF TrueI, of L "h_n (sc_h c)" "sc_iters c" pre "\<lambda>_ s. s" c t _ cnt "sc_entry c"]
    by (simp add: pq_walk_def pq_pure_def Let_def)
qed

lemma pq_walk_returns:
  assumes "0 < sc_L c"
  shows "\<exists>b. pq_walk c t cnt pre s = Some b \<and>
    best_reached (true_nbrs c) (pq_dist_tls t (begin_query_ip t (sc_q c))) (\<lambda>i. i < pq_n t)
      (h_n (sc_h c)) (sc_entry c) (sc_iters c) (sc_L c) (take_top (sc_L c) (b_cand b))"
proof -
  obtain L where L: "sc_L c = Suc L" using assms by (cases "sc_L c") auto
  show ?thesis
    using by_pq.beam_search_ok [OF TrueI, of "Suc L" L "h_n (sc_h c)" "sc_iters c" pre "\<lambda>_ s. s" c t
        "begin_query_ip t (sc_q c)" cnt "sc_entry c"] L
    by (auto simp: pq_walk_def Let_def)
qed

lemma pq_walk_best:
  assumes "0 < sc_L c" and "pq_walk c t cnt pre s = Some b"
  shows "best_of (sc_L c) (pq_dist_tls t (begin_query_ip t (sc_q c))) {i \<in> b_seen b. i < pq_n t} (b_cand b)"
proof -
  obtain L where L: "sc_L c = Suc L" using assms(1) by (cases "sc_L c") auto
  show ?thesis
    using by_pq.walk_best [where L = L and b = b] assms(2) by (simp add: pq_walk_def L Let_def)
qed

lemma init_run_beam:
  assumes "0 < sc_L c" and "pqq_init c t qi st = (q0, st')"
  shows "\<exists>q1 hub1. pqq_run_beam c t (q0, hub) = Some (q1, hub1) \<and> pq_pure c t = Some (pqq_beam q1) \<and>
    pqq_toks q1 = [] \<and> pqq_st q1 = CbReady"
proof -
  obtain L where L: "sc_L c = Suc L" using assms(1) by (cases "sc_L c") auto
  let ?lut = "fill_lut_ip t (sc_q c)" and ?post = "\<lambda>k. pump_16 (k - b_expands (pqq_beam q0))"
  have q0: "pqq_beam q0 = beam_entry (Suc L) (pqq_insert t ?lut) (sc_entry c) ()" "pqq_lut q0 = ?lut"
    "pqq_toks q0 = []" "pqq_st q0 = CbReady"
    using assms(2) by (auto simp: pqq_init_def pqq_new_def L Let_def)
  have e: "\<lparr>b_cand = b_cand (pqq_beam q0), b_seen = b_seen (pqq_beam q0), b_expanded = b_expanded (pqq_beam q0),
      b_expands = b_expands (pqq_beam q0), b_st = hub\<rparr> = beam_entry (Suc L) (pq_insert t (Some ?lut) (\<lambda>s. s)) (sc_entry c) hub"
    by (simp add: q0 beam_entry_def beam_start_def score_into_def pqq_insert_eq pq_insert_def)
  let ?loop = "beam_loop (Suc L) (h_n (sc_h c)) (sc_iters c) (\<lambda>s. s) ?post (pq_nbrs c) (pq_insert t (Some ?lut) (\<lambda>s. s))
      (beam_entry (Suc L) (pq_insert t (Some ?lut) (\<lambda>s. s)) (sc_entry c) hub)"
  have pure: "map_option erase ?loop = pq_pure c t"
    unfolding by_pq.beam_search_erase [OF TrueI] by (simp add: pq_pure_def Let_def begin_query_ip_def L)
  obtain b where b: "?loop = Some b"
    using by_pq.beam_search_ok [OF TrueI, of 0 L "h_n (sc_h c)" "sc_iters c" "\<lambda>s. s" ?post c t "Some ?lut" "\<lambda>s. s"
        "sc_entry c" hub] by auto
  then have "pqq_run_beam c t (q0, hub) = Some (q0\<lparr>pqq_beam := erase b\<rparr>, b_st b)"
    using e by (simp add: pqq_run_beam_def Let_def L q0(2) pqq_insert_eq)
  with pure b q0 show ?thesis by simp
qed

section \<open>The pages of the candidates\<close>

definition rec_pages :: "'b sctx \<Rightarrow> nat \<Rightarrow> nat \<Rightarrow> nat list" where
  "rec_pages c pb i = page_span pb (sc_vec c i)
     (if diskann_layout (sc_pl c) \<and> vec_stride (sc_pl c) \<noteq> 0 then vec_stride (sc_pl c) else sc_vb c)"

lemma collect_rec: "hide_collect_vec_pages (sc_pl c) (sc_h c) (sc_vb c) pb i (ps, Some S) =
    (case fold push_new (rec_pages c pb i) (ps, S) of (ps', S') \<Rightarrow> (ps', Some S'))"
  by (auto simp: hide_collect_vec_pages_def collect_span_def rec_pages_def sc_vec_def vec_off_def Let_def)

lemma cand_pages_eq: "cand_pages c pb ids = dedup (concat (map (rec_pages c pb) ids))"
proof -
  have "fold (hide_collect_vec_pages (sc_pl c) (sc_h c) (sc_vb c) pb) ids (ps, Some S) =
      (case fold push_new (concat (map (rec_pages c pb) ids)) (ps, S) of (ps', S') \<Rightarrow> (ps', Some S'))" for ps S
  proof (induction ids arbitrary: ps S)
    case (Cons i ids)
    obtain ps1 S1 where 1: "fold push_new (rec_pages c pb i) (ps, S) = (ps1, S1)" by (cases "fold push_new (rec_pages c pb i) (ps, S)")
    then show ?case using Cons.IH [of ps1 S1] by (simp add: collect_rec)
  qed simp
  then show ?thesis by (simp add: cand_pages_def dedup_def split: prod.split)
qed

text \<open>A record is at least as long as its vector.\<close>

definition vec_in_rec :: "'b sctx \<Rightarrow> bool" where
  "vec_in_rec c \<longleftrightarrow> 0 < sc_vb c \<and> (diskann_layout (sc_pl c) \<and> vec_stride (sc_pl c) \<noteq> 0 \<longrightarrow> sc_vb c \<le> vec_stride (sc_pl c))"

lemma vec_pages_in_need:
  assumes "vec_in_rec c" and "pow2 pb" and "i \<in> set ids"
  shows "set (page_span pb (sc_vec c i) (sc_vb c)) \<subseteq> set (cand_pages c pb ids)"
proof -
  have "page_last pb (sc_vec c i) (sc_vb c) \<le> page_last pb (sc_vec c i) k" if "sc_vb c \<le> k" for k
    unfolding page_last_def using that assms(2) by (intro page_floor_mono) auto
  then have "set (page_span pb (sc_vec c i) (sc_vb c)) \<subseteq> set (rec_pages c pb i)"
    using assms(1) order_trans by (fastforce simp: rec_pages_def set_page_span [OF assms(2)] vec_in_rec_def)
  then show ?thesis using assms(3) by (auto simp: cand_pages_eq)
qed

section \<open>Ranking from the bounce buffers\<close>

definition vec_ready :: "'b sctx \<Rightarrow> 'd hide_pipe \<Rightarrow> nat \<Rightarrow> bool" where
  "vec_ready c hp i \<longleftrightarrow> (\<forall>q \<in> set (page_span (page_bytes (hp_win hp)) (sc_vec c i) (sc_vb c)). page_ready q hp)"

lemma ready_vec_read:
  assumes b: "bounce_inv hp" and pl: "hp_pl hp = sc_pl c" and r: "vec_ready c hp i" and vb: "0 < sc_vb c"
  shows "(case vec_src (sc_vec c i) (sc_vb c) hp of Some bs \<Rightarrow> Some bs | None \<Rightarrow> copy_vec (sc_vec c i) (sc_vb c) hp) =
    Some (image_bytes (sc_img c) (sc_vec c i) (sc_vb c))"
proof (cases "vec_src (sc_vec c i) (sc_vb c) hp")
  case None
  have "bounce_copy (sc_vec c i) (sc_vb c) 0 hp = Some (image_bytes (ssd_image (hp_pl hp)) (sc_vec c i + 0) (sc_vb c - 0))"
    using r by (intro bounce_copy_image [OF b]) (simp_all add: vec_ready_def)
  then show ?thesis using None bounce_score(1) [OF b] by (simp add: copy_vec_def pl)
next
  case (Some bs)
  let ?pb = "page_bytes (hp_win hp)" and ?off = "sc_vec c i"
  have pw: "pow2 ?pb" using b by (simp add: bounce_inv_def)
  have "page_floor ?pb ?off \<in> set (page_span ?pb ?off (sc_vb c))" using vb by (intro page_span_covers [OF pw]) simp_all
  then have "bounce_page (page_floor ?pb ?off) hp = Some (image_bytes (sc_img c) (page_floor ?pb ?off) ?pb)"
    using bounce_page_ready [OF b] r pl by (simp add: vec_ready_def)
  moreover have inb: "?off - page_floor ?pb ?off + sc_vb c \<le> ?pb"
    using Some bounce_score(1) [OF b] by (simp add: vec_src_def Let_def split: if_splits)
  ultimately have "bs = mem_read (?off - page_floor ?pb ?off) (sc_vb c) (image_bytes (sc_img c) (page_floor ?pb ?off) ?pb)"
    using Some bounce_score(1) [OF b] by (simp add: vec_src_def Let_def)
  then show ?thesis
    using Some mem_read_image_bytes [OF inb, of "sc_img c" "page_floor ?pb ?off"] page_floor_le [OF pw, of ?off] by simp
qed

lemma hp_met_frame:
  "hp_slots (hp_met f hp) = hp_slots hp" "hp_win (hp_met f hp) = hp_win hp" "hp_pl (hp_met f hp) = hp_pl hp"
  "hp_score (hp_met f hp) = hp_score hp" "page_ready q (hp_met f hp) = page_ready q hp"
  "vec_ready c (hp_met f hp) i = vec_ready c hp i"
  by (simp_all add: hp_met_def page_ready_def vec_ready_def)

lemma hp_met_inv: "bounce_inv (hp_met f hp) = bounce_inv hp"
proof -
  have "job_live job (hp_met f hp) = job_live job hp" for job by (simp add: job_live_def hp_met_def)
  then have "job_fits (hp_met f hp) = job_fits hp" by (intro ext) (simp add: job_fits_def hp_met_def)
  then show ?thesis by (simp add: bounce_inv_def hp_met_def)
qed

lemma rank_ready:
  assumes "bounce_inv hp" and "hp_pl hp = sc_pl c" and "0 < sc_vb c" and "\<forall>cd \<in> set cs. vec_ready c hp (snd cd)"
  shows "\<exists>hp'. rank_cands c acc cs hp = (True, acc @ map (\<lambda>cd. (true_score c (snd cd), snd cd)) cs, hp')"
  using assms
proof (induction cs arbitrary: acc hp)
  case (Cons cd cs)
  let ?hp = "hp_met (\<lambda>m. note_pf_scored_id (snd cd) (note_source (hp_score hp) True (count_dist m))) hp"
  have "(case vec_src (sc_vec c (snd cd)) (sc_vb c) hp of Some bs \<Rightarrow> Some bs | None \<Rightarrow> copy_vec (sc_vec c (snd cd)) (sc_vb c) hp) =
      Some (image_bytes (sc_img c) (sc_vec c (snd cd)) (sc_vb c))"
    using ready_vec_read [OF Cons.prems(1,2) _ Cons.prems(3)] Cons.prems(4) by simp
  moreover have "\<exists>hp'. rank_cands c (acc @ [(true_score c (snd cd), snd cd)]) cs ?hp =
      (True, (acc @ [(true_score c (snd cd), snd cd)]) @ map (\<lambda>cd. (true_score c (snd cd), snd cd)) cs, hp')"
    by (rule Cons.IH) (use Cons.prems in \<open>simp_all add: hp_met_frame hp_met_inv\<close>)
  ultimately show ?case by (simp add: true_score_def)
qed simp

lemma covers_ready:
  assumes "bounce_inv hp" and "pqq_covering hp (cand_pages c (page_bytes (hp_win hp)) ids)" and "vec_in_rec c" and "i \<in> set ids"
  shows "vec_ready c hp i"
proof -
  have "pow2 (page_bytes (hp_win hp))" using assms(1) by (simp add: bounce_inv_def)
  from vec_pages_in_need [OF assms(3) this assms(4)] show ?thesis
    using assms(2) bounce_score(2) [OF assms(1)]
    by (auto simp: vec_ready_def pqq_covering_def covers_all_def list_all_iff hp_covers_def)
qed

lemma rank_covered:
  assumes "bounce_inv hp" and "hp_pl hp = sc_pl c" and "vec_in_rec c" and "sc_vb c \<le> 4096"
    and "pqq_need q = cand_pages c (page_bytes (hp_win hp)) (map snd (b_cand (pqq_beam q)))"
    and "pqq_covering hp (pqq_need q)"
  shows "\<exists>q' hp'. pqq_rank c (q, hp) = Result (True, q', hp') \<and> pqq_st q' = CbDone \<and>
    b_cand (pqq_beam q') = map (\<lambda>cd. (true_score c (snd cd), snd cd)) (b_cand (pqq_beam q))"
proof -
  have "\<forall>cd \<in> set (b_cand (pqq_beam q)). vec_ready c hp (snd cd)"
    using covers_ready [OF assms(1) _ assms(3), of "map snd (b_cand (pqq_beam q))"] assms(5,6) by auto
  moreover have "0 < sc_vb c" using assms(3) by (simp add: vec_in_rec_def)
  ultimately obtain hp' where "rank_cands c [] (b_cand (pqq_beam q)) hp =
      (True, map (\<lambda>cd. (true_score c (snd cd), snd cd)) (b_cand (pqq_beam q)), hp')"
    using rank_ready [OF assms(1,2), of "b_cand (pqq_beam q)" "[]"] by auto
  then show ?thesis using assms(4,6) by (simp add: pqq_rank_def Let_def)
qed

section \<open>The two searches agree\<close>

text \<open>The candidates \<open>cs\<close> of a walk, reranked by their exact scores.\<close>

definition reranked :: "'a :: {comm_ring_1, linorder} sctx \<Rightarrow> 'a cand list \<Rightarrow> nat list" where
  "reranked c cs = take_top (sc_k c) (map (\<lambda>cd. (true_score c (snd cd), snd cd)) cs)"

lemma search_pq_oracle_reranked:
  assumes "pq_loaded t" and "0 < sc_L c"
  shows "\<exists>b v. pq_pure c t = Some b \<and> search_pq_oracle c (Some t) st = Some (Result (reranked c (b_cand b), v))"
proof -
  obtain pf w where q: "on_query_begin (sc_hb c) (sc_pl c) (sc_h c) (sc_warm c) (sc_entry c) st = (pf, w)"
    by (cases "on_query_begin (sc_hb c) (sc_pl c) (sc_h c) (sc_warm c) (sc_entry c) st")
  obtain b where b: "pq_walk c t (met_upd count_dist) (\<lambda>s. s) w = Some b"
    using pq_walk_returns [OF assms(2), of t "met_upd count_dist" "\<lambda>s. s" w] by blast
  have "pq_pure c t = Some (erase b)"
    using pq_walk_pure [OF assms(2), of t "met_upd count_dist" "\<lambda>s. s" w] b by simp
  then show ?thesis using b q assms(1)
    by (auto simp: search_pq_oracle_def fp_rerank_dram_def reranked_def case_prod_unfold)
qed

lemma reranked_best:
  assumes "distinct (map snd cs)" and "length cs \<le> L" and "sc_k c \<le> L"
  shows "distinct (reranked c cs)" "set (reranked c cs) \<subseteq> snd ` set cs" "length (reranked c cs) = min (sc_k c) (length cs)"
    "sorted (map (true_score c) (reranked c cs))"
    "i \<in> snd ` set cs \<Longrightarrow> i \<notin> set (reranked c cs) \<Longrightarrow> j \<in> set (reranked c cs) \<Longrightarrow> true_score c j \<le> true_score c i"
proof -
  let ?r = "map (\<lambda>cd. (true_score c (snd cd), snd cd)) cs"
  have b: "best_of (max L (length cs)) (true_score c) (snd ` set cs) ?r"
    using assms(1) by (auto simp: best_of_def comp_def image_image)
  have k: "sc_k c \<le> max L (length cs)" using assms(3) by simp
  show "distinct (reranked c cs)" "set (reranked c cs) \<subseteq> snd ` set cs" "length (reranked c cs) = min (sc_k c) (length cs)"
    "sorted (map (true_score c) (reranked c cs))"
    using take_top_best(1-4) [OF b k] by (simp_all add: reranked_def)
  show "true_score c j \<le> true_score c i" if "i \<in> snd ` set cs" "i \<notin> set (reranked c cs)" "j \<in> set (reranked c cs)"
    using take_top_best(5) [OF b k that(1)] that(2,3) by (simp add: reranked_def)
qed

text \<open>C7. The two-stage search (PQ walk, exact rerank) on the mapped image always returns: its
  candidates \<open>C\<close> are the best \<open>L\<close> ids by PQ distance of all it reached, ids beyond the table
  left out, and it returns the \<open>k\<close> of them with the largest inner product, best first.\<close>
theorem pq_search_two_stages:
  assumes "pq_loaded t" and "0 < sc_L c" and "sc_k c \<le> sc_L c"
  shows "\<exists>ids v C. search_pq_oracle c (Some t) st = Some (Result (ids, v)) \<and>
    best_reached (true_nbrs c) (pq_dist_tls t (begin_query_ip t (sc_q c))) (\<lambda>i. i < pq_n t)
      (h_n (sc_h c)) (sc_entry c) (sc_iters c) (sc_L c) C \<and>
    distinct ids \<and> set ids \<subseteq> set C \<and> length ids = min (sc_k c) (length C) \<and> sorted (map (true_score c) ids) \<and>
    (\<forall>i \<in> set C - set ids. \<forall>j \<in> set ids. true_score c j \<le> true_score c i)"
proof -
  obtain b v where b: "pq_pure c t = Some b" "search_pq_oracle c (Some t) st = Some (Result (reranked c (b_cand b), v))"
    using search_pq_oracle_reranked [OF assms(1,2)] by blast
  obtain b' where b': "pq_walk c t (\<lambda>s. s) (\<lambda>s. s) () = Some b'"
    "best_reached (true_nbrs c) (pq_dist_tls t (begin_query_ip t (sc_q c))) (\<lambda>i. i < pq_n t)
      (h_n (sc_h c)) (sc_entry c) (sc_iters c) (sc_L c) (take_top (sc_L c) (b_cand b'))"
    using pq_walk_returns [OF assms(2), of t "\<lambda>s. s" "\<lambda>s. s" "()"] by blast
  have "erase b' = b" using pq_walk_pure [OF assms(2), of t "\<lambda>s. s" "\<lambda>s. s" "()"] b(1) b'(1) by simp
  then have cand: "b_cand b' = b_cand b" by auto
  have d: "distinct (map snd (b_cand b))" "length (b_cand b) \<le> sc_L c"
    using pq_walk_best [OF assms(2) b'(1)] by (simp_all add: best_of_def cand)
  have C: "set (take_top (sc_L c) (b_cand b)) = snd ` set (b_cand b)" "length (take_top (sc_L c) (b_cand b)) = length (b_cand b)"
    using d(2) by (simp_all add: take_top_def by_dist.length_srt by_dist.set_srt)
  show ?thesis
    using b(2) b'(2) reranked_best [OF d assms(3)] unfolding cand
    by (intro exI [of _ "reranked c (b_cand b)"] exI [of _ v] exI [of _ "take_top (sc_L c) (b_cand b)"]) (simp add: C)
qed

text \<open>A table of one chunk with no component of its own: every PQ distance is 0.\<close>

definition ring_pq :: "int pq_table" where
  "ring_pq = \<lparr>pq_n = 4, pq_dim = 1, nchunks = 1, tables_T = [], chunk_off = [0, 0],
     codes = [[0], [1], [2], [3]], lut = [0]\<rparr>"

lemma ring_pq_loaded: "pq_loaded ring_pq" "0 < sc_L ring_ctx" "sc_k ring_ctx = 2" "sc_L ring_ctx = 3" "vec_in_rec ring_ctx"
  "sc_vb ring_ctx = 4" "sc_pl ring_ctx = ring_place"
  by (simp_all add: pq_loaded_def ring_pq_def sc_L_def ring_ctx_def vec_in_rec_def sc_vb_def ring_header_def ring_place_def)

theorem pq_search_two_stages_witness:
  "\<exists>ids v. search_pq_oracle ring_ctx (Some ring_pq) (prefetch_new, demo_window) = Some (Result (ids, v)) \<and> distinct ids \<and>
    sorted (map (true_score ring_ctx) ids)"
  using pq_search_two_stages [of ring_pq ring_ctx "(prefetch_new, demo_window)"] ring_pq_loaded by fastforce

section \<open>Parked and resumed\<close>

text \<open>While it walks, the query only pumps the hub it is given.\<close>

definition hub_from :: "'d driver \<Rightarrow> 'd hide_pipe \<Rightarrow> 'd prefetch_hub option \<Rightarrow> bool" where
  "hub_from drv p0 hub \<longleftrightarrow> (\<exists>h. hub = Some h \<and> hide_reach drv p0 (hub_pipe h))"

lemma pump_16_from: "hub_from drv p0 hub \<Longrightarrow> hub_from drv p0 (pump_16 k hub)"
  using hr_step [OF _ hs_pump, of drv p0] by (auto simp: hub_from_def pump_16_def hub_pump_def)

interpretation by_pq_hub: beam_client "hub_from drv p0" "true_nbrs c" "pq_dist_tls t tls" "\<lambda>i. i < pq_n t" "\<lambda>s. s"
  "\<lambda>k. pump_16 (k - k0)" "pq_nbrs c" "pq_insert t tls (\<lambda>s. s)" "Suc L" n entry
  for drv :: "'d driver" and p0 and c :: "'b sctx" and t :: "'a :: {comm_ring_1, linorder} pq_table" and tls k0 L n entry
  by unfold_locales (auto simp: pq_nbrs_def pq_insert_def pump_16_from)

lemma run_beam_hub:
  assumes "0 < sc_L c" and "pqq_init c t qi st = (q0, st0)" and "hide_reach drv p0 (hub_pipe h0)"
  shows "\<exists>q1 h1. pqq_run_beam c t (q0, Some h0) = Some (q1, Some h1) \<and> hide_reach drv p0 (hub_pipe h1)"
proof -
  obtain L where L: "sc_L c = Suc L" using assms(1) by (cases "sc_L c") auto
  let ?lut = "fill_lut_ip t (sc_q c)"
  have q0: "pqq_beam q0 = beam_entry (Suc L) (pqq_insert t ?lut) (sc_entry c) ()" "pqq_lut q0 = ?lut"
    using assms(2) by (auto simp: pqq_init_def pqq_new_def L Let_def)
  have e: "\<lparr>b_cand = b_cand (pqq_beam q0), b_seen = b_seen (pqq_beam q0), b_expanded = b_expanded (pqq_beam q0),
      b_expands = b_expands (pqq_beam q0), b_st = Some h0\<rparr> =
      beam_entry (Suc L) (pq_insert t (Some ?lut) (\<lambda>s. s)) (sc_entry c) (Some h0)"
    by (simp add: q0 beam_entry_def beam_start_def score_into_def pqq_insert_eq pq_insert_def)
  have "hub_from drv p0 (Some h0)" using assms(3) by (simp add: hub_from_def)
  from by_pq_hub.beam_search_ok [OF this, of 0 L "h_n (sc_h c)" "sc_iters c" "b_expands (pqq_beam q0)" c t "Some ?lut" "sc_entry c"]
  show ?thesis
    unfolding pqq_run_beam_def using e by (auto simp: Let_def L q0(2) pqq_insert_eq hub_from_def)
qed

text \<open>C3. In bounce mode with extent runs off, a loaded PQ table, \<open>0 < L\<close>, vectors of
  at most 4096 bytes that lie in their records, a page size that is a power of two and a driver that reads
  the image: take a query of the cooperative scheduler that is started, walked and issued on any reachable
  fill pipe, and ranked in any reachable pipe that covers its pages, where reachable is by any pumps,
  non-stalling issues, releases and fill jobs, for this query or others, but no fill job runs after its
  slot was given up (undefined in the code). The query is then done, and the ids it returns are those that
  it returns when it runs alone on the mapped image.\<close>
theorem parked_query_is_oracle:
  assumes "pq_loaded t" and "0 < sc_L c" and "vec_in_rec c" and "sc_vb c \<le> 4096" and "pow2 (page_bytes w)"
    and "driver_reads drv vio (sc_img c) (page_bytes w)"
    and "pqq_init c t qi st = (q0, st0)"
    and "hide_reach drv (fresh_pipe heap w (sc_pl c) vio m Score_bounce False direct d) (hub_pipe h0)"
    and "pqq_run_beam c t (q0, Some h0) = Some (q1, Some h1)"
    and "pqq_issue c yld stall (q1, h1) = Some (q2, h2)"
    and "hide_reach drv (fresh_pipe heap w (sc_pl c) vio m Score_bounce False direct d) hp"
    and "pqq_covering hp (pqq_need q2)"
  shows "\<exists>q3 hp' v. pqq_rank c (q2, hp) = Result (True, q3, hp') \<and> pqq_st q3 = CbDone \<and>
    search_pq_oracle c (Some t) st = Some (Result (pqq_finish (sc_k c) q3, v))"
proof -
  have reach: "bounce_inv p \<and> hp_pl p = sc_pl c \<and> page_bytes (hp_win p) = page_bytes w"
    if "hide_reach drv (fresh_pipe heap w (sc_pl c) vio m Score_bounce False direct d) p" for p
    using hide_reach_inv [OF that fresh_pipe_inv [OF assms(5)]] assms(6) by (simp add: same_setting_def fresh_pipe_def)
  have h1: "hide_reach drv (fresh_pipe heap w (sc_pl c) vio m Score_bounce False direct d) (hub_pipe h1)"
    using run_beam_hub [OF assms(2,7,8)] assms(9) by auto
  have pure: "pq_pure c t = Some (pqq_beam q1)"
    using init_run_beam [OF assms(2,7), of "Some h0"] assms(9) by auto
  have q2: "pqq_beam q2 = pqq_beam q1"
    "pqq_need q2 = cand_pages c (page_bytes (hp_win hp)) (map snd (b_cand (pqq_beam q2)))"
    using assms(10) reach [OF h1] reach [OF assms(11)] by (auto simp: pqq_issue_def Let_def)
  obtain q3 hp' where "pqq_rank c (q2, hp) = Result (True, q3, hp')" "pqq_st q3 = CbDone"
    "b_cand (pqq_beam q3) = map (\<lambda>cd. (true_score c (snd cd), snd cd)) (b_cand (pqq_beam q2))"
    using rank_covered [OF _ _ assms(3,4) q2(2) assms(12)] reach [OF assms(11)] by blast
  moreover obtain v where "search_pq_oracle c (Some t) st = Some (Result (reranked c (b_cand (pqq_beam q2)), v))"
    using search_pq_oracle_reranked [OF assms(1,2), of st] pure q2(1) by auto
  ultimately show ?thesis by (auto simp: pqq_finish_def reranked_def)
qed

text \<open>The four pages of the ring, issued and filled.\<close>

definition ring_pipe :: "unit hide_pipe" where
  "ring_pipe = fresh_pipe (\<lambda>_ _. 255) demo_window ring_place None None Score_bounce False False ()"

definition ring_filled :: "unit hide_pipe" where
  "ring_filled = the (run_pipe_job demo_driver 0 (snd (the (hp_issue id [0, 4, 8, 12] 32 False False ring_pipe))))"

lemma ring_filled_reach: "hide_reach demo_driver ring_pipe ring_filled"
proof -
  let ?r = "hp_issue id [0, 4, 8, 12] 32 False False ring_pipe"
  let ?h = "snd (the ?r)"
  have "?r \<noteq> None \<and> hp_jobs ?h = [(0, 1, 0, 4)]" by code_simp
  moreover then have "hide_step demo_driver ring_pipe ?h"
    by (intro hs_issue [of "[0, 4, 8, 12]" 32 False _ "fst (the ?r)"]) auto
  moreover have "run_pipe_job demo_driver 0 ?h \<noteq> None" by code_simp
  ultimately have "hide_step demo_driver ring_pipe ?h" "hide_step demo_driver ?h ring_filled"
    by (auto simp: ring_filled_def intro!: hs_worker [of 0])
  then show ?thesis by (blast intro: hide_reach.intros)
qed

lemma ring_covered: "a \<in> {0, 4, 8, 12} \<Longrightarrow> hp_covers a ring_filled"
proof -
  have "hp_covers 0 ring_filled \<and> hp_covers 4 ring_filled \<and> hp_covers 8 ring_filled \<and> hp_covers 12 ring_filled" by code_simp
  then show "a \<in> {0, 4, 8, 12} \<Longrightarrow> hp_covers a ring_filled" by auto
qed

lemma ring_need:
  assumes "set ids \<subseteq> {..<4}"
  shows "set (cand_pages ring_ctx 4 ids) \<subseteq> {0, 4, 8, 12}"
proof -
  have "rec_pages ring_ctx 4 i = [4 * i]" if "i < 4" for i
  proof -
    have "i \<in> {0, 1, 2, 3}" using that by auto
    moreover have "rec_pages ring_ctx 4 0 = [0] \<and> rec_pages ring_ctx 4 1 = [4] \<and> rec_pages ring_ctx 4 2 = [8] \<and>
        rec_pages ring_ctx 4 3 = [12]" by code_simp
    ultimately show ?thesis by auto
  qed
  then have "set (cand_pages ring_ctx 4 ids) \<subseteq> (*) 4 ` {..<4}" using assms by (fastforce simp: cand_pages_eq)
  also have "\<dots> = {0, 4, 8, 12}" by (auto simp: lessThan_Suc numeral_eq_Suc)
  finally show ?thesis .
qed

lemma ring_seen:
  assumes "pqq_init ring_ctx ring_pq qi st = (q0, st0)" and "pqq_run_beam ring_ctx ring_pq (q0, hub) = Some (q1, hub1)"
  shows "set (map snd (b_cand (pqq_beam q1))) \<subseteq> {..<4}"
proof -
  have L: "0 < sc_L ring_ctx" using ring_pq_loaded by simp
  have pure: "pq_pure ring_ctx ring_pq = Some (pqq_beam q1)" using init_run_beam [OF L assms(1), of hub] assms(2) by auto
  obtain b where b: "pq_walk ring_ctx ring_pq (\<lambda>s. s) (\<lambda>s. s) () = Some b"
    using pq_walk_returns [OF L, of ring_pq "\<lambda>s. s" "\<lambda>s. s" "()"] by blast
  have "set (map snd (b_cand b)) \<subseteq> {i \<in> b_seen b. i < pq_n ring_pq}"
    using pq_walk_best [OF L b] by (auto simp: best_of_def)
  moreover have "pqq_beam q1 = erase b"
    using pq_walk_pure [OF L, of ring_pq "\<lambda>s. s" "\<lambda>s. s" "()"] b pure by simp
  ultimately show ?thesis by (auto simp: ring_pq_def)
qed

theorem parked_query_is_oracle_witness:
  "\<exists>q2 q3 hp' v. pqq_rank ring_ctx (q2, ring_filled) = Result (True, q3, hp') \<and> pqq_st q3 = CbDone \<and>
    search_pq_oracle ring_ctx (Some ring_pq) (prefetch_new, demo_window) = Some (Result (pqq_finish 2 q3, v))"
proof -
  obtain q0 st0 where i: "pqq_init ring_ctx ring_pq 7 (prefetch_new, demo_window) = (q0, st0)" by (cases "pqq_init ring_ctx ring_pq 7 (prefetch_new, demo_window)")
  let ?h0 = "\<lparr>hub_pipe = ring_pipe, issue_n = 0, issue_pages = 0\<rparr>"
  have h0: "hide_reach demo_driver ring_pipe (hub_pipe ?h0)" by (simp add: hr_refl)
  obtain q1 h1 where b: "pqq_run_beam ring_ctx ring_pq (q0, Some ?h0) = Some (q1, Some h1)"
    "hide_reach demo_driver ring_pipe (hub_pipe h1)"
    using run_beam_hub [OF ring_pq_loaded(2) i h0] by blast
  obtain q2 h2 where s: "pqq_issue ring_ctx id False (q1, h1) = Some (q2, h2)"
    by (cases "pqq_issue ring_ctx id False (q1, h1)")
      (auto simp: pqq_issue_def Let_def hub_submit_def hub_send_def hp_issue_def take_slot_def split: if_splits option.splits)
  have "bounce_inv ring_pipe" "page_bytes (hp_win ring_pipe) = 4"
    by (simp_all add: ring_pipe_def fresh_pipe_inv demo_page pow2_4) (simp add: fresh_pipe_def demo_page)
  then have "hide_reach demo_driver ring_pipe p \<Longrightarrow> page_bytes (hp_win p) = 4" for p
    using hide_reach_inv [of demo_driver ring_pipe p] by (simp add: demo_driver_reads same_setting_def)
  then have "set (pqq_need q2) \<subseteq> {0, 4, 8, 12}"
    using ring_need [OF ring_seen [OF i b(1)]] s b(2) by (auto simp: pqq_issue_def Let_def)
  then have c: "pqq_covering ring_filled (pqq_need q2)"
    using ring_covered by (auto simp: pqq_covering_def covers_all_def list_all_iff)
  show ?thesis
    using parked_query_is_oracle [OF ring_pq_loaded(1,2,5) _ _ _ i _ b(1) s _ c, of demo_window demo_driver None "\<lambda>_ _. 255" None False "()"]
      h0 ring_filled_reach ring_pq_loaded
    by (auto simp: ring_pipe_def demo_page pow2_4 demo_driver_reads)
qed

end
