(* ===== verification/Sched_Cont.thy ===== *)
theory Sched_Cont
  imports Search_Pq Nav_Graph "HOL-Library.Signed_Division"
begin

text \<open>
  The cooperative batch scheduler of \<open>serving/search_beam.cpp\<close> (\<open>run_cb_sched\<close>): \<open>W\<close> workers share
  \<open>T\<close> query slots and one \<open>PrefetchHub\<close>. A worker pumps the hub, then under the scheduler's mutex
  admits queries into the empty slots and picks a slot that can go on; the work on that slot runs
  without the mutex. A step here is one worker's next piece of work, as long as it holds a mutex or
  touches the hub once (the pumps of a walk and the releases at the end of a rerank count as one),
  or one fill job run by the copy pool, in any order. Times, traces and counters of the threads are
  left out; \<open>lat_ms\<close> is kept as the list of queries whose latency was stored.
\<close>

section \<open>The run\<close>

record 'a sched_cfg =
  sg_base :: "'a sctx"
  sg_pq :: "'a pq_table"
  sg_nav :: nav_graph
  sg_queries :: "'a list list"
  sg_gt :: "nat list option"
  sg_gt_k :: nat
  sg_id_map :: "nat list"

abbreviation sg_nq :: "'a sched_cfg \<Rightarrow> nat" where
  "sg_nq g \<equiv> length (sg_queries g)"

text \<open>The search of query \<open>qi\<close>: its row of the query file, and its entry from the navigation graph if there is one.\<close>

definition query_ctx :: "'a :: linordered_idom sched_cfg \<Rightarrow> nat \<Rightarrow> 'a sctx" where
  "query_ctx g qi =
     (let c = sg_base g; qf = sg_queries g ! qi
      in c\<lparr>sc_q := qf,
           sc_entry := (if nav_loaded (sg_nav g) then search_entry (\<lambda>bs. sc_dec c (word_of_nat (u32_le bs))) (sg_nav g) qf
                        else sc_entry c)\<rparr>)"

definition map_ids :: "nat list \<Rightarrow> nat list \<Rightarrow> nat list" where
  "map_ids m ids = (if m = [] then ids else map (\<lambda>i. if i < length m then m ! i else i) ids)"

definition query_recall :: "'a sched_cfg \<Rightarrow> nat \<Rightarrow> nat list \<Rightarrow> rat option" where
  "query_recall g qi ids =
     map_option (\<lambda>gt. recall_at_k (map_ids (sg_id_map g) ids) (load_gt_row gt (sg_gt_k g) qi (sc_k (sg_base g)))) (sg_gt g)"

text \<open>\<open>recs\<close> is \<open>-1\<close> in the code where it is \<open>None\<close> here.\<close>

record ('a, 'd) cont =
  ct_slots :: "'a pqq list"
  ct_hub :: "'d prefetch_hub"
  ct_pref :: "'a prefetch"
  ct_next :: nat
  ct_fin :: nat
  ct_rr :: "32 word"
  ct_lat :: "bool list"
  ct_recs :: "rat option list"

abbreviation ct_pipe :: "('a, 'd) cont \<Rightarrow> 'd hide_pipe" where
  "ct_pipe s \<equiv> hub_pipe (ct_hub s)"

definition cont_start :: "'a sched_cfg \<Rightarrow> nat \<Rightarrow> 'd prefetch_hub \<Rightarrow> 'a prefetch \<Rightarrow> ('a, 'd) cont" where
  "cont_start g T h pf =
     \<lparr>ct_slots = replicate T pqq_new, ct_hub = h, ct_pref = pf, ct_next = 0, ct_fin = 0, ct_rr = 0,
      ct_lat = replicate (sg_nq g) False, ct_recs = replicate (sg_nq g) None\<rparr>"

section \<open>Admission and choice\<close>

definition ct_states :: "('a, 'd) cont \<Rightarrow> cb_st list" where
  "ct_states s = map pqq_st (ct_slots s)"

definition admit_one :: "'a :: linordered_idom sched_cfg \<Rightarrow> nat \<Rightarrow> nat \<Rightarrow> ('a, 'd) cont \<Rightarrow> ('a, 'd) cont" where
  "admit_one g i qi s =
     (case pqq_init (query_ctx g qi) (sg_pq g) qi (ct_pref s, hp_win (ct_pipe s)) of
        (q, pf, w) \<Rightarrow> s\<lparr>ct_slots := (ct_slots s)[i := q], ct_pref := pf,
           ct_hub := (ct_hub s)\<lparr>hub_pipe := (ct_pipe s)\<lparr>hp_win := w\<rparr>\<rparr>, ct_next := Suc qi\<rparr>)"

text \<open>The queries not admitted yet, as long as there is an empty slot.\<close>

fun admit_list :: "'a :: linordered_idom sched_cfg \<Rightarrow> nat list \<Rightarrow> ('a, 'd) cont \<Rightarrow> ('a, 'd) cont" where
  "admit_list g [] s = s"
| "admit_list g (qi # qs) s =
     (case first_seat (seat_is (ct_states s) CbEmpty) (ct_states s) of
        None \<Rightarrow> s
      | Some i \<Rightarrow> admit_list g qs (admit_one g i qi s))"

definition admit :: "'a :: linordered_idom sched_cfg \<Rightarrow> ('a, 'd) cont \<Rightarrow> ('a, 'd) cont" where
  "admit g s = admit_list g [ct_next s..<sg_nq g] s"

text \<open>\<open>rr\<close>, \<open>start + koff\<close> and its remainder are \<open>int\<close>s: a sum beyond \<open>2 ^ 31 - 1\<close> overflows, and \<open>%\<close>
  truncates towards zero, so the index can be negative and outside \<open>slots\<close>. Both are undefined in
  the code; \<open>pick_order\<close> has \<open>-1\<close> for an overflow, and \<open>Pick_outside\<close> is the outcome of either.\<close>

datatype pick = Pick nat | Pick_none | Pick_outside

fun pick_scan :: "(nat \<Rightarrow> bool) \<Rightarrow> int list \<Rightarrow> pick" where
  "pick_scan P [] = Pick_none"
| "pick_scan P (i # is) = (if i < 0 then Pick_outside else if P (nat i) then Pick (nat i) else pick_scan P is)"

definition pick_order :: "nat \<Rightarrow> 32 word \<Rightarrow> int list" where
  "pick_order T start = map (\<lambda>koff. if 0x7FFFFFFF < sint start + int koff then -1 else (sint start + int koff) smod int T) [0..<T]"

definition pick_pq :: "('a, 'd) cont \<Rightarrow> pick \<times> ('a, 'd) cont" where
  "pick_pq s =
     (let order = pick_order (length (ct_slots s)) (ct_rr s);
          ready = pick_scan (\<lambda>i. pqq_st (ct_slots s ! i) = CbReady) order;
          p = (if ready = Pick_none
               then pick_scan (\<lambda>i. pqq_st (ct_slots s ! i) = CbWait \<and> pqq_covering (ct_pipe s) (pqq_need (ct_slots s ! i))) order
               else ready)
      in (p, s\<lparr>ct_rr := ct_rr s + 1\<rparr>))"

definition finish_slot :: "'a :: linordered_idom sched_cfg \<Rightarrow> nat \<Rightarrow> ('a, 'd) cont \<Rightarrow> ('a, 'd) cont" where
  "finish_slot g i s =
     (let q = ct_slots s ! i; qi = pqq_qi q; ids = pqq_finish (sc_k (sg_base g)) q
      in s\<lparr>ct_lat := (ct_lat s)[qi := True],
           ct_recs := (case query_recall g qi ids of None \<Rightarrow> ct_recs s | Some r \<Rightarrow> (ct_recs s)[qi := Some r]),
           ct_slots := (ct_slots s)[i := pqq_new], ct_fin := ct_fin s + 1\<rparr>)"

section \<open>A worker\<close>

text \<open>Where a worker is; \<open>PcScore i j\<close> reranks candidate \<open>j\<close> of slot \<open>i\<close>.\<close>

datatype cont_pc = PcTop | PcPick | PcIdle | PcBeam nat | PcIssue nat | PcCheck nat | PcRank nat
  | PcScore nat nat | PcPark nat | PcEnd

definition set_seat :: "nat \<Rightarrow> 'a pqq \<Rightarrow> ('a, 'd) cont \<Rightarrow> ('a, 'd) cont" where
  "set_seat i q s = s\<lparr>ct_slots := (ct_slots s)[i := q]\<rparr>"

definition set_hub :: "'d prefetch_hub \<Rightarrow> ('a, 'd) cont \<Rightarrow> ('a, 'd) cont" where
  "set_hub h s = s\<lparr>ct_hub := h\<rparr>"

definition set_pipe :: "'d hide_pipe \<Rightarrow> ('a, 'd) cont \<Rightarrow> ('a, 'd) cont" where
  "set_pipe p s = set_hub ((ct_hub s)\<lparr>hub_pipe := p\<rparr>) s"

text \<open>One candidate of the loop of \<open>pqq_rank\<close>.\<close>

definition rank_one :: "'a :: comm_ring_1 sctx \<Rightarrow> nat \<Rightarrow> 'a pqq \<times> 'd hide_pipe \<Rightarrow> ('a pqq \<times> 'd hide_pipe) option" where
  "rank_one c j st =
     (case st of (q, hp) \<Rightarrow>
        let i = snd (b_cand (pqq_beam q) ! j)
        in map_option (\<lambda>bs.
             (q\<lparr>pqq_beam := (pqq_beam q)\<lparr>b_cand := (b_cand (pqq_beam q))[j := (score_bytes c bs, i)]\<rparr>\<rparr>,
              hp_met (\<lambda>m. note_pf_scored_id i (note_source (hp_score hp) True (count_dist m))) hp))
             (case vec_src (sc_vec c i) (sc_vb c) hp of
                Some bs \<Rightarrow> Some bs
              | None \<Rightarrow> copy_vec (sc_vec c i) (sc_vb c) hp))"

text \<open>Its end: the used pages are noted, and the query's issues and slots given back.\<close>

definition rank_end :: "'a sctx \<Rightarrow> 'a pqq \<times> 'd hide_pipe \<Rightarrow> 'a pqq \<times> 'd hide_pipe" where
  "rank_end c st =
     (case st of (q, hp) \<Rightarrow>
        let hp1 = hp_met (note_pf_used (cand_pages c (page_bytes (hp_win hp)) (map snd (b_cand (pqq_beam q))))) hp
        in (q\<lparr>pqq_st := CbDone\<rparr>, release_pages (pqq_need q) (fold release_tok (pqq_toks q) hp1)))"

definition resubmit :: "('a, 'd) cont \<Rightarrow> 'd prefetch_hub option" where
  "resubmit s =
     fold (\<lambda>q r. case r of
         None \<Rightarrow> None
       | Some h \<Rightarrow> if pqq_st q = CbWait \<and> pqq_need q \<noteq> [] then map_option snd (hub_submit id (pqq_need q) h) else Some h)
       (ct_slots s) (Some (ct_hub s))"

text \<open>The next piece of work; \<open>None\<close> is an index outside \<open>slots\<close>, or \<open>exit(2)\<close>.\<close>

fun cont_turn :: "'a :: linordered_idom sched_cfg \<Rightarrow> cont_pc \<Rightarrow> ('a, 'd) cont \<Rightarrow> (cont_pc \<times> ('a, 'd) cont) option" where
  "cont_turn g PcTop s =
     (if sg_nq g \<le> ct_fin s then Some (PcEnd, s) else Some (PcPick, set_hub (hub_pump (ct_hub s)) s))"
| "cont_turn g PcPick s =
     (case pick_pq (admit g s) of
        (Pick i, s1) \<Rightarrow>
          Some (if pqq_need (ct_slots s1 ! i) = [] then PcBeam i else PcRank i,
                set_seat i ((ct_slots s1 ! i)\<lparr>pqq_st := CbBusy\<rparr>) s1)
      | (Pick_none, s1) \<Rightarrow> Some (PcIdle, s1)
      | (Pick_outside, s1) \<Rightarrow> None)"
| "cont_turn g PcIdle s =
     (if any_inflight (ct_hub s) then Some (PcTop, s)
      else map_option (\<lambda>h. (PcTop, set_hub h s)) (resubmit s))"
| "cont_turn g (PcBeam i) s =
     (let q = ct_slots s ! i
      in case pqq_run_beam (query_ctx g (pqq_qi q)) (sg_pq g) (q, Some (ct_hub s)) of
           Some (q1, Some h) \<Rightarrow> Some (PcIssue i, set_hub h (set_seat i q1 s))
         | _ \<Rightarrow> None)"
| "cont_turn g (PcIssue i) s =
     (let q = ct_slots s ! i
      in case pqq_issue (query_ctx g (pqq_qi q)) id False (q, ct_hub s) of
           Some (q1, h) \<Rightarrow> Some (PcCheck i, set_hub h (set_seat i q1 s))
         | None \<Rightarrow> None)"
| "cont_turn g (PcCheck i) s =
     (let q = ct_slots s ! i
      in Some (if pqq_need q = [] \<or> pqq_covering (ct_pipe s) (pqq_need q) then PcRank i else PcPark i, s))"
| "cont_turn g (PcRank i) s =
     (let q = ct_slots s ! i
      in if \<not> pqq_covering (ct_pipe s) (pqq_need q) then Some (PcPark i, s)
         else if 4096 < sc_vb (sg_base g) then None
         else Some (PcScore i 0, s))"
| "cont_turn g (PcScore i j) s =
     (let q = ct_slots s ! i; c = query_ctx g (pqq_qi q)
      in if length (b_cand (pqq_beam q)) \<le> j
         then case rank_end c (q, ct_pipe s) of (q1, p) \<Rightarrow> Some (PcPark i, set_pipe p (set_seat i q1 s))
         else case rank_one c j (q, ct_pipe s) of
                None \<Rightarrow> Some (PcPark i, s)
              | Some (q1, p) \<Rightarrow> Some (PcScore i (Suc j), set_pipe p (set_seat i q1 s)))"
| "cont_turn g (PcPark i) s =
     (let q = ct_slots s ! i
      in Some (PcTop, if pqq_st q = CbDone then finish_slot g i s
                      else if pqq_st q = CbBusy then set_seat i (q\<lparr>pqq_st := CbWait\<rparr>) s else s))"
| "cont_turn g PcEnd s = None"

text \<open>A step of the run: a worker's, or a fill job of the copy pool.\<close>

inductive cont_step ::
  "'a :: linordered_idom sched_cfg \<Rightarrow> 'd driver \<Rightarrow> cont_pc list \<times> ('a, 'd) cont \<Rightarrow> cont_pc list \<times> ('a, 'd) cont \<Rightarrow> bool"
  for g drv where
  cs_worker: "t < length pcs \<Longrightarrow> cont_turn g (pcs ! t) s = Some (pc, s1) \<Longrightarrow> cont_step g drv (pcs, s) (pcs[t := pc], s1)"
| cs_fill: "k < length (hp_jobs (ct_pipe s)) \<Longrightarrow> run_pipe_job drv k (ct_pipe s) = Some p \<Longrightarrow>
    cont_step g drv (pcs, s) (pcs, set_pipe p s)"

inductive cont_reach ::
  "'a :: linordered_idom sched_cfg \<Rightarrow> 'd driver \<Rightarrow> cont_pc list \<times> ('a, 'd) cont \<Rightarrow> cont_pc list \<times> ('a, 'd) cont \<Rightarrow> bool"
  for g drv x where
  cr_start: "cont_reach g drv x x"
| cr_step: "cont_reach g drv x y \<Longrightarrow> cont_step g drv y z \<Longrightarrow> cont_reach g drv x z"

section \<open>The parts of the state\<close>

lemma query_ctx_sel [simp]:
  "sc_pl (query_ctx g qi) = sc_pl (sg_base g)" "sc_h (query_ctx g qi) = sc_h (sg_base g)"
  "sc_hb (query_ctx g qi) = sc_hb (sg_base g)" "sc_dec (query_ctx g qi) = sc_dec (sg_base g)"
  "sc_cvt (query_ctx g qi) = sc_cvt (sg_base g)"
  "sc_k (query_ctx g qi) = sc_k (sg_base g)" "sc_warm (query_ctx g qi) = sc_warm (sg_base g)"
  by (simp_all add: query_ctx_def Let_def)

lemma query_ctx_sizes [simp]:
  "sc_L (query_ctx g qi) = sc_L (sg_base g)" "sc_vb (query_ctx g qi) = sc_vb (sg_base g)"
  "vec_in_rec (query_ctx g qi) = vec_in_rec (sg_base g)"
  "cand_pages (query_ctx g qi) pb ids = cand_pages (sg_base g) pb ids"
  by (simp_all add: sc_L_def sc_vb_def vec_in_rec_def cand_pages_def) (simp_all add: query_ctx_def Let_def)

text \<open>The shared pipe: in the bounce mode, on the run's placement, with a window that has room.\<close>

definition pipe_ok :: "'a sched_cfg \<Rightarrow> vmem_io option \<Rightarrow> nat \<Rightarrow> 'd hide_pipe \<Rightarrow> bool" where
  "pipe_ok g vio pb p \<longleftrightarrow> bounce_inv p \<and> hp_pl p = sc_pl (sg_base g) \<and> hp_vio p = vio \<and> page_bytes (hp_win p) = pb \<and>
     good (sc_img (sg_base g)) (hp_win p) \<and> pin_room (hp_win p)"

definition run_ok :: "'a :: linordered_idom sched_cfg \<Rightarrow> 'd driver \<Rightarrow> vmem_io option \<Rightarrow> nat \<Rightarrow> bool" where
  "run_ok g drv vio pb \<longleftrightarrow> pq_loaded (sg_pq g) \<and> 0 < sc_L (sg_base g) \<and> vec_in_rec (sg_base g) \<and>
     driver_reads drv vio (sc_img (sg_base g)) pb"

lemma pipe_ok_reach:
  assumes "pipe_ok g vio pb p" and "run_ok g drv vio pb" and "hide_reach drv p p'"
  shows "pipe_ok g vio pb p'"
  using hide_reach_inv [OF assms(3)] assms(1,2) by (simp add: pipe_ok_def run_ok_def same_setting_def)

lemma pipe_met: "pipe_ok g vio pb (hp_met f p) = pipe_ok g vio pb p"
  by (simp add: pipe_ok_def hp_met_frame hp_met_inv) (simp add: hp_met_def)

lemma reach_one: "hide_step drv p q \<Longrightarrow> hide_reach drv p q"
  by (rule hr_step [OF hr_refl])

lemma hub_pump_reach: "hide_reach drv (hub_pipe h) (hub_pipe (hub_pump h))"
  using reach_one [OF hs_pump] by (simp add: hub_pump_def)

lemma hub_submit_reach: "hub_submit id ps h = Some (t, h') \<Longrightarrow> hide_reach drv (hub_pipe h) (hub_pipe h')"
  using hr_refl [of drv] reach_one [OF hs_issue, of ps 128 False "hub_pipe h" t _ drv]
  by (auto simp: hub_submit_def hub_send_def split: if_splits)

lemma hide_reach_trans: "hide_reach drv q r \<Longrightarrow> hide_reach drv p q \<Longrightarrow> hide_reach drv p r"
  by (induction rule: hide_reach.induct) (auto intro: hr_step)

lemma release_reach: "hide_reach drv p (release_pages ps (fold release_tok ts p))"
proof -
  have "hide_reach drv p (fold release_tok ts p)"
  proof (induction ts arbitrary: p)
    case (Cons t ts)
    show ?case using hide_reach_trans [OF Cons.IH reach_one [OF hs_release_tok]] by simp
  qed (simp add: hr_refl)
  then show ?thesis by (rule hr_step [OF _ hs_release_pages])
qed

lemma resubmit_reach:
  fixes s :: "('a, 'd) cont" and drv :: "'d driver"
  assumes "resubmit s = Some h"
  shows "hide_reach drv (ct_pipe s) (hub_pipe h)"
proof -
  let ?f = "\<lambda>q (r :: 'd prefetch_hub option). case r of None \<Rightarrow> None
    | Some h \<Rightarrow> if pqq_st q = CbWait \<and> pqq_need q \<noteq> [] then map_option snd (hub_submit id (pqq_need q) h) else Some h"
  have none: "fold ?f qs None = None" for qs :: "'a pqq list" by (induction qs) simp_all
  have "fold ?f qs (Some h0) = Some h \<Longrightarrow> hide_reach drv (hub_pipe h0) (hub_pipe h)" for qs :: "'a pqq list" and h0
  proof (induction qs arbitrary: h0)
    case (Cons q qs)
    show ?case
    proof (cases "pqq_st q = CbWait \<and> pqq_need q \<noteq> []")
      case True
      then obtain t h1 where "hub_submit id (pqq_need q) h0 = Some (t, h1)" "fold ?f qs (Some h1) = Some h"
        using Cons.prems none by (cases "hub_submit id (pqq_need q) h0") auto
      then show ?thesis using Cons.IH hub_submit_reach hide_reach_trans by blast
    next
      case False
      then show ?thesis using Cons by (simp add: if_not_P)
    qed
  qed (simp add: hr_refl)
  then show ?thesis using assms by (simp add: resubmit_def)
qed

lemma window_change:
  assumes "pipe_ok g vio pb p" and "win_step_ok (sc_img (sg_base g)) (hp_win p) w"
  shows "pipe_ok g vio pb (p\<lparr>hp_win := w\<rparr>)"
proof -
  have "page_bytes w = page_bytes (hp_win p)" using assms(2) by (simp add: win_step_ok_def win_le_def)
  moreover have "job_live job (p\<lparr>hp_win := w\<rparr>) = job_live job p" for job by (simp add: job_live_def)
  then have "job_fits (p\<lparr>hp_win := w\<rparr>) = job_fits p" by (intro ext) (simp add: job_fits_def)
  ultimately show ?thesis using assms by (auto simp: pipe_ok_def bounce_inv_def win_step_ok_def)
qed

section \<open>What a slot holds\<close>

definition query_pure :: "'a :: linordered_idom sched_cfg \<Rightarrow> nat \<Rightarrow> ('a, unit) beam option" where
  "query_pure g qi = pq_pure (query_ctx g qi) (sg_pq g)"

definition pq_fresh :: "'a :: linordered_idom sched_cfg \<Rightarrow> 'a pqq \<Rightarrow> bool" where
  "pq_fresh g q \<longleftrightarrow> pqq_need q = [] \<and>
     (\<exists>st st'. pqq_init (query_ctx g (pqq_qi q)) (sg_pq g) (pqq_qi q) st = (q\<lparr>pqq_st := CbReady\<rparr>, st'))"

definition pq_walked :: "'a :: linordered_idom sched_cfg \<Rightarrow> 'a pqq \<Rightarrow> bool" where
  "pq_walked g q \<longleftrightarrow> query_pure g (pqq_qi q) = Some (pqq_beam q)"

text \<open>The candidates of the walk, the first \<open>n\<close> of them with their exact scores.\<close>

definition pq_issued :: "'a :: linordered_idom sched_cfg \<Rightarrow> nat \<Rightarrow> nat \<Rightarrow> 'a pqq \<Rightarrow> bool" where
  "pq_issued g pb n q \<longleftrightarrow>
     (\<exists>b. query_pure g (pqq_qi q) = Some b \<and> map snd (b_cand (pqq_beam q)) = map snd (b_cand b) \<and>
       pqq_need q = cand_pages (sg_base g) pb (map snd (b_cand b)) \<and>
       (\<forall>j < n. j < length (b_cand b) \<longrightarrow>
         fst (b_cand (pqq_beam q) ! j) = true_score (query_ctx g (pqq_qi q)) (snd (b_cand b ! j))))"

fun held :: "cont_pc \<Rightarrow> nat option" where
  "held (PcBeam i) = Some i" | "held (PcIssue i) = Some i" | "held (PcCheck i) = Some i" | "held (PcRank i) = Some i"
| "held (PcScore i j) = Some i" | "held (PcPark i) = Some i"
| "held PcTop = None" | "held PcPick = None" | "held PcIdle = None" | "held PcEnd = None"

text \<open>What a worker at a position knows of the slot it holds, and what a slot is that no worker holds.\<close>

fun pc_ok :: "'a :: linordered_idom sched_cfg \<Rightarrow> bool \<Rightarrow> nat \<Rightarrow> cont_pc \<Rightarrow> 'a pqq \<Rightarrow> bool" where
  "pc_ok g ex pb (PcBeam i) q = (pqq_st q = CbBusy \<and> pq_fresh g q)"
| "pc_ok g ex pb (PcIssue i) q = (pqq_st q = CbBusy \<and> pq_walked g q)"
| "pc_ok g ex pb (PcCheck i) q = (pqq_st q = CbBusy \<and> pq_issued g pb 0 q)"
| "pc_ok g ex pb (PcRank i) q = (pqq_st q = CbBusy \<and> pq_issued g pb 0 q)"
| "pc_ok g ex pb (PcScore i j) q = (pqq_st q = CbBusy \<and> pq_issued g pb (if ex then j else 0) q)"
| "pc_ok g ex pb (PcPark i) q = (pqq_st q = CbBusy \<and> pq_issued g pb 0 q \<and> pqq_need q \<noteq> [] \<or>
     pqq_st q = CbDone \<and> pq_issued g pb (if ex then length (b_cand (pqq_beam q)) else 0) q)"
| "pc_ok g ex pb pc q = True"

definition free_ok :: "'a :: linordered_idom sched_cfg \<Rightarrow> nat \<Rightarrow> 'a pqq \<Rightarrow> bool" where
  "free_ok g pb q \<longleftrightarrow> pqq_st q = CbEmpty \<or> pqq_st q = CbReady \<and> pq_fresh g q \<or>
     pqq_st q = CbWait \<and> pq_issued g pb 0 q \<and> pqq_need q \<noteq> []"

definition seats_ok :: "'a :: linordered_idom sched_cfg \<Rightarrow> bool \<Rightarrow> nat \<Rightarrow> cont_pc list \<Rightarrow> 'a pqq list \<Rightarrow> bool" where
  "seats_ok g ex pb pcs qs \<longleftrightarrow>
     (\<forall>t < length pcs. \<forall>i. held (pcs ! t) = Some i \<longrightarrow> i < length qs \<and> pc_ok g ex pb (pcs ! t) (qs ! i) \<and>
        (\<forall>u < length pcs. held (pcs ! u) = Some i \<longrightarrow> u = t)) \<and>
     (\<forall>i < length qs. (\<forall>t < length pcs. held (pcs ! t) \<noteq> Some i) \<longrightarrow> free_ok g pb (qs ! i))"

text \<open>The answer of a query when it runs alone.\<close>

definition answer :: "'a :: linordered_idom sched_cfg \<Rightarrow> nat \<Rightarrow> rat option" where
  "answer g qi = (case query_pure g qi of
     None \<Rightarrow> None | Some b \<Rightarrow> query_recall g qi (reranked (query_ctx g qi) (b_cand b)))"

definition answered :: "('a, 'd) cont \<Rightarrow> nat set" where
  "answered s = {qi. qi < length (ct_lat s) \<and> ct_lat s ! qi}"

definition owner :: "'a pqq \<Rightarrow> nat option" where
  "owner q = (if pqq_st q = CbEmpty then None else Some (pqq_qi q))"

text \<open>Each query is in one slot, or answered, or not admitted yet.\<close>

definition accounts :: "'a :: linordered_idom sched_cfg \<Rightarrow> bool \<Rightarrow> ('a, 'd) cont \<Rightarrow> bool" where
  "accounts g ex s \<longleftrightarrow>
     length (ct_lat s) = sg_nq g \<and> length (ct_recs s) = sg_nq g \<and> ct_next s \<le> sg_nq g \<and>
     ct_fin s = card (answered s) \<and> answered s \<subseteq> {..<ct_next s} \<and>
     (\<forall>i < length (ct_slots s). \<forall>qi. owner (ct_slots s ! i) = Some qi \<longrightarrow>
        qi < ct_next s \<and> qi \<notin> answered s \<and> (\<forall>j < length (ct_slots s). owner (ct_slots s ! j) = Some qi \<longrightarrow> j = i)) \<and>
     (\<forall>qi < ct_next s. qi \<in> answered s \<or> Some qi \<in> set (map owner (ct_slots s))) \<and>
     (ex \<longrightarrow> (\<forall>qi < sg_nq g. ct_recs s ! qi = (if qi \<in> answered s then answer g qi else None)))"

text \<open>With a single worker, what it is scoring stays covered.\<close>

definition scoring :: "cont_pc list \<times> ('a, 'd) cont \<Rightarrow> bool" where
  "scoring x \<longleftrightarrow> (case x of (pcs, s) \<Rightarrow> length pcs = 1 \<and> (\<forall>i j. pcs ! 0 = PcScore i j \<longrightarrow> pqq_covering (ct_pipe s) (pqq_need (ct_slots s ! i))))"

definition cont_ok :: "'a :: linordered_idom sched_cfg \<Rightarrow> bool \<Rightarrow> vmem_io option \<Rightarrow> nat \<Rightarrow> cont_pc list \<times> ('a, 'd) cont \<Rightarrow> bool" where
  "cont_ok g ex vio pb x \<longleftrightarrow> (case x of (pcs, s) \<Rightarrow>
     pipe_ok g vio pb (ct_pipe s) \<and> pf_policy (ct_pref s) = P3 \<and> seats_ok g ex pb pcs (ct_slots s) \<and> accounts g ex s)"

section \<open>The invariant is kept\<close>

lemma answered_cong: "ct_lat s' = ct_lat s \<Longrightarrow> answered s' = answered s"
  by (simp add: answered_def)

lemma accountsD:
  assumes "accounts g ex s"
  shows "length (ct_lat s) = sg_nq g" "length (ct_recs s) = sg_nq g" "ct_next s \<le> sg_nq g" "ct_fin s = card (answered s)"
    "answered s \<subseteq> {..<ct_next s}"
    "i < length (ct_slots s) \<Longrightarrow> owner (ct_slots s ! i) = Some qi \<Longrightarrow> qi < ct_next s \<and> qi \<notin> answered s"
    "i < length (ct_slots s) \<Longrightarrow> j < length (ct_slots s) \<Longrightarrow> owner (ct_slots s ! i) = Some qi \<Longrightarrow>
       owner (ct_slots s ! j) = Some qi \<Longrightarrow> j = i"
    "ex \<Longrightarrow> qi < sg_nq g \<Longrightarrow> ct_recs s ! qi = (if qi \<in> answered s then answer g qi else None)"
    "qi < ct_next s \<Longrightarrow> qi \<in> answered s \<or> Some qi \<in> set (map owner (ct_slots s))"
  using assms unfolding accounts_def by blast+

lemma accountsI:
  assumes "length (ct_lat s) = sg_nq g" and "length (ct_recs s) = sg_nq g" and "ct_next s \<le> sg_nq g"
    and "ct_fin s = card (answered s)" and "answered s \<subseteq> {..<ct_next s}"
    and "\<And>i qi. i < length (ct_slots s) \<Longrightarrow> owner (ct_slots s ! i) = Some qi \<Longrightarrow> qi < ct_next s \<and> qi \<notin> answered s"
    and "\<And>i j qi. i < length (ct_slots s) \<Longrightarrow> j < length (ct_slots s) \<Longrightarrow> owner (ct_slots s ! i) = Some qi \<Longrightarrow>
       owner (ct_slots s ! j) = Some qi \<Longrightarrow> j = i"
    and "\<And>qi. ex \<Longrightarrow> qi < sg_nq g \<Longrightarrow> ct_recs s ! qi = (if qi \<in> answered s then answer g qi else None)"
    and "\<And>qi. qi < ct_next s \<Longrightarrow> qi \<in> answered s \<or> Some qi \<in> set (map owner (ct_slots s))"
  shows "accounts g ex s"
  unfolding accounts_def using assms by (intro conjI allI impI) blast+

lemma accounts_cong:
  assumes "accounts g ex s" and "map owner (ct_slots s') = map owner (ct_slots s)" and "ct_lat s' = ct_lat s"
    and "ct_recs s' = ct_recs s" and "ct_next s' = ct_next s" and "ct_fin s' = ct_fin s"
  shows "accounts g ex s'"
proof -
  have l: "length (ct_slots s') = length (ct_slots s)" using assms(2) by (metis length_map)
  have o: "owner (ct_slots s' ! i) = owner (ct_slots s ! i)" if "i < length (ct_slots s)" for i
    using that assms(2) l by (metis nth_map)
  note d = accountsD [OF assms(1)] and e = answered_cong [OF assms(3)] assms(3-6) l
  show ?thesis
  proof (rule accountsI)
    show "qi < ct_next s' \<and> qi \<notin> answered s'" if "i < length (ct_slots s')" "owner (ct_slots s' ! i) = Some qi" for i qi
      using that d(6) [of i qi] o [of i] unfolding e by simp
    show "j = i" if "i < length (ct_slots s')" "j < length (ct_slots s')" "owner (ct_slots s' ! i) = Some qi"
      "owner (ct_slots s' ! j) = Some qi" for i j qi
      using that d(7) [of i j qi] o [of i] o [of j] unfolding e by simp
    show "qi \<in> answered s' \<or> Some qi \<in> set (map owner (ct_slots s'))" if "qi < ct_next s'" for qi
      using d(9) [of qi] that unfolding e assms(2) .
  qed (use d(1-5,8) in \<open>simp_all add: e\<close>)
qed

lemma set_keep_update: "x \<in> set xs \<Longrightarrow> x \<noteq> xs ! i \<Longrightarrow> x \<in> set (xs[i := y])"
  by (metis in_set_conv_nth length_list_update nth_list_update_neq)

lemma map_owner_update:
  "owner q = owner (qs ! i) \<Longrightarrow> map owner (qs[i := q]) = map owner qs"
  by (cases "i < length qs") (simp_all add: map_update list_update_same_conv list_update_beyond)

lemma accounts_admit:
  assumes a: "accounts g ex s" and i: "i < length (ct_slots s)" "owner (ct_slots s ! i) = None" and n: "ct_next s < sg_nq g"
    and q: "owner q = Some (ct_next s)"
    and s': "ct_slots s' = (ct_slots s)[i := q]" "ct_lat s' = ct_lat s" "ct_recs s' = ct_recs s"
      "ct_next s' = Suc (ct_next s)" "ct_fin s' = ct_fin s"
  shows "accounts g ex s'"
proof -
  note d = accountsD [OF a] and e = answered_cong [OF s'(2)]
  have old: "owner (ct_slots s ! k) = Some qi \<and> k < length (ct_slots s) \<and> k \<noteq> i \<or> k = i \<and> qi = ct_next s"
    if "k < length (ct_slots s')" "owner (ct_slots s' ! k) = Some qi" for k qi
    using that q i s'(1) by (cases "k = i") simp_all
  show ?thesis
  proof (rule accountsI)
    show "qi < ct_next s' \<and> qi \<notin> answered s'" if "k < length (ct_slots s')" "owner (ct_slots s' ! k) = Some qi" for k qi
      using old [OF that] d(6) [of k qi] d(5) e s'(4) by auto
    show "j = k" if "k < length (ct_slots s')" "j < length (ct_slots s')" "owner (ct_slots s' ! k) = Some qi"
      "owner (ct_slots s' ! j) = Some qi" for k j qi
      using old [OF that(1,3)] old [OF that(2,4)] d(6) [of j qi] d(6) [of k qi] d(7) [of k j qi] by auto
    show "answered s' \<subseteq> {..<ct_next s'}" using d(5) e s'(4) by auto
    have own: "map owner (ct_slots s') = (map owner (ct_slots s))[i := Some (ct_next s)]"
      by (simp add: s'(1) map_update q)
    show "qi \<in> answered s' \<or> Some qi \<in> set (map owner (ct_slots s'))" if "qi < ct_next s'" for qi
    proof (cases "qi = ct_next s")
      case True
      have "Some qi \<in> set ((map owner (ct_slots s))[i := Some (ct_next s)])"
        using i(1) unfolding True by (intro set_update_memI) simp
      then show ?thesis unfolding own ..
    next
      case False
      then have "qi \<in> answered s \<or> Some qi \<in> set (map owner (ct_slots s))" using d(9) [of qi] that s'(4) by simp
      then show ?thesis unfolding own e using i set_keep_update [of "Some qi" "map owner (ct_slots s)" i] by auto
    qed
  qed (use d(1-4,8) n e s' in simp_all)
qed

lemma answered_insert: "qi < length (ct_lat s) \<Longrightarrow> ct_lat s' = (ct_lat s)[qi := True] \<Longrightarrow> answered s' = insert qi (answered s)"
  by (auto simp: answered_def nth_list_update)

lemma accounts_finish:
  assumes a: "accounts g ex s" and i: "i < length (ct_slots s)" "owner (ct_slots s ! i) = Some qi" and q: "owner q = None"
    and r: "ex \<Longrightarrow> r = answer g qi"
    and s': "ct_slots s' = (ct_slots s)[i := q]" "ct_lat s' = (ct_lat s)[qi := True]"
      "ct_recs s' = (case r of None \<Rightarrow> ct_recs s | Some x \<Rightarrow> (ct_recs s)[qi := Some x])"
      "ct_next s' = ct_next s" "ct_fin s' = ct_fin s + 1"
  shows "accounts g ex s'"
proof -
  note d = accountsD [OF a]
  have qi: "qi < ct_next s" "qi \<notin> answered s" using d(6) [OF i] by auto
  have ans: "answered s' = insert qi (answered s)" using qi d(1,3) s'(2) by (intro answered_insert) simp_all
  have "finite (answered s)" using d(5) finite_subset by blast
  then have c: "card (answered s') = Suc (card (answered s))" using ans qi(2) by simp
  have old: "owner (ct_slots s ! k) = Some qj \<and> k < length (ct_slots s) \<and> k \<noteq> i"
    if "k < length (ct_slots s')" "owner (ct_slots s' ! k) = Some qj" for k qj
    using that q i s'(1) by (cases "k = i") simp_all
  show ?thesis
  proof (rule accountsI)
    show "qj < ct_next s' \<and> qj \<notin> answered s'" if "k < length (ct_slots s')" "owner (ct_slots s' ! k) = Some qj" for k qj
      using old [OF that] d(6) [of k qj] d(7) [of k i qj] i ans s'(4) by auto
    show "j = k" if "k < length (ct_slots s')" "j < length (ct_slots s')" "owner (ct_slots s' ! k) = Some qj"
      "owner (ct_slots s' ! j) = Some qj" for k j qj
      using old [OF that(1,3)] old [OF that(2,4)] d(7) [of k j qj] by auto
    show "ct_recs s' ! qj = (if qj \<in> answered s' then answer g qj else None)" if "ex" "qj < sg_nq g" for qj
      using d(8) [OF that] that s'(3) r qi ans d(2) by (cases "qj = qi") (auto split: option.splits)
    show "length (ct_recs s') = sg_nq g" using s'(3) d(2) by (simp split: option.splits)
    show "answered s' \<subseteq> {..<ct_next s'}" using d(5) ans qi(1) s'(4) by auto
    have own: "map owner (ct_slots s') = (map owner (ct_slots s))[i := None]"
      by (simp add: s'(1) map_update q)
    show "qj \<in> answered s' \<or> Some qj \<in> set (map owner (ct_slots s'))" if "qj < ct_next s'" for qj
    proof (cases "qj = qi")
      case False
      have "qj \<in> answered s \<or> Some qj \<in> set (map owner (ct_slots s))" using d(9) [of qj] that s'(4) by simp
      then show ?thesis unfolding own ans using i False set_keep_update [of "Some qj" "map owner (ct_slots s)" i] by auto
    qed (simp add: ans)
  qed (use d(1,3,4) s' c in simp_all)
qed

lemma seats_okI:
  assumes "\<And>t i. t < length pcs \<Longrightarrow> held (pcs ! t) = Some i \<Longrightarrow> i < length qs \<and> pc_ok g ex pb (pcs ! t) (qs ! i)"
    and "\<And>t u i. t < length pcs \<Longrightarrow> u < length pcs \<Longrightarrow> held (pcs ! t) = Some i \<Longrightarrow> held (pcs ! u) = Some i \<Longrightarrow> u = t"
    and "\<And>i. i < length qs \<Longrightarrow> \<forall>t < length pcs. held (pcs ! t) \<noteq> Some i \<Longrightarrow> free_ok g pb (qs ! i)"
  shows "seats_ok g ex pb pcs qs"
  unfolding seats_ok_def using assms by (intro conjI allI impI) blast+

lemma seats_okD:
  assumes "seats_ok g ex pb pcs qs"
  shows "t < length pcs \<Longrightarrow> held (pcs ! t) = Some i \<Longrightarrow> i < length qs \<and> pc_ok g ex pb (pcs ! t) (qs ! i)"
    and "t < length pcs \<Longrightarrow> u < length pcs \<Longrightarrow> held (pcs ! t) = Some i \<Longrightarrow> held (pcs ! u) = Some i \<Longrightarrow> u = t"
    and "i < length qs \<Longrightarrow> \<forall>t < length pcs. held (pcs ! t) \<noteq> Some i \<Longrightarrow> free_ok g pb (qs ! i)"
  using assms unfolding seats_ok_def by blast+

text \<open>A worker that goes on with its slot, one that takes a free slot, one that gives its slot back,
  and one that holds none.\<close>

lemma seats_move:
  assumes s: "seats_ok g ex pb pcs qs" and t: "t < length pcs" and ht: "held (pcs ! t) = Some i"
    and pc: "held pc = Some i" "pc_ok g ex pb pc q"
  shows "seats_ok g ex pb (pcs[t := pc]) (qs[i := q])"
proof (rule seats_okI)
  have i: "i < length qs" using seats_okD(1) [OF s t ht] by simp
  have h: "held (pcs[t := pc] ! u) = held (pcs ! u)" if "u < length pcs" for u
    using that ht pc(1) by (cases "u = t") simp_all
  show "k < length (qs[i := q]) \<and> pc_ok g ex pb (pcs[t := pc] ! u) (qs[i := q] ! k)"
    if u: "u < length (pcs[t := pc])" and k: "held (pcs[t := pc] ! u) = Some k" for u k
  proof (cases "u = t")
    case True
    then show ?thesis using k pc t i by simp
  next
    case False
    then have "held (pcs ! u) = Some k" "u < length pcs" using u k by simp_all
    moreover then have "k \<noteq> i" using seats_okD(2) [OF s t, of u i] ht False by auto
    ultimately show ?thesis using seats_okD(1) [OF s, of u k] False by simp
  qed
  show "v = u" if "u < length (pcs[t := pc])" "v < length (pcs[t := pc])" "held (pcs[t := pc] ! u) = Some k"
    "held (pcs[t := pc] ! v) = Some k" for u v k
    using that h seats_okD(2) [OF s, of u v k] by simp
  show "free_ok g pb (qs[i := q] ! k)"
    if k: "k < length (qs[i := q])" and n: "\<forall>u < length (pcs[t := pc]). held (pcs[t := pc] ! u) \<noteq> Some k" for k
  proof -
    have n': "\<forall>u < length pcs. held (pcs ! u) \<noteq> Some k" using n h by simp
    then have "k \<noteq> i" using t ht by auto
    then show ?thesis using seats_okD(3) [OF s, of k] k n' by simp
  qed
qed

lemma seats_take:
  assumes s: "seats_ok g ex pb pcs qs" and t: "t < length pcs" and ht: "held (pcs ! t) = None"
    and i: "i < length qs" "\<forall>u < length pcs. held (pcs ! u) \<noteq> Some i" and pc: "held pc = Some i" "pc_ok g ex pb pc q"
  shows "seats_ok g ex pb (pcs[t := pc]) (qs[i := q])"
proof (rule seats_okI)
  show "k < length (qs[i := q]) \<and> pc_ok g ex pb (pcs[t := pc] ! u) (qs[i := q] ! k)"
    if u: "u < length (pcs[t := pc])" and k: "held (pcs[t := pc] ! u) = Some k" for u k
  proof (cases "u = t")
    case True
    then show ?thesis using k pc t i by simp
  next
    case False
    then have "held (pcs ! u) = Some k" "u < length pcs" using u k by simp_all
    moreover then have "k \<noteq> i" using i(2) by auto
    ultimately show ?thesis using seats_okD(1) [OF s, of u k] False by simp
  qed
  show "v = u" if u: "u < length (pcs[t := pc])" "v < length (pcs[t := pc])" and k: "held (pcs[t := pc] ! u) = Some k"
    "held (pcs[t := pc] ! v) = Some k" for u v k
  proof (cases "u = t \<or> v = t")
    case True
    then show ?thesis using u k pc(1) i(2) t by (cases "u = t"; cases "v = t") auto
  next
    case False
    then show ?thesis using u k seats_okD(2) [OF s, of u v k] by simp
  qed
  show "free_ok g pb (qs[i := q] ! k)"
    if k: "k < length (qs[i := q])" and n: "\<forall>u < length (pcs[t := pc]). held (pcs[t := pc] ! u) \<noteq> Some k" for k
  proof -
    have "k \<noteq> i" using n [rule_format, of t] t pc(1) by auto
    moreover have "held (pcs ! u) \<noteq> Some k" if "u < length pcs" for u
      using n [rule_format, of u] that ht by (cases "u = t") auto
    ultimately show ?thesis using seats_okD(3) [OF s, of k] k by simp
  qed
qed

lemma seats_give:
  assumes s: "seats_ok g ex pb pcs qs" and t: "t < length pcs" and ht: "held (pcs ! t) = Some i"
    and pc: "held pc = None" and q: "free_ok g pb q"
  shows "seats_ok g ex pb (pcs[t := pc]) (qs[i := q])"
proof (rule seats_okI)
  have i: "i < length qs" using seats_okD(1) [OF s t ht] by simp
  have other: "u \<noteq> t \<and> held (pcs ! u) = Some k \<and> u < length pcs" if "u < length (pcs[t := pc])" "held (pcs[t := pc] ! u) = Some k" for u k
    using that pc by (cases "u = t") auto
  show "k < length (qs[i := q]) \<and> pc_ok g ex pb (pcs[t := pc] ! u) (qs[i := q] ! k)"
    if u: "u < length (pcs[t := pc])" and k: "held (pcs[t := pc] ! u) = Some k" for u k
  proof -
    have "k \<noteq> i" using other [OF u k] seats_okD(2) [OF s t, of u i] ht by auto
    then show ?thesis using other [OF u k] seats_okD(1) [OF s, of u k] by simp
  qed
  show "v = u" if "u < length (pcs[t := pc])" "v < length (pcs[t := pc])" "held (pcs[t := pc] ! u) = Some k"
    "held (pcs[t := pc] ! v) = Some k" for u v k
    using other [OF that(1,3)] other [OF that(2,4)] seats_okD(2) [OF s, of u v k] by simp
  show "free_ok g pb (qs[i := q] ! k)"
    if k: "k < length (qs[i := q])" and n: "\<forall>u < length (pcs[t := pc]). held (pcs[t := pc] ! u) \<noteq> Some k" for k
  proof (cases "k = i")
    case True
    then show ?thesis using q i by simp
  next
    case False
    have "held (pcs ! u) \<noteq> Some k" if "u < length pcs" for u
      using n [rule_format, of u] that ht False by (cases "u = t") auto
    then show ?thesis using seats_okD(3) [OF s, of k] k False by simp
  qed
qed

lemma seats_idle:
  assumes s: "seats_ok g ex pb pcs qs" and t: "t < length pcs" and ht: "held (pcs ! t) = None" and pc: "held pc = None"
  shows "seats_ok g ex pb (pcs[t := pc]) qs"
proof (rule seats_okI)
  have h: "held (pcs[t := pc] ! u) = held (pcs ! u)" if "u < length pcs" for u
    using that ht pc by (cases "u = t") simp_all
  show "k < length qs \<and> pc_ok g ex pb (pcs[t := pc] ! u) (qs ! k)"
    if u: "u < length (pcs[t := pc])" and k: "held (pcs[t := pc] ! u) = Some k" for u k
    using that h pc seats_okD(1) [OF s, of u k] by (cases "u = t") simp_all
  show "v = u" if "u < length (pcs[t := pc])" "v < length (pcs[t := pc])" "held (pcs[t := pc] ! u) = Some k"
    "held (pcs[t := pc] ! v) = Some k" for u v k
    using that h seats_okD(2) [OF s, of u v k] by simp
  show "free_ok g pb (qs ! k)" if "k < length qs" "\<forall>u < length (pcs[t := pc]). held (pcs[t := pc] ! u) \<noteq> Some k" for k
    using that h seats_okD(3) [OF s, of k] by simp
qed

lemma seats_free:
  assumes s: "seats_ok g ex pb pcs qs" and i: "\<forall>t < length pcs. held (pcs ! t) \<noteq> Some i" and q: "free_ok g pb q"
  shows "seats_ok g ex pb pcs (qs[i := q])"
proof (rule seats_okI)
  show "k < length (qs[i := q]) \<and> pc_ok g ex pb (pcs ! u) (qs[i := q] ! k)" if "u < length pcs" "held (pcs ! u) = Some k" for u k
    using that i seats_okD(1) [OF s, of u k] by (cases "k = i") auto
  show "v = u" if "u < length pcs" "v < length pcs" "held (pcs ! u) = Some k" "held (pcs ! v) = Some k" for u v k
    using that seats_okD(2) [OF s, of u v k] by simp
  show "free_ok g pb (qs[i := q] ! k)" if "k < length (qs[i := q])" "\<forall>u < length pcs. held (pcs ! u) \<noteq> Some k" for k
    using that q seats_okD(3) [OF s, of k] by (cases "k = i") simp_all
qed

lemma held_busy: "held pc = Some i \<Longrightarrow> pc_ok g ex pb pc q \<Longrightarrow> pqq_st q = CbBusy \<or> pqq_st q = CbDone"
  by (cases pc) auto

lemma not_busy_free:
  assumes s: "seats_ok g ex pb pcs qs" and st: "pqq_st (qs ! i) \<noteq> CbBusy" "pqq_st (qs ! i) \<noteq> CbDone"
  shows "\<forall>t < length pcs. held (pcs ! t) \<noteq> Some i"
  using seats_okD(1) [OF s] held_busy st by metis

subsection \<open>Admission\<close>

lemma on_query_begin_policy: "pf_policy pf = P3 \<Longrightarrow> pf_policy (fst (on_query_begin hb p h ids start (pf, w))) = P3"
  by (simp add: on_query_begin_def pin_entry_hot_def Let_def)

lemma admit_one_ok:
  assumes ok: "cont_ok g ex vio pb (pcs, s)" and i: "i < length (ct_slots s)" "pqq_st (ct_slots s ! i) = CbEmpty"
    and n: "ct_next s < sg_nq g"
  shows "cont_ok g ex vio pb (pcs, admit_one g i (ct_next s) s) \<and> ct_next (admit_one g i (ct_next s) s) = Suc (ct_next s)"
proof -
  let ?qi = "ct_next s" and ?st = "(ct_pref s, hp_win (ct_pipe s))"
  obtain q pf w where q: "pqq_init (query_ctx g ?qi) (sg_pq g) ?qi ?st = (q, pf, w)"
    by (cases "pqq_init (query_ctx g ?qi) (sg_pq g) ?qi ?st")
  have o: "pipe_ok g vio pb (ct_pipe s)" "pf_policy (ct_pref s) = P3" "seats_ok g ex pb pcs (ct_slots s)" "accounts g ex s"
    using ok by (simp_all add: cont_ok_def)
  have f: "pqq_st q = CbReady" "pqq_qi q = ?qi" "pqq_need q = []"
    and b: "on_query_begin (sc_hb (sg_base g)) (sc_pl (sg_base g)) (sc_h (sg_base g)) (sc_warm (sg_base g))
      (sc_entry (query_ctx g ?qi)) ?st = (pf, w)"
    using q by (auto simp: pqq_init_def Let_def pqq_new_def)
  have "q\<lparr>pqq_st := CbReady\<rparr> = q" using f(1) by simp
  then have "pq_fresh g q" unfolding pq_fresh_def using q f(2,3) by metis
  then have fr: "free_ok g pb q" using f(1) by (simp add: free_ok_def)
  have "win_step_ok (sc_img (sg_base g)) (hp_win (ct_pipe s)) w"
    using on_query_begin_ok [of "sc_pl (sg_base g)" "hp_win (ct_pipe s)" "ct_pref s"] o(1,2) b
    unfolding pipe_ok_def by (metis snd_conv)
  then have p: "pipe_ok g vio pb ((ct_pipe s)\<lparr>hp_win := w\<rparr>)" by (rule window_change [OF o(1)])
  have pol: "pf_policy pf = P3" using on_query_begin_policy [OF o(2)] b by (metis fst_conv)
  have free: "\<forall>t < length pcs. held (pcs ! t) \<noteq> Some i" using not_busy_free [OF o(3)] i(2) by simp
  have e: "admit_one g i ?qi s = s\<lparr>ct_slots := (ct_slots s)[i := q], ct_pref := pf,
      ct_hub := (ct_hub s)\<lparr>hub_pipe := (ct_pipe s)\<lparr>hp_win := w\<rparr>\<rparr>, ct_next := Suc ?qi\<rparr>"
    by (simp add: admit_one_def q)
  have "accounts g ex (admit_one g i ?qi s)"
    by (rule accounts_admit [OF o(4) i(1) _ n, of q]) (use i(2) f in \<open>simp_all add: e owner_def\<close>)
  with seats_free [OF o(3) free fr] p pol show ?thesis unfolding cont_ok_def by (simp add: e)
qed

lemma admit_ok:
  assumes "cont_ok g ex vio pb (pcs, s)"
  shows "cont_ok g ex vio pb (pcs, admit g s)"
proof -
  have "cont_ok g ex vio pb (pcs, s) \<Longrightarrow> sg_nq g - ct_next s = n \<Longrightarrow> cont_ok g ex vio pb (pcs, admit_list g [ct_next s..<sg_nq g] s)" for n
  proof (induction n arbitrary: s)
    case 0
    then show ?case by simp
  next
    case (Suc n)
    then have lt: "ct_next s < sg_nq g" by simp
    show ?case
    proof (cases "first_seat (seat_is (ct_states s) CbEmpty) (ct_states s)")
      case None
      then show ?thesis using Suc.prems(1) lt by (simp add: upt_conv_Cons)
    next
      case (Some i)
      then have i: "i < length (ct_slots s)" "pqq_st (ct_slots s ! i) = CbEmpty"
        by (auto simp: first_seat_Some seat_is_def ct_states_def)
      note one = admit_one_ok [OF Suc.prems(1) i lt]
      then have "sg_nq g - ct_next (admit_one g i (ct_next s) s) = n" using Suc.prems(2) by simp
      with Suc.IH one have "cont_ok g ex vio pb (pcs, admit_list g [Suc (ct_next s)..<sg_nq g] (admit_one g i (ct_next s) s))"
        by metis
      then show ?thesis using lt Some by (simp add: upt_conv_Cons)
    qed
  qed
  then show ?thesis using assms by (simp add: admit_def)
qed

subsection \<open>The choice\<close>

lemma pick_scan_Pick: "pick_scan P xs = Pick i \<Longrightarrow> P i \<and> int i \<in> set xs"
  by (induction xs) (auto split: if_splits)

lemma pick_order_less: "int i \<in> set (pick_order T start) \<Longrightarrow> i < T"
proof -
  assume "int i \<in> set (pick_order T start)"
  then obtain k where "k < T" "int i = (sint start + int k) smod int T" by (auto simp: pick_order_def split: if_splits)
  then show "i < T" using smod_int_range [of "int T" "sint start + int k"] by simp
qed

lemma pick_pq_ok:
  assumes "pick_pq s = (Pick i, s1)"
  shows "i < length (ct_slots s) \<and> s1 = s\<lparr>ct_rr := ct_rr s + 1\<rparr> \<and> (pqq_st (ct_slots s ! i) = CbReady \<or> pqq_st (ct_slots s ! i) = CbWait)"
proof -
  let ?o = "pick_order (length (ct_slots s)) (ct_rr s)"
  let ?r = "\<lambda>i. pqq_st (ct_slots s ! i) = CbReady"
    and ?w = "\<lambda>i. pqq_st (ct_slots s ! i) = CbWait \<and> pqq_covering (ct_pipe s) (pqq_need (ct_slots s ! i))"
  have "pick_scan ?r ?o = Pick i \<or> pick_scan ?w ?o = Pick i" and s1: "s1 = s\<lparr>ct_rr := ct_rr s + 1\<rparr>"
    using assms by (auto simp: pick_pq_def Let_def split: if_splits)
  then have "(?r i \<or> ?w i) \<and> int i \<in> set ?o"
    using pick_scan_Pick [of ?r ?o i] pick_scan_Pick [of ?w ?o i] by blast
  with s1 show ?thesis using pick_order_less [of i "length (ct_slots s)" "ct_rr s"] by blast
qed

lemma pick_turn_ok:
  assumes ok: "cont_ok g ex vio pb (pcs, s)" and t: "t < length pcs" "pcs ! t = PcPick"
    and p: "cont_turn g PcPick s = Some (pc, s1)"
  shows "cont_ok g ex vio pb (pcs[t := pc], s1)"
proof -
  define a where "a = admit g s"
  obtain r s2 where pick: "pick_pq a = (r, s2)" by (cases "pick_pq a")
  have ok: "cont_ok g ex vio pb (pcs, a)" using admit_ok [OF ok] by (simp add: a_def)
  then have o: "pipe_ok g vio pb (ct_pipe a)" "pf_policy (ct_pref a) = P3" "seats_ok g ex pb pcs (ct_slots a)" "accounts g ex a"
    by (simp_all add: cont_ok_def)
  have none: "held (pcs ! t) = None" using t by simp
  show ?thesis
  proof (cases r)
    case (Pick i)
    note k = pick_pq_ok [OF pick [unfolded Pick]]
    let ?q = "ct_slots a ! i"
    have free: "\<forall>u < length pcs. held (pcs ! u) \<noteq> Some i" using not_busy_free [OF o(3)] k by auto
    have f: "free_ok g pb ?q" using seats_okD(3) [OF o(3)] k free by blast
    define b where "b = ?q\<lparr>pqq_st := CbBusy\<rparr>"
    have e: "pc = (if pqq_need ?q = [] then PcBeam i else PcRank i)" "s1 = set_seat i b (a\<lparr>ct_rr := ct_rr a + 1\<rparr>)"
      using p pick k by (auto simp: Pick a_def b_def Let_def split: if_splits)
    have "pc_ok g ex pb pc b"
      using f k by (auto simp: e(1) free_ok_def pq_fresh_def pq_issued_def b_def)
    then have "seats_ok g ex pb (pcs[t := pc]) ((ct_slots a)[i := b])"
      using seats_take [OF o(3) t(1) none _ free, of pc b] k by (simp add: e(1))
    moreover have "accounts g ex s1"
      by (rule accounts_cong [OF o(4)])
        (use k map_owner_update [of b "ct_slots a" i] in \<open>auto simp: e(2) set_seat_def owner_def b_def\<close>)
    ultimately show ?thesis using o unfolding cont_ok_def by (simp add: e(2) set_seat_def)
  next
    case Pick_none
    then have e: "pc = PcIdle" "s1 = a\<lparr>ct_rr := ct_rr a + 1\<rparr>"
      using p pick by (auto simp: a_def pick_pq_def Let_def)
    then have "accounts g ex s1" using accounts_cong [OF o(4), of s1] by simp
    then show ?thesis using o seats_idle [OF o(3) t(1) none] unfolding cont_ok_def by (simp add: e)
  next
    case Pick_outside
    then show ?thesis using p pick by (simp add: a_def)
  qed
qed

subsection \<open>Work on a slot\<close>

text \<open>A turn keeps the query of the slot.\<close>

lemma cont_ok_move:
  assumes ok: "cont_ok g ex vio pb (pcs, s)" and t: "t < length pcs" "held (pcs ! t) = Some i"
    and pc: "held pc = Some i" "pc_ok g ex pb pc q" and q: "owner q = owner (ct_slots s ! i)" and p: "pipe_ok g vio pb (hub_pipe h)"
  shows "cont_ok g ex vio pb (pcs[t := pc], set_hub h (set_seat i q s))"
proof -
  have o: "pf_policy (ct_pref s) = P3" "seats_ok g ex pb pcs (ct_slots s)" "accounts g ex s" using ok by (simp_all add: cont_ok_def)
  have "accounts g ex (set_hub h (set_seat i q s))"
    by (rule accounts_cong [OF o(3)]) (use map_owner_update [OF q] in \<open>simp_all add: set_hub_def set_seat_def\<close>)
  then show ?thesis using seats_move [OF o(2) t pc] o p by (simp add: cont_ok_def set_hub_def set_seat_def)
qed

lemma set_seat_same: "set_seat i (ct_slots s ! i) s = s" "set_hub (ct_hub s) s = s"
  by (simp_all add: set_seat_def set_hub_def)

lemma run_beam_frame:
  assumes "pqq_run_beam c t (q, hub) = Some (q1, hub1)"
  obtains b where "q1 = q\<lparr>pqq_beam := b\<rparr>"
  using assms by (auto simp: pqq_run_beam_def Let_def)

lemma run_beam_st: "pqq_run_beam c t (q\<lparr>pqq_st := x\<rparr>, hub) =
    map_option (\<lambda>(q1, h). (q1\<lparr>pqq_st := x\<rparr>, h)) (pqq_run_beam c t (q, hub))"
  by (cases q) (simp add: pqq_run_beam_def Let_def option.map_comp o_def case_prod_unfold)

lemma beam_turn:
  fixes s :: "('a :: linordered_idom, 'd) cont" and drv :: "'d driver"
  assumes run: "run_ok g drv vio pb" and p: "pipe_ok g vio pb (ct_pipe s)" and q: "pc_ok g ex pb (PcBeam i) (ct_slots s ! i)"
    and turn: "cont_turn g (PcBeam i) s = Some (pc, s1)"
  shows "\<exists>h q1. pc = PcIssue i \<and> s1 = set_hub h (set_seat i q1 s) \<and> pc_ok g ex pb pc q1 \<and>
    owner q1 = owner (ct_slots s ! i) \<and> pipe_ok g vio pb (hub_pipe h)"
proof -
  let ?q = "ct_slots s ! i" and ?r = "(ct_slots s ! i)\<lparr>pqq_st := CbReady\<rparr>"
  let ?c = "query_ctx g (pqq_qi ?q)"
  obtain st st' where i: "pqq_init ?c (sg_pq g) (pqq_qi ?q) st = (?r, st')" using q by (auto simp: pq_fresh_def)
  have L: "0 < sc_L ?c" using run by (simp add: run_ok_def)
  obtain q1 h where b: "pqq_run_beam ?c (sg_pq g) (?r, Some (ct_hub s)) = Some (q1, Some h)"
    and h: "hide_reach drv (ct_pipe s) (hub_pipe h)"
    using run_beam_hub [OF L i, of drv "ct_pipe s" "ct_hub s"] hr_refl by blast
  have pure: "pq_pure ?c (sg_pq g) = Some (pqq_beam q1)" using init_run_beam [OF L i, of "Some (ct_hub s)"] b by auto
  obtain bm where q1: "q1 = ?r\<lparr>pqq_beam := bm\<rparr>" using run_beam_frame [OF b] .
  have "pqq_st ?q = CbBusy" using q by simp
  then have "?r\<lparr>pqq_st := CbBusy\<rparr> = ?q" by simp
  then have "pqq_run_beam ?c (sg_pq g) (?q, Some (ct_hub s)) = Some (q1\<lparr>pqq_st := CbBusy\<rparr>, Some h)"
    using run_beam_st [of ?c "sg_pq g" CbBusy ?r "Some (ct_hub s)"] b by simp
  then have "pc = PcIssue i" "s1 = set_hub h (set_seat i (q1\<lparr>pqq_st := CbBusy\<rparr>) s)"
    using turn by (simp_all add: Let_def)
  moreover have "pc_ok g ex pb (PcIssue i) (q1\<lparr>pqq_st := CbBusy\<rparr>)"
    using pure by (simp add: pq_walked_def query_pure_def q1)
  moreover have "owner (q1\<lparr>pqq_st := CbBusy\<rparr>) = owner ?q" using q by (simp add: owner_def q1)
  moreover have "pipe_ok g vio pb (hub_pipe h)" by (rule pipe_ok_reach [OF p run h])
  ultimately show ?thesis by blast
qed

lemma issue_turn:
  fixes s :: "('a :: linordered_idom, 'd) cont" and drv :: "'d driver"
  assumes run: "run_ok g drv vio pb" and p: "pipe_ok g vio pb (ct_pipe s)" and q: "pc_ok g ex pb (PcIssue i) (ct_slots s ! i)"
    and turn: "cont_turn g (PcIssue i) s = Some (pc, s1)"
  shows "\<exists>h q1. pc = PcCheck i \<and> s1 = set_hub h (set_seat i q1 s) \<and> pc_ok g ex pb pc q1 \<and>
    owner q1 = owner (ct_slots s ! i) \<and> pipe_ok g vio pb (hub_pipe h)"
proof -
  let ?q = "ct_slots s ! i"
  let ?c = "query_ctx g (pqq_qi ?q)"
  obtain q1 h where i: "pqq_issue ?c id False (?q, ct_hub s) = Some (q1, h)" and e: "pc = PcCheck i" "s1 = set_hub h (set_seat i q1 s)"
    using turn by (auto simp: Let_def split: option.splits)
  define need where "need = cand_pages (sg_base g) (page_bytes (hp_win (ct_pipe s))) (map snd (b_cand (pqq_beam ?q)))"
  obtain tok where sub: "hub_submit id need (ct_hub s) = Some (tok, h)"
    and q1: "q1 = ?q\<lparr>pqq_need := need, pqq_toks := pqq_toks ?q @ (if tok = 0 then [] else [tok]),
        pqq_fp_done := replicate (length (b_cand (pqq_beam ?q))) False, pqq_fp_n := 0\<rparr>"
    using i q by (auto simp: pqq_issue_def Let_def need_def)
  have "pipe_ok g vio pb (hub_pipe h)" by (rule pipe_ok_reach [OF p run hub_submit_reach [OF sub]])
  moreover have "pc_ok g ex pb (PcCheck i) q1"
    using q p by (simp add: q1 pq_issued_def pq_walked_def need_def pipe_ok_def)
  moreover have "owner q1 = owner ?q" using q by (simp add: owner_def q1)
  ultimately show ?thesis using e by blast
qed

lemma issued_weaken: "pq_issued g pb n q \<Longrightarrow> m \<le> n \<Longrightarrow> pq_issued g pb m q"
  unfolding pq_issued_def by (meson order_less_le_trans)

lemma issued_need:
  assumes "pq_issued g pb n q" and "vec_in_rec (sg_base g)" and "pow2 pb" and "b_cand (pqq_beam q) \<noteq> []"
  shows "pqq_need q \<noteq> []"
proof -
  have v: "vec_in_rec (query_ctx g (pqq_qi q))" "0 < sc_vb (sg_base g)" using assms(2) by (simp_all add: vec_in_rec_def)
  obtain cd cs where "b_cand (pqq_beam q) = cd # cs" using assms(4) by (cases "b_cand (pqq_beam q)") auto
  then have m: "snd cd \<in> set (map snd (b_cand (pqq_beam q)))" by simp
  have "page_floor pb (sc_vec (query_ctx g (pqq_qi q)) (snd cd)) \<in>
      set (page_span pb (sc_vec (query_ctx g (pqq_qi q)) (snd cd)) (sc_vb (query_ctx g (pqq_qi q))))"
    using v(2) by (intro page_span_covers [OF assms(3)]) simp_all
  then have "page_floor pb (sc_vec (query_ctx g (pqq_qi q)) (snd cd)) \<in> set (pqq_need q)"
    using vec_pages_in_need [OF v(1) assms(3) m] assms(1) by (auto simp: pq_issued_def)
  then show ?thesis by auto
qed

lemma issued_st: "pq_issued g pb n (q\<lparr>pqq_st := x\<rparr>) = pq_issued g pb n q"
  by (simp add: pq_issued_def)

lemma pipe_ok_end:
  fixes p :: "'d hide_pipe" and drv :: "'d driver"
  assumes "run_ok g drv vio pb" and "pipe_ok g vio pb p" and "rank_end c (q, p) = (q1, p1)"
  shows "q1 = q\<lparr>pqq_st := CbDone\<rparr> \<and> pipe_ok g vio pb p1"
proof -
  obtain f where e: "q1 = q\<lparr>pqq_st := CbDone\<rparr>" "p1 = release_pages (pqq_need q) (fold release_tok (pqq_toks q) (hp_met f p))"
    using assms(3) by (auto simp: rank_end_def Let_def)
  have "pipe_ok g vio pb (hp_met f p)" using assms(2) by (simp add: pipe_met)
  then show ?thesis using pipe_ok_reach [OF _ assms(1) release_reach] e by blast
qed

text \<open>What the loop of \<open>pqq_rank\<close> does to one candidate; its score is exact if the pages are there.\<close>

lemma rank_one_ok:
  assumes one: "rank_one c j (q, p) = Some (q1, p1)" and q: "c = query_ctx g (pqq_qi q)" "pq_issued g pb n q"
    and n: "n \<le> (if ex then j else 0)" and j: "j < length (b_cand (pqq_beam q))"
    and run: "run_ok g drv vio pb" and p: "pipe_ok g vio pb p" and cov: "ex \<Longrightarrow> n = j \<and> pqq_covering p (pqq_need q)"
  shows "pq_issued g pb (if ex then Suc j else 0) q1 \<and> pqq_st q1 = pqq_st q \<and> pqq_qi q1 = pqq_qi q \<and>
    pqq_need q1 = pqq_need q \<and> pipe_ok g vio pb p1 \<and> pqq_covering p1 (pqq_need q) = pqq_covering p (pqq_need q)"
proof -
  let ?cs = "b_cand (pqq_beam q)"
  let ?i = "snd (?cs ! j)"
  obtain bs where bs: "(case vec_src (sc_vec c ?i) (sc_vb c) p of Some bs \<Rightarrow> Some bs | None \<Rightarrow> copy_vec (sc_vec c ?i) (sc_vb c) p) = Some bs"
    and q1: "q1 = q\<lparr>pqq_beam := (pqq_beam q)\<lparr>b_cand := ?cs[j := (score_bytes c bs, ?i)]\<rparr>\<rparr>"
    and p1: "p1 = hp_met (\<lambda>m. note_pf_scored_id ?i (note_source (hp_score p) True (count_dist m))) p"
    using one by (auto simp: rank_one_def Let_def)
  obtain b where b: "query_pure g (pqq_qi q) = Some b" "map snd ?cs = map snd (b_cand b)"
    "pqq_need q = cand_pages (sg_base g) pb (map snd (b_cand b))"
    "\<forall>k < n. k < length (b_cand b) \<longrightarrow> fst (?cs ! k) = true_score c (snd (b_cand b ! k))"
    using q by (auto simp: pq_issued_def)
  have len: "length (b_cand b) = length ?cs" using b(2) by (metis length_map)
  then have idj: "snd (b_cand b ! j) = ?i" using b(2) j by (metis nth_map)
  have ids: "map snd (?cs[j := (score_bytes c bs, ?i)]) = map snd (b_cand b)"
    using b(2) j by (simp add: map_update list_update_same_conv flip: b(2))
  have sc: "score_bytes c bs = true_score c ?i" if ex
  proof -
    have inv: "bounce_inv p" "hp_pl p = sc_pl c" "page_bytes (hp_win p) = pb" and v: "vec_in_rec c" "0 < sc_vb c"
      using p run q(1) by (simp_all add: pipe_ok_def run_ok_def vec_in_rec_def)
    have "?i \<in> set (map snd ?cs)" using j by simp
    then have "vec_ready c p ?i"
      using covers_ready [OF inv(1) _ v(1), of "map snd ?cs" ?i] cov that b(2,3) inv(3) q(1) by simp
    then show ?thesis using ready_vec_read [OF inv(1,2) _ v(2), of ?i] bs by (simp add: true_score_def)
  qed
  have "pq_issued g pb (if ex then Suc j else 0) q1"
    unfolding pq_issued_def
  proof (intro exI [of _ b] conjI allI impI)
    show "fst (b_cand (pqq_beam q1) ! k) = true_score (query_ctx g (pqq_qi q1)) (snd (b_cand b ! k))"
      if k: "k < (if ex then Suc j else 0)" "k < length (b_cand b)" for k
    proof (cases "k = j")
      case True
      then show ?thesis using sc k j idj q(1) by (simp add: q1 split: if_splits)
    next
      case False
      then show ?thesis using k b(4) cov q(1) by (simp add: q1 split: if_splits)
    qed
  qed (use b ids in \<open>simp_all add: q1\<close>)
  moreover have "pipe_ok g vio pb p1" using p by (simp add: p1 pipe_met)
  moreover have "pqq_covering p1 ps = pqq_covering p ps" for ps
    by (simp add: p1 pqq_covering_def covers_all_def hp_covers_def hp_use_window_def hp_met_frame)
  ultimately show ?thesis by (simp add: q1)
qed

lemma check_rank_turn:
  fixes s :: "('a :: linordered_idom, 'd) cont"
  assumes "pc0 = PcCheck i \<or> pc0 = PcRank i" and "pc_ok g ex pb pc0 (ct_slots s ! i)" and "cont_turn g pc0 s = Some (pc, s1)"
  shows "s1 = s \<and> held pc = Some i \<and> pc_ok g ex pb pc (ct_slots s ! i) \<and>
    (\<forall>k j. pc = PcScore k j \<longrightarrow> k = i \<and> pqq_covering (ct_pipe s) (pqq_need (ct_slots s ! i)))"
proof -
  have "pqq_covering (ct_pipe s) []" by (simp add: pqq_covering_def covers_all_def)
  then show ?thesis
    using assms by (cases "pqq_need (ct_slots s ! i) = []") (auto simp: Let_def split: if_splits)
qed

lemma score_turn:
  fixes s :: "('a :: linordered_idom, 'd) cont" and drv :: "'d driver"
  assumes run: "run_ok g drv vio pb" and p: "pipe_ok g vio pb (ct_pipe s)" and q: "pc_ok g ex pb (PcScore i j) (ct_slots s ! i)"
    and cov: "ex \<Longrightarrow> pqq_covering (ct_pipe s) (pqq_need (ct_slots s ! i))"
    and turn: "cont_turn g (PcScore i j) s = Some (pc, s1)"
  shows "\<exists>h q1. s1 = set_hub h (set_seat i q1 s) \<and> held pc = Some i \<and> pc_ok g ex pb pc q1 \<and>
    owner q1 = owner (ct_slots s ! i) \<and> pipe_ok g vio pb (hub_pipe h) \<and>
    (\<forall>k l. ex \<longrightarrow> pc = PcScore k l \<longrightarrow> k = i \<and> pqq_covering (hub_pipe h) (pqq_need q1))"
proof -
  let ?q = "ct_slots s ! i"
  let ?c = "query_ctx g (pqq_qi ?q)" and ?cs = "b_cand (pqq_beam ?q)"
  have st: "pqq_st ?q = CbBusy" and iss: "pq_issued g pb (if ex then j else 0) ?q" using q by simp_all
  have sp: "set_pipe p1 (set_seat i q1 s) = set_hub ((ct_hub s)\<lparr>hub_pipe := p1\<rparr>) (set_seat i q1 s)" for p1 q1
    by (simp add: set_pipe_def set_seat_def)
  show ?thesis
  proof (cases "length ?cs \<le> j")
    case True
    obtain q1 p1 where e: "rank_end ?c (?q, ct_pipe s) = (q1, p1)" by (cases "rank_end ?c (?q, ct_pipe s)")
    then have r: "pc = PcPark i" "s1 = set_pipe p1 (set_seat i q1 s)" using turn True by (simp_all add: Let_def)
    have k: "q1 = ?q\<lparr>pqq_st := CbDone\<rparr>" "pipe_ok g vio pb p1" using pipe_ok_end [OF run p e] by simp_all
    have "pq_issued g pb (if ex then length ?cs else 0) ?q" by (rule issued_weaken [OF iss]) (use True in simp)
    then have "pc_ok g ex pb (PcPark i) q1" by (cases ex) (simp_all add: k(1) issued_st)
    moreover have "owner q1 = owner ?q" using st by (simp add: k(1) owner_def)
    ultimately show ?thesis using k(2) unfolding r sp
      by (intro exI [of _ "(ct_hub s)\<lparr>hub_pipe := p1\<rparr>"] exI [of _ q1]) simp
  next
    case False
    show ?thesis
    proof (cases "rank_one ?c j (?q, ct_pipe s)")
      case None
      then have r: "pc = PcPark i" "s1 = s" using turn False by (simp_all add: Let_def)
      have "?cs \<noteq> []" using False by auto
      then have "pqq_need ?q \<noteq> []" using issued_need [OF iss] run p by (auto simp: run_ok_def pipe_ok_def bounce_inv_def)
      moreover have "pq_issued g pb 0 ?q" by (rule issued_weaken [OF iss]) simp
      ultimately have "pc_ok g ex pb (PcPark i) ?q" using st by simp
      then show ?thesis using p r
        by (intro exI [of _ "ct_hub s"] exI [of _ ?q]) (simp add: set_seat_same)
    next
      case (Some x)
      obtain q1 p1 where x: "x = (q1, p1)" by (cases x)
      have r: "pc = PcScore i (Suc j)" "s1 = set_pipe p1 (set_seat i q1 s)" using turn False Some x by (simp_all add: Let_def)
      have j: "j < length ?cs" using False by simp
      have one: "pq_issued g pb (if ex then Suc j else 0) q1 \<and> pqq_st q1 = pqq_st ?q \<and> pqq_qi q1 = pqq_qi ?q \<and>
          pqq_need q1 = pqq_need ?q \<and> pipe_ok g vio pb p1 \<and> pqq_covering p1 (pqq_need ?q) = pqq_covering (ct_pipe s) (pqq_need ?q)"
        by (rule rank_one_ok [OF Some [unfolded x] refl iss order_refl j run p]) (use cov in simp)
      then have "owner q1 = owner ?q" by (simp add: owner_def)
      then show ?thesis using one cov st unfolding r sp
        by (intro exI [of _ "(ct_hub s)\<lparr>hub_pipe := p1\<rparr>"] exI [of _ q1]) simp
    qed
  qed
qed

lemma answer_issued:
  assumes "pq_issued g pb (length (b_cand (pqq_beam q))) q"
  shows "query_recall g (pqq_qi q) (pqq_finish (sc_k (sg_base g)) q) = answer g (pqq_qi q)"
proof -
  let ?cs = "b_cand (pqq_beam q)" and ?c = "query_ctx g (pqq_qi q)"
  obtain b where b: "query_pure g (pqq_qi q) = Some b" "map snd ?cs = map snd (b_cand b)"
    "\<forall>k < length ?cs. k < length (b_cand b) \<longrightarrow> fst (?cs ! k) = true_score ?c (snd (b_cand b ! k))"
    using assms by (auto simp: pq_issued_def)
  have len: "length (b_cand b) = length ?cs" using b(2) by (metis length_map)
  have id: "snd (?cs ! k) = snd (b_cand b ! k)" if "k < length ?cs" for k using b(2) that len by (metis nth_map)
  have "?cs = map (\<lambda>cd. (true_score ?c (snd cd), snd cd)) (b_cand b)"
    by (rule nth_equalityI) (use b(3) len id in \<open>auto simp: prod_eq_iff\<close>)
  then show ?thesis using b(1) by (simp add: answer_def pqq_finish_def reranked_def)
qed

lemma park_turn:
  fixes s :: "('a :: linordered_idom, 'd) cont"
  assumes ok: "cont_ok g ex vio pb (pcs, s)" and t: "t < length pcs" "pcs ! t = PcPark i"
    and turn: "cont_turn g (PcPark i) s = Some (pc, s1)"
  shows "cont_ok g ex vio pb (pcs[t := pc], s1)"
proof -
  let ?q = "ct_slots s ! i"
  have o: "pipe_ok g vio pb (ct_pipe s)" "pf_policy (ct_pref s) = P3" "seats_ok g ex pb pcs (ct_slots s)" "accounts g ex s"
    using ok by (simp_all add: cont_ok_def)
  have h: "held (pcs ! t) = Some i" using t by simp
  have i: "i < length (ct_slots s)" and q: "pc_ok g ex pb (PcPark i) ?q" using seats_okD(1) [OF o(3) t(1) h] t(2) by auto
  have own: "owner ?q = Some (pqq_qi ?q)" using q by (auto simp: owner_def)
  have pc: "pc = PcTop" using turn by (simp add: Let_def)
  show ?thesis
  proof (cases "pqq_st ?q = CbDone")
    case True
    let ?ids = "pqq_finish (sc_k (sg_base g)) ?q"
    have s1: "s1 = finish_slot g i s" using turn True by (simp add: Let_def)
    have e: "ct_slots s1 = (ct_slots s)[i := pqq_new]" "ct_lat s1 = (ct_lat s)[pqq_qi ?q := True]"
      "ct_recs s1 = (case query_recall g (pqq_qi ?q) ?ids of None \<Rightarrow> ct_recs s | Some x \<Rightarrow> (ct_recs s)[pqq_qi ?q := Some x])"
      "ct_next s1 = ct_next s" "ct_fin s1 = ct_fin s + 1" "ct_pref s1 = ct_pref s" "ct_hub s1 = ct_hub s"
      by (simp_all add: s1 finish_slot_def Let_def)
    have n: "owner pqq_new = None" "free_ok g pb pqq_new" by (simp_all add: owner_def pqq_new_def free_ok_def)
    have a: "query_recall g (pqq_qi ?q) ?ids = answer g (pqq_qi ?q)" if ex
      using answer_issued [of g pb ?q] q True that by simp
    have "accounts g ex s1" by (rule accounts_finish [OF o(4) i own n(1) a e(1-5)])
    then show ?thesis
      using seats_give [OF o(3) t(1) h, of pc pqq_new] n(2) o unfolding cont_ok_def by (simp add: e pc)
  next
    case False
    then have b: "pqq_st ?q = CbBusy" "pq_issued g pb 0 ?q" "pqq_need ?q \<noteq> []" using q by auto
    define q1 where "q1 = ?q\<lparr>pqq_st := CbWait\<rparr>"
    have s1: "s1 = set_seat i q1 s" using turn b(1) by (simp add: Let_def q1_def)
    have "free_ok g pb q1" using b by (simp add: q1_def free_ok_def issued_st)
    moreover have "owner q1 = owner ?q" using b by (simp add: q1_def owner_def)
    then have "accounts g ex s1"
      by (intro accounts_cong [OF o(4)]) (simp_all add: s1 set_seat_def map_owner_update)
    ultimately show ?thesis
      using seats_give [OF o(3) t(1) h, of pc q1] o unfolding cont_ok_def by (simp add: s1 set_seat_def pc)
  qed
qed

lemma free_turn:
  fixes s :: "('a :: linordered_idom, 'd) cont" and drv :: "'d driver"
  assumes ok: "cont_ok g ex vio pb (pcs, s)" and run: "run_ok g drv vio pb"
    and t: "t < length pcs" "pcs ! t = PcTop \<or> pcs ! t = PcIdle" and turn: "cont_turn g (pcs ! t) s = Some (pc, s1)"
  shows "cont_ok g ex vio pb (pcs[t := pc], s1)"
proof -
  have o: "pipe_ok g vio pb (ct_pipe s)" "pf_policy (ct_pref s) = P3" "seats_ok g ex pb pcs (ct_slots s)" "accounts g ex s"
    using ok by (simp_all add: cont_ok_def)
  obtain h where h: "s1 = set_hub h s" "hide_reach drv (ct_pipe s) (hub_pipe h)" and pc: "held pc = None"
  proof (cases "pcs ! t = PcTop")
    case True
    then show ?thesis using turn that [of "ct_hub s"] that [of "hub_pump (ct_hub s)"] hr_refl [of drv] hub_pump_reach [of drv]
      by (auto simp: set_seat_same split: if_splits)
  next
    case False
    then have "pcs ! t = PcIdle" using t by simp
    then show ?thesis using turn that [of "ct_hub s"] that resubmit_reach [of s _ drv] hr_refl [of drv]
      by (auto simp: set_seat_same split: if_splits)
  qed
  have "accounts g ex s1" by (rule accounts_cong [OF o(4)]) (simp_all add: h(1) set_hub_def)
  moreover have "held (pcs ! t) = None" using t(2) by auto
  ultimately show ?thesis
    using seats_idle [OF o(3) t(1) _ pc] pipe_ok_reach [OF o(1) run h(2)] o(2) unfolding cont_ok_def by (simp add: h(1) set_hub_def)
qed

lemma fill_keeps_ready:
  assumes b: "bounce_inv hp" and drv: "driver_reads drv (hp_vio hp) (ssd_image (hp_pl hp)) (page_bytes (hp_win hp))"
    and k: "k < length (hp_jobs hp)" and run: "run_pipe_job drv k hp = Some hp'" and q: "page_ready q hp"
  shows "page_ready q hp'"
proof -
  obtain i tok off n fl' d' where i: "i < length (hp_slots hp)"
    and e: "hp' = hp\<lparr>hp_slots := (hp_slots hp)[i := fl'], hp_dev := d', hp_jobs := take k (hp_jobs hp) @ drop (Suc k) (hp_jobs hp)\<rparr>"
    and a: "hi_active fl'" "hi_pages fl' = hi_pages (slot hp i)"
      "\<And>j. j < length (hi_pages fl') \<Longrightarrow> ready_at fl' j \<longleftrightarrow> (off \<le> j \<and> j < off + n) \<or> ready_at (slot hp i) j"
    using run_pipe_job_facts [OF b drv k run] by metis
  obtain k j where k: "k < length (hp_slots hp)" "hi_active (slot hp k)" "j < length (hi_pages (slot hp k))"
    "hi_pages (slot hp k) ! j = q" "ready_at (slot hp k) j"
    using q by (auto simp: page_ready_def list_ex_iff [of _ "hp_slots hp"] list_ex_iff [of _ "[0..<_]"] in_set_conv_nth [of _ "hp_slots hp"])
  let ?s = "(hp_slots hp)[i := fl'] ! k"
  have "hi_active ?s \<and> j < length (hi_pages ?s) \<and> hi_pages ?s ! j = q \<and> ready_at ?s j"
    using k a i by (cases "k = i") auto
  moreover have "?s \<in> set ((hp_slots hp)[i := fl'])" using k(1) by (intro nth_mem) simp
  ultimately have "list_ex (\<lambda>s. hi_active s \<and> list_ex (\<lambda>i. hi_pages s ! i = q \<and> ready_at s i) [0..<length (hi_pages s)])
      ((hp_slots hp)[i := fl'])"
    unfolding list_ex_iff set_upt by (metis atLeastLessThan_iff zero_le)
  then show ?thesis by (simp add: page_ready_def e)
qed

lemma cont_step_ok:
  fixes s :: "('a :: linordered_idom, 'd) cont" and drv :: "'d driver"
  assumes step: "cont_step g drv (pcs, s) (pcs', s')" and run: "run_ok g drv vio pb"
    and ok: "cont_ok g ex vio pb (pcs, s)" and sc: "ex \<Longrightarrow> scoring (pcs, s)"
  shows "cont_ok g ex vio pb (pcs', s') \<and> (ex \<longrightarrow> scoring (pcs', s'))"
  using step
proof cases
  case (cs_worker t pc)
  note t = cs_worker(2) and turn = cs_worker(3)
  have o: "pipe_ok g vio pb (ct_pipe s)" "seats_ok g ex pb pcs (ct_slots s)" using ok by (simp_all add: cont_ok_def)
  have t0: "t = 0 \<and> length pcs = 1" if ex using sc [OF that] t by (simp add: scoring_def)
  have idle: ?thesis if "cont_ok g ex vio pb (pcs[t := pc], s')" and "\<forall>i j. pc \<noteq> PcScore i j"
    using that t0 t by (auto simp: cs_worker(1) scoring_def)
  have move: ?thesis if "s' = set_hub h (set_seat i q1 s)" "held (pcs ! t) = Some i" "held pc = Some i" "pc_ok g ex pb pc q1"
    "owner q1 = owner (ct_slots s ! i)" "pipe_ok g vio pb (hub_pipe h)"
    "\<forall>k l. ex \<longrightarrow> pc = PcScore k l \<longrightarrow> k = i \<and> pqq_covering (hub_pipe h) (pqq_need q1)" for h q1 i
  proof -
    have "i < length (ct_slots s)" using seats_okD(1) [OF o(2) t that(2)] by simp
    then show ?thesis using cont_ok_move [OF ok t that(2-6)] that(1,7) t0
      by (auto simp: cs_worker(1) scoring_def set_hub_def set_seat_def)
  qed
  have qi: "pc_ok g ex pb (pcs ! t) (ct_slots s ! i)" if "held (pcs ! t) = Some i" for i
    using seats_okD(1) [OF o(2) t that] by simp
  show ?thesis
  proof (cases "pcs ! t")
    case PcTop
    then have "\<forall>i j. pc \<noteq> PcScore i j" using turn by (auto split: if_splits)
    then show ?thesis using idle free_turn [OF ok run t _ turn] PcTop by simp
  next
    case PcIdle
    then have "\<forall>i j. pc \<noteq> PcScore i j" using turn by (auto split: if_splits)
    then show ?thesis using idle free_turn [OF ok run t _ turn] PcIdle by simp
  next
    case PcPick
    then have "\<forall>i j. pc \<noteq> PcScore i j" using turn by (auto simp: Let_def split: prod.splits pick.splits if_splits)
    then show ?thesis using idle pick_turn_ok [OF ok t PcPick turn [unfolded PcPick]] by simp
  next
    case (PcBeam i)
    with beam_turn [OF run o(1), of ex i pc s'] qi [of i] turn obtain h q1 where
      "pc = PcIssue i" "s' = set_hub h (set_seat i q1 s)" "pc_ok g ex pb pc q1" "owner q1 = owner (ct_slots s ! i)"
      "pipe_ok g vio pb (hub_pipe h)" by auto
    then show ?thesis using move [of h i q1] PcBeam by simp
  next
    case (PcIssue i)
    with issue_turn [OF run o(1), of ex i pc s'] qi [of i] turn obtain h q1 where
      "pc = PcCheck i" "s' = set_hub h (set_seat i q1 s)" "pc_ok g ex pb pc q1" "owner q1 = owner (ct_slots s ! i)"
      "pipe_ok g vio pb (hub_pipe h)" by auto
    then show ?thesis using move [of h i q1] PcIssue by simp
  next
    case (PcCheck i)
    then have h: "held (pcs ! t) = Some i" by simp
    have "s' = s \<and> held pc = Some i \<and> pc_ok g ex pb pc (ct_slots s ! i) \<and>
        (\<forall>k j. pc = PcScore k j \<longrightarrow> k = i \<and> pqq_covering (ct_pipe s) (pqq_need (ct_slots s ! i)))"
      using check_rank_turn [OF _ qi [OF h] turn] PcCheck by blast
    then show ?thesis by (intro move [OF _ h, of "ct_hub s" "ct_slots s ! i"]) (use o(1) in \<open>auto simp: set_seat_same\<close>)
  next
    case (PcRank i)
    then have h: "held (pcs ! t) = Some i" by simp
    have "s' = s \<and> held pc = Some i \<and> pc_ok g ex pb pc (ct_slots s ! i) \<and>
        (\<forall>k j. pc = PcScore k j \<longrightarrow> k = i \<and> pqq_covering (ct_pipe s) (pqq_need (ct_slots s ! i)))"
      using check_rank_turn [OF _ qi [OF h] turn] PcRank by blast
    then show ?thesis by (intro move [OF _ h, of "ct_hub s" "ct_slots s ! i"]) (use o(1) in \<open>auto simp: set_seat_same\<close>)
  next
    case (PcScore i j)
    have "pqq_covering (ct_pipe s) (pqq_need (ct_slots s ! i))" if ex
      using sc [OF that] t0 [OF that] PcScore by (simp add: scoring_def)
    with score_turn [OF run o(1), of ex i j pc s'] qi [of i] turn PcScore obtain h q1 where
      "s' = set_hub h (set_seat i q1 s)" "held pc = Some i" "pc_ok g ex pb pc q1" "owner q1 = owner (ct_slots s ! i)"
      "pipe_ok g vio pb (hub_pipe h)" "\<forall>k l. ex \<longrightarrow> pc = PcScore k l \<longrightarrow> k = i \<and> pqq_covering (hub_pipe h) (pqq_need q1)"
      by auto
    then show ?thesis using move [of h i q1] PcScore by simp
  next
    case (PcPark i)
    then have "pc = PcTop" using turn by (simp add: Let_def)
    then show ?thesis using idle park_turn [OF ok t PcPark turn [unfolded PcPark]] by simp
  next
    case PcEnd
    then show ?thesis using turn by simp
  qed
next
  case (cs_fill k p)
  have o: "pipe_ok g vio pb (ct_pipe s)" "seats_ok g ex pb pcs (ct_slots s)" "pf_policy (ct_pref s) = P3" "accounts g ex s"
    using ok by (simp_all add: cont_ok_def)
  have b: "bounce_inv (ct_pipe s)"
    "driver_reads drv (hp_vio (ct_pipe s)) (ssd_image (hp_pl (ct_pipe s))) (page_bytes (hp_win (ct_pipe s)))"
    using o(1) run by (simp_all add: pipe_ok_def run_ok_def)
  have p: "pipe_ok g vio pb p" by (rule pipe_ok_reach [OF o(1) run reach_one [OF hs_worker [OF cs_fill(3,4)]]])
  then have "bounce_inv p" by (simp add: pipe_ok_def)
  then have "pqq_covering p ps" if "pqq_covering (ct_pipe s) ps" for ps
    using that fill_keeps_ready [OF b cs_fill(3,4)] bounce_score(2) b(1)
    by (auto simp: pqq_covering_def covers_all_def list_all_iff hp_covers_def)
  then show ?thesis
    using p o sc accounts_cong [OF o(4), of s'] by (auto simp: cs_fill cont_ok_def set_pipe_def set_hub_def scoring_def)
qed

section \<open>Every run\<close>

text \<open>The hub of a run: bound to the window, the placement and the device, with the modes of \<open>pref\<close>.\<close>

definition cont_hub ::
  "(nat \<Rightarrow> nat \<Rightarrow> byte) \<Rightarrow> 'a sched_cfg \<Rightarrow> 'a prefetch \<Rightarrow> dram_window \<Rightarrow> vmem_io option \<Rightarrow> metrics option \<Rightarrow> 'd \<Rightarrow> 'd prefetch_hub" where
  "cont_hub heap g pf w vio m d =
     \<lparr>hub_pipe = fresh_pipe heap w (sc_pl (sg_base g)) vio m (pf_score pf) (pf_extent_run pf) (pf_direct_install pf) d,
      issue_n = 0, issue_pages = 0\<rparr>"

text \<open>The states of a run with \<open>W\<close> workers and \<open>T\<close> slots.\<close>

definition cont_run ::
  "'a :: linordered_idom sched_cfg \<Rightarrow> 'd driver \<Rightarrow> nat \<Rightarrow> nat \<Rightarrow> vmem_io option \<Rightarrow> metrics option \<Rightarrow>
   (nat \<Rightarrow> nat \<Rightarrow> byte) \<Rightarrow> 'd \<Rightarrow> 'a prefetch \<Rightarrow> dram_window \<Rightarrow> cont_pc list \<times> ('a, 'd) cont \<Rightarrow> bool" where
  "cont_run g drv W T vio m heap d pf w x \<longleftrightarrow>
     cont_reach g drv (replicate W PcTop, cont_start g T (cont_hub heap g pf w vio m d) pf) x"

text \<open>What the theorems on runs rely on: scores from the bounce slabs without \<open>extent_run\<close>, a loaded table,
  vectors inside their records, a window with room for the pinned pages, and a driver that reads what
  the SSD has.\<close>

definition run_setup :: "'a :: linordered_idom sched_cfg \<Rightarrow> 'd driver \<Rightarrow> vmem_io option \<Rightarrow> 'a prefetch \<Rightarrow> dram_window \<Rightarrow> bool" where
  "run_setup g drv vio pf w \<longleftrightarrow> pq_loaded (sg_pq g) \<and> 0 < sc_L (sg_base g) \<and> vec_in_rec (sg_base g) \<and>
     driver_reads drv vio (sc_img (sg_base g)) (page_bytes w) \<and> pf_policy pf = P3 \<and> pf_score pf = Score_bounce \<and> \<not> pf_extent_run pf \<and> pow2 (page_bytes w) \<and>
     good (sc_img (sg_base g)) w \<and> pin_room w"

lemma cont_start_ok:
  assumes "run_setup g drv vio pf w"
  shows "cont_ok g ex vio (page_bytes w) (replicate W PcTop, cont_start g T (cont_hub heap g pf w vio m d) pf)"
proof -
  let ?s = "cont_start g T (cont_hub heap g pf w vio m d) pf"
  have e: "owner pqq_new = None" "free_ok g pb pqq_new" for pb by (simp_all add: owner_def pqq_new_def free_ok_def)
  have p: "pipe_ok g vio (page_bytes w) (ct_pipe ?s)"
    using assms fresh_pipe_inv [of w] by (simp add: pipe_ok_def run_setup_def cont_start_def cont_hub_def)
      (simp add: fresh_pipe_def)
  have "answered ?s = {}" by (auto simp: answered_def cont_start_def)
  then have "accounts g ex ?s"
    by (intro accountsI) (simp_all add: cont_start_def e)
  moreover have "seats_ok g ex (page_bytes w) (replicate W PcTop) (ct_slots ?s)"
    by (rule seats_okI) (simp_all add: cont_start_def e)
  ultimately show ?thesis using p assms by (simp add: cont_ok_def cont_start_def run_setup_def)
qed

lemma cont_reach_ok:
  fixes drv :: "'d driver"
  assumes "cont_reach g drv x y" and "run_ok g drv vio pb" and "cont_ok g ex vio pb x" and "ex \<Longrightarrow> scoring x"
  shows "cont_ok g ex vio pb y \<and> (ex \<longrightarrow> scoring y)"
  using assms(1)
proof induction
  case cr_start
  then show ?case using assms(3,4) by simp
next
  case (cr_step y z)
  then show ?case using cont_step_ok [OF _ assms(2)] by (cases y; cases z) auto
qed

lemma cont_run_ok:
  assumes "cont_run g drv W T vio m heap d pf w x" and "run_setup g drv vio pf w" and "ex \<Longrightarrow> W = 1"
  shows "cont_ok g ex vio (page_bytes w) x"
proof -
  have "run_ok g drv vio (page_bytes w)" using assms(2) by (simp add: run_ok_def run_setup_def)
  then show ?thesis
    using cont_reach_ok [OF assms(1) [unfolded cont_run_def] _ cont_start_ok [OF assms(2)]] assms(3)
    by (simp add: scoring_def)
qed

subsection \<open>A worker that has left\<close>

lemma admit_fin: "ct_fin (admit g s) = ct_fin s"
proof -
  have one: "ct_fin (admit_one g i qi s) = ct_fin s" for i qi and s :: "('a, 'd) cont"
    by (simp add: admit_one_def split: prod.split)
  have "ct_fin (admit_list g qs s) = ct_fin s" for qs and s :: "('a, 'd) cont"
  proof (induction qs arbitrary: s)
    case (Cons q qs)
    show ?case
    proof (cases "first_seat (seat_is (ct_states s) CbEmpty) (ct_states s)")
      case (Some i)
      have "ct_fin (admit_list g (q # qs) s) = ct_fin (admit_list g qs (admit_one g i q s))" by (simp add: Some)
      also have "\<dots> = ct_fin s" unfolding Cons.IH by (rule one)
      finally show ?thesis .
    qed simp
  qed simp
  then show ?thesis by (simp add: admit_def)
qed

lemma turn_fin:
  assumes "cont_turn g pc s = Some (pc1, s1)"
  shows "ct_fin s \<le> ct_fin s1 \<and> (pc1 = PcEnd \<longrightarrow> sg_nq g \<le> ct_fin s1)"
proof (cases pc)
  case PcTop
  then show ?thesis using assms by (auto simp: set_hub_def split: if_splits)
next
  case PcPick
  obtain r s2 where p: "pick_pq (admit g s) = (r, s2)" by (cases "pick_pq (admit g s)")
  then have "ct_fin s2 = ct_fin s" using admit_fin [of g s] by (auto simp: pick_pq_def Let_def)
  then show ?thesis using assms PcPick p by (cases r) (auto simp: set_seat_def split: if_splits)
next
  case (PcBeam i)
  then show ?thesis using assms by (auto simp: Let_def set_seat_def set_hub_def split: option.splits)
next
  case (PcIssue i)
  then show ?thesis using assms by (auto simp: Let_def set_seat_def set_hub_def split: option.splits)
next
  case (PcPark i)
  then show ?thesis using assms by (auto simp: Let_def set_seat_def finish_slot_def split: if_splits)
next
  case (PcScore i j)
  then show ?thesis using assms
    by (auto simp: Let_def set_seat_def set_pipe_def set_hub_def split: if_splits prod.splits option.splits)
qed (use assms in \<open>auto simp: Let_def set_hub_def split: if_splits\<close>)

lemma ended_fin:
  assumes "cont_reach g drv x y" and "PcEnd \<notin> set (fst x)" and "PcEnd \<in> set (fst y)"
  shows "sg_nq g \<le> ct_fin (snd y)"
proof -
  have "PcEnd \<in> set (fst y) \<longrightarrow> sg_nq g \<le> ct_fin (snd y)"
    using assms(1)
  proof induction
    case cr_start
    then show ?case using assms(2) by simp
  next
    case (cr_step y z)
    from cr_step(2) show ?case
    proof cases
      case (cs_worker t pcs s pc s1)
      then show ?thesis using cr_step(3) turn_fin [OF cs_worker(4)] set_update_subset_insert [of pcs t pc] by fastforce
    next
      case (cs_fill k s p pcs)
      then show ?thesis using cr_step(3) by (simp add: set_pipe_def set_hub_def)
    qed
  qed
  then show ?thesis using assms(3) by simp
qed

lemma ended_all:
  assumes "cont_ok g ex vio pb (pcs, s)" and "sg_nq g \<le> ct_fin s"
  shows "answered s = {..<sg_nq g}"
proof -
  have a: "accounts g ex s" using assms(1) by (simp add: cont_ok_def)
  have "answered s \<subseteq> {..<sg_nq g}" using accountsD(3,5) [OF a] by auto
  moreover have "card {..<sg_nq g} \<le> card (answered s)" using accountsD(4) [OF a] assms(2) by simp
  ultimately show ?thesis using card_seteq by blast
qed

end
