(* ===== verification/Sched_Cont_Props.thy ===== *)
theory Sched_Cont_Props
  imports Sched_Cont
begin

text \<open>
  Properties of the cooperative batch scheduler: who may work on a slot and how queries are counted,
  with any number of workers; the answers of a run with one worker; a run with two workers that gets
  an answer wrong; and a run in which the round-robin counter overflows.

  The runs are those of \<open>cont_run\<close>: each worker step is atomic, although the calls of \<open>covers\<close>,
  \<open>vec_src\<close>, \<open>copy_vec\<close>, \<open>release_tok\<close> and \<open>release_pages\<close> in \<open>pqq_covering\<close> and \<open>pqq_rank\<close> take no mutex; a
  run of the program in which such a call overlaps another worker's is a data race and outside these
  theorems. With one worker there is no such overlap: the fill jobs share only slab bytes and ready
  flags with it, and a flag is set after its bytes.
\<close>

section \<open>Running a schedule\<close>

text \<open>\<open>Inl t\<close> is a turn of worker \<open>t\<close>, \<open>Inr k\<close> runs fill job \<open>k\<close>.\<close>

fun cont_exec ::
  "'a :: linordered_idom sched_cfg \<Rightarrow> 'd driver \<Rightarrow> (nat + nat) list \<Rightarrow> cont_pc list \<times> ('a, 'd) cont \<Rightarrow>
   (cont_pc list \<times> ('a, 'd) cont) option" where
  "cont_exec g drv [] x = Some x"
| "cont_exec g drv (Inl t # ts) (pcs, s) =
     (if t < length pcs
      then case cont_turn g (pcs ! t) s of None \<Rightarrow> None | Some (pc, s1) \<Rightarrow> cont_exec g drv ts (pcs[t := pc], s1)
      else None)"
| "cont_exec g drv (Inr k # ts) (pcs, s) =
     (if k < length (hp_jobs (ct_pipe s))
      then case run_pipe_job drv k (ct_pipe s) of None \<Rightarrow> None | Some p \<Rightarrow> cont_exec g drv ts (pcs, set_pipe p s)
      else None)"

lemma cont_exec_reach:
  fixes drv :: "'d driver"
  assumes "cont_exec g drv ts y = Some z" and "cont_reach g drv x y"
  shows "cont_reach g drv x z"
  using assms
proof (induction g drv ts y rule: cont_exec.induct)
  case (1 g drv y)
  then show ?case by simp
next
  case (2 g drv t ts pcs s)
  then have t: "t < length pcs" by (simp split: if_splits)
  then obtain pc s1 where c: "cont_turn g (pcs ! t) s = Some (pc, s1)"
    using "2.prems"(1) by (cases "cont_turn g (pcs ! t) s") auto
  then have "cont_exec g drv ts (pcs[t := pc], s1) = Some z" using "2.prems"(1) t by simp
  moreover have "cont_reach g drv x (pcs[t := pc], s1)" using "2.prems"(2) cs_worker [OF t c] by (rule cr_step)
  ultimately show ?case using "2.IH" [OF t c refl] by blast
next
  case (3 g drv k ts pcs s)
  then have k: "k < length (hp_jobs (ct_pipe s))" by (simp split: if_splits)
  then obtain p where c: "run_pipe_job drv k (ct_pipe s) = Some p"
    using "3.prems"(1) by (cases "run_pipe_job drv k (ct_pipe s)") auto
  then have "cont_exec g drv ts (pcs, set_pipe p s) = Some z" using "3.prems"(1) k by simp
  moreover have "cont_reach g drv x (pcs, set_pipe p s)" using "3.prems"(2) cs_fill [OF k c] by (rule cr_step)
  ultimately show ?case using "3.IH" [OF k c] by blast
qed

section \<open>Evaluating a pump\<close>

text \<open>In the bounce mode a pump touches nothing but the slots in flight; evaluated in this form.\<close>

definition pump_fl :: "hide_inflight \<Rightarrow> hide_inflight" where
  "pump_fl fl = (if hi_active fl then fold pump_mark [0..<length (hi_pages fl)] fl else fl)"

lemma fold_pump_slots:
  assumes "hp_score hp \<noteq> Score_window" and "n \<le> length (hp_slots hp)"
  shows "fold pump_slot [0..<n] hp = hp\<lparr>hp_slots := map pump_fl (take n (hp_slots hp)) @ drop n (hp_slots hp)\<rparr>"
  using assms(2)
proof (induction n)
  case (Suc n)
  let ?hp = "hp\<lparr>hp_slots := map pump_fl (take n (hp_slots hp)) @ drop n (hp_slots hp)\<rparr>"
  have "pump_slot n ?hp = ?hp\<lparr>hp_slots := (hp_slots ?hp)[n := pump_fl (slot hp n)]\<rparr>"
    using assms(1) Suc.prems
    by (simp add: pump_slot_def set_slot_def hp_use_window_def hide_pump_def pump_fl_def nth_append Let_def)
  moreover have "(hp_slots ?hp)[n := pump_fl (slot hp n)] = map pump_fl (take (Suc n) (hp_slots hp)) @ drop (Suc n) (hp_slots hp)"
    using Suc.prems by (simp add: list_update_append take_Suc_conv_app_nth flip: Cons_nth_drop_Suc)
  ultimately show ?case using Suc by simp
qed simp

lemma hp_pump_slots [code]:
  "hp_pump hp =
     (if hp_score hp = Score_window then fold pump_slot [0..<length (hp_slots hp)] hp
      else hp\<lparr>hp_slots := map pump_fl (hp_slots hp)\<rparr>)"
  using fold_pump_slots [of hp "length (hp_slots hp)"] by (auto simp: hp_pump_def)

section \<open>The ring, searched by a batch\<close>

definition no_nav :: nav_graph where
  "no_nav = \<lparr>nav_n0 = 0, nav_dim = 0, nav_R = 0, nav_ids = [], nav_recs = [], rec_bytes = 0\<rparr>"

text \<open>Two candidates, one expansion, one answer.\<close>

definition pair_ctx :: "int sctx" where
  "pair_ctx = ring_ctx\<lparr>sc_beam := 2, sc_k := 1, sc_iters := 1\<rparr>"

definition ring_run :: "nat \<Rightarrow> int sched_cfg" where
  "ring_run n = \<lparr>sg_base = pair_ctx, sg_pq = ring_pq, sg_nav = no_nav, sg_queries = replicate n [1],
     sg_gt = Some (replicate n 1), sg_gt_k = 1, sg_id_map = []\<rparr>"

definition ring_pf :: "int prefetch" where
  "ring_pf = \<lparr>pf_policy = P3, budget_per_query = 8, budget_left = 0, neighbor_k = 1, expand_batch = 4, issue_ahead = 1,
     pin_entry = False, async_q_cap = 4, pipe_w = 8, install_top = 4, fetch_top = 0, page_group_b = False,
     install_all_fetched = False, oracle_dram = False, freeze_fills = False, sync_hop = False, pf_extent_run = False,
     pf_direct_install = False, pf_score = Score_bounce, pq_nav = True, pf_pq = None, pf_q = [], pf_stop = False,
     pf_win = False, entry_pinned = False\<rparr>"

definition ring_start :: "nat \<Rightarrow> nat \<Rightarrow> nat \<Rightarrow> cont_pc list \<times> (int, unit) cont" where
  "ring_start n W T =
     (replicate W PcTop, cont_start (ring_run n) T (cont_hub (\<lambda>_ _. 0) (ring_run n) ring_pf demo_window None None ()) ring_pf)"

text \<open>A worker's first pump finds no slot in flight.\<close>

lemma pump_fresh: "hp_score hp \<noteq> Score_window \<Longrightarrow> hp_slots hp = replicate k hide_empty \<Longrightarrow> hp_pump hp = hp"
  by (simp add: hp_pump_slots pump_fl_def hide_empty_def)

lemma ring_first_turn:
  "cont_exec (ring_run (Suc n)) demo_driver (Inl 0 # ts) (ring_start (Suc n) (Suc W) T) =
   cont_exec (ring_run (Suc n)) demo_driver ts (PcPick # replicate W PcTop, snd (ring_start (Suc n) (Suc W) T))"
proof -
  let ?s = "snd (ring_start (Suc n) (Suc W) T)"
  have "hub_pump (ct_hub ?s) = ct_hub ?s"
    by (simp add: hub_pump_def ring_start_def cont_start_def cont_hub_def pump_fresh fresh_pipe_def ring_pf_def)
  moreover have "ct_fin ?s < sg_nq (ring_run (Suc n))" by (simp add: ring_start_def cont_start_def ring_run_def)
  ultimately have t: "cont_turn (ring_run (Suc n)) PcTop ?s = Some (PcPick, ?s)" by (simp add: set_hub_def)
  have "ring_start (Suc n) (Suc W) T = (PcTop # replicate W PcTop, ?s)" by (simp add: ring_start_def)
  then show ?thesis by (metis (no_types, lifting) cont_exec.simps(2) t length_Cons zero_less_Suc nth_Cons_0
      list_update_code(2) option.simps(5) prod.case)
qed

lemma ring_setup: "run_setup (ring_run n) demo_driver None ring_pf demo_window"
proof -
  have "good ring_image demo_window" unfolding demo_window_def by (rule win_init_good) (simp_all add: pow2_4)
  moreover have "0 < sc_L pair_ctx" "vec_in_rec pair_ctx" "sc_pl pair_ctx = ring_place"
    by (simp_all add: pair_ctx_def ring_ctx_def sc_L_def vec_in_rec_def sc_vb_def ring_header_def ring_place_def)
  ultimately show ?thesis
    using demo_win_good ring_pq_loaded
    by (simp add: run_setup_def ring_run_def ring_pf_def demo_driver_reads demo_page pow2_4 ring_place_def)
qed

lemma ring_exec_run:
  "cont_exec (ring_run n) demo_driver ts (ring_start n W T) = Some x \<Longrightarrow> cont_run (ring_run n) demo_driver W T None None (\<lambda>_ _. 0) () ring_pf demo_window x"
  unfolding cont_run_def using cont_exec_reach [OF _ cr_start] by (simp add: ring_start_def)

section \<open>Any number of workers\<close>

text \<open>C2. Any number of workers and slots, in bounce mode (\<open>pf_score = Score_bounce\<close>, extent runs off,
  policy P3), with a loaded PQ table, at least one candidate (\<open>0 < L\<close>), vectors stored in the records,
  a page size that is a power of two, a driver that reads the image, and a coherent window with room for
  another pin (\<open>run_setup\<close>). Whatever the order of the workers' steps and of the fill jobs whose slot has
  not been given up (the others are undefined in the code), as long as the hub calls made without its
  mutex do not run at the same time: no slot is held by two workers; a query is in at most one slot and not
  answered at the same time; the queries admitted so far are those below \<open>next_q\<close>, and each of them is in a
  slot or answered, none else is; \<open>finished\<close> is the number of answered queries; and once a
  worker has left its loop, all are answered.\<close>
theorem cont_batch_accounts:
  assumes "cont_run g drv W T vio m heap d pf w (pcs, s)" and "run_setup g drv vio pf w"
  shows "(\<forall>t < length pcs. \<forall>u < length pcs. held (pcs ! t) \<noteq> None \<longrightarrow> held (pcs ! t) = held (pcs ! u) \<longrightarrow> t = u) \<and>
    (\<forall>i < length (ct_slots s). \<forall>j < length (ct_slots s). owner (ct_slots s ! i) \<noteq> None \<longrightarrow>
       owner (ct_slots s ! i) = owner (ct_slots s ! j) \<longrightarrow> i = j) \<and>
    (\<forall>i < length (ct_slots s). \<forall>qi. owner (ct_slots s ! i) = Some qi \<longrightarrow> qi < ct_next s \<and> qi \<notin> answered s) \<and>
    (\<forall>qi < ct_next s. qi \<in> answered s \<or> (\<exists>i < length (ct_slots s). owner (ct_slots s ! i) = Some qi)) \<and>
    answered s \<subseteq> {..<ct_next s} \<and> ct_next s \<le> sg_nq g \<and> ct_fin s = card (answered s) \<and>
    (PcEnd \<in> set pcs \<longrightarrow> answered s = {..<sg_nq g})"
proof -
  have ok: "cont_ok g False vio (page_bytes w) (pcs, s)" by (rule cont_run_ok [OF assms]) simp
  then have seats: "seats_ok g False (page_bytes w) pcs (ct_slots s)" and acc: "accounts g False s"
    by (simp_all add: cont_ok_def)
  have "t = u" if "t < length pcs" "u < length pcs" "held (pcs ! t) \<noteq> None" "held (pcs ! t) = held (pcs ! u)" for t u
    using seats_okD(2) [OF seats that(2,1)] that(3,4) by auto
  moreover have "i = j" if "i < length (ct_slots s)" "j < length (ct_slots s)" "owner (ct_slots s ! i) \<noteq> None"
    "owner (ct_slots s ! i) = owner (ct_slots s ! j)" for i j
    using accountsD(7) [OF acc that(2,1)] that(3,4) by auto
  moreover have "qi \<in> answered s \<or> (\<exists>i < length (ct_slots s). owner (ct_slots s ! i) = Some qi)" if "qi < ct_next s" for qi
    using accountsD(9) [OF acc that] by (auto simp: in_set_conv_nth)
  moreover have "answered s = {..<sg_nq g}" if "PcEnd \<in> set pcs"
  proof (rule ended_all [OF ok])
    show "sg_nq g \<le> ct_fin s"
      using ended_fin [OF assms(1) [unfolded cont_run_def]] that by auto
  qed
  ultimately show ?thesis using accountsD(3-6) [OF acc] by blast
qed

section \<open>One worker\<close>

text \<open>C1. One worker and any number of slots, in the setting of \<open>run_setup\<close>: bounce mode, extent runs off,
  policy P3, a loaded PQ table, \<open>0 < L\<close>, vectors stored in the records, a page size that is a power
  of two, a driver that reads the image, a coherent window with room for another pin. Whatever the order in
  which the fill jobs run between the worker's steps, as long as none runs after its slot has been given
  up (undefined in the code), each query answered so far has the recall of the ids that the
  sequential PQ search returns for it on the mapped image, and when the worker leaves its loop every
  query of the batch is answered.\<close>
theorem cont_batch_one_worker_exact:
  assumes "cont_run g drv 1 T vio m heap d pf w (pcs, s)" and "run_setup g drv vio pf w"
  shows "(\<forall>qi \<in> answered s. \<exists>ids v. search_pq_oracle (query_ctx g qi) (Some (sg_pq g)) st = Some (Result (ids, v)) \<and>
      ct_recs s ! qi = query_recall g qi ids) \<and>
    (PcEnd \<in> set pcs \<longrightarrow> answered s = {..<sg_nq g})"
proof -
  have ok: "cont_ok g True vio (page_bytes w) (pcs, s)" by (rule cont_run_ok [OF assms]) simp
  then have acc: "accounts g True s" by (simp add: cont_ok_def)
  have load: "pq_loaded (sg_pq g)" "0 < sc_L (query_ctx g qi)" for qi using assms(2) by (simp_all add: run_setup_def)
  have "\<exists>ids v. search_pq_oracle (query_ctx g qi) (Some (sg_pq g)) st = Some (Result (ids, v)) \<and>
      ct_recs s ! qi = query_recall g qi ids" if "qi \<in> answered s" for qi
  proof -
    obtain b v where b: "query_pure g qi = Some b"
      "search_pq_oracle (query_ctx g qi) (Some (sg_pq g)) st = Some (Result (reranked (query_ctx g qi) (b_cand b), v))"
      using search_pq_oracle_reranked [OF load, of qi st] unfolding query_pure_def by blast
    have "qi < sg_nq g" using accountsD(3,5) [OF acc] that by auto
    then have "ct_recs s ! qi = answer g qi" using accountsD(8) [OF acc TrueI] that by simp
    with b show ?thesis by (simp add: answer_def)
  qed
  moreover have "answered s = {..<sg_nq g}" if "PcEnd \<in> set pcs"
    by (rule ended_all [OF ok]) (use ended_fin [OF assms(1) [unfolded cont_run_def]] that in auto)
  ultimately show ?thesis by blast
qed

text \<open>One query, one worker: its turns up to the issue, the fill job, its turns to the end.\<close>

definition one_sched :: "(nat + nat) list" where
  "one_sched = replicate 3 (Inl 0) @ [Inr 0] @ replicate 7 (Inl 0)"

lemma one_exec: "\<exists>s. cont_exec (ring_run 1) demo_driver (Inl 0 # one_sched) (ring_start 1 1 1) = Some ([PcEnd], s)"
proof -
  have "map_option fst (cont_exec (ring_run 1) demo_driver one_sched ([PcPick], snd (ring_start 1 1 1))) = Some [PcEnd]" by code_simp
  then show ?thesis using ring_first_turn [of 0 one_sched 0 1] by auto
qed

theorem cont_batch_accounts_witness:
  "\<exists>s. cont_run (ring_run 1) demo_driver 1 1 None None (\<lambda>_ _. 0) () ring_pf demo_window ([PcEnd], s) \<and> answered s = {0} \<and> ct_fin s = 1"
proof -
  obtain s where s: "cont_run (ring_run 1) demo_driver 1 1 None None (\<lambda>_ _. 0) () ring_pf demo_window ([PcEnd], s)"
    using one_exec ring_exec_run by blast
  have "sg_nq (ring_run 1) = 1" by (simp add: ring_run_def)
  with cont_batch_accounts [OF s ring_setup] have "answered s = {..<1}" "ct_fin s = card (answered s)" by simp_all
  then show ?thesis using s by auto
qed

theorem cont_batch_one_worker_exact_witness:
  "\<exists>s ids v. cont_run (ring_run 1) demo_driver 1 1 None None (\<lambda>_ _. 0) () ring_pf demo_window ([PcEnd], s) \<and>
    search_pq_oracle (query_ctx (ring_run 1) 0) (Some ring_pq) (ring_pf, demo_window) = Some (Result (ids, v)) \<and>
    ct_recs s ! 0 = query_recall (ring_run 1) 0 ids"
proof -
  obtain s where s: "cont_run (ring_run 1) demo_driver 1 1 None None (\<lambda>_ _. 0) () ring_pf demo_window ([PcEnd], s)"
    using one_exec ring_exec_run by blast
  have "sg_nq (ring_run 1) = 1" "sg_pq (ring_run 1) = ring_pq" by (simp_all add: ring_run_def)
  with cont_batch_one_worker_exact [OF s ring_setup, of "(ring_pf, demo_window)"] show ?thesis
    using s by (metis (no_types, lifting) One_nat_def lessThan_Suc lessThan_0 list.set_intros(1) insertI1)
qed

section \<open>Two workers\<close>

text \<open>Three equal queries, two slots. Worker 1 issues the pages of query 1 and they are filled; worker 0
  finds the same pages covered for query 0 and is about to score; worker 1 finishes query 1, which gives
  the pages back, admits query 2 and issues them again; worker 0 goes on and scores from the new slot,
  which is not filled yet.\<close>

definition two_sched :: "(nat + nat) list" where
  "two_sched = map Inl [0, 1, 1, 1, 1] @ [Inr 0] @ map Inl [1, 0, 0, 0, 0] @ map Inl [1, 1, 1, 1, 1, 1, 1, 1, 1] @
     map Inl [0, 0, 0, 0]"

text \<open>C28. With two workers an answer can be wrong, in bounce mode with extent runs off: there is a run of
  three equal queries in which query 0 is answered with recall 0 although the sequential search of the same
  query has recall 1. \<open>pqq_rank\<close> checks that the pages are covered and then scores, but nothing keeps the
  pages from being given back by another query that used them and issued again, unfilled, by a third.\<close>
theorem two_workers_wrong_answer:
  "\<exists>pcs s v. cont_run (ring_run 3) demo_driver 2 2 None None (\<lambda>_ _. 0) () ring_pf demo_window (pcs, s) \<and>
    run_setup (ring_run 3) demo_driver None ring_pf demo_window \<and> ct_recs s ! 0 = Some 0 \<and>
    search_pq_oracle (query_ctx (ring_run 3) 0) (Some (sg_pq (ring_run 3))) (ring_pf, demo_window) = Some (Result ([1], v)) \<and>
    query_recall (ring_run 3) 0 [1] = Some 1"
proof -
  have "map_option (\<lambda>x. ct_recs (snd x) ! 0 = Some 0)
      (cont_exec (ring_run 3) demo_driver two_sched ([PcPick, PcTop], snd (ring_start 3 2 2))) = Some True"
    by code_simp
  then obtain pcs s where x: "cont_exec (ring_run 3) demo_driver (Inl 0 # two_sched) (ring_start 3 2 2) = Some (pcs, s)"
    and r: "ct_recs s ! 0 = Some 0"
    using ring_first_turn [of 2 two_sched 1 2] by (auto simp: numeral_eq_Suc)
  have "map_option (\<lambda>r. case r of Exit_2 \<Rightarrow> [] | Result (ids, v) \<Rightarrow> ids)
      (search_pq_oracle (query_ctx (ring_run 3) 0) (Some (sg_pq (ring_run 3))) (ring_pf, demo_window)) = Some [1]"
    by code_simp
  then obtain r where o: "search_pq_oracle (query_ctx (ring_run 3) 0) (Some (sg_pq (ring_run 3))) (ring_pf, demo_window) = Some r"
    "(case r of Exit_2 \<Rightarrow> [] | Result (ids, v) \<Rightarrow> ids) = [1]" by blast
  from o(2) obtain v where "r = Result ([1], v)" by (cases r) auto
  note v = o(1) [unfolded this]
  have "query_recall (ring_run 3) 0 [1] = Some 1" by code_simp
  with ring_exec_run [OF x] ring_setup r v show ?thesis by blast
qed

section \<open>The round-robin counter\<close>

text \<open>A state in which the only worker polls: every query is admitted, slot 0 waits for pages that are
  still in flight, slot 1 is empty.\<close>

definition polling :: "'a :: linordered_idom sched_cfg \<Rightarrow> ('a, 'd) cont \<Rightarrow> bool" where
  "polling g s \<longleftrightarrow> ct_fin s < sg_nq g \<and> ct_next s = sg_nq g \<and> length (ct_slots s) = 2 \<and>
     pqq_st (ct_slots s ! 0) = CbWait \<and> pqq_st (ct_slots s ! 1) = CbEmpty \<and>
     \<not> pqq_covering (ct_pipe s) (pqq_need (ct_slots s ! 0)) \<and> hub_pump (ct_hub s) = ct_hub s \<and> any_inflight (ct_hub s)"

lemma polling_rr: "polling g (s\<lparr>ct_rr := r\<rparr>) = polling g s"
  by (simp add: polling_def)

lemma pick_none: "\<forall>i \<in> set xs. 0 \<le> i \<and> \<not> P (nat i) \<Longrightarrow> pick_scan P xs = Pick_none"
  by (induction xs) auto

lemma sint_less: "a < 2 ^ 31 \<Longrightarrow> sint (word_of_nat a :: 32 word) = int a"
  by (simp add: sint_uint signed_take_bit_int_eq_self take_bit_nat_eq_self unsigned_of_nat)

lemma two_order:
  assumes "a < 0x7FFFFFFF"
  shows "set (pick_order 2 (word_of_nat a)) = {0, 1}"
proof -
  have e: "sint (word_of_nat a :: 32 word) = int a" using assms by (intro sint_less) simp
  have "[0..<2] = [0, Suc 0]" by (simp add: upt_rec)
  then have "set (pick_order 2 (word_of_nat a)) = {int a smod 2, (int a + 1) smod 2}"
    unfolding pick_order_def e using assms by simp
  also have "\<dots> = {int a mod 2, (int a + 1) mod 2}" by (simp add: smod_mod_positive)
  also have "\<dots> = {0, 1}" by (cases "even a") auto
  finally show ?thesis .
qed

lemma poll_pick:
  assumes "polling g s" and "ct_rr s = word_of_nat a" and "a < 0x7FFFFFFF"
  shows "cont_turn g PcPick s = Some (PcIdle, s\<lparr>ct_rr := word_of_nat (Suc a)\<rparr>)"
proof -
  note p = assms(1) [unfolded polling_def]
  have st: "pqq_st (ct_slots s ! i) \<noteq> CbReady \<and> \<not> (pqq_st (ct_slots s ! i) = CbWait \<and> pqq_covering (ct_pipe s) (pqq_need (ct_slots s ! i)))"
    if "i = 0 \<or> i = 1" for i using that p by auto
  have "pick_scan P (pick_order 2 (ct_rr s)) = Pick_none" if "\<not> P 0" "\<not> P 1" for P
    using that two_order [OF assms(3)] assms(2) by (intro pick_none) auto
  then have "pick_pq s = (Pick_none, s\<lparr>ct_rr := ct_rr s + 1\<rparr>)"
    using st [of 0] st [of 1] p by (simp add: pick_pq_def Let_def)
  moreover have "admit g s = s" using p by (simp add: admit_def)
  ultimately show ?thesis using assms(2) by (simp add: add.commute)
qed

lemma poll_round:
  assumes "polling g s" and "ct_rr s = word_of_nat a" and "a < 0x7FFFFFFF" and "cont_reach g drv x ([PcTop], s)"
  shows "cont_reach g drv x ([PcTop], s\<lparr>ct_rr := word_of_nat (Suc a)\<rparr>)"
proof -
  let ?s = "s\<lparr>ct_rr := word_of_nat (Suc a)\<rparr>"
  have "set_hub (hub_pump (ct_hub s)) s = s" using assms(1) by (simp add: polling_def set_hub_def)
  then have t: "cont_turn g PcTop s = Some (PcPick, s)" using assms(1) by (simp add: polling_def)
  have i: "cont_turn g PcIdle ?s = Some (PcTop, ?s)" using assms(1) by (simp add: polling_def)
  have go: "cont_reach g drv x ([pc'], s')" if "cont_reach g drv x ([pc], s1)" "cont_turn g pc s1 = Some (pc', s')" for pc pc' s1 s'
    using cr_step [OF that(1), of "([pc'], s')"] cs_worker [of 0 "[pc]" g s1 pc' s' drv] that(2) by simp
  show ?thesis by (rule go [OF go [OF go [OF assms(4) t] poll_pick [OF assms(1-3)]] i])
qed

lemma poll_rounds:
  assumes "polling g s" and "cont_reach g drv x ([PcTop], s\<lparr>ct_rr := word_of_nat a\<rparr>)" and "a + n \<le> 0x7FFFFFFF"
  shows "cont_reach g drv x ([PcTop], s\<lparr>ct_rr := word_of_nat (a + n)\<rparr>)"
  using assms(3)
proof (induction n)
  case (Suc n)
  then show ?case
    using poll_round [of g "s\<lparr>ct_rr := word_of_nat (a + n)\<rparr>" "a + n" drv x] assms(1) by (simp add: polling_rr)
qed (use assms(2) in simp)

lemma poll_overflow:
  assumes "polling g s" and "ct_rr s = word_of_nat 0x7FFFFFFF"
  shows "cont_turn g PcPick s = None"
proof -
  note p = assms(1) [unfolded polling_def]
  have "sint (word_of_nat 0x7FFFFFFF :: 32 word) = int 0x7FFFFFFF" by (rule sint_less) simp
  moreover have "[0..<2] = [0, Suc 0]" by (simp add: upt_rec)
  ultimately have o: "pick_order 2 (ct_rr s) = [1, -1]"
    unfolding pick_order_def assms(2) by (simp add: smod_mod_positive)
  have "pick_scan (\<lambda>i. pqq_st (ct_slots s ! i) = CbReady) [1, -1] = Pick_outside" using p by simp
  then have "fst (pick_pq s) = Pick_outside" using p o by (simp add: pick_pq_def Let_def)
  moreover have "admit g s = s" using p by (simp add: admit_def)
  ultimately show ?thesis by (cases "pick_pq s") simp
qed

text \<open>The turns after the first: the query is admitted, walked, issued, checked and parked.\<close>

definition park_sched :: "(nat + nat) list" where
  "park_sched = replicate 5 (Inl 0)"

lemma parked: "\<exists>s. cont_exec (ring_run 1) demo_driver (Inl 0 # park_sched) (ring_start 1 1 2) = Some ([PcTop], s) \<and>
  polling (ring_run 1) s \<and> ct_rr s = word_of_nat 1"
proof -
  have "map_option (\<lambda>x. fst x = [PcTop] \<and> ct_rr (snd x) = 1 \<and> ct_fin (snd x) < 1 \<and> ct_next (snd x) = 1 \<and> 
      map pqq_st (ct_slots (snd x)) = [CbWait, CbEmpty] \<and>
     \<not> pqq_covering (ct_pipe (snd x)) (pqq_need (ct_slots (snd x) ! 0)) \<and> hp_score (ct_pipe (snd x)) \<noteq> Score_window \<and>
     map pump_fl (hp_slots (ct_pipe (snd x))) = hp_slots (ct_pipe (snd x)) \<and> any_inflight (ct_hub (snd x)))
    (cont_exec (ring_run 1) demo_driver park_sched ([PcPick], snd (ring_start 1 1 2))) = Some True"
    by code_simp
  then obtain s where x: "cont_exec (ring_run 1) demo_driver park_sched ([PcPick], snd (ring_start 1 1 2)) = Some ([PcTop], s)"
    and r: "ct_rr s = 1" "ct_fin s < 1" "ct_next s = 1" "map pqq_st (ct_slots s) = [CbWait, CbEmpty]"
      "\<not> pqq_covering (ct_pipe s) (pqq_need (ct_slots s ! 0))" "hp_score (ct_pipe s) \<noteq> Score_window"
      "map pump_fl (hp_slots (ct_pipe s)) = hp_slots (ct_pipe s)" "any_inflight (ct_hub s)"
    by (auto simp del: One_nat_def)
  have "hub_pump (ct_hub s) = ct_hub s" using r(6,7) by (simp add: hub_pump_def hp_pump_slots)
  moreover have "sg_nq (ring_run 1) = 1" by (simp add: ring_run_def)
  moreover have "length (ct_slots s) = 2" "pqq_st (ct_slots s ! 0) = CbWait" "pqq_st (ct_slots s ! 1) = CbEmpty"
    using r(4) by auto
  ultimately have "polling (ring_run 1) s" using r by (simp add: polling_def)
  then show ?thesis using x r(1) ring_first_turn [of 0 park_sched 0 2] by auto
qed

text \<open>C39. Every call of \<open>pick_pq\<close> adds one to the round-robin counter, an \<open>int\<close>, also while a worker polls
  for pages in flight. There is a run of a batch of one query with one worker and two slots, in which
  the pages of the query stay in flight, that makes \<open>2 ^ 31 - 1\<close> calls and reaches one more, in
  which \<open>start + koff\<close> overflows before a slot is found. An overflow of \<open>int\<close> is undefined in the
  code; it is no result in the model. The setting is the one in which the other properties of the
  scheduler hold.\<close>
theorem round_robin_leaves_slots:
  "\<exists>s. cont_run (ring_run 1) demo_driver 1 2 None None (\<lambda>_ _. 0) () ring_pf demo_window ([PcPick], s) \<and>
    run_setup (ring_run 1) demo_driver None ring_pf demo_window \<and>
    ct_rr s = 0x7FFFFFFF \<and> ct_fin s < sg_nq (ring_run 1) \<and> cont_turn (ring_run 1) PcPick s = None"
proof -
  let ?x = "ring_start 1 1 2"
  obtain s where s: "cont_exec (ring_run 1) demo_driver (Inl 0 # park_sched) ?x = Some ([PcTop], s)"
    and p: "polling (ring_run 1) s" "ct_rr s = word_of_nat 1" using parked by blast
  have "s\<lparr>ct_rr := word_of_nat 1\<rparr> = s" using p(2) by (cases s) simp
  then have c: "cont_reach (ring_run 1) demo_driver ?x ([PcTop], s\<lparr>ct_rr := word_of_nat 1\<rparr>)"
    using cont_exec_reach [OF s cr_start] by (simp only:)
  have r: "cont_reach (ring_run 1) demo_driver ?x ([PcTop], s\<lparr>ct_rr := word_of_nat 0x7FFFFFFF\<rparr>)"
    using poll_rounds [where a = 1 and n = "0x7FFFFFFE", OF p(1) c] by simp
  let ?s = "s\<lparr>ct_rr := word_of_nat 0x7FFFFFFF\<rparr>"
  have q: "polling (ring_run 1) ?s" using p(1) by (simp add: polling_rr)
  have "set_hub (hub_pump (ct_hub ?s)) ?s = ?s" using q by (simp add: polling_def set_hub_def)
  then have "cont_turn (ring_run 1) PcTop ?s = Some (PcPick, ?s)" using q by (simp add: polling_def)
  then have "cont_step (ring_run 1) demo_driver ([PcTop], ?s) ([PcPick], ?s)"
    using cs_worker [of 0 "[PcTop]" "ring_run 1" ?s PcPick ?s demo_driver] by simp
  then have "cont_reach (ring_run 1) demo_driver ?x ([PcPick], ?s)" by (rule cr_step [OF r])
  then have "cont_run (ring_run 1) demo_driver 1 2 None None (\<lambda>_ _. 0) () ring_pf demo_window ([PcPick], ?s)"
    by (simp add: cont_run_def ring_start_def)
  moreover have "cont_turn (ring_run 1) PcPick ?s = None" by (rule poll_overflow [OF q]) simp
  ultimately show ?thesis using ring_setup q by (intro exI [of _ ?s]) (simp add: polling_def)
qed

end
