(* ===== verification/Numbering.thy ===== *)
theory Numbering
  imports Main
begin

text \<open>
  Numbering ids one after the other, as the layout tools under \<open>tools/\<close> do it: a table from ids to
  numbers, \<open>None\<close> for \<open>UINT32_MAX\<close>, and a counter. \<open>numbered n ord tbl\<close>: the ids of \<open>ord\<close> were given the
  numbers from 0 on, in that order; once all ids below \<open>n\<close> are, table and order are inverse to each
  other.
\<close>

definition give :: "nat \<Rightarrow> nat option list \<times> nat \<Rightarrow> nat option list \<times> nat" where
  "give u st = (case st of (tbl, k) \<Rightarrow> (tbl[u := Some k], k + 1))"

definition numbered :: "nat \<Rightarrow> nat list \<Rightarrow> nat option list \<Rightarrow> bool" where
  "numbered n ord tbl \<longleftrightarrow> length tbl = n \<and> distinct ord \<and> set ord \<subseteq> {..<n} \<and>
     (\<forall>i < length ord. tbl ! (ord ! i) = Some i) \<and> (\<forall>u < n. u \<notin> set ord \<longrightarrow> tbl ! u = None)"

lemma numbered_start [simp]: "numbered n [] (replicate n None)"
  by (simp add: numbered_def)

lemma numbered_None: "numbered n ord tbl \<Longrightarrow> u < n \<Longrightarrow> tbl ! u = None \<longleftrightarrow> u \<notin> set ord"
  by (metis in_set_conv_nth numbered_def option.simps(3))

lemma numbered_length: "numbered n ord tbl \<Longrightarrow> length tbl = n"
  by (simp add: numbered_def)

lemma numbered_give:
  assumes "numbered n ord tbl" and "u < n" and "tbl ! u = None"
  shows "numbered n (ord @ [u]) (tbl[u := Some (length ord)])"
proof -
  have u: "u \<notin> set ord" using assms numbered_None by blast
  have "tbl[u := Some (length ord)] ! (ord ! i) = Some i" if "i < length ord" for i
  proof -
    have "ord ! i \<noteq> u" using u nth_mem [OF that] by auto
    then show ?thesis using assms(1) that by (simp add: numbered_def)
  qed
  then show ?thesis using assms u by (auto simp: numbered_def nth_append nth_list_update less_Suc_eq)
qed

text \<open>A list of ids that have no number yet.\<close>

lemma numbered_give_list:
  "numbered n ord tbl \<Longrightarrow> distinct us \<Longrightarrow> set us \<subseteq> {..<n} - set ord \<Longrightarrow>
   \<exists>tbl'. fold give us (tbl, length ord) = (tbl', length (ord @ us)) \<and> numbered n (ord @ us) tbl'"
proof (induction us arbitrary: ord tbl)
  case (Cons u us)
  then have u: "u < n" "tbl ! u = None" using numbered_None [of n ord tbl u] by auto
  have "set us \<subseteq> {..<n} - set (ord @ [u])" using Cons.prems(2,3) by auto
  with Cons.IH [OF numbered_give [OF Cons.prems(1) u]] Cons.prems(2) show ?case by (auto simp: give_def)
qed simp

lemma numbered_full:
  assumes "numbered n ord tbl" and "set ord = {..<n}"
  shows "length ord = n"
    and "u < n \<Longrightarrow> \<exists>i < n. tbl ! u = Some i \<and> ord ! i = u"
    and "i < n \<Longrightarrow> ord ! i < n \<and> tbl ! (ord ! i) = Some i"
    and "distinct (map the tbl)" and "set (map the tbl) = {..<n}"
proof -
  have len: "length ord = n" using assms distinct_card [of ord] by (simp add: numbered_def)
  then show "length ord = n" .
  have ix: "\<exists>i < n. tbl ! u = Some i \<and> ord ! i = u" if "u < n" for u
  proof -
    have "u \<in> set ord" using assms(2) that by simp
    then obtain i where i: "i < length ord" "ord ! i = u" by (metis in_set_conv_nth)
    moreover have "\<forall>i < length ord. tbl ! (ord ! i) = Some i" using assms(1) unfolding numbered_def by blast
    ultimately have "tbl ! u = Some i" by auto
    with i len show ?thesis by auto
  qed
  then show "u < n \<Longrightarrow> \<exists>i < n. tbl ! u = Some i \<and> ord ! i = u" .
  have at: "ord ! i < n \<and> tbl ! (ord ! i) = Some i" if "i < n" for i
  proof -
    have "ord ! i \<in> {..<n}" using nth_mem [of i ord] that len assms(2) by simp
    moreover have "\<forall>i < length ord. tbl ! (ord ! i) = Some i" using assms(1) unfolding numbered_def by blast
    ultimately show ?thesis using that len by simp
  qed
  then show "i < n \<Longrightarrow> ord ! i < n \<and> tbl ! (ord ! i) = Some i" .
  have l: "length tbl = n" using assms(1) by (rule numbered_length)
  have "map the tbl ! u = map the tbl ! v \<longrightarrow> u = v" if "u < n" "v < n" for u v
    using ix [OF that(1)] ix [OF that(2)] that l by auto
  then show "distinct (map the tbl)" using l unfolding distinct_conv_nth by (metis length_map)
  show "set (map the tbl) = {..<n}"
  proof (intro set_eqI iffI)
    fix x assume "x \<in> set (map the tbl)"
    then obtain u where "u < n" "x = the (tbl ! u)" using l by (auto simp: in_set_conv_nth)
    then show "x \<in> {..<n}" using ix [of u] by auto
  next
    fix x assume "x \<in> {..<n}"
    then have "x = map the tbl ! (ord ! x)" "ord ! x < length (map the tbl)" using at [of x] l by auto
    then show "x \<in> set (map the tbl)" by (metis nth_mem)
  qed
qed

end
