(* ===== verification/Remap_Pages.thy ===== *)
theory Remap_Pages
  imports Numbering Hide_Pages "HOL-Library.AList"
begin

text \<open>
  \<open>tools/remap_diskann_pages.cpp\<close>: the records of an image in pairs, so that the two of a 4 KiB page
  are wanted together. Logical ids stay, the tool writes the slot of each id and the image in slot
  order, which \<open>Placement::load_id_slot_map\<close> and \<open>entry\<close> read. Files are lists of 32-bit words;
  \<open>None\<close> is an exit with status 2, or a write outside a vector.
\<close>

section \<open>The source image\<close>

definition rec_stride :: "layout_header \<Rightarrow> nat" where
  "rec_stride h = h_len_vectors h div h_n h"

definition rec_nnbrs :: "(nat \<Rightarrow> byte) \<Rightarrow> layout_header \<Rightarrow> nat \<Rightarrow> nat" where
  "rec_nnbrs img h u = u32_le (image_bytes img (h_off_vectors h + u * rec_stride h + h_dim h * h_vec_bytes h) 4)"

definition rec_nbr :: "(nat \<Rightarrow> byte) \<Rightarrow> layout_header \<Rightarrow> nat \<Rightarrow> nat \<Rightarrow> nat" where
  "rec_nbr img h u j =
     u32_le (image_bytes img (h_off_vectors h + u * rec_stride h + h_dim h * h_vec_bytes h + 4 + 4 * j) 4)"

text \<open>The neighbours that every loop over \<open>j < deg && j < R\<close> visits.\<close>

definition rec_row :: "(nat \<Rightarrow> byte) \<Rightarrow> layout_header \<Rightarrow> nat \<Rightarrow> nat list" where
  "rec_row img h u = map (rec_nbr img h u) [0..<min (rec_nnbrs img h u) (h_R h)]"

text \<open>The loops that stop after 64 neighbours other than the node itself.\<close>

definition other_nbrs :: "nat \<Rightarrow> (nat \<Rightarrow> nat list) \<Rightarrow> nat \<Rightarrow> nat list" where
  "other_nbrs n row u = take 64 (filter (\<lambda>v. v < n \<and> v \<noteq> u) (row u))"

text \<open>An expand trace: each count is followed by that many ids; the first odd count ends it.\<close>

function read_expands :: "nat list \<Rightarrow> nat list list" where
  "read_expands [] = []"
| "read_expands (cnt # ws) =
     (if cnt = 0 \<or> 256 < cnt \<or> length ws < cnt then [] else take cnt ws # read_expands (drop cnt ws))"
  by pat_completeness auto
termination by (relation "measure length") auto

section \<open>Pairs\<close>

record pairing =
  pr_used :: "bool list"
  pr_mate :: "nat option list"
  pr_paired :: nat

definition pr_start :: "nat \<Rightarrow> pairing" where
  "pr_start n = \<lparr>pr_used = replicate n False, pr_mate = replicate n None, pr_paired = 0\<rparr>"

definition pair_up :: "nat \<Rightarrow> nat \<Rightarrow> pairing \<Rightarrow> pairing" where
  "pair_up a b s =
     s\<lparr>pr_used := (pr_used s)[a := True, b := True], pr_mate := (pr_mate s)[a := Some b, b := Some a],
       pr_paired := pr_paired s + 1\<rparr>"

text \<open>\<open>neighbor\<close>: the first neighbour without a mate.\<close>

definition pair_nbr :: "nat \<Rightarrow> (nat \<Rightarrow> nat list) \<Rightarrow> nat \<Rightarrow> pairing \<Rightarrow> pairing" where
  "pair_nbr n row u s =
     (if pr_used s ! u then s
      else case List.find (\<lambda>v. v < n \<and> v \<noteq> u \<and> \<not> pr_used s ! v) (row u) of
             None \<Rightarrow> s
           | Some v \<Rightarrow> pair_up u v s)"

definition pair_nbrs :: "nat \<Rightarrow> (nat \<Rightarrow> nat list) \<Rightarrow> pairing \<Rightarrow> pairing" where
  "pair_nbrs n row s = fold (pair_nbr n row) [0..<n] s"

text \<open>\<open>coexpand\<close>: two members of one neighbour list; the first waits in \<open>pending\<close>.\<close>

definition coexpand_one :: "nat \<Rightarrow> nat \<Rightarrow> nat \<Rightarrow> nat option \<times> pairing \<Rightarrow> nat option \<times> pairing" where
  "coexpand_one n u v st =
     (case st of (pending, s) \<Rightarrow>
        if n \<le> v \<or> v = u \<or> pr_used s ! v \<or> pending = Some v then st
        else case pending of None \<Rightarrow> (Some v, s) | Some p \<Rightarrow> (None, pair_up p v s))"

definition coexpand :: "nat \<Rightarrow> (nat \<Rightarrow> nat list) \<Rightarrow> pairing \<Rightarrow> pairing" where
  "coexpand n row s = fold (\<lambda>u s. snd (fold (coexpand_one n u) (row u) (None, s))) [0..<n] s"

text \<open>\<open>cooccur\<close>: the weight of a pair is how often its ids come together; \<open>uint32_t\<close> counters.\<close>

type_synonym weights = "((nat \<times> nat) \<times> nat) list"

definition add_pair :: "nat \<Rightarrow> nat \<Rightarrow> nat \<Rightarrow> weights \<Rightarrow> weights" where
  "add_pair a b add wt =
     (if a = b then wt
      else let k = (min a b, max a b)
           in AList.update k (((case map_of wt k of None \<Rightarrow> 0 | Some c \<Rightarrow> c) + add) mod 2 ^ 32) wt)"

text \<open>All pairs of a list, first index first.\<close>

fun add_pairs :: "(nat \<Rightarrow> bool) \<Rightarrow> nat \<Rightarrow> nat list \<Rightarrow> weights \<Rightarrow> weights" where
  "add_pairs ok add [] wt = wt"
| "add_pairs ok add (a # as) wt =
     add_pairs ok add as (if ok a then fold (\<lambda>b. if ok b then add_pair a b add else id) as wt else wt)"

definition graph_weights :: "nat \<Rightarrow> (nat \<Rightarrow> nat list) \<Rightarrow> weights" where
  "graph_weights n row =
     fold (\<lambda>u. add_pairs (\<lambda>_. True) 1 (sort_unique (other_nbrs n row u))) [0..<n] []"

definition trace_weights :: "nat \<Rightarrow> nat list \<Rightarrow> weights \<Rightarrow> weights" where
  "trace_weights n ws wt =
     fold (\<lambda>ids. add_pairs (\<lambda>i. i < n) 1000 (sort_unique ids)) (read_expands ws) wt"

definition match_edge :: "(nat \<times> nat) \<times> nat \<Rightarrow> pairing \<Rightarrow> pairing" where
  "match_edge e s =
     (case e of ((a, b), w) \<Rightarrow> if pr_used s ! a \<or> pr_used s ! b then s else pair_up a b s)"

text \<open>The pairs come from an \<open>unordered_map\<close> and are sorted by weight with \<open>std::sort\<close>, which is not stable: the
  order of pairs of one weight is not determined by the source. \<open>tie\<close> is that order.\<close>

definition heavier :: "(nat \<times> nat \<Rightarrow> nat) \<Rightarrow> (nat \<times> nat) \<times> nat \<Rightarrow> (nat \<times> nat) \<times> nat \<Rightarrow> bool" where
  "heavier tie x y \<longleftrightarrow> snd y < snd x \<or> snd y = snd x \<and> tie (fst x) < tie (fst y)"

definition cooccur :: "(nat \<times> nat \<Rightarrow> nat) \<Rightarrow> nat \<Rightarrow> (nat \<Rightarrow> nat list) \<Rightarrow> bool \<Rightarrow> nat list \<Rightarrow> pairing \<Rightarrow> pairing" where
  "cooccur tie n row trace_pairs trace s =
     (let wt = trace_weights n trace (if trace_pairs then [] else graph_weights n row)
      in pair_nbrs n row (fold match_edge (std_sort (heavier tie) wt) s))"

section \<open>Slots\<close>

definition slot_pair :: "nat option list \<Rightarrow> nat \<Rightarrow> nat option list \<times> nat \<Rightarrow> nat option list \<times> nat" where
  "slot_pair mate u st =
     (case mate ! u of
        None \<Rightarrow> st
      | Some m \<Rightarrow> if m = u \<or> m < u then st else give m (give u st))"

definition assign_slots :: "nat \<Rightarrow> nat option list \<Rightarrow> nat list option" where
  "assign_slots n mate =
     (let (tbl, k) = fold (slot_pair mate) [0..<n] (replicate n None, 0);
          leftover = filter (\<lambda>u. tbl ! u = None) [0..<n];
          (tbl1, k1) = fold give leftover (tbl, k)
      in if k1 = n then Some (map the tbl1) else None)"

section \<open>Page order\<close>

text \<open>\<open>extent\<close>: the pairs stay, pages are numbered in the order in which expands need them.\<close>

definition load_map_in :: "nat \<Rightarrow> nat list option \<Rightarrow> nat list option" where
  "load_map_in n file =
     (case file of
        None \<Rightarrow> None
      | Some ws \<Rightarrow> if length ws < n then None
                   else if list_all (\<lambda>s. s < n) (take n ws) then Some (take n ws) else None)"

definition pages_of :: "nat \<Rightarrow> nat list \<Rightarrow> nat list \<Rightarrow> nat list" where
  "pages_of n its ids = sort_unique (map (\<lambda>i. its ! i div 2) (filter (\<lambda>i. i < n) ids))"

definition expand_runs :: "nat \<Rightarrow> (nat \<Rightarrow> nat list) \<Rightarrow> nat list \<Rightarrow> nat list \<Rightarrow> nat list list" where
  "expand_runs n row trace its =
     filter (\<lambda>r. r \<noteq> []) (map (pages_of n its) (read_expands trace)) @
     filter (\<lambda>r. r \<noteq> []) (map (\<lambda>u. pages_of n its (other_nbrs n row u)) [0..<n])"

definition emit_page :: "nat \<Rightarrow> nat \<Rightarrow> nat option list \<times> nat \<Rightarrow> nat option list \<times> nat" where
  "emit_page np p st = (if np \<le> p \<or> fst st ! p \<noteq> None then st else give p st)"

definition extent_slots :: "nat \<Rightarrow> (nat \<Rightarrow> nat list) \<Rightarrow> nat list \<Rightarrow> nat list \<Rightarrow> nat list option" where
  "extent_slots n row trace its =
     (let np = (n + 1) mod 2 ^ 32 div 2;
          st = fold (fold (emit_page np)) (expand_runs n row trace its) (replicate np None, 0);
          (tbl, k) = fold (emit_page np) [0..<np] st
      in if k = np then Some (map (\<lambda>s. the (tbl ! (s div 2)) * 2 + s mod 2) its) else None)"

section \<open>The tool\<close>

datatype remap_mode = Pair_neighbor | Pair_coexpand | Pair_cooccur | Page_extent

definition remap_mode_of :: "string \<Rightarrow> remap_mode" where
  "remap_mode_of m = (if m = ''extent'' then Page_extent else if m = ''cooccur'' then Pair_cooccur
     else if m = ''coexpand'' then Pair_coexpand else Pair_neighbor)"

definition mates ::
  "nat \<Rightarrow> (nat \<Rightarrow> nat list) \<Rightarrow> remap_mode \<Rightarrow> (nat \<times> nat \<Rightarrow> nat) \<Rightarrow> bool \<Rightarrow> nat list \<Rightarrow> pairing" where
  "mates n row mode tie trace_pairs trace =
     (case mode of
        Pair_cooccur \<Rightarrow> cooccur tie n row trace_pairs trace (pr_start n)
      | Pair_coexpand \<Rightarrow> coexpand n row (pr_start n)
      | _ \<Rightarrow> pair_nbrs n row (pr_start n))"

text \<open>\<open>slot_to_id\<close> starts with zeros; the write to an index outside is \<open>None\<close>.\<close>

definition slots_to_ids :: "nat \<Rightarrow> nat list \<Rightarrow> nat list option" where
  "slots_to_ids n its =
     (if list_all (\<lambda>s. s < n) its
      then Some (fold (\<lambda>i sti. sti[its ! i := i]) [0..<n] (replicate n 0)) else None)"

definition remapped_image :: "(nat \<Rightarrow> byte) \<Rightarrow> layout_header \<Rightarrow> nat list \<Rightarrow> byte list" where
  "remapped_image img h sti =
     image_bytes img 0 (h_off_vectors h) @
     concat (map (\<lambda>i. image_bytes img (h_off_vectors h + i * rec_stride h) (rec_stride h)) sti)"

definition remap_slots ::
  "(nat \<Rightarrow> byte) \<Rightarrow> layout_header \<Rightarrow> remap_mode \<Rightarrow> nat list option \<Rightarrow> (nat \<times> nat \<Rightarrow> nat) \<Rightarrow> bool \<Rightarrow> nat list option option \<Rightarrow> nat list option" where
  "remap_slots img h mode map_in tie trace_pairs trace =
     (let n = h_n h; row = rec_row img h
      in if h_magic h \<noteq> kCxanMagic \<or> n = 0 then None
         else if trace = Some None \<and> (mode = Page_extent \<or> mode = Pair_cooccur) then None
         else let tr = (case trace of Some (Some ws) \<Rightarrow> ws | _ \<Rightarrow> [])
              in if mode = Page_extent
                 then (case load_map_in n map_in of None \<Rightarrow> None | Some its \<Rightarrow> extent_slots n row tr its)
                 else assign_slots n (pr_mate (mates n row mode tie trace_pairs tr)))"

text \<open>The map file, and the image unless only the map is wanted.\<close>

definition remap_pages ::
  "(nat \<Rightarrow> byte) \<Rightarrow> layout_header \<Rightarrow> remap_mode \<Rightarrow> nat list option \<Rightarrow> (nat \<times> nat \<Rightarrow> nat) \<Rightarrow> bool \<Rightarrow> nat list option option \<Rightarrow> bool \<Rightarrow>
   (nat list \<times> byte list option) option" where
  "remap_pages img h mode map_in tie trace_pairs trace map_only =
     (case remap_slots img h mode map_in tie trace_pairs trace of
        None \<Rightarrow> None
      | Some its \<Rightarrow>
          if map_only then Some (its, None)
          else map_option (\<lambda>sti. (its, Some (remapped_image img h sti))) (slots_to_ids (h_n h) its))"

section \<open>Matching\<close>

definition matched :: "nat \<Rightarrow> pairing \<Rightarrow> bool" where
  "matched n s \<longleftrightarrow> length (pr_used s) = n \<and> length (pr_mate s) = n \<and>
     (\<forall>u < n. pr_used s ! u \<longleftrightarrow> pr_mate s ! u \<noteq> None) \<and>
     (\<forall>u < n. \<forall>m. pr_mate s ! u = Some m \<longrightarrow> m < n \<and> m \<noteq> u \<and> pr_mate s ! m = Some u)"

lemma matched_start [simp]: "matched n (pr_start n)"
  by (simp add: matched_def pr_start_def)

lemma matchedD:
  assumes "matched n s"
  shows "length (pr_used s) = n" "length (pr_mate s) = n"
    and "u < n \<Longrightarrow> pr_used s ! u \<longleftrightarrow> pr_mate s ! u \<noteq> None"
    and "u < n \<Longrightarrow> pr_mate s ! u = Some m \<Longrightarrow> m < n \<and> m \<noteq> u \<and> pr_mate s ! m = Some u"
  using assms unfolding matched_def by blast+

lemma pair_up_matched:
  assumes "matched n s" and "a < n" "b < n" "a \<noteq> b" and "\<not> pr_used s ! a" "\<not> pr_used s ! b"
  shows "matched n (pair_up a b s)"
proof -
  note D = matchedD [OF assms(1)]
  have free: "pr_mate s ! a = None" "pr_mate s ! b = None" using D(3) assms(2,3,5,6) by blast+
  have apart: "m \<noteq> a \<and> m \<noteq> b" if "u < n" "pr_mate s ! u = Some m" for u m
    using D(4) [OF that] free by auto
  have at: "pr_mate (pair_up a b s) ! u = (if u = b then Some a else if u = a then Some b else pr_mate s ! u)" if "u < n" for u
    using assms(2-4) D(2) that by (simp add: pair_up_def nth_list_update)
  have us: "pr_used (pair_up a b s) ! u = (u = b \<or> u = a \<or> pr_used s ! u)" if "u < n" for u
    using assms(2-4) D(1) that by (simp add: pair_up_def nth_list_update)
  show ?thesis
    unfolding matched_def
  proof (intro conjI allI impI)
    show "length (pr_used (pair_up a b s)) = n" "length (pr_mate (pair_up a b s)) = n" using D(1,2) by (simp_all add: pair_up_def)
    show "pr_used (pair_up a b s) ! u \<longleftrightarrow> pr_mate (pair_up a b s) ! u \<noteq> None" if "u < n" for u
      unfolding at [OF that] us [OF that] using D(3) [OF that] by auto
    fix u m assume u: "u < n" and m: "pr_mate (pair_up a b s) ! u = Some m"
    have "m < n \<and> m \<noteq> u \<and> pr_mate (pair_up a b s) ! m = Some u"
    proof (cases "u = a \<or> u = b")
      case True
      then show ?thesis using m at [OF u] at [OF assms(2)] at [OF assms(3)] assms(2-4) by auto
    next
      case False
      then have s: "pr_mate s ! u = Some m" using m at [OF u] by simp
      then show ?thesis using D(4) [OF u s] apart [OF u s] at [of m] by simp
    qed
    then show "m < n" "m \<noteq> u" "pr_mate (pair_up a b s) ! m = Some u" by simp_all
  qed
qed

lemma fold_matched:
  assumes "\<And>x s. x \<in> set xs \<Longrightarrow> matched n s \<Longrightarrow> matched n (f x s)" and "matched n s"
  shows "matched n (fold f xs s)"
  using assms by (induction xs arbitrary: s) auto

lemma pair_nbr_matched: "u < n \<Longrightarrow> matched n s \<Longrightarrow> matched n (pair_nbr n row u s)"
  by (auto simp: pair_nbr_def find_Some_iff intro!: pair_up_matched split: option.splits)

lemma pair_nbrs_matched: "matched n s \<Longrightarrow> matched n (pair_nbrs n row s)"
  unfolding pair_nbrs_def by (rule fold_matched) (auto intro: pair_nbr_matched)

definition pending_ok :: "nat \<Rightarrow> nat option \<times> pairing \<Rightarrow> bool" where
  "pending_ok n st \<longleftrightarrow> matched n (snd st) \<and> (\<forall>p. fst st = Some p \<longrightarrow> p < n \<and> \<not> pr_used (snd st) ! p)"

lemma coexpand_one_matched: "pending_ok n st \<Longrightarrow> pending_ok n (coexpand_one n u v st)"
proof (cases st)
  case (Pair pending s)
  assume st: "pending_ok n st"
  show ?thesis
  proof (cases "n \<le> v \<or> v = u \<or> pr_used s ! v \<or> pending = Some v")
    case True
    with st show ?thesis by (simp add: coexpand_one_def Pair)
  next
    case False
    then have v: "v < n" "\<not> pr_used s ! v" "pending \<noteq> Some v" by simp_all
    show ?thesis
    proof (cases pending)
      case None
      with st v False show ?thesis by (simp add: coexpand_one_def pending_ok_def Pair)
    next
      case (Some p)
      then have "p < n" "\<not> pr_used s ! p" "p \<noteq> v" "matched n s" using st v by (simp_all add: pending_ok_def Pair)
      then have "matched n (pair_up p v s)" using v by (intro pair_up_matched)
      with False Some show ?thesis by (simp add: coexpand_one_def pending_ok_def Pair)
    qed
  qed
qed

lemma coexpand_matched: "matched n s \<Longrightarrow> matched n (coexpand n row s)"
proof -
  have row: "pending_ok n st \<Longrightarrow> pending_ok n (fold (coexpand_one n u) vs st)" for u vs st
    by (induction vs arbitrary: st) (simp_all add: coexpand_one_matched)
  have "matched n s \<Longrightarrow> matched n (snd (fold (coexpand_one n u) vs (None, s)))" for u vs s
    using row [of "(None, s)"] by (simp add: pending_ok_def)
  then show "matched n s \<Longrightarrow> matched n (coexpand n row s)"
    unfolding coexpand_def by (intro fold_matched) auto
qed

text \<open>Weights are kept for two different ids of the image only.\<close>

definition pair_keys :: "nat \<Rightarrow> weights \<Rightarrow> bool" where
  "pair_keys n wt \<longleftrightarrow> (\<forall>((a, b), w) \<in> set wt. a < n \<and> b < n \<and> a \<noteq> b)"

lemma add_pair_keys:
  assumes "pair_keys n wt" and "a < n" "b < n"
  shows "pair_keys n (add_pair a b c wt)"
proof -
  have "k \<in> insert (min a b, max a b) (fst ` set wt)" if "a \<noteq> b" "(k, w) \<in> set (add_pair a b c wt)" for k w
  proof -
    have "fst (k, w) \<in> fst ` set (add_pair a b c wt)" using that(2) by (rule imageI)
    then show ?thesis using that(1) by (simp add: add_pair_def Let_def dom_update)
  qed
  then show ?thesis using assms
    by (cases "a = b") (fastforce simp: pair_keys_def add_pair_def min_def max_def)+
qed

lemma add_pairs_keys:
  assumes "pair_keys n wt" and "\<forall>i \<in> set is. ok i \<longrightarrow> i < n"
  shows "pair_keys n (add_pairs ok c is wt)"
  using assms
proof (induction "is" arbitrary: wt)
  case (Cons a as)
  have "pair_keys n (fold (\<lambda>b. if ok b then add_pair a b c else id) bs wt)"
    if "ok a" "set bs \<subseteq> set as" "pair_keys n wt" for bs wt
    using that Cons.prems(2) by (induction bs arbitrary: wt) (auto intro!: add_pair_keys)
  with Cons show ?case by simp
qed simp

lemma fold_keys:
  "(\<And>x wt. x \<in> set xs \<Longrightarrow> pair_keys n wt \<Longrightarrow> pair_keys n (f x wt)) \<Longrightarrow> pair_keys n wt \<Longrightarrow> pair_keys n (fold f xs wt)"
  by (induction xs arbitrary: wt) auto

lemma graph_weights_keys: "pair_keys n (graph_weights n row)"
  unfolding graph_weights_def
proof (rule fold_keys)
  fix u wt assume "pair_keys n wt"
  then show "pair_keys n (add_pairs (\<lambda>_. True) 1 (sort_unique (other_nbrs n row u)) wt)"
    using set_take_subset [of 64 "filter (\<lambda>v. v < n \<and> v \<noteq> u) (row u)"]
    by (intro add_pairs_keys) (auto simp: set_sort_unique other_nbrs_def)
qed (simp add: pair_keys_def)

lemma trace_weights_keys: "pair_keys n wt \<Longrightarrow> pair_keys n (trace_weights n ws wt)"
  unfolding trace_weights_def by (rule fold_keys) (auto intro: add_pairs_keys)

lemma cooccur_matched:
  assumes "matched n s"
  shows "matched n (cooccur tie n row tp trace s)"
proof -
  let ?wt = "trace_weights n trace (if tp then [] else graph_weights n row)"
  have keys: "pair_keys n (std_sort (heavier tie) ?wt)"
    using trace_weights_keys [of n "if tp then [] else graph_weights n row" trace] graph_weights_keys [of n row]
    by (simp add: pair_keys_def flip: set_mset_mset)
  have "matched n (fold match_edge (std_sort (heavier tie) ?wt) s)"
  proof (rule fold_matched [OF _ assms])
    fix e s assume "e \<in> set (std_sort (heavier tie) ?wt)" "matched n s"
    then show "matched n (match_edge e s)"
      using keys by (auto simp: pair_keys_def match_edge_def intro!: pair_up_matched)
  qed
  then show ?thesis by (simp add: cooccur_def Let_def pair_nbrs_matched)
qed

lemma mates_matched: "matched n (mates n row mode tie tp trace)"
  by (cases mode) (simp_all add: mates_def pair_nbrs_matched coexpand_matched cooccur_matched)

section \<open>The slots of pairs\<close>

definition mate_pages :: "nat option list \<Rightarrow> nat list \<Rightarrow> nat option list \<Rightarrow> bool" where
  "mate_pages mate ord tbl \<longleftrightarrow>
     (\<forall>u \<in> set ord. \<forall>m. mate ! u = Some m \<longrightarrow> m \<in> set ord \<and> the (tbl ! u) div 2 = the (tbl ! m) div 2)"

lemma numbered_extend:
  assumes "numbered n ord tbl" "numbered n (ord @ us) tbl'" "u \<in> set ord"
  shows "tbl' ! u = tbl ! u"
proof -
  obtain i where i: "i < length ord" "u = ord ! i" using assms(3) by (metis in_set_conv_nth)
  have "tbl' ! ((ord @ us) ! i) = Some i" using assms(2) i(1) by (simp add: numbered_def)
  then show ?thesis using assms(1) i by (simp add: numbered_def nth_append)
qed

lemma slot_pairs_ok:
  assumes M: "length mate = n" "\<forall>u < n. \<forall>m. mate ! u = Some m \<longrightarrow> m < n \<and> m \<noteq> u \<and> mate ! m = Some u" and "j \<le> n"
  shows "\<exists>ord tbl. fold (slot_pair mate) [0..<j] (replicate n None, 0) = (tbl, length ord) \<and> numbered n ord tbl \<and>
    even (length ord) \<and> set ord = {u. u < n \<and> (\<exists>m. mate ! u = Some m \<and> min u m < j)} \<and> mate_pages mate ord tbl"
  using assms(3)
proof (induction j)
  case 0
  show ?case by (rule exI [of _ "[]"]) (simp add: mate_pages_def)
next
  case (Suc j)
  then obtain ord tbl where IH: "fold (slot_pair mate) [0..<j] (replicate n None, 0) = (tbl, length ord)" "numbered n ord tbl"
    "even (length ord)" "set ord = {u. u < n \<and> (\<exists>m. mate ! u = Some m \<and> min u m < j)}" "mate_pages mate ord tbl" by auto
  have j: "j < n" using Suc.prems by simp
  have stepped: "fold (slot_pair mate) [0..<Suc j] (replicate n None, 0) = slot_pair mate j (tbl, length ord)"
    using IH(1) by simp
  show ?case
  proof (cases "\<exists>m. mate ! j = Some m \<and> j < m")
    case False
    have "slot_pair mate j (tbl, length ord) = (tbl, length ord)"
      using False by (auto simp: slot_pair_def not_less split: option.splits)
    moreover have "min u m < Suc j \<longleftrightarrow> min u m < j" if "u < n" "mate ! u = Some m" for u m
    proof -
      have "min u m \<noteq> j"
      proof
        assume "min u m = j"
        have mu: "m < n" "m \<noteq> u" "mate ! m = Some u" using M(2) that by blast+
        from \<open>min u m = j\<close> consider "u = j" "j \<le> m" | "m = j" "j \<le> u" by (auto simp: min_def split: if_splits)
        then show False
        proof cases
          case 1
          then show ?thesis using False that(2) mu(2) by auto
        next
          case 2
          then show ?thesis using False mu by auto
        qed
      qed
      then show ?thesis by auto
    qed
    ultimately show ?thesis using IH stepped by (intro exI [of _ ord] exI [of _ tbl]) auto
  next
    case True
    then obtain m where m: "mate ! j = Some m" "j < m" by blast
    have mm: "m < n" "mate ! m = Some j" using M(2) j m(1) by blast+
    have nj: "j \<notin> set ord" "m \<notin> set ord" using IH(4) m mm by auto
    let ?tbl = "tbl[j := Some (length ord), m := Some (length ord + 1)]"
    have "numbered n (ord @ [j]) (tbl[j := Some (length ord)])"
      using numbered_give [OF IH(2) j] numbered_None [OF IH(2) j] nj by simp
    moreover have "tbl[j := Some (length ord)] ! m = None"
      using numbered_None [OF IH(2) mm(1)] nj m(2) by simp
    ultimately have num: "numbered n (ord @ [j, m]) ?tbl"
      using numbered_give [of n "ord @ [j]" "tbl[j := Some (length ord)]" m] mm(1) by simp
    have at: "?tbl ! j = Some (length ord)" "?tbl ! m = Some (length ord + 1)"
      using j mm(1) m(2) numbered_length [OF IH(2)] by (simp_all add: nth_list_update)
    have "slot_pair mate j (tbl, length ord) = (?tbl, length (ord @ [j, m]))"
      using m by (simp add: slot_pair_def give_def)
    moreover have "set (ord @ [j, m]) = {u. u < n \<and> (\<exists>m. mate ! u = Some m \<and> min u m < Suc j)}" (is "?l = ?r")
    proof (intro set_eqI iffI)
      fix u assume "u \<in> ?l"
      then consider "u \<in> set ord" | "u = j" | "u = m" by auto
      then show "u \<in> ?r"
      proof cases
        case 1
        then show ?thesis unfolding IH(4) by (auto simp: less_Suc_eq)
      qed (use j m mm in auto)
    next
      fix u assume "u \<in> ?r"
      then obtain v where v: "u < n" "mate ! u = Some v" "min u v < Suc j" by auto
      have vu: "mate ! v = Some u" using M(2) v by blast
      have "min u v < j \<or> u = j \<or> v = j" using v(3) by linarith
      then show "u \<in> ?l" using v m(1) vu unfolding set_append IH(4) by auto
    qed
    moreover have "mate_pages mate (ord @ [j, m]) ?tbl"
      unfolding mate_pages_def
    proof (intro ballI allI impI)
      fix u v assume u: "u \<in> set (ord @ [j, m])" and v: "mate ! u = Some v"
      show "v \<in> set (ord @ [j, m]) \<and> the (?tbl ! u) div 2 = the (?tbl ! v) div 2"
      proof (cases "u \<in> set ord")
        case True
        then have "v \<in> set ord" "the (tbl ! u) div 2 = the (tbl ! v) div 2" using IH(5) v by (auto simp: mate_pages_def)
        then show ?thesis using numbered_extend [OF IH(2) num] True by auto
      next
        case False
        then consider "u = j" "v = m" | "u = m" "v = j" using u v m(1) mm(2) by auto
        then show ?thesis using at IH(3) by cases simp_all
      qed
    qed
    ultimately show ?thesis using IH(3) num stepped by (intro exI [of _ "ord @ [j, m]"] exI [of _ ?tbl]) auto
  qed
qed

lemma assign_slots_ok:
  assumes M: "length mate = n" "\<forall>u < n. \<forall>m. mate ! u = Some m \<longrightarrow> m < n \<and> m \<noteq> u \<and> mate ! m = Some u"
  shows "\<exists>its. assign_slots n mate = Some its \<and> length its = n \<and> distinct its \<and> set its = {..<n} \<and>
    (\<forall>u < n. \<forall>m. mate ! u = Some m \<longrightarrow> its ! u div 2 = its ! m div 2)"
proof -
  obtain ord tbl where P: "fold (slot_pair mate) [0..<n] (replicate n None, 0) = (tbl, length ord)" "numbered n ord tbl"
    "set ord = {u. u < n \<and> (\<exists>m. mate ! u = Some m \<and> min u m < n)}" "mate_pages mate ord tbl"
    using slot_pairs_ok [OF M, of n] by auto
  let ?rest = "filter (\<lambda>u. tbl ! u = None) [0..<n]"
  have rest: "set ?rest = {..<n} - set ord" using numbered_None [OF P(2)] by auto
  then obtain tbl1 where Q: "fold give ?rest (tbl, length ord) = (tbl1, length (ord @ ?rest))" "numbered n (ord @ ?rest) tbl1"
    using numbered_give_list [OF P(2), of ?rest] by auto
  have all: "set (ord @ ?rest) = {..<n}" using rest P(3) by auto
  note full = numbered_full [OF Q(2) all]
  have "assign_slots n mate = Some (map the tbl1)" using P(1) Q(1) full(1) by (simp add: assign_slots_def)
  moreover have "map the tbl1 ! u div 2 = map the tbl1 ! m div 2" if "u < n" "mate ! u = Some m" for u m
  proof -
    have m: "m < n" using M(2) that by blast
    have "u \<in> set ord" using that P(3) m by (auto simp: min_def)
    then have "m \<in> set ord" "the (tbl ! u) div 2 = the (tbl ! m) div 2" using P(4) that(2) by (auto simp: mate_pages_def)
    then show ?thesis
      using numbered_extend [OF P(2) Q(2)] \<open>u \<in> set ord\<close> numbered_length [OF Q(2)] that(1) m by simp
  qed
  ultimately show ?thesis using full(4,5) numbered_length [OF Q(2)] by auto
qed

section \<open>Pages in the order of the runs\<close>

lemma emit_page_ok:
  assumes "numbered np ord tbl"
  shows "\<exists>us tbl'. emit_page np p (tbl, length ord) = (tbl', length (ord @ us)) \<and> numbered np (ord @ us) tbl' \<and>
    set us = {q. q = p \<and> p < np} - set ord"
proof (cases "p < np \<and> tbl ! p = None")
  case True
  then have "emit_page np p (tbl, length ord) = (tbl[p := Some (length ord)], length (ord @ [p]))"
    by (simp add: emit_page_def give_def)
  moreover have "p \<notin> set ord" using True numbered_None [OF assms] by blast
  ultimately show ?thesis using numbered_give [OF assms] True by (intro exI [of _ "[p]"]) auto
next
  case False
  then have "emit_page np p (tbl, length ord) = (tbl, length ord)" by (auto simp: emit_page_def)
  then show ?thesis using False numbered_None [OF assms, of p] assms by (intro exI [of _ "[] :: nat list"] exI [of _ tbl]) auto
qed

lemma emit_pages_ok:
  assumes "numbered np ord tbl"
  shows "\<exists>us tbl'. fold (emit_page np) ps (tbl, length ord) = (tbl', length (ord @ us)) \<and> numbered np (ord @ us) tbl' \<and>
    set us = {q \<in> set ps. q < np} - set ord"
  using assms
proof (induction ps arbitrary: ord tbl)
  case (Cons p ps)
  obtain us tbl' where u: "emit_page np p (tbl, length ord) = (tbl', length (ord @ us))" "numbered np (ord @ us) tbl'"
    "set us = {q. q = p \<and> p < np} - set ord" using emit_page_ok [OF Cons.prems] by blast
  from Cons.IH [OF u(2)] obtain vs tbl2 where
    "fold (emit_page np) ps (tbl', length (ord @ us)) = (tbl2, length (ord @ us @ vs))" "numbered np (ord @ us @ vs) tbl2"
    "set vs = {q \<in> set ps. q < np} - set (ord @ us)" by auto
  then show ?case using u by (intro exI [of _ "us @ vs"] exI [of _ tbl2]) auto
qed auto

lemma emit_runs_ok:
  assumes "numbered np ord tbl"
  shows "\<exists>us tbl'. fold (fold (emit_page np)) rs (tbl, length ord) = (tbl', length (ord @ us)) \<and> numbered np (ord @ us) tbl' \<and>
    set us = {q \<in> \<Union> (set ` set rs). q < np} - set ord"
  using assms
proof (induction rs arbitrary: ord tbl)
  case (Cons r rs)
  obtain us tbl' where u: "fold (emit_page np) r (tbl, length ord) = (tbl', length (ord @ us))" "numbered np (ord @ us) tbl'"
    "set us = {q \<in> set r. q < np} - set ord" using emit_pages_ok [OF Cons.prems] by blast
  from Cons.IH [OF u(2)] obtain vs tbl2 where
    "fold (fold (emit_page np)) rs (tbl', length (ord @ us)) = (tbl2, length (ord @ us @ vs))" "numbered np (ord @ us @ vs) tbl2"
    "set vs = {q \<in> \<Union> (set ` set rs). q < np} - set (ord @ us)" by auto
  then show ?case using u by (intro exI [of _ "us @ vs"] exI [of _ tbl2]) auto
qed auto

text \<open>The ids of a block of the order have neighbouring numbers.\<close>

lemma numbered_block:
  assumes "numbered n (a @ us @ b) tbl"
  shows "(\<lambda>u. the (tbl ! u)) ` set us = {length a..<length a + length us}"
proof -
  have at: "tbl ! (us ! i) = Some (length a + i)" if "i < length us" for i
  proof -
    have "(a @ us @ b) ! (length a + i) = us ! i" using that by (simp add: nth_append)
    moreover have "\<forall>i < length (a @ us @ b). tbl ! ((a @ us @ b) ! i) = Some i" using assms unfolding numbered_def by blast
    then have "tbl ! ((a @ us @ b) ! (length a + i)) = Some (length a + i)" using that by (elim allE [of _ "length a + i"]) simp
    ultimately show ?thesis by simp
  qed
  have "set us = (!) us ` {0..<length us}" by (metis list.set_map map_nth set_upt)
  then have "(\<lambda>u. the (tbl ! u)) ` set us = (\<lambda>i. the (tbl ! (us ! i))) ` {0..<length us}" by (simp add: image_image)
  also have "\<dots> = (\<lambda>i. length a + i) ` {0..<length us}" using at by auto
  finally show ?thesis by (simp add: image_add_atLeastLessThan add.commute)
qed

text \<open>The page table of \<open>extent_slots\<close>.\<close>

lemma extent_table:
  assumes "\<And>r. r \<in> set rs \<Longrightarrow> set r \<subseteq> {..<np}"
  shows "\<exists>ord tbl. fold (emit_page np) [0..<np] (fold (fold (emit_page np)) rs (replicate np None, 0)) = (tbl, np) \<and>
    numbered np ord tbl \<and> set ord = {..<np} \<and>
    (\<forall>rs1 r rs2. rs = rs1 @ r # rs2 \<longrightarrow>
       (\<exists>a. (\<lambda>p. the (tbl ! p)) ` (set r - \<Union> (set ` set rs1)) = {a..<a + card (set r - \<Union> (set ` set rs1))}))"
proof -
  have go: "\<exists>us tbl. fold (emit_page np) [0..<np] (fold (fold (emit_page np)) rs2 (tbl0, length ord)) = (tbl, length (ord @ us)) \<and>
    numbered np (ord @ us) tbl \<and> set (ord @ us) = {..<np}" if num0: "numbered np ord tbl0" for rs2 ord tbl0
  proof -
    obtain us tbl1 where u: "fold (fold (emit_page np)) rs2 (tbl0, length ord) = (tbl1, length (ord @ us))" "numbered np (ord @ us) tbl1"
      using emit_runs_ok [OF num0] by blast
    obtain vs tbl2 where v: "fold (emit_page np) [0..<np] (tbl1, length (ord @ us)) = (tbl2, length ((ord @ us) @ vs))"
      "numbered np ((ord @ us) @ vs) tbl2" "set vs = {q \<in> set [0..<np]. q < np} - set (ord @ us)"
      using emit_pages_ok [OF u(2)] by blast
    have "set ((ord @ us) @ vs) = {..<np}" using v(2,3) by (auto simp: numbered_def)
    then show ?thesis using u v by (intro exI [of _ "us @ vs"] exI [of _ tbl2]) simp
  qed
  obtain ord tbl where o: "fold (emit_page np) [0..<np] (fold (fold (emit_page np)) rs (replicate np None, 0)) = (tbl, length ord)"
    "numbered np ord tbl" "set ord = {..<np}" using go [of "[]" "replicate np None" rs] by auto
  have "\<exists>a. (\<lambda>p. the (tbl ! p)) ` (set r - \<Union> (set ` set rs1)) = {a..<a + card (set r - \<Union> (set ` set rs1))}"
    if rs: "rs = rs1 @ r # rs2" for rs1 r rs2
  proof -
    obtain o1 t1 where 1: "fold (fold (emit_page np)) rs1 (replicate np None, 0) = (t1, length o1)" "numbered np o1 t1"
      "set o1 = {q \<in> \<Union> (set ` set rs1). q < np}"
      using emit_runs_ok [of np "[]" "replicate np None" rs1] by auto
    obtain us t2 where 2: "fold (emit_page np) r (t1, length o1) = (t2, length (o1 @ us))" "numbered np (o1 @ us) t2"
      "set us = {q \<in> set r. q < np} - set o1" using emit_pages_ok [OF 1(2)] by blast
    obtain vs t3 where 3: "fold (emit_page np) [0..<np] (fold (fold (emit_page np)) rs2 (t2, length (o1 @ us))) = (t3, length ((o1 @ us) @ vs))"
      "numbered np ((o1 @ us) @ vs) t3" using go [OF 2(2)] by blast
    have t: "t3 = tbl" using o(1) 1(1) 2(1) 3(1) rs by simp
    have "set r \<subseteq> {..<np}" using assms rs by simp
    then have su: "set us = set r - \<Union> (set ` set rs1)" using 1(3) 2(3) by auto
    have "distinct us" using 2(2) by (simp add: numbered_def)
    then have "card (set r - \<Union> (set ` set rs1)) = length us" using distinct_card su by metis
    then show ?thesis using numbered_block [of np o1 us vs tbl] 3(2) t su by auto
  qed
  moreover have "length ord = np" using numbered_full(1) [OF o(2,3)] .
  ultimately show ?thesis using o by blast
qed

lemma pages_of_below:
  assumes "set its = {..<n}" "length its = n" and "even n"
  shows "set (pages_of n its ids) \<subseteq> {..<n div 2}"
proof
  fix q assume "q \<in> set (pages_of n its ids)"
  then obtain i where "q = its ! i div 2" "i < n" by (auto simp: pages_of_def set_sort_unique)
  moreover have "its ! i < n" using assms(1,2) \<open>i < n\<close> nth_mem [of i its] by auto
  ultimately show "q \<in> {..<n div 2}" using assms(3) by (auto elim!: evenE)
qed

definition perm_below :: "nat \<Rightarrow> nat list \<Rightarrow> bool" where
  "perm_below n xs \<longleftrightarrow> length xs = n \<and> distinct xs \<and> set xs = {..<n}"

lemma perm_belowI:
  assumes "length xs = n" and "\<And>i. i < n \<Longrightarrow> xs ! i < n" and "\<And>i j. i < n \<Longrightarrow> j < n \<Longrightarrow> xs ! i = xs ! j \<Longrightarrow> i = j"
  shows "perm_below n xs"
proof -
  have "distinct xs" using assms(1,3) by (simp add: distinct_conv_nth) blast
  moreover have "\<forall>x \<in> set xs. x < length xs" using assms(1,2) by (metis in_set_conv_nth)
  ultimately show ?thesis using perm_onto [of xs] assms(1) by (simp add: perm_below_def)
qed

lemma perm_belowD:
  assumes "perm_below n xs"
  shows "length xs = n" "i < n \<Longrightarrow> xs ! i < n" "i < n \<Longrightarrow> j < n \<Longrightarrow> xs ! i = xs ! j \<longleftrightarrow> i = j" "s < n \<Longrightarrow> \<exists>i < n. xs ! i = s"
proof -
  show l: "length xs = n" using assms by (simp add: perm_below_def)
  show "i < n \<Longrightarrow> xs ! i < n" using assms l nth_mem [of i xs] by (auto simp: perm_below_def)
  show "i < n \<Longrightarrow> j < n \<Longrightarrow> xs ! i = xs ! j \<longleftrightarrow> i = j" using assms l by (simp add: perm_below_def nth_eq_iff_index_eq)
  show "s < n \<Longrightarrow> \<exists>i < n. xs ! i = s" using assms l by (metis in_set_conv_nth lessThan_iff perm_below_def)
qed

lemma even_pages: "even n \<Longrightarrow> (n :: nat) < 2 ^ 32 \<Longrightarrow> (n + 1) mod 2 ^ 32 div 2 = n div 2"
proof -
  assume "even n" "n < 2 ^ 32"
  then have "n + 1 < 2 ^ 32" by (cases "n + 1 = 2 ^ 32") (auto dest: arg_cong [of _ _ even])
  then show ?thesis using \<open>even n\<close> by simp
qed

lemma expand_runs_below:
  assumes "perm_below n its" and "even n" and "r \<in> set (expand_runs n row trace its)"
  shows "set r \<subseteq> {..<n div 2}"
  using assms pages_of_below [of its n] by (auto simp: expand_runs_def perm_below_def)

text \<open>The page of a slot in the new order; the half of the page stays.\<close>

lemma extent_slots_ok:
  assumes "perm_below n its" and "even n" and "n < 2 ^ 32"
  shows "\<exists>its'. extent_slots n row trace its = Some its' \<and> perm_below n its' \<and>
    (\<forall>u < n. \<forall>v < n. its' ! u div 2 = its' ! v div 2 \<longleftrightarrow> its ! u div 2 = its ! v div 2) \<and>
    (\<forall>rs1 r rs2. expand_runs n row trace its = rs1 @ r # rs2 \<longrightarrow>
       (let fresh = set r - \<Union> (set ` set rs1)
        in \<exists>a. (\<lambda>u. its' ! u div 2) ` {u. u < n \<and> its ! u div 2 \<in> fresh} = {a..<a + card fresh}))"
proof -
  let ?np = "n div 2" and ?rs = "expand_runs n row trace its"
  obtain ord tbl where T: "fold (emit_page ?np) [0..<?np] (fold (fold (emit_page ?np)) ?rs (replicate ?np None, 0)) = (tbl, ?np)"
    "numbered ?np ord tbl" "set ord = {..<?np}"
    and block: "\<forall>rs1 r rs2. ?rs = rs1 @ r # rs2 \<longrightarrow>
       (\<exists>a. (\<lambda>p. the (tbl ! p)) ` (set r - \<Union> (set ` set rs1)) = {a..<a + card (set r - \<Union> (set ` set rs1))})"
    using extent_table [of ?rs ?np] expand_runs_below [OF assms(1,2)] by metis
  note D = perm_belowD [OF assms(1)] and full = numbered_full [OF T(2,3)]
  let ?its = "map (\<lambda>s. the (tbl ! (s div 2)) * 2 + s mod 2) its"
  have e: "extent_slots n row trace its = Some ?its"
    unfolding extent_slots_def Let_def even_pages [OF assms(2,3)] using T(1) by (simp add: case_prod_beta)
  have pg: "its ! u div 2 < ?np" if "u < n" for u using D(2) [OF that] assms(2) by (auto elim!: evenE)
  have new: "?its ! u div 2 = the (tbl ! (its ! u div 2))" "?its ! u mod 2 = its ! u mod 2" if "u < n" for u
    using that D(1) by simp_all
  have inj: "the (tbl ! p) = the (tbl ! q) \<longleftrightarrow> p = q" "the (tbl ! p) < ?np" if pq: "p < ?np" "q < ?np" for p q
  proof -
    obtain i where i: "i < ?np" "tbl ! p = Some i" "ord ! i = p" using full(2) [OF pq(1)] by blast
    obtain j where j: "tbl ! q = Some j" "ord ! j = q" using full(2) [OF pq(2)] by blast
    show "the (tbl ! p) = the (tbl ! q) \<longleftrightarrow> p = q" by (metis i(2,3) j option.sel)
    show "the (tbl ! p) < ?np" by (simp only: i(1,2) option.sel)
  qed
  have share: "?its ! u div 2 = ?its ! v div 2 \<longleftrightarrow> its ! u div 2 = its ! v div 2" if "u < n" "v < n" for u v
    using inj(1) [OF pg [OF that(1)] pg [OF that(2)]] new(1) that by simp
  have perm: "perm_below n ?its"
  proof (rule perm_belowI)
    fix i assume i: "i < n"
    have "?its ! i div 2 < ?np" using inj(2) [OF pg [OF i] pg [OF i]] new(1) [OF i] by simp
    then show "?its ! i < n" using assms(2) by (auto elim!: evenE)
  next
    fix i j assume i: "i < n" and j: "j < n" and eq: "?its ! i = ?its ! j"
    have "its ! i div 2 = its ! j div 2" by (rule share [OF i j, THEN iffD1]) (simp only: eq)
    moreover have "its ! i mod 2 = its ! j mod 2" using new(2) [OF i] new(2) [OF j] eq by (simp only:)
    ultimately have "its ! i = its ! j" by (metis div_mult_mod_eq)
    then show "i = j" using D(3) [OF i j] by simp
  qed (simp add: D(1))
  have fresh: "\<exists>a. (\<lambda>u. ?its ! u div 2) ` {u. u < n \<and> its ! u div 2 \<in> fresh} = {a..<a + card fresh}"
    if "?rs = rs1 @ r # rs2" and f: "fresh = set r - \<Union> (set ` set rs1)" for rs1 r rs2 fresh
  proof -
    have sub: "fresh \<subseteq> {..<?np}" using expand_runs_below [OF assms(1,2), of r row trace] that by auto
    have "(\<lambda>u. ?its ! u div 2) ` {u. u < n \<and> its ! u div 2 \<in> fresh} = (\<lambda>p. the (tbl ! p)) ` fresh"
    proof (intro set_eqI iffI)
      fix x assume "x \<in> (\<lambda>p. the (tbl ! p)) ` fresh"
      then obtain p where p: "p \<in> fresh" "x = the (tbl ! p)" by blast
      then have "2 * p < n" using sub by auto
      then obtain u where "u < n" "its ! u = 2 * p" using D(4) by blast
      then show "x \<in> (\<lambda>u. ?its ! u div 2) ` {u. u < n \<and> its ! u div 2 \<in> fresh}"
        using p new(1) [of u] by (intro image_eqI [of _ _ u]) simp_all
    qed (auto simp: new(1))
    then show ?thesis using block that(1) f by metis
  qed
  show ?thesis
    unfolding Let_def
  proof (intro exI [of _ ?its] conjI allI impI)
    fix rs1 r rs2 assume "?rs = rs1 @ r # rs2"
    from fresh [OF this refl] show "\<exists>a. (\<lambda>u. ?its ! u div 2) ` {u. u < n \<and> its ! u div 2 \<in> set r - \<Union> (set ` set rs1)} =
      {a..<a + card (set r - \<Union> (set ` set rs1))}" .
  qed (fact e perm share)+
qed

section \<open>The image in slot order\<close>

lemma slots_to_ids_ok:
  assumes "perm_below n its"
  shows "\<exists>sti. slots_to_ids n its = Some sti \<and> length sti = n \<and> (\<forall>i < n. sti ! (its ! i) = i)"
proof -
  note D = perm_belowD [OF assms]
  have "j \<le> n \<Longrightarrow> length (fold (\<lambda>i sti. sti[its ! i := i]) [0..<j] (replicate n 0)) = n \<and>
    (\<forall>i < j. fold (\<lambda>i sti. sti[its ! i := i]) [0..<j] (replicate n 0) ! (its ! i) = i)" for j
  proof (induction j)
    case (Suc j)
    then show ?case using D(2,3) by (auto simp: less_Suc_eq nth_list_update)
  qed simp
  moreover have "list_all (\<lambda>s. s < n) its" using assms by (auto simp: perm_below_def list_all_iff)
  ultimately show ?thesis by (simp add: slots_to_ids_def)
qed

lemma concat_block:
  assumes "\<And>x. x \<in> set xs \<Longrightarrow> length (f x) = k" and "s < length xs"
  shows "mem_read (s * k) k (concat (map f xs)) = f (xs ! s)"
  using assms
proof (induction xs arbitrary: s)
  case (Cons x xs)
  show ?case
  proof (cases s)
    case 0
    then show ?thesis using Cons.prems(1) [of x] by (simp add: mem_read_def)
  next
    case (Suc t)
    then have "mem_read (t * k) k (concat (map f xs)) = f (xs ! t)" using Cons by simp
    then show ?thesis using Cons.prems(1) [of x] Suc by (simp add: mem_read_def)
  qed
qed simp

lemma length_concat_blocks:
  "(\<And>x. x \<in> set xs \<Longrightarrow> length (f x) = k) \<Longrightarrow> length (concat (map f xs)) = length xs * k"
  by (induction xs) simp_all

lemma remapped_image_record:
  assumes "s < length sti"
  shows "mem_read (h_off_vectors h + s * rec_stride h) (rec_stride h) (remapped_image img h sti) =
      image_bytes img (h_off_vectors h + sti ! s * rec_stride h) (rec_stride h)"
    and "h_off_vectors h + s * rec_stride h + rec_stride h \<le> length (remapped_image img h sti)"
    and "mem_read 0 (h_off_vectors h) (remapped_image img h sti) = image_bytes img 0 (h_off_vectors h)"
proof -
  let ?f = "\<lambda>i. image_bytes img (h_off_vectors h + i * rec_stride h) (rec_stride h)"
  have "mem_read (s * rec_stride h) (rec_stride h) (concat (map ?f sti)) = ?f (sti ! s)"
    by (rule concat_block) (simp_all add: assms)
  then show "mem_read (h_off_vectors h + s * rec_stride h) (rec_stride h) (remapped_image img h sti) = ?f (sti ! s)"
    by (simp add: remapped_image_def mem_read_def)
  have "length (remapped_image img h sti) = h_off_vectors h + length sti * rec_stride h"
    using length_concat_blocks [of sti ?f] by (simp add: remapped_image_def)
  moreover have "Suc s * rec_stride h \<le> length sti * rec_stride h" using assms by (intro mult_le_mono1) simp
  ultimately show "h_off_vectors h + s * rec_stride h + rec_stride h \<le> length (remapped_image img h sti)" by simp
  show "mem_read 0 (h_off_vectors h) (remapped_image img h sti) = image_bytes img 0 (h_off_vectors h)"
    by (simp add: remapped_image_def mem_read_def)
qed

lemma image_bytes_list: "off + len \<le> length bs \<Longrightarrow> image_bytes ((!) bs) off len = mem_read off len bs"
  by (auto intro!: nth_equalityI simp: nth_mem_read length_mem_read)

text \<open>With an odd number the last page is half full: one id alone has slot \<open>n - 1\<close>. It stays the last
  page, or some id gets slot \<open>n\<close>.\<close>

lemma extent_odd:
  assumes "perm_below n its" and "odd n" and "n + 1 < 2 ^ 32" and u: "u < n" "its ! u = n - 1"
  shows "\<exists>its'. extent_slots n row trace its = Some its' \<and> length its' = n \<and>
    (its' ! u = n - 1 \<longrightarrow> perm_below n its') \<and> (its' ! u \<noteq> n - 1 \<longrightarrow> n \<in> set its')"
proof -
  define np where "np = (n + 1) div 2"
  have n: "n + 1 = 2 * np" "0 < np" using assms(2) u by (auto simp: np_def elim!: oddE)
  note D = perm_belowD [OF assms(1)]
  have "set r \<subseteq> {..<np}" if "r \<in> set (expand_runs n row trace its)" for r
  proof -
    have "set (pages_of n its ids) \<subseteq> {..<np}" for ids
    proof
      fix q assume "q \<in> set (pages_of n its ids)"
      then obtain i where "q = its ! i div 2" "i < n" by (auto simp: pages_of_def set_sort_unique)
      then show "q \<in> {..<np}" using D(2) [of i] n by auto
    qed
    then show ?thesis using that unfolding expand_runs_def by auto
  qed
  then obtain ord tbl where T: "fold (emit_page np) [0..<np] (fold (fold (emit_page np)) (expand_runs n row trace its) (replicate np None, 0)) = (tbl, np)"
    "numbered np ord tbl" "set ord = {..<np}"
    using extent_table [of "expand_runs n row trace its" np] by metis
  note full = numbered_full [OF T(2,3)]
  let ?its = "map (\<lambda>s. the (tbl ! (s div 2)) * 2 + s mod 2) its"
  have "(n + 1) mod 2 ^ 32 div 2 = np" using assms(3) by (simp add: np_def)
  then have e: "extent_slots n row trace its = Some ?its"
    unfolding extent_slots_def Let_def using T(1) by (simp add: case_prod_beta)
  have inj: "the (tbl ! p) = the (tbl ! q) \<longleftrightarrow> p = q" "the (tbl ! p) < np" if pq: "p < np" "q < np" for p q
  proof -
    obtain i where i: "i < np" "tbl ! p = Some i" "ord ! i = p" using full(2) [OF pq(1)] by blast
    obtain j where j: "tbl ! q = Some j" "ord ! j = q" using full(2) [OF pq(2)] by blast
    show "the (tbl ! p) = the (tbl ! q) \<longleftrightarrow> p = q" by (metis i(2,3) j option.sel)
    show "the (tbl ! p) < np" by (simp only: i(1,2) option.sel)
  qed
  have pg: "its ! i div 2 < np" if "i < n" for i using D(2) [OF that] n by simp
  have new: "?its ! i = the (tbl ! (its ! i div 2)) * 2 + its ! i mod 2" if "i < n" for i using that D(1) by simp
  have last: "its ! u div 2 = np - 1" "its ! u mod 2 = 0" using u(2) n by auto
  have nu: "?its ! u = the (tbl ! (np - 1)) * 2" using new [OF u(1)] last by simp
  have "perm_below n ?its" if stays: "?its ! u = n - 1"
  proof (rule perm_belowI)
    have t: "the (tbl ! (np - 1)) = np - 1" using stays nu n by simp
    fix i assume i: "i < n"
    show "?its ! i < n"
    proof (rule ccontr)
      assume out: "\<not> ?its ! i < n"
      have high: "t = np - 1 \<and> m = 1" if "\<not> t * 2 + m < n" "t < np" "m < 2" for t m
        using that n by linarith
      have "the (tbl ! (its ! i div 2)) = np - 1 \<and> its ! i mod 2 = 1"
      proof (rule high)
        show "\<not> the (tbl ! (its ! i div 2)) * 2 + its ! i mod 2 < n" using out unfolding new [OF i] .
        show "the (tbl ! (its ! i div 2)) < np" by (rule inj(2) [OF pg [OF i] pg [OF i]])
      qed simp
      then have "its ! i div 2 = np - 1" "its ! i mod 2 = 1" using inj(1) [OF pg [OF i], of "np - 1"] t n(2) by simp_all
      then show False using D(2) [OF i] n by presburger
    qed
  next
    fix i j assume i: "i < n" and j: "j < n" and eq: "?its ! i = ?its ! j"
    have h: "a * 2 + b mod 2 = c * 2 + d mod 2 \<Longrightarrow> a = c \<and> b mod 2 = d mod 2" for a b c d :: nat by presburger
    have "the (tbl ! (its ! i div 2)) = the (tbl ! (its ! j div 2)) \<and> its ! i mod 2 = its ! j mod 2"
      using eq unfolding new [OF i] new [OF j] by (rule h)
    then have "its ! i div 2 = its ! j div 2" "its ! i mod 2 = its ! j mod 2" using inj(1) [OF pg [OF i] pg [OF j]] by simp_all
    then have "its ! i = its ! j" by (metis div_mult_mod_eq)
    then show "i = j" using D(3) [OF i j] by simp
  qed (simp add: D(1))
  moreover have "n \<in> set ?its" if moves: "?its ! u \<noteq> n - 1"
  proof -
    let ?p = "ord ! (np - 1)"
    have p: "?p < np" "tbl ! ?p = Some (np - 1)" using full(3) [of "np - 1"] n(2) by simp_all
    have "?p \<noteq> np - 1" using p(2) moves nu n by auto
    then have "2 * ?p + 1 < n" using p(1) n by linarith
    then obtain i where i: "i < n" "its ! i = 2 * ?p + 1" using D(4) by blast
    then have "?its ! i = (np - 1) * 2 + 1" using new [OF i(1)] p(2) by simp
    then have "?its ! i = n" using n by simp
    then show ?thesis using i(1) D(1) nth_mem [of i ?its] by simp
  qed
  ultimately show ?thesis using e D(1) by (intro exI [of _ ?its]) simp
qed

section \<open>Properties\<close>

text \<open>C18. The pairing modes always write a map, the map is a permutation that
  \<open>Placement::load_id_slot_map\<close> accepts, and the two ids of every pair the mode found (two different ids
  of the image) get the two halves of one page.\<close>
theorem remap_pairs_share_pages:
  assumes "h_magic h = kCxanMagic" and "h_n h \<noteq> 0" and "mode \<noteq> Page_extent"
    and "mode \<noteq> Pair_cooccur \<or> trace \<noteq> Some None" and "hdr p = Some h"
  shows "\<exists>its. remap_slots img h mode map_in tie tp trace = Some its \<and> perm_below (h_n h) its \<and>
    fst (load_id_slot_map (Some its) p) \<and>
    (\<forall>u < h_n h. \<forall>m. pr_mate (mates (h_n h) (rec_row img h) mode tie tp (case trace of Some (Some ws) \<Rightarrow> ws | _ \<Rightarrow> [])) ! u = Some m \<longrightarrow>
       m < h_n h \<and> m \<noteq> u \<and> its ! u div 2 = its ! m div 2)"
proof -
  let ?s = "mates (h_n h) (rec_row img h) mode tie tp (case trace of Some (Some ws) \<Rightarrow> ws | _ \<Rightarrow> [])"
  have M: "length (pr_mate ?s) = h_n h"
    "\<forall>u < h_n h. \<forall>m. pr_mate ?s ! u = Some m \<longrightarrow> m < h_n h \<and> m \<noteq> u \<and> pr_mate ?s ! m = Some u"
    using mates_matched [of "h_n h"] unfolding matched_def by blast+
  obtain its where its: "assign_slots (h_n h) (pr_mate ?s) = Some its" "length its = h_n h" "distinct its" "set its = {..<h_n h}"
    "\<forall>u < h_n h. \<forall>m. pr_mate ?s ! u = Some m \<longrightarrow> its ! u div 2 = its ! m div 2"
    using assign_slots_ok [OF M] by blast
  have "\<not> (trace = Some None \<and> (mode = Page_extent \<or> mode = Pair_cooccur))" using assms(3,4) by blast
  then have "remap_slots img h mode map_in tie tp trace = Some its"
    using assms(1-3) its(1) by (auto simp: remap_slots_def Let_def)
  moreover have "fst (load_id_slot_map (Some its) p)"
    unfolding load_slot_map_accepts [OF assms(5)] using its(2-4) by simp
  ultimately show ?thesis using its(2-5) M(2) unfolding perm_below_def by blast
qed

text \<open>With an even number of records, \<open>extent\<close> turns an accepted map into an accepted map in which the
  same ids share pages, and the pages that an expand needs and no earlier expand needed follow each
  other without a gap.\<close>
theorem extent_keeps_pairs:
  assumes "h_magic h = kCxanMagic" and "h_n h \<noteq> 0" and "even (h_n h)" and "h_n h < 2 ^ 32"
    and "hdr p = Some h" and "fst (load_id_slot_map (Some ws) p)" and "trace \<noteq> Some None"
  shows "\<exists>its. remap_slots img h Page_extent (Some ws) tie tp trace = Some its \<and> fst (load_id_slot_map (Some its) p) \<and>
    (\<forall>u < h_n h. \<forall>v < h_n h. its ! u div 2 = its ! v div 2 \<longleftrightarrow> ws ! u div 2 = ws ! v div 2) \<and>
    (\<forall>rs1 r rs2. expand_runs (h_n h) (rec_row img h) (case trace of Some (Some t) \<Rightarrow> t | _ \<Rightarrow> []) (take (h_n h) ws) = rs1 @ r # rs2 \<longrightarrow>
       (let fresh = set r - \<Union> (set ` set rs1)
        in \<exists>a. (\<lambda>u. its ! u div 2) ` {u. u < h_n h \<and> ws ! u div 2 \<in> fresh} = {a..<a + card fresh}))"
proof -
  let ?n = "h_n h" and ?t = "case trace of Some (Some t) \<Rightarrow> t | _ \<Rightarrow> []"
  note acc = load_slot_map_accepts [OF assms(5), THEN iffD1, OF assms(6)]
  have perm: "perm_below ?n (take ?n ws)"
  proof -
    have "length (take ?n ws) = ?n" using acc by simp
    then show ?thesis using acc perm_onto [of "take ?n ws"] by (simp add: perm_below_def)
  qed
  obtain its where its: "extent_slots ?n (rec_row img h) ?t (take ?n ws) = Some its" "perm_below ?n its"
    "\<forall>u < ?n. \<forall>v < ?n. its ! u div 2 = its ! v div 2 \<longleftrightarrow> take ?n ws ! u div 2 = take ?n ws ! v div 2"
    "\<forall>rs1 r rs2. expand_runs ?n (rec_row img h) ?t (take ?n ws) = rs1 @ r # rs2 \<longrightarrow>
       (let fresh = set r - \<Union> (set ` set rs1)
        in \<exists>a. (\<lambda>u. its ! u div 2) ` {u. u < ?n \<and> take ?n ws ! u div 2 \<in> fresh} = {a..<a + card fresh})"
    using extent_slots_ok [OF perm assms(3,4), of "rec_row img h" ?t] by blast
  have "load_map_in ?n (Some ws) = Some (take ?n ws)" using acc by (auto simp: load_map_in_def list_all_iff)
  then have r: "remap_slots img h Page_extent (Some ws) tie tp trace = Some its"
    using assms(1,2,7) its(1) by (simp add: remap_slots_def Let_def)
  have a: "fst (load_id_slot_map (Some its) p)"
    unfolding load_slot_map_accepts [OF assms(5)] using its(2) by (simp add: perm_below_def)
  have e: "{u. u < ?n \<and> take ?n ws ! u div 2 \<in> fresh} = {u. u < ?n \<and> ws ! u div 2 \<in> fresh}" for fresh by auto
  show ?thesis
    using r a its(3,4) unfolding e by (intro exI [of _ its]) simp
qed

lemma remap_slots_length:
  assumes "remap_slots img h mode map_in tie tp trace = Some its"
  shows "length its = h_n h"
proof (cases "mode = Page_extent")
  case True
  then obtain ms where "load_map_in (h_n h) map_in = Some ms" "length its = length ms"
    using assms by (auto simp: remap_slots_def extent_slots_def Let_def split: if_splits option.splits prod.splits)
  then show ?thesis by (auto simp: load_map_in_def split: option.splits if_splits)
next
  case False
  let ?s = "mates (h_n h) (rec_row img h) mode tie tp (case trace of Some (Some ws) \<Rightarrow> ws | _ \<Rightarrow> [])"
  have M: "length (pr_mate ?s) = h_n h"
    "\<forall>u < h_n h. \<forall>m. pr_mate ?s ! u = Some m \<longrightarrow> m < h_n h \<and> m \<noteq> u \<and> pr_mate ?s ! m = Some u"
    using mates_matched [of "h_n h"] unfolding matched_def by blast+
  have "assign_slots (h_n h) (pr_mate ?s) = Some its"
    using assms False by (auto simp: remap_slots_def Let_def split: if_splits)
  then show ?thesis using assign_slots_ok [OF M] by auto
qed

text \<open>C17. The image written with an accepted map gives back, under each logical id, the record of the
  source image, and everything before the vectors is copied.\<close>
theorem remap_keeps_records:
  assumes "remap_pages img h mode map_in tie tp trace False = Some (its, Some out)"
    and "h_dim h * h_vec_bytes h \<le> rec_stride h"
    and "load_id_slot_map (Some its) (set_header h (p\<lparr>ssd_image := (!) out\<rparr>)) = (True, q)" and "i < h_n h"
  shows "image_bytes (ssd_image q) (entry_off q h i) (rec_stride h) =
      image_bytes img (h_off_vectors h + i * rec_stride h) (rec_stride h) \<and>
    image_bytes (ssd_image q) 0 (h_off_vectors h) = image_bytes img 0 (h_off_vectors h)"
proof -
  let ?p = "set_header h (p\<lparr>ssd_image := (!) out\<rparr>)" and ?n = "h_n h"
  have p: "hdr ?p = Some h" "ssd_image ?p = (!) out" by (simp_all add: set_header_def Let_def)
  have vs: "vec_stride ?p = rec_stride h"
    using assms(2,4) by (auto simp: set_header_def Let_def rec_stride_def)
  obtain sti where sti: "slots_to_ids ?n its = Some sti" "out = remapped_image img h sti"
    using assms(1) by (auto simp: remap_pages_def split: option.splits if_splits)
  have len: "length its = ?n"
    using assms(1) remap_slots_length by (auto simp: remap_pages_def split: option.splits if_splits)
  have acc: "?n \<le> length its" "distinct (take ?n its)" "\<forall>s \<in> set (take ?n its). s < ?n"
    using load_slot_map_accepts [OF p(1), of its] assms(3) by simp_all
  have perm: "perm_below ?n its" using acc len perm_onto [of its] by (simp add: perm_below_def)
  have s: "length sti = ?n" "\<forall>i < ?n. sti ! (its ! i) = i" using slots_to_ids_ok [OF perm] sti(1) by auto
  have q: "slot_of q i = its ! i" "vec_stride q = rec_stride h" "ssd_image q = (!) out"
    using assms(3,4) p vs len by (auto simp: load_id_slot_map_def slot_of_def Let_def split: prod.splits if_splits)
  have lt: "its ! i < length sti" using perm_belowD(2) [OF perm assms(4)] s(1) by simp
  note R = remapped_image_record [OF lt, of h img, folded sti(2)]
  have "entry_off q h i = h_off_vectors h + its ! i * rec_stride h" by (simp add: entry_off_def q)
  then have "image_bytes (ssd_image q) (entry_off q h i) (rec_stride h) = image_bytes img (h_off_vectors h + i * rec_stride h) (rec_stride h)"
    using R(1,2) s(2) assms(4) by (simp add: q(3) image_bytes_list)
  moreover have "image_bytes (ssd_image q) 0 (h_off_vectors h) = image_bytes img 0 (h_off_vectors h)"
    using R(2,3) by (simp add: q(3) image_bytes_list)
  ultimately show ?thesis by simp
qed

text \<open>Four records of 12 bytes, a vector of one component, a count and one neighbour: \<open>0\<close> and \<open>2\<close> point to each other, and so do \<open>1\<close> and \<open>3\<close>.\<close>

definition pairs_header :: layout_header where
  "pairs_header = \<lparr>h_magic = kCxanMagic, h_version = 2, h_n = 4, h_dim = 1, h_R = 1, h_pq_bytes = 0,
     h_vec_bytes = 4, h_entry_id = 0, h_entry_nodes = 1, h_off_pq = 0, h_len_pq = 0, h_off_graph = 0,
     h_len_graph = 0, h_off_vectors = 2, h_len_vectors = 48, h_off_pivots = 0, h_len_pivots = 0, h_checksum = 0\<rparr>"

definition pairs_image :: "nat \<Rightarrow> byte" where
  "pairs_image a = (if a < 50 then [8, 9, 30, 0, 0, 0, 1, 0, 0, 0, 2, 0, 0, 0, 90, 0, 0, 0, 1, 0, 0, 0, 3, 0, 0, 0,
     70, 0, 0, 0, 1, 0, 0, 0, 0, 0, 0, 0, 50, 0, 0, 0, 1, 0, 0, 0, 1, 0, 0, 0] ! a else 0)"

definition pairs_place :: placement where
  "pairs_place = set_header pairs_header \<lparr>hdr = None, ssd_image = pairs_image, ssd_bytes = 50, vec_stride = 0,
     graph_host = None, diskann_layout = False, id_to_slot = [], slot_to_id = [], bundle_off = 0,
     bundle_stride = 0, bundle_bytes = 0\<rparr>"

lemma pairs_simps [simp]:
  "h_magic pairs_header = kCxanMagic" "h_n pairs_header = 4" "hdr pairs_place = Some pairs_header"
  "h_dim pairs_header * h_vec_bytes pairs_header = 4" "rec_stride pairs_header = 12" "h_R pairs_header = 1"
  "h_off_vectors pairs_header = 2"
  by (simp_all add: pairs_header_def pairs_place_def rec_stride_def set_header_def Let_def)

lemma pairs_rows:
  assumes "h_off_vectors h = 2" "rec_stride h = 12" "h_dim h * h_vec_bytes h = 4" "h_R h = 1" and "u < 4"
  shows "rec_row pairs_image h u = [[2], [3], [0], [1]] ! u"
proof -
  have "u = 0 \<or> u = 1 \<or> u = 2 \<or> u = 3" using assms(5) by linarith
  then show ?thesis
    by (auto simp: rec_row_def rec_nnbrs_def rec_nbr_def assms u32_le_eq pairs_image_def)
qed

lemma row_cong:
  assumes "\<And>u. u < n \<Longrightarrow> row u = row' u"
  shows "pair_nbrs n row s = pair_nbrs n row' s" and "expand_runs n row t its = expand_runs n row' t its"
proof -
  show "pair_nbrs n row s = pair_nbrs n row' s"
    unfolding pair_nbrs_def by (rule fold_cong) (auto simp: pair_nbr_def assms intro!: ext)
  have "map (\<lambda>u. pages_of n its (other_nbrs n row u)) [0..<n] = map (\<lambda>u. pages_of n its (other_nbrs n row' u)) [0..<n]"
    by (simp add: other_nbrs_def assms)
  then show "expand_runs n row t its = expand_runs n row' t its" unfolding expand_runs_def by (simp only:)
qed

lemma pairs_mates:
  "pr_mate (mates 4 (rec_row pairs_image pairs_header) Pair_neighbor (\<lambda>_. 0) False []) = [Some 2, Some 3, Some 0, Some 1]"
proof -
  note rows = row_cong(1) [OF pairs_rows [OF pairs_simps(7,5,4,6)]]
  have "pr_mate (pair_nbrs 4 ((!) [[2], [3], [0], [1]]) (pr_start 4)) = [Some 2, Some 3, Some 0, Some 1]" by code_simp
  then show ?thesis by (simp add: mates_def rows)
qed

lemma pairs_slots: "remap_slots pairs_image pairs_header Pair_neighbor None (\<lambda>_. 0) False None = Some [0, 2, 1, 3]"
proof -
  have "[0..<4] = [0, 1, 2, 3]" by (simp add: upt_rec)
  then have "assign_slots 4 [Some 2, Some 3, Some 0, Some 1] = Some [0, 2, 1, 3]"
    by (simp add: assign_slots_def slot_pair_def give_def eval_nat_numeral)
  then show ?thesis by (simp add: remap_slots_def Let_def pairs_mates)
qed

theorem remap_pairs_share_pages_witness:
  "\<exists>its. remap_slots pairs_image pairs_header Pair_neighbor None (\<lambda>_. 0) False None = Some its \<and> its ! 0 div 2 = its ! 2 div 2 \<and>
     fst (load_id_slot_map (Some its) pairs_place)"
proof -
  have p: "h_n pairs_header \<noteq> 0" "Pair_neighbor \<noteq> Page_extent" "Pair_neighbor \<noteq> Pair_cooccur \<or> None \<noteq> Some None" by simp_all
  note T = remap_pairs_share_pages [OF pairs_simps(1) p pairs_simps(3), of pairs_image None "(\<lambda>_. 0)" False, unfolded pairs_simps(2) option.case pairs_mates]
  from T obtain its where its: "remap_slots pairs_image pairs_header Pair_neighbor None (\<lambda>_. 0) False None = Some its"
    "fst (load_id_slot_map (Some its) pairs_place)"
    and mate: "\<forall>u < 4. \<forall>m. [Some 2, Some 3, Some 0, Some 1] ! u = Some m \<longrightarrow> m < 4 \<and> m \<noteq> u \<and> its ! u div 2 = its ! m div 2"
    by blast
  have "its ! 0 div 2 = its ! 2 div 2" using mate [THEN spec, of 0, THEN mp, THEN spec, of 2] by simp
  with its show ?thesis by blast
qed

theorem extent_keeps_pairs_witness:
  "\<exists>its. remap_slots pairs_image pairs_header Page_extent (Some [0, 2, 1, 3]) (\<lambda>_. 0) False (Some (Some [1, 1])) = Some its \<and>
     its ! 1 div 2 = its ! 3 div 2 \<and> fst (load_id_slot_map (Some its) pairs_place)"
proof -
  have "fst (load_id_slot_map (Some [0, 2, 1, 3]) pairs_place)"
    unfolding load_slot_map_accepts [OF pairs_simps(3)] by simp
  then show ?thesis
    using extent_keeps_pairs [of pairs_header pairs_place "[0, 2, 1, 3]" "Some (Some [1, 1])" pairs_image "(\<lambda>_. 0)" False]
    by auto
qed

theorem remap_keeps_records_witness:
  "\<exists>its out q. remap_pages pairs_image pairs_header Pair_neighbor None (\<lambda>_. 0) False None False = Some (its, Some out) \<and>
     entry_off q pairs_header 1 = 26 \<and> image_bytes (ssd_image q) 26 4 = [90, 0, 0, 0]"
proof -
  let ?its = "[0, 2, 1, 3 :: nat]"
  let ?sti = "[0, 2, 1, 3 :: nat]"
  have "slots_to_ids 4 ?its = Some ?sti" by code_simp
  then have r: "remap_pages pairs_image pairs_header Pair_neighbor None (\<lambda>_. 0) False None False =
      Some (?its, Some (remapped_image pairs_image pairs_header ?sti))"
    by (simp add: remap_pages_def pairs_slots)
  let ?p = "set_header pairs_header (pairs_place\<lparr>ssd_image := (!) (remapped_image pairs_image pairs_header ?sti)\<rparr>)"
  have h: "hdr ?p = Some pairs_header" "vec_stride ?p = 12"
    by (simp_all add: set_header_def Let_def, simp add: pairs_header_def)
  have "fst (load_id_slot_map (Some ?its) ?p)" unfolding load_slot_map_accepts [OF h(1)] by simp
  then obtain q where q: "load_id_slot_map (Some ?its) ?p = (True, q)" by (cases "load_id_slot_map (Some ?its) ?p") simp
  have "image_bytes (ssd_image q) (entry_off q pairs_header 1) 12 = image_bytes pairs_image (2 + 12) 12"
    using remap_keeps_records [OF r _ q, of 1] by simp
  moreover have "image_bytes pairs_image (2 + 12) 12 = [90, 0, 0, 0, 1, 0, 0, 0, 3, 0, 0, 0]" by code_simp
  moreover have e: "entry_off q pairs_header 1 = 26"
    using q h by (auto simp: load_id_slot_map_def entry_off_def slot_of_def Let_def pairs_header_def split: prod.splits if_splits)
  ultimately have "mem_read 0 4 (image_bytes (ssd_image q) 26 12) = [90, 0, 0, 0]" by (simp add: mem_read_def)
  then have "image_bytes (ssd_image q) 26 4 = [90, 0, 0, 0]" by (simp add: mem_read_image_bytes)
  with r e show ?thesis by blast
qed

text \<open>C38. With an odd number of records the map that \<open>extent\<close> writes from an accepted map is accepted by
  \<open>load_id_slot_map\<close> exactly when the id that was alone in the last page (slot \<open>n - 1\<close>) keeps its slot.
  Otherwise its half-full page has moved forward, another id is given the slot \<open>n\<close>, which does not
  exist, and when the image is wanted too, the tool writes \<open>slot_to_id\<close> outside its end.\<close>
theorem extent_odd_leaves_slots:
  assumes "h_magic h = kCxanMagic" and "odd (h_n h)" and "h_n h + 1 < 2 ^ 32"
    and "hdr p = Some h" and "fst (load_id_slot_map (Some ws) p)" and "trace \<noteq> Some None"
    and "u < h_n h" and "ws ! u = h_n h - 1"
  shows "\<exists>its. remap_slots img h Page_extent (Some ws) tie tp trace = Some its \<and>
    (fst (load_id_slot_map (Some its) p) \<longleftrightarrow> its ! u = h_n h - 1) \<and>
    (its ! u \<noteq> h_n h - 1 \<longrightarrow> h_n h \<in> set its \<and> remap_pages img h Page_extent (Some ws) tie tp trace False = None)"
proof -
  let ?n = "h_n h" and ?t = "case trace of Some (Some t) \<Rightarrow> t | _ \<Rightarrow> []"
  note acc = load_slot_map_accepts [OF assms(4), THEN iffD1, OF assms(5)]
  have perm: "perm_below ?n (take ?n ws)"
  proof -
    have "length (take ?n ws) = ?n" using acc by simp
    then show ?thesis using acc perm_onto [of "take ?n ws"] by (simp add: perm_below_def)
  qed
  have u: "take ?n ws ! u = ?n - 1" using assms(7,8) by simp
  obtain its where its: "extent_slots ?n (rec_row img h) ?t (take ?n ws) = Some its" "length its = ?n"
    "its ! u = ?n - 1 \<longrightarrow> perm_below ?n its" "its ! u \<noteq> ?n - 1 \<longrightarrow> ?n \<in> set its"
    using extent_odd [OF perm assms(2,3,7) u, of "rec_row img h" ?t] by blast
  have "load_map_in ?n (Some ws) = Some (take ?n ws)" using acc by (auto simp: load_map_in_def list_all_iff)
  then have r: "remap_slots img h Page_extent (Some ws) tie tp trace = Some its"
    using assms(1,6,7) its(1) by (simp add: remap_slots_def Let_def)
  have "?n \<in> set its \<Longrightarrow> slots_to_ids ?n its = None" by (auto simp: slots_to_ids_def list_all_iff)
  then have "its ! u \<noteq> ?n - 1 \<longrightarrow> remap_pages img h Page_extent (Some ws) tie tp trace False = None"
    using its(4) by (simp add: remap_pages_def r)
  moreover have "fst (load_id_slot_map (Some its) p) \<longleftrightarrow> its ! u = ?n - 1"
    unfolding load_slot_map_accepts [OF assms(4)] using its(2-4) by (auto simp: perm_below_def)
  ultimately show ?thesis using r its(4) by (intro exI [of _ its]) simp
qed

text \<open>Three records, and a trace of one expand that needs the last.\<close>

definition odd_header :: layout_header where
  "odd_header = pairs_header\<lparr>h_n := 3, h_len_vectors := 36\<rparr>"

theorem extent_odd_leaves_slots_witness:
  "remap_slots pairs_image odd_header Page_extent (Some [0, 1, 2]) (\<lambda>_. 0) False (Some (Some [1, 2])) = Some [2, 3, 0] \<and>
   remap_pages pairs_image odd_header Page_extent (Some [0, 1, 2]) (\<lambda>_. 0) False (Some (Some [1, 2])) False = None \<and>
   \<not> fst (load_id_slot_map (Some [2, 3, 0]) (set_header odd_header pairs_place))"
proof -
  let ?p = "set_header odd_header pairs_place"
  have h: "hdr ?p = Some odd_header" by (simp add: set_header_def Let_def)
  have o: "h_magic odd_header = kCxanMagic" "odd (h_n odd_header)" "h_n odd_header + 1 < 2 ^ 32"
    "h_off_vectors odd_header = 2" "rec_stride odd_header = 12" "h_dim odd_header * h_vec_bytes odd_header = 4" "h_R odd_header = 1"
    by (simp_all add: odd_header_def pairs_header_def rec_stride_def)
  note runs = row_cong(2) [OF pairs_rows [OF o(4-7)]]
  have "fold (emit_page 2) [0..<2] (fold (fold (emit_page 2)) (expand_runs 3 ((!) [[2], [3], [0], [1]]) [1, 2] [0, 1, 2])
      (replicate 2 None, 0)) = ([Some 1, Some 0], 2)" by code_simp
  then have "extent_slots 3 (rec_row pairs_image odd_header) [1, 2] [0, 1, 2] = Some [2, 3, 0]"
    by (simp add: extent_slots_def runs)
  then have s: "remap_slots pairs_image odd_header Page_extent (Some [0, 1, 2]) (\<lambda>_. 0) False (Some (Some [1, 2])) = Some [2, 3, 0]"
    by (simp add: remap_slots_def load_map_in_def odd_header_def Let_def)
  have "fst (load_id_slot_map (Some [0, 1, 2]) ?p)"
    unfolding load_slot_map_accepts [OF h] by (simp add: odd_header_def)
  from extent_odd_leaves_slots [OF o(1-3) h this, of "Some (Some [1, 2])" 2 pairs_image "\<lambda>_. 0" False] s
  show ?thesis by (simp add: odd_header_def)
qed

end
