(* ===== verification/Beam_Rename.thy ===== *)
theory Beam_Rename
  imports Search_Common
begin

text \<open>
  Searches under other ids. When the ids of a graph are renamed one to one, neighbour lists keep
  their order and every id keeps its score, the greedy search does the same steps under the new ids.
\<close>

definition ren_cands :: "(nat \<Rightarrow> nat) \<Rightarrow> 'f cand list \<Rightarrow> 'f cand list" where
  "ren_cands g cs = map (apsnd g) cs"

definition ren_beam :: "(nat \<Rightarrow> nat) \<Rightarrow> ('f, 's) beam \<Rightarrow> ('f, 's) beam" where
  "ren_beam g b = b\<lparr>b_cand := ren_cands g (b_cand b), b_seen := g ` b_seen b, b_expanded := g ` b_expanded b\<rparr>"

lemma ren_cands_nth [simp]:
  "length (ren_cands g cs) = length cs" "i < length cs \<Longrightarrow> ren_cands g cs ! i = apsnd g (cs ! i)"
  "(ren_cands g cs = []) = (cs = [])"
  by (simp_all add: ren_cands_def)

lemma worst_at_ren [simp]: "worst_at (ren_cands g cs) = worst_at cs"
proof (cases "cs = []")
  case False
  let ?f = "\<lambda>cs i b. if fst (cs ! b) < fst (cs ! i) then i else b"
  have "\<forall>i \<in> set is. i < length cs \<Longrightarrow> b < length cs \<Longrightarrow> fold (?f (ren_cands g cs)) is b = fold (?f cs) is b" for "is" b
    by (induction "is" arbitrary: b) simp_all
  from this [of "[1..<length cs]" 0] False show ?thesis by (simp add: worst_at_def)
qed (simp add: ren_cands_def)

lemma insert_cand_ren: "insert_cand L (g i) d (ren_cands g cs) = ren_cands g (insert_cand L i d cs)"
proof (cases "cs = []")
  case False
  then have "worst_at cs < length cs" by (rule worst_at_spec)
  then show ?thesis using False by (simp add: insert_cand_def) (simp add: ren_cands_def map_update)
qed (simp add: insert_cand_def ren_cands_def)

lemma pick_best_ren:
  assumes "inj_on g A" and "E \<subseteq> A" and "snd ` set cs \<subseteq> A"
  shows "pick_best (g ` E) (ren_cands g cs) = pick_best E cs"
proof -
  let ?f = "\<lambda>E cs i b. if snd (cs ! i) \<in> E then b
                 else case b of None \<Rightarrow> Some i | Some j \<Rightarrow> if fst (cs ! i) < fst (cs ! j) then Some i else b"
  have mem: "g (snd (cs ! i)) \<in> g ` E \<longleftrightarrow> snd (cs ! i) \<in> E" if "i < length cs" for i
  proof -
    have "snd (cs ! i) \<in> A" using assms(3) that by auto
    then show ?thesis using inj_on_image_mem_iff [OF assms(1) _ assms(2)] by blast
  qed
  have "\<forall>i \<in> set is. i < length cs \<Longrightarrow> \<forall>j. b = Some j \<longrightarrow> j < length cs \<Longrightarrow>
    fold (?f (g ` E) (ren_cands g cs)) is b = fold (?f E cs) is b" for "is" b
    by (induction "is" arbitrary: b) (auto simp: mem split: option.splits)
  from this [of "[0..<length cs]" None] show ?thesis by (simp add: pick_best_def)
qed

lemma insert_by_ren: "insert_by cand_less (apsnd g x) (ren_cands g ys) = ren_cands g (insert_by cand_less x ys)"
  by (induction ys) (simp_all add: ren_cands_def cand_less_def)

lemma take_top_ren: "take_top k (ren_cands g cs) = map g (take_top k cs)"
proof -
  have "std_sort cand_less (ren_cands g cs) = ren_cands g (std_sort cand_less cs)"
  proof (induction cs)
    case (Cons c cs)
    then show ?case using insert_by_ren [of g c "std_sort cand_less cs"] by (simp add: std_sort_def ren_cands_def)
  qed (simp add: std_sort_def ren_cands_def)
  then show ?thesis by (simp add: take_top_def ren_cands_def take_map)
qed

section \<open>Renamed graphs\<close>

text \<open>\<open>g\<close> renames the ids below \<open>n\<close>; the search sees nothing else.\<close>

definition renames ::
  "nat \<Rightarrow> (nat \<Rightarrow> nat) \<Rightarrow> (nat \<Rightarrow> nat list) \<Rightarrow> (nat \<Rightarrow> 'f) \<Rightarrow> (nat \<Rightarrow> nat list) \<Rightarrow> (nat \<Rightarrow> 'f) \<Rightarrow> bool" where
  "renames n g nbr sc nbr' sc' \<longleftrightarrow> inj_on g {..<n} \<and>
     (\<forall>u < n. (\<forall>v \<in> insert u (set (nbr u)). g v < n \<longleftrightarrow> v < n) \<and> nbr' (g u) = map g (nbr u) \<and> sc' (g u) = sc u)"

definition inside :: "nat \<Rightarrow> ('f, 's) beam \<Rightarrow> bool" where
  "inside n b \<longleftrightarrow> b_seen b \<subseteq> {..<n} \<and> b_expanded b \<subseteq> {..<n} \<and> snd ` set (b_cand b) \<subseteq> {..<n}"

lemma insert_cand_inside: "snd ` set cs \<subseteq> {..<n} \<Longrightarrow> i < n \<Longrightarrow> snd ` set (insert_cand L i d cs) \<subseteq> {..<n}"
proof -
  assume a: "snd ` set cs \<subseteq> {..<n}" "i < n"
  have "snd ` set (cs[worst_at cs := (d, i)]) \<subseteq> snd ` insert (d, i) (set cs)" by (rule image_mono [OF set_update_subset_insert])
  then have "snd ` set (cs[worst_at cs := (d, i)]) \<subseteq> {..<n}" using a by force
  then show "snd ` set (insert_cand L i d cs) \<subseteq> {..<n}" using a by (simp add: insert_cand_def)
qed

lemma visit_ren:
  assumes "renames n g nbr sc nbr' sc'" and "inside n b" and "g v < n \<longleftrightarrow> v < n"
  shows "visit_nbr L n (pure_score sc' (\<lambda>_. True)) (g v) (ren_beam g b) = ren_beam g (visit_nbr L n (pure_score sc (\<lambda>_. True)) v b) \<and>
    inside n (visit_nbr L n (pure_score sc (\<lambda>_. True)) v b)"
proof (cases "v < n")
  case True
  then have g: "g v < n" "sc' (g v) = sc v" "g v \<in> g ` b_seen b \<longleftrightarrow> v \<in> b_seen b"
    using assms inj_on_image_mem_iff [of g "{..<n}" v "b_seen b"] by (auto simp: renames_def inside_def)
  show ?thesis
    using assms(2) True g insert_cand_inside [of "b_cand b" n v L "sc v"]
    by (simp add: visit_nbr_def score_into_def pure_score_def ren_beam_def insert_cand_ren inside_def)
next
  case False
  then show ?thesis using assms(2,3) by (simp add: visit_nbr_def)
qed

lemma visits_ren:
  assumes "renames n g nbr sc nbr' sc'" and "inside n b" and "\<forall>v \<in> set vs. g v < n \<longleftrightarrow> v < n"
  shows "fold (visit_nbr L n (pure_score sc' (\<lambda>_. True))) (map g vs) (ren_beam g b) =
      ren_beam g (fold (visit_nbr L n (pure_score sc (\<lambda>_. True))) vs b) \<and>
    inside n (fold (visit_nbr L n (pure_score sc (\<lambda>_. True))) vs b)"
  using assms(2,3)
proof (induction vs arbitrary: b)
  case (Cons v vs)
  then show ?case using visit_ren [OF assms(1) Cons.prems(1), of v L] by simp
qed simp

lemma beam_loop_induct [consumes 1, case_names step]:
  assumes "beam_loop L n iters pre post nbrs_of score b = Some r"
    and "\<And>loop L n iters pre post nbrs_of score b0 r.
      (\<And>L n iters pre post nbrs_of score b r. loop L n iters pre post nbrs_of score b = Some r \<Longrightarrow> P L n iters pre post nbrs_of score b r) \<Longrightarrow>
      (let b = b0\<lparr>b_st := pre (b_st b0)\<rparr>
       in case pick_best (b_expanded b) (b_cand b) of
            None \<Rightarrow> Some b
          | Some bi \<Rightarrow>
              if iters \<noteq> 0 \<and> iters \<le> b_expands b then Some b
              else (let cur = snd (b_cand b ! bi);
                        b1 = expand_one L n nbrs_of score cur (mark_expanded cur b)
                    in loop L n iters pre post nbrs_of score (b1\<lparr>b_st := post (b_expands b1) (b_st b1)\<rparr>))) = Some r \<Longrightarrow>
      P L n iters pre post nbrs_of score b0 r"
  shows "P L n iters pre post nbrs_of score b r"
  by (rule beam_loop.raw_induct [OF assms(2) assms(1)])

lemma pure_loop_ren:
  assumes "beam_loop L n iters pre post nbrs_of score b = Some r" and "renames n g nbr sc nbr' sc'" and "inside n b"
    and "pre = (\<lambda>s. s)" "post = (\<lambda>_ s. s)" "nbrs_of = pure_nbrs nbr" "score = pure_score sc (\<lambda>_. True)"
  shows "pure_loop L n iters nbr' sc' (\<lambda>_. True) (ren_beam g b) = Some (ren_beam g r)"
  using assms
proof (induction rule: beam_loop_induct)
  case (step loop L n iters pre post nbrs_of score b r)
  have inj: "inj_on g {..<n}" using step(3) by (simp add: renames_def)
  have pick: "pick_best (b_expanded (ren_beam g b)) (b_cand (ren_beam g b)) = pick_best (b_expanded b) (b_cand b)"
    using pick_best_ren [OF inj, of "b_expanded b" "b_cand b"] step(4) by (simp add: ren_beam_def inside_def)
  have ex: "b_expands (ren_beam g b) = b_expands b" by (simp add: ren_beam_def)
  show ?case
  proof (cases "case pick_best (b_expanded b) (b_cand b) of None \<Rightarrow> True | Some _ \<Rightarrow> iters \<noteq> 0 \<and> iters \<le> b_expands b")
    case True
    then have "r = b" using step(2,5) by (auto simp: Let_def split: option.splits if_splits)
    then show ?thesis
      unfolding pure_loop_def using True pick ex by (subst beam_loop.simps) (auto simp: Let_def split: option.splits)
  next
    case False
    then obtain bi where bi: "pick_best (b_expanded b) (b_cand b) = Some bi" "\<not> (iters \<noteq> 0 \<and> iters \<le> b_expands b)"
      by (auto split: option.splits)
    define cur where "cur = snd (b_cand b ! bi)"
    have bil: "bi < length (b_cand b)" using pick_best_Some(1) [OF bi(1)] .
    then have "snd (b_cand b ! bi) \<in> snd ` set (b_cand b)" by (intro imageI nth_mem)
    then have cur: "cur < n" using step(4) by (auto simp: cur_def inside_def)
    have cur': "snd (b_cand (ren_beam g b) ! bi) = g cur" using bil by (simp add: ren_beam_def cur_def)
    have nb: "\<forall>v \<in> set (nbr cur). g v < n \<longleftrightarrow> v < n" "nbr' (g cur) = map g (nbr cur)" using step(3) cur by (simp_all add: renames_def)
    have m: "inside n (mark_expanded cur b)" "ren_beam g (mark_expanded cur b) = mark_expanded (g cur) (ren_beam g b)"
      using step(4) cur by (simp_all add: inside_def mark_expanded_def ren_beam_def)
    define b1 where "b1 = fold (visit_nbr L n (pure_score sc (\<lambda>_. True))) (nbr cur) (mark_expanded cur b)"
    have v: "fold (visit_nbr L n (pure_score sc' (\<lambda>_. True))) (nbr' (g cur)) (mark_expanded (g cur) (ren_beam g b)) = ren_beam g b1"
      "inside n b1"
      using visits_ren [OF step(3) m(1) nb(1), of L] nb(2) m(2) by (simp_all add: b1_def)
    have "loop L n iters pre post nbrs_of score b1 = Some r"
      using step(2,5-8) bi by (simp add: Let_def expand_one_def pure_nbrs_def b1_def cur_def split: if_splits)
    from step(1) [OF this step(3) v(2) step(5-8)]
    have "pure_loop L n iters nbr' sc' (\<lambda>_. True) (ren_beam g b1) = Some (ren_beam g r)" .
    then show ?thesis
      unfolding pure_loop_def using bi pick ex cur' v(1)
      by (subst beam_loop.simps) (auto simp: Let_def expand_one_def pure_nbrs_def)
  qed
qed

section \<open>The oracle search under other ids\<close>

lemma search_oracle_ids:
  assumes "0 < sc_L c"
  shows "\<exists>b. pure_loop (sc_L c) (h_n (sc_h c)) (sc_iters c) (true_nbrs c) (true_score c) (\<lambda>_. True)
      (beam_entry (sc_L c) (pure_score (true_score c) (\<lambda>_. True)) (sc_entry c) ()) = Some b \<and>
    map_option fst (search_oracle c w) = Some (take_top (sc_k c) (b_cand b))"
proof -
  obtain L where L: "sc_L c = Suc L" using assms by (cases "sc_L c") auto
  have e: "map_option erase (beam_loop (Suc L) (h_n (sc_h c)) (sc_iters c) (\<lambda>s. s) (\<lambda>_ s. s) (oracle_nbrs c) (score_dram c)
      (beam_entry (Suc L) (score_dram c) (sc_entry c) w)) =
    pure_loop (Suc L) (h_n (sc_h c)) (sc_iters c) (true_nbrs c) (true_score c) (\<lambda>_. True)
      (beam_entry (Suc L) (pure_score (true_score c) (\<lambda>_. True)) (sc_entry c) ())"
    by (rule in_dram.beam_search_erase [OF TrueI])
  obtain b where b: "beam_loop (Suc L) (h_n (sc_h c)) (sc_iters c) (\<lambda>s. s) (\<lambda>_ s. s) (oracle_nbrs c) (score_dram c)
      (beam_entry (Suc L) (score_dram c) (sc_entry c) w) = Some b"
    using in_dram.beam_search_ok [OF TrueI, of 0 L] by blast
  show ?thesis
    using e b L by (intro exI [of _ "erase b"]) (simp add: search_oracle_def)
qed

lemma search_oracle_ren:
  assumes "0 < sc_L c" and "sc_L c' = sc_L c" "sc_k c' = sc_k c" "sc_iters c' = sc_iters c" "h_n (sc_h c') = h_n (sc_h c)"
    and "sc_entry c < h_n (sc_h c)" "sc_entry c' = g (sc_entry c)"
    and "renames (h_n (sc_h c)) g (true_nbrs c) (true_score c) (true_nbrs c') (true_score c')"
  shows "map_option fst (search_oracle c' w') = map_option (\<lambda>(ids, v). map g ids) (search_oracle c w)"
proof -
  let ?n = "h_n (sc_h c)"
  obtain b where b: "pure_loop (sc_L c) ?n (sc_iters c) (true_nbrs c) (true_score c) (\<lambda>_. True)
      (beam_entry (sc_L c) (pure_score (true_score c) (\<lambda>_. True)) (sc_entry c) ()) = Some b"
    "map_option fst (search_oracle c w) = Some (take_top (sc_k c) (b_cand b))"
    using search_oracle_ids [OF assms(1)] by blast
  obtain b' where b': "pure_loop (sc_L c) ?n (sc_iters c) (true_nbrs c') (true_score c') (\<lambda>_. True)
      (beam_entry (sc_L c) (pure_score (true_score c') (\<lambda>_. True)) (g (sc_entry c)) ()) = Some b'"
    "map_option fst (search_oracle c' w') = Some (take_top (sc_k c) (b_cand b'))"
    using search_oracle_ids [of c' w'] assms(1-7) by auto
  let ?e = "beam_entry (sc_L c) (pure_score (true_score c) (\<lambda>_. True)) (sc_entry c) ()"
  have "true_score c' (g (sc_entry c)) = true_score c (sc_entry c)" using assms(6,8) by (simp add: renames_def)
  then have e: "beam_entry (sc_L c) (pure_score (true_score c') (\<lambda>_. True)) (g (sc_entry c)) () = ren_beam g ?e" "inside ?n ?e"
    using insert_cand_ren [of "sc_L c" g "sc_entry c" "true_score c (sc_entry c)" "[]"] assms(6)
      insert_cand_inside [of "[]" ?n "sc_entry c" "sc_L c" "true_score c (sc_entry c)"]
    by (simp_all add: beam_entry_def beam_start_def score_into_def pure_score_def ren_beam_def inside_def)
      (simp add: ren_cands_def)
  have "b' = ren_beam g b"
    using pure_loop_ren [OF b(1) [unfolded pure_loop_def] assms(8) e(2) refl refl refl refl] b'(1) e(1) by simp
  then have "take_top (sc_k c) (b_cand b') = map g (take_top (sc_k c) (b_cand b))" by (simp add: ren_beam_def take_top_ren)
  then show ?thesis using b(2) b'(2) by (auto simp: case_prod_beta)
qed

end
