(* ===== verification/Layout_Search.thy ===== *)
theory Layout_Search
  imports Remap_Pages Beam_Rename
begin

text \<open>
  What the layout tools do to the searches: the greedy search over the mapped image finds the same
  nodes after \<open>remap_diskann_pages\<close>.
\<close>

section \<open>Records\<close>

text \<open>A search over records reads vectors and neighbours through \<open>entry\<close>.\<close>

lemma record_reads:
  assumes "diskann_layout pl" "graph_host pl = None" "diskann_layout pl'" "graph_host pl' = None"
    and "sc_h c = h" "sc_pl c = pl" "sc_pl c' = pl'" "c' = c\<lparr>sc_pl := pl'\<rparr>"
    and "image_bytes (ssd_image pl') (entry_off pl' h i) len = image_bytes (ssd_image pl) (entry_off pl h i) len"
    and "diskann_payload_bytes (h_dim h) (h_vec_bytes h) (h_R h) \<le> len"
  shows "true_nbrs c' i = true_nbrs c i" and "true_score c' i = true_score c i"
proof -
  have pay: "h_dim h * h_vec_bytes h + 4 + h_R h * 4 \<le> len" using assms(10) by (simp add: diskann_payload_bytes_def)
  have part: "image_bytes (ssd_image pl') (entry_off pl' h i + k) m = image_bytes (ssd_image pl) (entry_off pl h i + k) m"
    if "k + m \<le> len" for k m
    using arg_cong [OF assms(9), of "mem_read k m"] that by (simp add: mem_read_image_bytes)
  have h': "sc_h c' = h" using assms(5,8) by simp
  have "nbr_at pl' (nbrs pl' h i) k = nbr_at pl (nbrs pl h i) k" if "k < sc_Rlim c" for k
  proof -
    have "k < h_R h" using that by (simp add: sc_Rlim_def assms(5) split: if_splits)
    then have "h_dim h * h_vec_bytes h + 4 + 4 * k + 4 \<le> len" using pay by linarith
    then show ?thesis
      using part [of "h_dim h * h_vec_bytes h + 4 + 4 * k" 4] assms(1-4) by (simp add: nbrs_def nbr_at_def add.assoc)
  qed
  moreover have "sc_Rlim c' = sc_Rlim c" using assms(8) by (simp add: sc_Rlim_def)
  ultimately show "true_nbrs c' i = true_nbrs c i"
    by (simp add: true_nbrs_def hide_read_nbrs_def assms(5-7) h')
  have "image_bytes (ssd_image pl') (vec_off pl' h i) (sc_vb c) = image_bytes (ssd_image pl) (vec_off pl h i) (sc_vb c)"
    using part [of 0 "sc_vb c"] pay assms(1,3,5) by (simp add: vec_off_def sc_vb_def)
  then show "true_score c' i = true_score c i"
    using assms(5-8) by (simp add: true_score_def score_bytes_def sc_vec_def sc_vb_def)
qed

text \<open>C8. A search over the image and the map that \<open>remap_diskann_pages\<close> writes returns the same ids as
  over the source image.\<close>
theorem remap_search_same:
  assumes "remap_pages img h mode map_in tie tp trace False = Some (its, Some out)" and "2 \<le> h_version h"
    and "diskann_payload_bytes (h_dim h) (h_vec_bytes h) (h_R h) \<le> rec_stride h"
    and "graph_host p = None" "id_to_slot p = []"
    and "load_id_slot_map (Some its) (set_header h (p\<lparr>ssd_image := (!) out\<rparr>)) = (True, q)"
    and "sc_h c = h" "sc_pl c = set_header h (p\<lparr>ssd_image := img\<rparr>)" and "0 < sc_L c" "sc_entry c < h_n h"
  shows "map_option fst (search_oracle (c\<lparr>sc_pl := q\<rparr>) w') = map_option fst (search_oracle c w)"
proof -
  let ?c = "c\<lparr>sc_pl := q\<rparr>" and ?pl = "set_header h (p\<lparr>ssd_image := img\<rparr>)"
  have pack: "h_dim h * h_vec_bytes h \<le> rec_stride h" using assms(3) by (simp add: diskann_payload_bytes_def)
  have pl: "diskann_layout ?pl" "graph_host ?pl = None" "vec_stride ?pl = rec_stride h" "id_to_slot ?pl = []" "ssd_image ?pl = img"
    using assms(2,4,5,10) pack by (auto simp: set_header_def Let_def rec_stride_def)
  have q: "diskann_layout q" "graph_host q = None"
    using assms(2,4,6) by (auto simp: load_id_slot_map_def set_header_def Let_def split: prod.splits if_splits)
  have same: "true_nbrs ?c i = true_nbrs c i" "true_score ?c i = true_score c i" if "i < h_n h" for i
  proof -
    have "entry_off ?pl h i = h_off_vectors h + i * rec_stride h" using pl by (simp add: entry_off_def slot_of_def)
    then have "image_bytes (ssd_image q) (entry_off q h i) (rec_stride h) = image_bytes (ssd_image ?pl) (entry_off ?pl h i) (rec_stride h)"
      using remap_keeps_records [OF assms(1) pack assms(6) that] pl by simp
    from record_reads [OF pl(1,2) q assms(7,8) _ refl this assms(3)]
    show "true_nbrs ?c i = true_nbrs c i" "true_score ?c i = true_score c i" by simp_all
  qed
  have "renames (h_n (sc_h c)) id (true_nbrs c) (true_score c) (true_nbrs ?c) (true_score ?c)"
    using same assms(7) by (simp add: renames_def)
  from search_oracle_ren [OF assms(9) _ _ _ _ _ _ this, of w' w]
  have "map_option fst (search_oracle ?c w') = map_option (\<lambda>(ids, v). map id ids) (search_oracle c w)"
    using assms(7,10) by (simp add: sc_L_def)
  then show ?thesis by (cases "search_oracle c w") auto
qed

section \<open>A moved image\<close>

definition pairs_query :: "int sctx" where
  "pairs_query = \<lparr>sc_pl = pairs_place, sc_h = pairs_header, sc_hb = 0, sc_dec = uint, sc_cvt = f16_to_f32, sc_q = [1], sc_beam = 2, sc_k = 2,
     sc_iters = 4, sc_entry = 0, sc_warm = []\<rparr>"

theorem remap_search_same_witness:
  "\<forall>w w'. \<exists>its out q ids. remap_pages pairs_image pairs_header Pair_neighbor None (\<lambda>_. 0) False None False = Some (its, Some out) \<and>
     its ! 1 \<noteq> 1 \<and> load_id_slot_map (Some its) (set_header pairs_header (pairs_place\<lparr>ssd_image := (!) out\<rparr>)) = (True, q) \<and>
     map_option fst (search_oracle (pairs_query\<lparr>sc_pl := q\<rparr>) w') = Some ids \<and>
     map_option fst (search_oracle pairs_query w) = Some ids" (is "\<forall>w w'. ?Q w w'")
proof (intro allI)
  fix w w' :: dram_window
  let ?its = "[0, 2, 1, 3 :: nat]"
  let ?out = "remapped_image pairs_image pairs_header [0, 2, 1, 3]"
  have "slots_to_ids 4 ?its = Some [0, 2, 1, 3]" by code_simp
  then have r: "remap_pages pairs_image pairs_header Pair_neighbor None (\<lambda>_. 0) False None False = Some (?its, Some ?out)"
    by (simp add: remap_pages_def pairs_slots)
  let ?p = "set_header pairs_header (pairs_place\<lparr>ssd_image := (!) ?out\<rparr>)"
  have h: "hdr ?p = Some pairs_header" by (simp add: set_header_def Let_def)
  have "fst (load_id_slot_map (Some ?its) ?p)" unfolding load_slot_map_accepts [OF h] by simp
  then obtain q where q: "load_id_slot_map (Some ?its) ?p = (True, q)" by (cases "load_id_slot_map (Some ?its) ?p") simp
  have c: "graph_host pairs_place = None" "id_to_slot pairs_place = []" "0 < sc_L pairs_query" "sc_entry pairs_query < h_n pairs_header"
    "sc_h pairs_query = pairs_header" "sc_pl pairs_query = set_header pairs_header (pairs_place\<lparr>ssd_image := pairs_image\<rparr>)"
    by (simp_all add: pairs_query_def sc_L_def pairs_place_def set_header_def Let_def)
  have "2 \<le> h_version pairs_header"
    "diskann_payload_bytes (h_dim pairs_header) (h_vec_bytes pairs_header) (h_R pairs_header) \<le> rec_stride pairs_header"
    by (simp_all add: pairs_header_def rec_stride_def diskann_payload_bytes_def)
  from remap_search_same [OF r this c(1,2) q c(5,6,3,4)]
  have same: "map_option fst (search_oracle (pairs_query\<lparr>sc_pl := q\<rparr>) w') = map_option fst (search_oracle pairs_query w)" .
  obtain ids where "map_option fst (search_oracle pairs_query w) = Some ids" using search_oracle_ids [OF c(3), of w] by blast
  then have "?its ! 1 \<noteq> 1 \<and> map_option fst (search_oracle (pairs_query\<lparr>sc_pl := q\<rparr>) w') = Some ids \<and>
      map_option fst (search_oracle pairs_query w) = Some ids" using same by simp
  then show "?Q w w'" using r q by blast
qed

end
