(* ===== verification/Layout_Image.thy ===== *)
theory Layout_Image
  imports Placement
begin

text \<open>
  Writing an image, as the layout tools under \<open>tools/\<close> do it: \<open>memcpy\<close> into the mapped output, rows
  of a table one after the other, 32-bit words and the packed header in little-endian order, and
  sections aligned to pages. Sizes and offsets are natural numbers: the 64-bit sums of the tools do
  not wrap for sections that fit a device.
\<close>

section \<open>Copies into the mapped image\<close>

definition put :: "nat \<Rightarrow> 'a list \<Rightarrow> (nat \<Rightarrow> 'a) \<Rightarrow> nat \<Rightarrow> 'a" where
  "put off bs img = (\<lambda>a. if off \<le> a \<and> a < off + length bs then bs ! (a - off) else img a)"

definition put_rows :: "nat \<Rightarrow> nat \<Rightarrow> (nat \<Rightarrow> 'a list) \<Rightarrow> nat list \<Rightarrow> (nat \<Rightarrow> 'a) \<Rightarrow> nat \<Rightarrow> 'a" where
  "put_rows base stride row is img = fold (\<lambda>i. put (base + i * stride) (row i)) is img"

lemma read_put_inside: "k + n \<le> length bs \<Longrightarrow> image_bytes (put off bs img) (off + k) n = mem_read k n bs"
  by (auto intro!: nth_equalityI simp: put_def nth_mem_read length_mem_read)

lemma read_put [simp]: "image_bytes (put off bs img) off (length bs) = bs"
  using read_put_inside [of 0 "length bs" bs off img] by (simp add: mem_read_def)

lemma read_put_apart:
  "a + n \<le> off \<or> off + length bs \<le> a \<Longrightarrow> image_bytes (put off bs img) a n = image_bytes img a n"
  by (auto intro!: nth_equalityI simp: put_def)

lemma put_rows_apart:
  assumes "\<And>i. i \<in> set is \<Longrightarrow> a + n \<le> base + i * stride \<or> base + i * stride + length (row i) \<le> a"
  shows "image_bytes (put_rows base stride row is img) a n = image_bytes img a n"
  using assms by (induction "is" arbitrary: img) (auto simp: put_rows_def read_put_apart)

lemma put_rows_outside:
  assumes "\<And>i. i \<in> set is \<Longrightarrow> i < N \<and> length (row i) \<le> stride" and "a + n \<le> base \<or> base + N * stride \<le> a"
  shows "image_bytes (put_rows base stride row is img) a n = image_bytes img a n"
proof (rule put_rows_apart)
  fix i assume "i \<in> set is"
  then have "base + i * stride + length (row i) \<le> base + N * stride"
    using assms(1) [of i] frame_in_arena [of i N stride "N * stride"] by linarith
  then show "a + n \<le> base + i * stride \<or> base + i * stride + length (row i) \<le> a" using assms(2) by linarith
qed

text \<open>Each row reads back, whatever the order of the copies.\<close>

lemma put_rows_read:
  assumes "\<And>i. i \<in> set is \<Longrightarrow> length (row i) \<le> stride" and "j \<in> set is" and "k + n \<le> length (row j)"
  shows "image_bytes (put_rows base stride row is img) (base + j * stride + k) n = mem_read k n (row j)"
  using assms
proof (induction "is" arbitrary: img rule: rev_induct)
  case (snoc i "is")
  have step: "put_rows base stride row (is @ [i]) img = put (base + i * stride) (row i) (put_rows base stride row is img)"
    by (simp add: put_rows_def)
  show ?case
  proof (cases "i = j")
    case True
    then show ?thesis unfolding step using snoc.prems(3) by (simp add: read_put_inside)
  next
    case False
    then have "j \<in> set is" using snoc.prems(2) by simp
    moreover have "base + j * stride + k + n \<le> base + i * stride \<or> base + i * stride + length (row i) \<le> base + j * stride + k"
      using frames_disjoint [OF False, of stride] snoc.prems(1) [of i] snoc.prems(1) [of j] snoc.prems(2,3) by auto
    ultimately show ?thesis unfolding step using snoc by (simp add: read_put_apart)
  qed
qed simp

section \<open>Little-endian words\<close>

definition le_bytes :: "nat \<Rightarrow> nat \<Rightarrow> byte list" where
  "le_bytes m x = map (\<lambda>k. word_of_nat (x div 256 ^ k)) [0..<m]"

definition u64_le :: "byte list \<Rightarrow> nat" where
  "u64_le bs = (\<Sum>k < 8. unat (bs ! k) * 256 ^ k)"

definition u32s :: "nat list \<Rightarrow> byte list" where
  "u32s xs = concat (map (le_bytes 4) xs)"

lemma length_le_bytes [simp]: "length (le_bytes m x) = m"
  by (simp add: le_bytes_def)

lemma le_sum: "x < 256 ^ m \<Longrightarrow> (\<Sum>k < m. unat (le_bytes m x ! k) * 256 ^ k) = x"
proof -
  have "(\<Sum>k < m. (x div 256 ^ k mod 256) * 256 ^ k) = x mod 256 ^ m"
  proof (induction m)
    case (Suc m)
    have "x mod 256 ^ Suc m = x div 256 ^ m mod 256 * 256 ^ m + x mod 256 ^ m"
      using mod_mult2_eq [of x "256 ^ m" 256] by (simp add: mult.commute)
    then show ?case using Suc by simp
  qed simp
  moreover have "unat (le_bytes m x ! k) = x div 256 ^ k mod 256" if "k < m" for k
    using that by (simp add: le_bytes_def unat_of_nat take_bit_eq_mod)
  ultimately show "x < 256 ^ m \<Longrightarrow> ?thesis" by simp
qed

lemma u32_le_bytes [simp]: "x < 2 ^ 32 \<Longrightarrow> u32_le (le_bytes 4 x) = x"
  using le_sum [of x 4] by (simp add: u32_le_def)

lemma u64_le_bytes [simp]: "x < 2 ^ 64 \<Longrightarrow> u64_le (le_bytes 8 x) = x"
  using le_sum [of x 8] by (simp add: u64_le_def)

lemma length_u32s [simp]: "length (u32s xs) = 4 * length xs"
  by (induction xs) (simp_all add: u32s_def)

lemma u32s_nth: "i < length xs \<Longrightarrow> mem_read (4 * i) 4 (u32s xs) = le_bytes 4 (xs ! i)"
proof (induction xs arbitrary: i)
  case (Cons x xs)
  show ?case
  proof (cases i)
    case (Suc j)
    with Cons have "mem_read (4 * j) 4 (u32s xs) = le_bytes 4 (xs ! j)" by simp
    then show ?thesis using Suc by (simp add: u32s_def mem_read_def)
  qed (simp add: u32s_def mem_read_def)
qed simp

section \<open>The header\<close>

text \<open>The packed struct of 116 bytes; \<open>pad\<close> is a hint that nothing reads.\<close>

definition header_bytes :: "layout_header \<Rightarrow> nat \<Rightarrow> byte list" where
  "header_bytes h pad =
     le_bytes 8 (h_magic h) @
     u32s [h_version h, h_n h, h_dim h, h_R h, h_pq_bytes h, h_vec_bytes h, h_entry_id h, h_entry_nodes h, pad] @
     concat (map (le_bytes 8) [h_off_pq h, h_len_pq h, h_off_graph h, h_len_graph h, h_off_vectors h, h_len_vectors h,
       h_off_pivots h, h_len_pivots h, h_checksum h])"

definition read_header :: "(nat \<Rightarrow> byte) \<Rightarrow> layout_header" where
  "read_header img =
     (let w = (\<lambda>a. u32_le (image_bytes img a 4)); d = (\<lambda>a. u64_le (image_bytes img a 8))
      in \<lparr>h_magic = d 0, h_version = w 8, h_n = w 12, h_dim = w 16, h_R = w 20, h_pq_bytes = w 24, h_vec_bytes = w 28,
          h_entry_id = w 32, h_entry_nodes = w 36, h_off_pq = d 44, h_len_pq = d 52, h_off_graph = d 60, h_len_graph = d 68,
          h_off_vectors = d 76, h_len_vectors = d 84, h_off_pivots = d 92, h_len_pivots = d 100, h_checksum = d 108\<rparr>)"

definition header_fits :: "layout_header \<Rightarrow> bool" where
  "header_fits h \<longleftrightarrow>
     list_all (\<lambda>x. x < 2 ^ 32) [h_version h, h_n h, h_dim h, h_R h, h_pq_bytes h, h_vec_bytes h, h_entry_id h, h_entry_nodes h] \<and>
     list_all (\<lambda>x. x < 2 ^ 64) [h_magic h, h_off_pq h, h_len_pq h, h_off_graph h, h_len_graph h, h_off_vectors h, h_len_vectors h,
       h_off_pivots h, h_len_pivots h, h_checksum h]"

lemma length_header_bytes [simp]: "length (header_bytes h pad) = 116"
  by (simp add: header_bytes_def)

lemma read_header_put:
  assumes "header_fits h"
  shows "read_header (put 0 (header_bytes h pad) img) = h"
proof -
  have at: "image_bytes (put 0 (header_bytes h pad) img) a m = mem_read a m (header_bytes h pad)" if "a + m \<le> 116" for a m
    using read_put_inside [of a m "header_bytes h pad" 0 img] that by simp
  show ?thesis
    by (rule layout_header.equality)
      (use assms in \<open>simp_all add: read_header_def Let_def at, simp_all add: header_fits_def header_bytes_def u32s_def mem_read_def\<close>)
qed

text \<open>Only the header's own bytes matter.\<close>

lemma read_header_cong:
  assumes "image_bytes img 0 116 = image_bytes img' 0 116"
  shows "read_header img = read_header img'"
proof -
  have "image_bytes img a m = image_bytes img' a m" if "a + m \<le> 116" for a m
    using arg_cong [OF assms, of "mem_read a m"] that by (simp add: mem_read_image_bytes)
  then show ?thesis by (simp add: read_header_def)
qed

section \<open>Sections\<close>

definition align_up :: "nat \<Rightarrow> nat \<Rightarrow> nat" where
  "align_up x a = (x + a - 1) div a * a"

lemma align_up_ge: "0 < a \<Longrightarrow> x \<le> align_up x a"
proof -
  assume "0 < a"
  have "x + a - 1 < (x + a - 1) div a * a + a" using \<open>0 < a\<close> dividend_less_div_times [of a "x + a - 1"] by simp
  then show ?thesis using \<open>0 < a\<close> by (simp add: align_up_def)
qed

lemma align_up_dvd: "a dvd align_up x a"
  by (simp add: align_up_def)

text \<open>The stride of the vectors of an input image.\<close>

definition in_stride :: "layout_header \<Rightarrow> nat" where
  "in_stride h =
     (let packed = h_dim h * h_vec_bytes h; st = h_len_vectors h div h_n h
      in if h_n h \<noteq> 0 \<and> h_len_vectors h \<noteq> 0 then if packed \<le> st then st else packed else packed)"

lemma in_stride_vec_stride: "vec_stride (set_header h p) = in_stride h"
  by (simp add: set_header_def in_stride_def Let_def)

end
