(* ===== verification/Diskann_Pack.thy ===== *)
theory Diskann_Pack
  imports Layout_Image Nav_Graph Hide_Pages
begin

text \<open>
  The tools that keep the ids: \<open>pack_diskann_entry.cpp\<close> (vectors and graph into records),
  \<open>pack_layout_pagealign.cpp\<close> (one vector per page), \<open>pack_nbr_bundle.cpp\<close> (the vectors of all neighbours
  side by side), \<open>reorder_graph_degree.cpp\<close> and \<open>build_nav_graph.cpp\<close>. Input images are functions from
  offsets, graph and map files lists of 32-bit words; \<open>None\<close> is an exit with an error.
\<close>

section \<open>Records\<close>

text \<open>\<open>dax_copy\<close>: words of eight bytes when both ends are aligned, then bytes.\<close>

definition dax_copy :: "bool \<Rightarrow> nat \<Rightarrow> byte list \<Rightarrow> (nat \<Rightarrow> byte) \<Rightarrow> nat \<Rightarrow> byte" where
  "dax_copy aligned dst src img =
     (let m = (if aligned then length src div 8 else 0)
      in fold (\<lambda>i. put (dst + i) [src ! i]) [8 * m..<length src]
           (fold (\<lambda>j. put (dst + 8 * j) (mem_read (8 * j) 8 src)) [0..<m] img))"

text \<open>\<open>al dst\<close>: the copy to \<open>dst\<close> is aligned.\<close>

definition copy_out :: "bool \<Rightarrow> (nat \<Rightarrow> bool) \<Rightarrow> nat \<Rightarrow> byte list \<Rightarrow> (nat \<Rightarrow> byte) \<Rightarrow> nat \<Rightarrow> byte" where
  "copy_out dev al dst src = (if dev then dax_copy (al dst) dst src else put dst src)"

definition pack_record ::
  "bool \<Rightarrow> (nat \<Rightarrow> bool) \<Rightarrow> (nat \<Rightarrow> byte) \<Rightarrow> layout_header \<Rightarrow> nat list \<Rightarrow> nat \<Rightarrow> nat \<Rightarrow> (nat \<Rightarrow> byte) \<Rightarrow> nat \<Rightarrow> byte" where
  "pack_record dev al img h graph stride i out =
     (let e = 4096 + i * stride; packed = h_dim h * h_vec_bytes h; vstride = h_len_vectors h div h_n h
      in copy_out dev al (e + packed + 4) (u32s (take (h_R h) (drop (i * h_R h) graph)))
           (copy_out dev al (e + packed) (le_bytes 4 (h_R h))
              (copy_out dev al e (image_bytes img (h_off_vectors h + i * vstride) packed) out)))"

definition record_header :: "layout_header \<Rightarrow> nat \<Rightarrow> layout_header" where
  "record_header h stride =
     \<lparr>h_magic = kCxanMagic, h_version = 2, h_n = h_n h, h_dim = h_dim h, h_R = h_R h, h_pq_bytes = 0,
      h_vec_bytes = h_vec_bytes h, h_entry_id = h_entry_id h, h_entry_nodes = h_entry_nodes h, h_off_pq = 0,
      h_len_pq = 0, h_off_graph = 0, h_len_graph = 0, h_off_vectors = 4096, h_len_vectors = h_n h * stride,
      h_off_pivots = 0, h_len_pivots = 0, h_checksum = 0\<rparr>"

text \<open>\<open>dev\<close>: the size of the device, or a regular file; \<open>out\<close>: what the output holds before.\<close>

definition pack_diskann ::
  "(nat \<Rightarrow> byte) \<Rightarrow> layout_header \<Rightarrow> nat list \<Rightarrow> nat \<Rightarrow> nat option \<Rightarrow> (nat \<Rightarrow> bool) \<Rightarrow> (nat \<Rightarrow> byte) \<Rightarrow> (nat \<Rightarrow> byte) option" where
  "pack_diskann img h graph want dev al out =
     (let stride = diskann_stride_for (h_dim h) (h_vec_bytes h) (h_R h) want; bytes = 4096 + h_n h * stride
      in if h_magic h \<noteq> kCxanMagic \<or> h_n h = 0 then None
         else if stride < diskann_payload_bytes (h_dim h) (h_vec_bytes h) (h_R h) then None
         else if length graph < h_n h * h_R h then None
         else if (case dev of Some s \<Rightarrow> s \<noteq> 0 \<and> s < bytes | None \<Rightarrow> False) then None
         else let out1 = copy_out (dev \<noteq> None) al 0 (header_bytes (record_header h stride) 0) out;
                  out2 = fold (pack_record (dev \<noteq> None) al img h graph stride) [0..<h_n h] out1
              in if u64_le (image_bytes out2 0 8) \<noteq> kCxanMagic then None else Some out2)"

section \<open>One vector per page\<close>

definition align_sections :: "nat \<Rightarrow> nat \<Rightarrow> nat \<Rightarrow> nat \<Rightarrow> nat \<Rightarrow> layout_header \<Rightarrow> layout_header" where
  "align_sections page pq graph vectors pivots h =
     (let o_pq = align_up 116 page; o_graph = align_up (o_pq + pq) page; o_vec = align_up (o_graph + graph) page;
          o_piv = align_up (o_vec + vectors) page
      in h\<lparr>h_off_pq := o_pq, h_len_pq := pq, h_off_graph := o_graph, h_len_graph := graph, h_off_vectors := o_vec,
           h_len_vectors := vectors, h_off_pivots := o_piv, h_len_pivots := pivots,
           h_checksum := Bit_Operations.xor (Bit_Operations.xor (Bit_Operations.xor (h_n h) (h_dim h)) (h_R h)) vectors\<rparr>)"

definition pivot_len :: "layout_header \<Rightarrow> nat" where
  "pivot_len h = (if h_len_pivots h \<noteq> 0 then h_len_pivots h else 64 * 1024)"

text \<open>\<open>sched\<close>: the order in which the threads copy the vectors.\<close>

definition pack_pagealign ::
  "(nat \<Rightarrow> byte) \<Rightarrow> layout_header \<Rightarrow> nat \<Rightarrow> nat list \<Rightarrow> (nat \<Rightarrow> byte) \<Rightarrow> (layout_header \<times> (nat \<Rightarrow> byte)) option" where
  "pack_pagealign img h page_stride sched out =
     (let packed = h_dim h * h_vec_bytes h;
          h1 = align_sections 4096 (h_len_pq h) (h_len_graph h) (h_n h * page_stride) (pivot_len h) h;
          out1 = put 0 (header_bytes h1 page_stride) out;
          out2 = put (h_off_pq h1) (image_bytes img (h_off_pq h) (h_len_pq h)) out1;
          out3 = put (h_off_graph h1) (image_bytes img (h_off_graph h) (h_len_graph h)) out2;
          out4 = put_rows (h_off_vectors h1) page_stride (\<lambda>i. image_bytes img (h_off_vectors h + i * packed) packed) sched out3;
          out5 = put (h_off_pivots h1) (image_bytes img (h_off_pivots h) (h_len_pivots h1)) out4
      in if h_magic h \<noteq> kCxanMagic \<or> page_stride < packed then None else Some (h1, out5))"

section \<open>Neighbour bundles\<close>

definition bundle_stride_of :: "layout_header \<Rightarrow> nat" where
  "bundle_stride_of h = (h_R h * (h_dim h * h_vec_bytes h) + 4095) div 4096 * 4096"

definition bundle_row :: "(nat \<Rightarrow> byte) \<Rightarrow> layout_header \<Rightarrow> nat list \<Rightarrow> nat list \<Rightarrow> nat \<Rightarrow> byte list" where
  "bundle_row img h n2o graph u =
     (let packed = h_dim h * h_vec_bytes h; n = h_n h
      in concat (map (\<lambda>k. let nv = graph ! (u * h_R h + k); ov = (if nv < n then n2o ! nv else 0);
                              ov1 = (if n \<le> ov then 0 else ov)
                          in image_bytes img (h_off_vectors h + ov1 * in_stride h) packed) [0..<h_R h]) @
         (if (h_R h * packed) mod 2 ^ 32 < bundle_stride_of h then replicate (bundle_stride_of h - h_R h * packed) 0 else []))"

definition pack_bundles ::
  "(nat \<Rightarrow> byte) \<Rightarrow> layout_header \<Rightarrow> nat list \<Rightarrow> nat list \<Rightarrow> nat \<Rightarrow> nat list \<Rightarrow> (nat \<Rightarrow> byte) \<Rightarrow> (nat \<Rightarrow> byte) option" where
  "pack_bundles img h n2o graph off sched out =
     (if h_magic h \<noteq> kCxanMagic \<or> length n2o < h_n h \<or> length graph < h_n h * h_R h then None
      else Some (put_rows off (bundle_stride_of h) (bundle_row img h n2o graph) sched out))"

section \<open>Neighbours by degree\<close>

definition in_degree :: "nat \<Rightarrow> nat \<Rightarrow> nat list \<Rightarrow> nat \<Rightarrow> nat" where
  "in_degree n R g v = count_list (take (n * R) g) v mod 2 ^ 32"

definition deg_before :: "nat \<Rightarrow> (nat \<Rightarrow> nat) \<Rightarrow> nat list \<Rightarrow> nat \<Rightarrow> nat \<Rightarrow> bool" where
  "deg_before n deg src a b =
     (let da = (if src ! a < n then deg (src ! a) else 0); db = (if src ! b < n then deg (src ! b) else 0)
      in if da \<noteq> db then db < da else src ! a < src ! b)"

definition degree_row :: "nat \<Rightarrow> (nat \<Rightarrow> nat) \<Rightarrow> nat list \<Rightarrow> nat list" where
  "degree_row n deg src = map ((!) src) (std_sort (deg_before n deg src) [0..<length src])"

definition reorder_degree :: "nat \<Rightarrow> nat \<Rightarrow> nat list \<Rightarrow> nat list option" where
  "reorder_degree n R g =
     (if n = 0 \<or> R = 0 \<or> length g < n * R then None
      else Some (concat (map (\<lambda>u. degree_row n (in_degree n R g) (take R (drop (u * R) g))) [0..<n])))"

section \<open>The navigation sample\<close>

text \<open>\<open>shuf\<close>: \<open>std::shuffle\<close> with the seeded generator.\<close>

definition build_nav :: "(nat list \<Rightarrow> nat list) \<Rightarrow> placement \<Rightarrow> layout_header \<Rightarrow> nat \<Rightarrow> byte list option" where
  "build_nav shuf p h want =
     (if h_magic h \<noteq> kCxanMagic \<or> h_n h = 0 \<or> \<not> diskann_layout p then None
      else let n0 = min want (h_n h); ids = std_sort (<) (take n0 (shuf [0..<h_n h]));
               payload = diskann_payload_bytes (h_dim h) (h_vec_bytes h) (h_R h)
           in Some (u32s [n0, h_dim h, h_R h] @ u32s ids @
                concat (map (\<lambda>i. image_bytes (ssd_image p) (entry_off p h i) payload) ids)))"

section \<open>Copies\<close>

lemma put_append: "put (off + length a) b (put off a img) = put off (a @ b) img"
  by (rule ext) (auto simp: put_def nth_append diff_diff_left)

lemma put_Nil [simp]: "put off [] img = img"
  by (rule ext) (auto simp: put_def)

lemma fold_put_words: "m * 8 \<le> length src \<Longrightarrow>
  fold (\<lambda>j. put (dst + 8 * j) (mem_read (8 * j) 8 src)) [0..<m] img = put dst (take (8 * m) src) img"
proof (induction m)
  case (Suc m)
  have "take (8 * Suc m) src = take (8 * m) src @ mem_read (8 * m) 8 src"
    using take_add [of "8 * m" 8 src] by (simp add: mem_read_def add.commute)
  then show ?case using Suc put_append [of dst "take (8 * m) src" "mem_read (8 * m) 8 src" img] by (simp add: min_def)
qed simp

lemma fold_put_bytes: "m \<le> e \<Longrightarrow> e \<le> length src \<Longrightarrow>
  fold (\<lambda>i. put (dst + i) [src ! i]) [m..<e] (put dst (take m src) img) = put dst (take e src) img"
proof (induction e)
  case (Suc e)
  show ?case
  proof (cases "m = Suc e")
    case False
    then have "fold (\<lambda>i. put (dst + i) [src ! i]) [m..<e] (put dst (take m src) img) = put dst (take e src) img"
      using Suc by simp
    then show ?thesis
      using False Suc.prems put_append [of dst "take e src" "[src ! e]" img] by (simp add: take_Suc_conv_app_nth min_def)
  qed simp
qed simp

lemma dax_copy_put: "dax_copy aligned dst src img = put dst src img"
proof -
  define m where "m = (if aligned then length src div 8 else 0)"
  have "m * 8 \<le> length src" by (simp add: m_def)
  then show ?thesis
    using fold_put_words [of m src dst img] fold_put_bytes [of "8 * m" "length src" src dst img]
    by (simp add: dax_copy_def flip: m_def)
qed

lemma copy_out_put [simp]: "copy_out dev al dst src = put dst src"
  by (auto simp: copy_out_def dax_copy_put)

text \<open>A record is written in one piece.\<close>

definition record_bytes :: "(nat \<Rightarrow> byte) \<Rightarrow> layout_header \<Rightarrow> nat list \<Rightarrow> nat \<Rightarrow> byte list" where
  "record_bytes img h graph i =
     image_bytes img (h_off_vectors h + i * (h_len_vectors h div h_n h)) (h_dim h * h_vec_bytes h) @
     le_bytes 4 (h_R h) @ u32s (take (h_R h) (drop (i * h_R h) graph))"

lemma pack_record_put: "pack_record dev al img h graph stride i out = put (4096 + i * stride) (record_bytes img h graph i) out"
proof -
  let ?v = "image_bytes img (h_off_vectors h + i * (h_len_vectors h div h_n h)) (h_dim h * h_vec_bytes h)"
  let ?r = "u32s (take (h_R h) (drop (i * h_R h) graph))"
  show ?thesis
    using put_append [of "4096 + i * stride" ?v "le_bytes 4 (h_R h)" out]
      put_append [of "4096 + i * stride" "?v @ le_bytes 4 (h_R h)" ?r out]
    by (simp add: pack_record_def record_bytes_def Let_def add.assoc)
qed

lemma fold_pack_records:
  "fold (pack_record dev al img h graph stride) is out = put_rows 4096 stride (record_bytes img h graph) is out"
  unfolding put_rows_def by (rule fold_cong) (auto simp: pack_record_put)

lemma record_length:
  assumes "i < h_n h" and "h_n h * h_R h \<le> length graph"
  shows "length (record_bytes img h graph i) = diskann_payload_bytes (h_dim h) (h_vec_bytes h) (h_R h)"
proof -
  have "i * h_R h + h_R h \<le> length graph" using frame_in_arena [OF assms] .
  then show ?thesis by (simp add: record_bytes_def diskann_payload_bytes_def)
qed

section \<open>Reading the records back\<close>

lemma list_all_entries: "list_all P g \<Longrightarrow> i < length g \<Longrightarrow> P (g ! i)"
  by (simp add: list_all_length)

text \<open>The packed image, and the header it has.\<close>

definition packed_image :: "(nat \<Rightarrow> byte) \<Rightarrow> layout_header \<Rightarrow> nat list \<Rightarrow> nat \<Rightarrow> (nat \<Rightarrow> byte) \<Rightarrow> nat \<Rightarrow> byte" where
  "packed_image img h graph stride out =
     put_rows 4096 stride (record_bytes img h graph) [0..<h_n h] (put 0 (header_bytes (record_header h stride) 0) out)"

lemma packed_image_header:
  assumes "diskann_payload_bytes (h_dim h) (h_vec_bytes h) (h_R h) \<le> stride" "h_n h * h_R h \<le> length graph"
    and "header_fits h" "h_n h * stride < 2 ^ 64"
  shows "read_header (packed_image img h graph stride out) = record_header h stride"
proof -
  have "image_bytes (packed_image img h graph stride out) 0 116 = image_bytes (put 0 (header_bytes (record_header h stride) 0) out) 0 116"
    unfolding packed_image_def by (rule put_rows_outside [where N = "h_n h"]) (use record_length [OF _ assms(2)] assms(1) in auto)
  moreover have "header_fits (record_header h stride)"
    using assms(3,4) by (auto simp: header_fits_def record_header_def kCxanMagic_def)
  ultimately show ?thesis using trans [OF read_header_cong read_header_put] by blast
qed

lemma pack_diskann_some:
  assumes "h_magic h = kCxanMagic" "0 < h_n h" "stride = diskann_stride_for (h_dim h) (h_vec_bytes h) (h_R h) want"
    and "diskann_payload_bytes (h_dim h) (h_vec_bytes h) (h_R h) \<le> stride" "h_n h * h_R h \<le> length graph"
    and "\<And>s. dev = Some s \<Longrightarrow> s \<noteq> 0 \<Longrightarrow> 4096 + h_n h * stride \<le> s" "header_fits h" "h_n h * stride < 2 ^ 64"
  shows "pack_diskann img h graph want dev al out = Some (packed_image img h graph stride out)"
proof -
  have "h_magic (read_header (packed_image img h graph stride out)) = kCxanMagic"
    using packed_image_header [OF assms(4,5,7,8)] by (simp add: record_header_def)
  moreover have "h_magic (read_header g) = u64_le (image_bytes g 0 8)" for g by (simp add: read_header_def Let_def)
  ultimately have "u64_le (image_bytes (put_rows 4096 stride (record_bytes img h graph) [0..<h_n h]
      (put 0 (header_bytes (record_header h stride) 0) out)) 0 8) = kCxanMagic" by (simp add: packed_image_def)
  moreover have "\<not> (case dev of None \<Rightarrow> False | Some s \<Rightarrow> s \<noteq> 0 \<and> s < 4096 + h_n h * stride)"
    using assms(6) by (auto split: option.split)
  ultimately show ?thesis
    unfolding pack_diskann_def assms(3) [symmetric] Let_def fold_pack_records copy_out_put packed_image_def
    using assms(1,2,4,5) by simp
qed

text \<open>What the serving path sees of the packed image.\<close>

lemma pack_diskann_ok:
  assumes "pack_diskann img h graph want dev al out = Some out'" and "header_fits h"
    and "h_n h * diskann_stride_for (h_dim h) (h_vec_bytes h) (h_R h) want < 2 ^ 64"
    and "list_all (\<lambda>x. x < 2 ^ 32) graph"
    and q: "q = set_header (read_header out') (p\<lparr>ssd_image := out'\<rparr>)" "graph_host p = None" "id_to_slot p = []" and "i < h_n h"
  shows "read_header out' = record_header h (diskann_stride_for (h_dim h) (h_vec_bytes h) (h_R h) want)"
    and "diskann_layout q"
    and "image_bytes out' (entry_off q (read_header out') i) (diskann_payload_bytes (h_dim h) (h_vec_bytes h) (h_R h)) =
      record_bytes img h graph i"
proof -
  let ?stride = "diskann_stride_for (h_dim h) (h_vec_bytes h) (h_R h) want" and ?pay = "diskann_payload_bytes (h_dim h) (h_vec_bytes h) (h_R h)"
  let ?h = "record_header h ?stride" and ?rows = "put_rows 4096 ?stride (record_bytes img h graph) [0..<h_n h]"
  have out: "out' = ?rows (put 0 (header_bytes ?h 0) out)" and c: "?pay \<le> ?stride" "h_n h * h_R h \<le> length graph"
    using assms(1) by (auto simp: pack_diskann_def Let_def fold_pack_records not_less split: if_splits)
  have len: "length (record_bytes img h graph j) = ?pay" if "j < h_n h" for j using record_length [OF that c(2)] .
  show h: "read_header out' = ?h"
    using packed_image_header [OF c assms(2,3)] by (simp add: packed_image_def out)
  show "diskann_layout q" unfolding q(1) h by (simp add: set_header_def record_header_def Let_def)
  have "h_dim h * h_vec_bytes h \<le> ?stride" using c(1) by (simp add: diskann_payload_bytes_def)
  then have vs: "vec_stride q = ?stride" using assms(8) unfolding q(1) h by (auto simp: set_header_def record_header_def Let_def)
  have e: "entry_off q ?h i = 4096 + i * ?stride"
    using q(3) vs unfolding q(1) h by (simp add: entry_off_def slot_of_def record_header_def set_header_def Let_def)
  have "image_bytes out' (4096 + i * ?stride + 0) ?pay = mem_read 0 ?pay (record_bytes img h graph i)"
    unfolding out by (rule put_rows_read) (use len c(1) assms(8) in auto)
  then show "image_bytes out' (entry_off q (read_header out') i) ?pay = record_bytes img h graph i"
    unfolding h e using len [OF assms(8)] by (simp add: mem_read_def)
qed

text \<open>The parts of a record.\<close>

lemma record_parts:
  assumes "i < h_n h" and "h_n h * h_R h \<le> length graph" and "list_all (\<lambda>x. x < 2 ^ 32) graph"
  shows "mem_read 0 (h_dim h * h_vec_bytes h) (record_bytes img h graph i) =
      image_bytes img (h_off_vectors h + i * (h_len_vectors h div h_n h)) (h_dim h * h_vec_bytes h)"
    and "h_R h < 2 ^ 32 \<Longrightarrow> u32_le (mem_read (h_dim h * h_vec_bytes h) 4 (record_bytes img h graph i)) = h_R h"
    and "k < h_R h \<Longrightarrow> u32_le (mem_read (h_dim h * h_vec_bytes h + 4 + 4 * k) 4 (record_bytes img h graph i)) = graph ! (i * h_R h + k)"
proof -
  let ?vb = "h_dim h * h_vec_bytes h" and ?row = "take (h_R h) (drop (i * h_R h) graph)"
  have fit: "i * h_R h + h_R h \<le> length graph" using frame_in_arena [OF assms(1,2)] .
  show "mem_read 0 ?vb (record_bytes img h graph i) = image_bytes img (h_off_vectors h + i * (h_len_vectors h div h_n h)) ?vb"
    by (simp add: record_bytes_def mem_read_def)
  show "h_R h < 2 ^ 32 \<Longrightarrow> u32_le (mem_read ?vb 4 (record_bytes img h graph i)) = h_R h"
    by (simp add: record_bytes_def mem_read_def)
  assume k: "k < h_R h"
  have "mem_read (?vb + 4 + 4 * k) 4 (record_bytes img h graph i) = mem_read (4 * k) 4 (u32s ?row)"
    by (simp add: record_bytes_def mem_read_def)
  also have "\<dots> = le_bytes 4 (graph ! (i * h_R h + k))" using u32s_nth [of k ?row] k fit by simp
  finally show "u32_le (mem_read (?vb + 4 + 4 * k) 4 (record_bytes img h graph i)) = graph ! (i * h_R h + k)"
    using list_all_entries [OF assms(3), of "i * h_R h + k"] k fit by simp
qed

text \<open>C19. What \<open>pack_diskann_entry\<close> writes, to a file or with \<open>dax_copy\<close> to a device, \<open>Placement\<close> reads back:
  the header, the vector of every id, its count and its row of the graph.\<close>
theorem pack_diskann_roundtrip:
  assumes "pack_diskann img h graph want dev al out = Some out'" and "header_fits h"
    and "h_n h * diskann_stride_for (h_dim h) (h_vec_bytes h) (h_R h) want < 2 ^ 64"
    and "list_all (\<lambda>x. x < 2 ^ 32) graph"
    and "q = set_header (read_header out') (p\<lparr>ssd_image := out'\<rparr>)" "graph_host p = None" "id_to_slot p = []" and "i < h_n h"
  shows "read_header out' = record_header h (diskann_stride_for (h_dim h) (h_vec_bytes h) (h_R h) want) \<and> diskann_layout q \<and>
    image_bytes out' (vec_off q (read_header out') i) (h_dim h * h_vec_bytes h) =
      image_bytes img (h_off_vectors h + i * (h_len_vectors h div h_n h)) (h_dim h * h_vec_bytes h) \<and>
    nnbrs q (read_header out') i = h_R h \<and>
    (\<forall>k < h_R h. nbr_at q (nbrs q (read_header out') i) k = graph ! (i * h_R h + k))"
proof -
  let ?pay = "diskann_payload_bytes (h_dim h) (h_vec_bytes h) (h_R h)" and ?h = "read_header out'" and ?vb = "h_dim h * h_vec_bytes h"
  note ok = pack_diskann_ok [OF assms]
  have R: "h_R h < 2 ^ 32" and g: "h_n h * h_R h \<le> length graph"
    using assms(1,2) by (auto simp: header_fits_def pack_diskann_def Let_def not_less split: if_splits)
  have dims: "h_dim ?h = h_dim h" "h_vec_bytes ?h = h_vec_bytes h" "h_R ?h = h_R h" by (simp_all add: ok(1) record_header_def)
  have part: "image_bytes out' (entry_off q ?h i + k) m = mem_read k m (record_bytes img h graph i)" if "k + m \<le> ?pay" for k m
    using arg_cong [OF ok(3), of "mem_read k m"] that by (simp add: mem_read_image_bytes)
  have q: "ssd_image q = out'" "graph_host q = None" using assms(6) by (simp_all add: assms(5) set_header_def Let_def)
  have "nbr_at q (nbrs q ?h i) k = graph ! (i * h_R h + k)" if "k < h_R h" for k
  proof -
    have "?vb + 4 + 4 * k + 4 \<le> ?pay" using that by (simp add: diskann_payload_bytes_def)
    from part [OF this] record_parts(3) [OF assms(8) g assms(4) that] show ?thesis
      by (simp add: nbrs_def nbr_at_def ok(2) q dims add.assoc)
  qed
  moreover have "nnbrs q ?h i = h_R h"
    using part [of ?vb 4] record_parts(2) [OF assms(8) g assms(4) R] ok(2) by (simp add: nnbrs_def q dims diskann_payload_bytes_def)
  moreover have "image_bytes out' (vec_off q ?h i) ?vb = image_bytes img (h_off_vectors h + i * (h_len_vectors h div h_n h)) ?vb"
    using part [of 0 ?vb] record_parts(1) [OF assms(8) g assms(4)] ok(2) by (simp add: vec_off_def diskann_payload_bytes_def)
  ultimately show ?thesis using ok(1,2) by simp
qed

definition flat_image :: "nat \<Rightarrow> byte" where
  "flat_image a = (if a < 8 then [10, 0, 0, 0, 20, 0, 0, 0] ! a else 0)"

definition flat_header :: layout_header where
  "flat_header = \<lparr>h_magic = kCxanMagic, h_version = 1, h_n = 2, h_dim = 1, h_R = 1, h_pq_bytes = 0, h_vec_bytes = 4,
     h_entry_id = 0, h_entry_nodes = 1, h_off_pq = 0, h_len_pq = 0, h_off_graph = 8, h_len_graph = 8, h_off_vectors = 0,
     h_len_vectors = 8, h_off_pivots = 0, h_len_pivots = 0, h_checksum = 0\<rparr>"

lemma flat_simps [simp]:
  "h_magic flat_header = kCxanMagic" "h_n flat_header = 2" "h_dim flat_header = 1" "h_R flat_header = 1" "h_vec_bytes flat_header = 4"
  "h_off_vectors flat_header = 0" "h_len_vectors flat_header = 8" "header_fits flat_header"
  "diskann_payload_bytes 1 4 1 = 12" "diskann_stride_for 1 4 1 2048 = 2048"
  by (simp_all add: flat_header_def header_fits_def kCxanMagic_def diskann_payload_bytes_def diskann_stride_for_def double_until.simps)

theorem pack_diskann_roundtrip_witness:
  "\<exists>out' q. pack_diskann flat_image flat_header [1, 0] 2048 (Some 8192) (\<lambda>a. a mod 8 = 0) (\<lambda>_. 255) = Some out' \<and>
     image_bytes out' (vec_off q (read_header out') 1) 4 = [20, 0, 0, 0] \<and> nnbrs q (read_header out') 1 = 1 \<and>
     nbr_at q (nbrs q (read_header out') 1) 0 = 0"
proof -
  let ?out = "packed_image flat_image flat_header [1, 0] 2048 (\<lambda>_. 255)"
  let ?p = "\<lparr>hdr = None, ssd_image = ?out, ssd_bytes = 8192, vec_stride = 0, graph_host = None, diskann_layout = False,
      id_to_slot = [], slot_to_id = [], bundle_off = 0, bundle_stride = 0, bundle_bytes = 0\<rparr>"
  define q where "q = set_header (read_header ?out) (?p\<lparr>ssd_image := ?out\<rparr>)"
  have ok: "pack_diskann flat_image flat_header [1, 0] 2048 (Some 8192) (\<lambda>a. a mod 8 = 0) (\<lambda>_. 255) = Some ?out"
    by (rule pack_diskann_some) (simp_all del: One_nat_def)
  have "list_all (\<lambda>x. x < 2 ^ 32) [1, 0 :: nat]" "graph_host ?p = None" "id_to_slot ?p = []" "1 < h_n flat_header"
    "h_n flat_header * diskann_stride_for (h_dim flat_header) (h_vec_bytes flat_header) (h_R flat_header) 2048 < 2 ^ 64"
    by (simp_all del: One_nat_def)
  from pack_diskann_roundtrip [OF ok flat_simps(8) this(5,1) q_def this(2-4)]
  have T: "image_bytes ?out (vec_off q (read_header ?out) 1) 4 = image_bytes flat_image 4 4" "nnbrs q (read_header ?out) 1 = 1"
    "nbr_at q (nbrs q (read_header ?out) 1) 0 = [1, 0] ! 1"
    by (simp_all only: flat_simps) auto
  moreover have "image_bytes flat_image 4 4 = [20, 0, 0, 0]" by code_simp
  ultimately show ?thesis using ok by (intro exI [of _ ?out] exI [of _ q]) simp
qed

section \<open>Bundles\<close>

lemma mem_read_append: "pos + n \<le> length a \<Longrightarrow> mem_read pos n (a @ b) = mem_read pos n a"
  by (simp add: mem_read_def)

lemma concat_map_block:
  assumes "\<And>x. x < m \<Longrightarrow> length (f x) = w" and "k < m"
  shows "mem_read (k * w) w (concat (map f [0..<m])) = f k" and "length (concat (map f [0..<m])) = m * w"
proof -
  have "length (concat (map f [0..<m])) = m * w \<and> (\<forall>k < m. mem_read (k * w) w (concat (map f [0..<m])) = f k)"
    using assms(1)
  proof (induction m)
    case (Suc m)
    then have IH: "length (concat (map f [0..<m])) = m * w" "\<forall>k < m. mem_read (k * w) w (concat (map f [0..<m])) = f k" by simp_all
    have "mem_read (k * w) w (concat (map f [0..<Suc m])) = f k" if "k < Suc m" for k
    proof (cases "k = m")
      case True
      then show ?thesis using IH(1) Suc.prems [of m] by (simp add: mem_read_def)
    next
      case False
      then have "k < m" using that by simp
      then show ?thesis using IH frame_in_arena [of k m w "m * w"] by (simp add: mem_read_append)
    qed
    then show ?case using IH(1) Suc.prems by simp
  qed simp
  then show "mem_read (k * w) w (concat (map f [0..<m])) = f k" "length (concat (map f [0..<m])) = m * w" using assms(2) by blast+
qed

text \<open>C21. The bundles that \<open>pack_nbr_bundle\<close> writes behind the image are what \<open>Placement::bundle_slot\<close> points
  to: slot \<open>k\<close> of node \<open>u\<close> holds the vector of its \<open>k\<close>-th neighbour, through the map of the ids.\<close>
theorem bundle_slot_holds_neighbour:
  assumes "pack_bundles img h n2o graph off sched out = Some out'" and "set sched = {..<h_n h}"
    and "hdr p = Some h" "bundle_off p = off" "bundle_stride p = bundle_stride_of h" and "u < h_n h" "k < h_R h"
    and "graph ! (u * h_R h + k) < h_n h" "n2o ! (graph ! (u * h_R h + k)) < h_n h"
  shows "image_bytes out' (bundle_slot p u k) (packed_vec_bytes p) =
    image_bytes img (h_off_vectors h + n2o ! (graph ! (u * h_R h + k)) * in_stride h) (packed_vec_bytes p)"
proof -
  let ?w = "h_dim h * h_vec_bytes h"
  define vec where "vec u = (\<lambda>k. let nv = graph ! (u * h_R h + k); ov = (if nv < h_n h then n2o ! nv else 0);
                              ov1 = (if h_n h \<le> ov then 0 else ov)
                          in image_bytes img (h_off_vectors h + ov1 * in_stride h) ?w)" for u
  define tail where "tail = (if (h_R h * ?w) mod 2 ^ 32 < bundle_stride_of h then replicate (bundle_stride_of h - h_R h * ?w) (0 :: byte) else [])"
  have row: "bundle_row img h n2o graph u = concat (map (vec u) [0..<h_R h]) @ tail" for u
    unfolding bundle_row_def vec_def tail_def Let_def ..
  have len: "length (concat (map (vec u) [0..<h_R h])) = h_R h * ?w" and at: "mem_read (k * ?w) ?w (concat (map (vec u) [0..<h_R h])) = vec u k" for u
    using concat_map_block [of "h_R h" "vec u" ?w k] assms(7) by (simp_all add: vec_def Let_def)
  have big: "h_R h * ?w \<le> bundle_stride_of h"
    using align_up_ge [of 4096 "h_R h * ?w"] by (simp add: bundle_stride_of_def align_up_def)
  have "k * ?w + ?w \<le> h_R h * ?w" using frame_in_arena [OF assms(7), of ?w "h_R h * ?w"] by simp
  then have "mem_read (k * ?w) ?w (bundle_row img h n2o graph u) = vec u k" using at [of u] len [of u] by (simp add: row mem_read_append)
  moreover have "image_bytes out' (off + u * bundle_stride_of h + k * ?w) ?w = mem_read (k * ?w) ?w (bundle_row img h n2o graph u)"
  proof -
    have "out' = put_rows off (bundle_stride_of h) (bundle_row img h n2o graph) sched out"
      using assms(1) by (simp add: pack_bundles_def split: if_splits)
    moreover have "length (bundle_row img h n2o graph i) \<le> bundle_stride_of h" for i using big len [of i] by (simp add: row tail_def)
    ultimately show ?thesis
      using assms(2,6) \<open>k * ?w + ?w \<le> h_R h * ?w\<close> len [of u] by (simp add: put_rows_read row)
  qed
  ultimately show ?thesis using assms(3-5,8,9) by (simp add: bundle_slot_def packed_vec_bytes_def vec_def Let_def add.assoc)
qed

theorem bundle_slot_holds_neighbour_witness:
  "\<exists>out' p. pack_bundles flat_image flat_header [1, 0] [1, 0] 8192 [1, 0] (\<lambda>_. 255) = Some out' \<and>
     image_bytes out' (bundle_slot p 0 0) (packed_vec_bytes p) = [10, 0, 0, 0]"
proof -
  let ?out = "put_rows 8192 (bundle_stride_of flat_header) (bundle_row flat_image flat_header [1, 0] [1, 0]) [1, 0] (\<lambda>_. 255)"
  let ?p = "\<lparr>hdr = Some flat_header, ssd_image = ?out, ssd_bytes = 20480, vec_stride = 0, graph_host = None, diskann_layout = False,
      id_to_slot = [], slot_to_id = [], bundle_off = 8192, bundle_stride = bundle_stride_of flat_header, bundle_bytes = 8192\<rparr>"
  have ok: "pack_bundles flat_image flat_header [1, 0] [1, 0] 8192 [1, 0] (\<lambda>_. 255) = Some ?out"
    by (simp add: pack_bundles_def)
  have "image_bytes ?out (bundle_slot ?p 0 0) (packed_vec_bytes ?p) = image_bytes flat_image 0 4"
    using bundle_slot_holds_neighbour [OF ok, of ?p 0 0] by (simp add: packed_vec_bytes_def numeral_2_eq_2 lessThan_Suc insert_commute)
  moreover have "image_bytes flat_image 0 4 = [10, 0, 0, 0]" by code_simp
  ultimately show ?thesis using ok by (intro exI [of _ ?out] exI [of _ ?p]) simp
qed

section \<open>Degrees\<close>

lemma deg_before_weak: "strict_weak (deg_before n deg src)"
  unfolding strict_weak_def deg_before_def Let_def by (auto split: if_splits)

text \<open>C36. \<open>reorder_graph_degree\<close> permutes each neighbour list, and no neighbour stands before one of higher
  in-degree.\<close>
theorem reorder_degree_rows:
  assumes "reorder_degree n R g = Some g'" and "u < n"
  shows "mset (take R (drop (u * R) g')) = mset (take R (drop (u * R) g)) \<and>
    sorted_wrt (\<lambda>a b. (if b < n then in_degree n R g b else 0) \<le> (if a < n then in_degree n R g a else 0)) (take R (drop (u * R) g'))"
proof -
  define row where "row u = take R (drop (u * R) g)" for u
  define srt where "srt u = std_sort (deg_before n (in_degree n R g) (row u)) [0..<length (row u)]" for u
  have g: "n * R \<le> length g" "g' = concat (map (\<lambda>u. degree_row n (in_degree n R g) (row u)) [0..<n])"
    using assms(1) by (auto simp: reorder_degree_def row_def split: if_splits)
  have len: "length (row v) = R" if "v < n" for v using frame_in_arena [OF that g(1)] by (simp add: row_def)
  have ms: "mset (srt v) = mset [0..<length (row v)]" for v by (simp add: srt_def)
  have "length (degree_row n (in_degree n R g) (row v)) = R" if "v < n" for v
    unfolding degree_row_def length_map srt_def [symmetric] using len [OF that] arg_cong [OF ms [of v], of size] by simp
  from concat_map_block(1) [OF this assms(2)] have out: "take R (drop (u * R) g') = degree_row n (in_degree n R g) (row u)"
    using g(2) by (simp add: mem_read_def)
  have "mset (degree_row n (in_degree n R g) (row u)) = image_mset ((!) (row u)) (mset (srt u))" by (simp add: degree_row_def srt_def)
  also have "\<dots> = mset (row u)" unfolding ms by (metis map_nth mset_map)
  finally have perm: "mset (degree_row n (in_degree n R g) (row u)) = mset (row u)" .
  have "sorted_wrt (\<lambda>x y. \<not> deg_before n (in_degree n R g) (row u) y x) (srt u)"
    unfolding srt_def by (rule sorted_std_sort [OF deg_before_weak])
  then have "sorted_wrt (\<lambda>a b. (if b < n then in_degree n R g b else 0) \<le> (if a < n then in_degree n R g a else 0)) (degree_row n (in_degree n R g) (row u))"
    unfolding degree_row_def sorted_wrt_map srt_def [symmetric]
    by (rule sorted_wrt_mono_rel [rotated]) (auto simp: deg_before_def Let_def split: if_splits)
  with perm show ?thesis unfolding out row_def by simp
qed

theorem reorder_degree_rows_witness:
  "\<exists>g'. reorder_degree 3 2 [1, 2, 2, 0, 2, 0] = Some g' \<and> mset (take 2 g') = {#1, 2#} \<and> take 2 g' = [2, 1]"
proof -
  obtain g' where g: "reorder_degree 3 2 [1, 2, 2, 0, 2, 0] = Some g'" by (simp add: reorder_degree_def)
  note T = reorder_degree_rows [OF g, of 0]
  have "length (take 2 g') = 2" using arg_cong [OF T [THEN conjunct1], of size] by simp
  then obtain a b where ab: "take 2 g' = [a, b]" by (metis (no_types, opaque_lifting) One_nat_def Suc_1 length_0_conv length_Suc_conv)
  have "{#a, b#} = {#1, 2#}" using T ab by simp
  then have "a = 1 \<and> b = 2 \<or> a = 2 \<and> b = 1" by (auto simp: add_eq_conv_ex)
  moreover have "\<not> (a = 1 \<and> b = 2)" using T ab by (auto simp: in_degree_def)
  ultimately show ?thesis using g ab by auto
qed

section \<open>The sample\<close>

text \<open>C20. \<open>NavGraph::load\<close> reads what \<open>build_nav_graph\<close> wrote, for an
  image of float vectors (\<open>vec_bytes = 4\<close>) whose header fields fit their types, a shuffle
  that permutes the ids, and a sample that is not empty and has at most 1000000 nodes: the sorted sample
  of the ids, and under the \<open>i\<close>-th the vector of that id. (With \<open>vec_bytes = 2\<close>
  the tool writes records that the loader does not expect.)\<close>
theorem nav_roundtrip:
  assumes "build_nav shuf p h want = Some f" and "hdr p = Some h" and "mset (shuf [0..<h_n h]) = mset [0..<h_n h]"
    and "0 < want" "min want (h_n h) \<le> 1000000" and "header_fits h" "h_vec_bytes h = 4"
  shows "\<exists>g ids. nav_load (Some f) = Some g \<and> nav_ids g = ids \<and> length ids = min want (h_n h) \<and> sorted ids \<and> distinct ids \<and>
    set ids \<subseteq> {..<h_n h} \<and>
    (\<forall>i < length ids. nav_vec dec g i =
       map (\<lambda>d. dec (image_bytes (ssd_image p) (entry_off p h (ids ! i) + 4 * d) 4)) [0..<h_dim h])"
proof -
  let ?n = "h_n h" and ?pay = "diskann_payload_bytes (h_dim h) (h_vec_bytes h) (h_R h)"
  define n0 where "n0 = min want ?n"
  define ids where "ids = std_sort (<) (take n0 (shuf [0..<?n]))"
  define rec where "rec = (\<lambda>i. image_bytes (ssd_image p) (entry_off p h i) ?pay)"
  have n: "0 < ?n" and f: "f = u32s [n0, h_dim h, h_R h] @ u32s ids @ concat (map rec ids)"
    using assms(1) by (auto simp: build_nav_def Let_def n0_def ids_def rec_def split: if_splits)
  have ls: "length (shuf [0..<?n]) = ?n" using arg_cong [OF assms(3), of size] by simp
  have ds: "distinct (shuf [0..<?n])" using mset_eq_imp_distinct_iff [OF assms(3)] by simp
  have ss: "set (shuf [0..<?n]) = {..<?n}" using mset_eq_setD [OF assms(3)] by (simp add: lessThan_atLeast0)
  have ids: "ids = sort (take n0 (shuf [0..<?n]))" by (simp add: ids_def std_sort_nat)
  have il: "length ids = n0" using ls by (simp add: ids n0_def)
  have facts: "sorted ids" "distinct ids" "set ids \<subseteq> {..<?n}"
    using ds ss set_take_subset [of n0 "shuf [0..<?n]"] by (auto simp: ids distinct_take)
  have small: "n0 < 2 ^ 32" "h_dim h < 2 ^ 32" "h_R h < 2 ^ 32" "?n < 2 ^ 32" using assms(5,6) by (simp_all add: n0_def header_fits_def)
  have hd: "u32_le (mem_read 0 4 f) = n0" "u32_le (mem_read 4 4 f) = h_dim h" "u32_le (mem_read 8 4 f) = h_R h"
    using small by (simp_all add: f u32s_def mem_read_def)
  have pos: "0 < n0" using assms(4) n by (simp add: n0_def)
  have recs: "length (concat (map rec ids)) = n0 * ?pay"
    using il by (induction ids arbitrary: n0) (auto simp: rec_def)
  have lf: "length f = 12 + n0 * 4 + n0 * ?pay" using recs il by (simp add: f mult.commute)
  have idat: "u32_le (mem_read (12 + 4 * i) 4 f) = ids ! i" if "i < n0" for i
  proof -
    have "mem_read (12 + 4 * i) 4 f = mem_read (4 * i) 4 (u32s ids @ concat (map rec ids))" by (simp add: f mem_read_def)
    also have "\<dots> = le_bytes 4 (ids ! i)" using u32s_nth [of i ids] that il by (simp add: mem_read_append)
    finally have "mem_read (12 + 4 * i) 4 f = le_bytes 4 (ids ! i)" .
    moreover have "ids ! i < 2 ^ 32" using subsetD [OF facts(3) nth_mem [of i ids]] that il small(4) by simp
    ultimately show ?thesis by simp
  qed
  define g where "g = \<lparr>nav_n0 = n0, nav_dim = h_dim h, nav_R = h_R h, nav_ids = ids, nav_recs = concat (map rec ids), rec_bytes = ?pay\<rparr>"
  have "map (\<lambda>i. u32_le (mem_read (12 + 4 * i) 4 f)) [0..<n0] = ids" using idat il by (auto intro: nth_equalityI)
  moreover have "mem_read (12 + n0 * 4) (n0 * ?pay) f = concat (map rec ids)" using recs il by (simp add: f mem_read_def mult.commute)
  ultimately have load: "nav_load (Some f) = Some g"
    using hd pos assms(5)[folded n0_def] assms(7) lf by (simp add: nav_load_def Let_def g_def)
  have vec: "nav_vec dec g i = map (\<lambda>d. dec (image_bytes (ssd_image p) (entry_off p h (ids ! i) + 4 * d) 4)) [0..<h_dim h]"
    if "i < length ids" for i
  proof -
    have block: "mem_read (i * ?pay) ?pay (concat (map rec ids)) = rec (ids ! i)"
      using concat_map_block(1) [of "length ids" "\<lambda>k. rec (ids ! k)" ?pay i] that map_nth [of ids]
      by (metis (no_types, lifting) length_image_bytes map_map comp_def rec_def map_eq_conv)
    have "mem_read (i * ?pay + 4 * d) 4 (concat (map rec ids)) = image_bytes (ssd_image p) (entry_off p h (ids ! i) + 4 * d) 4"
      if "d < h_dim h" for d
    proof -
      have "4 * d + 4 \<le> ?pay" using that assms(7) by (simp add: diskann_payload_bytes_def)
      then show ?thesis using arg_cong [OF block, of "mem_read (4 * d) 4"] by (simp add: mem_read_mem_read rec_def mem_read_image_bytes)
    qed
    then show ?thesis by (simp add: nav_vec_def g_def)
  qed
  show ?thesis using load facts vec il by (intro exI [of _ g] exI [of _ ids]) (simp add: g_def n0_def)
qed

definition packed_place :: placement where
  "packed_place = (let out = packed_image flat_image flat_header [1, 0] 2048 (\<lambda>_. 255)
     in set_header (record_header flat_header 2048)
       \<lparr>hdr = None, ssd_image = out, ssd_bytes = 8192, vec_stride = 0, graph_host = None, diskann_layout = False,
        id_to_slot = [], slot_to_id = [], bundle_off = 0, bundle_stride = 0, bundle_bytes = 0\<rparr>)"

theorem nav_roundtrip_witness:
  "\<exists>f g. build_nav rev packed_place (record_header flat_header 2048) 5 = Some f \<and> nav_load (Some f) = Some g \<and> nav_ids g = [0, 1]"
proof -
  let ?h = "record_header flat_header 2048"
  have h: "h_magic ?h = kCxanMagic" "h_n ?h = 2" "header_fits ?h" "h_vec_bytes ?h = 4"
    by (simp_all add: record_header_def header_fits_def kCxanMagic_def flat_header_def)
  have p: "hdr packed_place = Some ?h" "diskann_layout packed_place"
    by (simp_all add: packed_place_def set_header_def Let_def) (simp add: record_header_def)
  obtain f where f: "build_nav rev packed_place ?h 5 = Some f" using h p by (simp add: build_nav_def Let_def)
  obtain g ids where g: "nav_load (Some f) = Some g" "nav_ids g = ids" "length ids = 2" "sorted ids" "distinct ids" "set ids \<subseteq> {..<2}"
    using nav_roundtrip [OF f p(1) _ _ _ h(3,4), of undefined] h(2) by auto
  obtain a b where "ids = [a, b]" using g(3) by (auto simp: length_Suc_conv numeral_2_eq_2)
  with g(4-6) have "ids = [0, 1]" by auto
  with f g(1,2) show ?thesis by blast
qed

end
