(* ===== verification/Hide_Wait.thy ===== *)
theory Hide_Wait
  imports Hide_Props
begin

text \<open>
  \<open>hide_wait\<close> of \<open>serving/hide_fill.hpp\<close> with the workers that serve it: while the search thread
  yields, the workers of the copy pool run the jobs that \<open>hide_issue\<close> queued, in any order and at
  any time, each one as a whole.
\<close>

section \<open>The workers during a wait\<close>



section \<open>What a job leaves of the issue\<close>


















end
