(* ===== verification/Layout_Order.thy ===== *)
theory Layout_Order
  imports Numbering
begin

text \<open>
  New ids for the nodes of a graph: the star-pack order of \<open>tools/reorder_layout_bfs.cpp\<close> and the block
  order of \<open>pack_layout_pagebin.cpp\<close>. \<open>nbr u\<close> is the row of \<open>u\<close> in the graph; an id that is not below
  \<open>n\<close> is no edge. A loop over a queue is a \<open>partial_function (option)\<close>.
\<close>

section \<open>Assigning\<close>

text \<open>\<open>old_to_new\<close>, and the part of \<open>new_to_old\<close> that is filled.\<close>

type_synonym order = "nat option list \<times> nat list"

definition graph_row :: "nat \<Rightarrow> nat list \<Rightarrow> nat \<Rightarrow> nat list" where
  "graph_row R graph u = take R (drop (u * R) graph)"

definition no_order :: "nat \<Rightarrow> order" where
  "no_order n = (replicate n None, [])"

definition assign_one :: "nat \<Rightarrow> order \<Rightarrow> order" where
  "assign_one u st =
     (case st of (o2n, n2o) \<Rightarrow> if o2n ! u \<noteq> None then st else (o2n[u := Some (length n2o)], n2o @ [u]))"

definition assign_rest :: "nat \<Rightarrow> order \<Rightarrow> order" where
  "assign_rest n st = fold assign_one [0..<n] st"

definition entry_in :: "nat \<Rightarrow> nat \<Rightarrow> nat" where
  "entry_in n e = (if n \<le> e then 0 else e)"

section \<open>Star-pack\<close>

definition star_visit :: "nat \<Rightarrow> nat \<Rightarrow> order \<times> nat list \<Rightarrow> order \<times> nat list" where
  "star_visit n v s =
     (case s of (st, q) \<Rightarrow> if n \<le> v \<or> fst st ! v \<noteq> None then s else (assign_one v st, q @ [v]))"

partial_function (option) star_bfs :: "nat \<Rightarrow> (nat \<Rightarrow> nat list) \<Rightarrow> order \<times> nat list \<Rightarrow> order option" where
  "star_bfs n nbr s =
     (case snd s of
        [] \<Rightarrow> Some (fst s)
      | u # q \<Rightarrow> star_bfs n nbr (fold (star_visit n) (nbr u) (fst s, q)))"

definition star_pack :: "nat \<Rightarrow> (nat \<Rightarrow> nat list) \<Rightarrow> nat \<Rightarrow> order option" where
  "star_pack n nbr entry =
     (if n = 0 then None
      else let e = entry_in n entry
           in case star_bfs n nbr (assign_one e (no_order n), [e]) of
                None \<Rightarrow> None
              | Some st \<Rightarrow> let st1 = assign_rest n st in if length (snd st1) \<noteq> n then None else Some st1)"

section \<open>Blocks of neighbours\<close>

text \<open>\<open>pack_layout_pagebin\<close> has a flag \<open>inq\<close> of its own for what was queued.\<close>

definition try_push :: "nat \<Rightarrow> nat \<Rightarrow> bool list \<times> nat list \<Rightarrow> bool list \<times> nat list" where
  "try_push n v p = (case p of (inq, q) \<Rightarrow> if n \<le> v \<or> inq ! v then p else (inq[v := True], q @ [v]))"

definition block_visit :: "nat \<Rightarrow> nat \<Rightarrow> order \<times> bool list \<times> nat list \<Rightarrow> order \<times> bool list \<times> nat list" where
  "block_visit n v s =
     (case s of (st, p) \<Rightarrow>
        if n \<le> v then s else (if fst st ! v = None then assign_one v st else st, try_push n v p))"

partial_function (option) block_bfs ::
  "nat \<Rightarrow> (nat \<Rightarrow> nat list) \<Rightarrow> order \<times> bool list \<times> nat list \<Rightarrow> order option" where
  "block_bfs n nbr s =
     (case s of (st, inq, q) \<Rightarrow>
        case q of
          [] \<Rightarrow> Some st
        | u # q1 \<Rightarrow> block_bfs n nbr (fold (block_visit n) (nbr u) (assign_one u st, inq, q1)))"

definition block_order :: "nat \<Rightarrow> (nat \<Rightarrow> nat list) \<Rightarrow> nat \<Rightarrow> order option" where
  "block_order n nbr entry =
     (if n = 0 then None
      else case block_bfs n nbr (no_order n, try_push n (entry_in n entry) (replicate n False, [])) of
             None \<Rightarrow> None
           | Some st \<Rightarrow> let st1 = assign_rest n st in if length (snd st1) \<noteq> n then None else Some st1)"

section \<open>Assigned ids\<close>

abbreviation placed :: "order \<Rightarrow> nat set" where
  "placed st \<equiv> set (snd st)"

definition numbering :: "nat \<Rightarrow> order \<Rightarrow> bool" where
  "numbering n st \<longleftrightarrow> numbered n (snd st) (fst st)"

lemma numbering_no_order [simp]: "numbering n (no_order n)" "snd (no_order n) = []"
  by (simp_all add: numbering_def no_order_def)

lemma numbering_free: "numbering n st \<Longrightarrow> u < n \<Longrightarrow> fst st ! u = None \<longleftrightarrow> u \<notin> placed st"
  unfolding numbering_def by (rule numbered_None)

lemma numberingD: "numbering n st \<Longrightarrow> distinct (snd st)" "numbering n st \<Longrightarrow> placed st \<subseteq> {..<n}"
  by (simp_all add: numbering_def numbered_def)

lemma numbering_length: "numbering n st \<Longrightarrow> length (snd st) \<le> n"
  using card_mono [of "{..<n}" "placed st"] distinct_card [of "snd st"] numberingD [of n st] by simp

lemma assign_one_placed: "numbering n st \<Longrightarrow> u < n \<Longrightarrow> u \<in> placed st \<Longrightarrow> assign_one u st = st"
  using numbering_free [of n st u] by (simp add: assign_one_def case_prod_beta)

lemma assign_one_new:
  assumes "numbering n st" and "u < n" and "u \<notin> placed st"
  shows "numbering n (assign_one u st)" and "snd (assign_one u st) = snd st @ [u]"
proof -
  have free: "fst st ! u = None" using numbering_free [OF assms(1,2)] assms(3) by simp
  then have "assign_one u st = ((fst st)[u := Some (length (snd st))], snd st @ [u])" by (simp add: assign_one_def case_prod_beta)
  moreover have "numbered n (snd st @ [u]) ((fst st)[u := Some (length (snd st))])"
    using numbered_give [OF _ assms(2) free] assms(1) by (simp add: numbering_def)
  ultimately show "numbering n (assign_one u st)" "snd (assign_one u st) = snd st @ [u]" by (simp_all add: numbering_def)
qed

lemma fold_assign:
  "numbering n st \<Longrightarrow> set us \<subseteq> {..<n} \<Longrightarrow>
   numbering n (fold assign_one us st) \<and>
   (\<exists>new. snd (fold assign_one us st) = snd st @ new \<and> set new = set us - placed st)"
proof (induction us arbitrary: st)
  case (Cons u us)
  then have u: "u < n" "set us \<subseteq> {..<n}" by auto
  show ?case
  proof (cases "u \<in> placed st")
    case True
    then show ?thesis using Cons.IH [OF Cons.prems(1) u(2)] assign_one_placed [OF Cons.prems(1) u(1)] by auto
  next
    case False
    note new = assign_one_new [OF Cons.prems(1) u(1) False]
    from Cons.IH [OF new(1) u(2)] obtain new where "numbering n (fold assign_one us (assign_one u st))"
      "snd (fold assign_one us (assign_one u st)) = snd st @ u # new" "set new = set us - insert u (placed st)" by (auto simp: new(2))
    then show ?thesis using False by (intro conjI exI [of _ "u # new"]) auto
  qed
qed simp

lemma assign_rest_upto:
  "numbering n st \<Longrightarrow> m \<le> n \<Longrightarrow>
   numbering n (fold assign_one [0..<m] st) \<and> snd (fold assign_one [0..<m] st) = snd st @ filter (\<lambda>u. u \<notin> placed st) [0..<m]"
proof (induction m)
  case (Suc m)
  then have IH: "numbering n (fold assign_one [0..<m] st)" "m < n"
    "snd (fold assign_one [0..<m] st) = snd st @ filter (\<lambda>u. u \<notin> placed st) [0..<m]" by simp_all
  then show ?case
    using assign_one_placed [OF IH(1,2)] assign_one_new [OF IH(1,2)] by (cases "m \<in> placed st") auto
qed simp

text \<open>Once the rest is assigned, the order is complete.\<close>

definition permutes_ids :: "nat \<Rightarrow> order \<Rightarrow> bool" where
  "permutes_ids n st \<longleftrightarrow> length (fst st) = n \<and> distinct (snd st) \<and> set (snd st) = {..<n} \<and>
     (\<forall>i < n. fst st ! (snd st ! i) = Some i)"

lemma assign_rest_permutes:
  assumes "numbering n st"
  shows "permutes_ids n (assign_rest n st)" and "snd (assign_rest n st) = snd st @ filter (\<lambda>u. u \<notin> placed st) [0..<n]"
    and "length (snd (assign_rest n st)) = n"
proof -
  note up = assign_rest_upto [OF assms order_refl]
  show "snd (assign_rest n st) = snd st @ filter (\<lambda>u. u \<notin> placed st) [0..<n]" using up by (simp add: assign_rest_def)
  then have P: "placed (assign_rest n st) = {..<n}" using numberingD(2) [OF assms] by auto
  have N: "numbered n (snd (assign_rest n st)) (fst (assign_rest n st))"
    using up unfolding assign_rest_def numbering_def by blast
  show "length (snd (assign_rest n st)) = n" by (rule numbered_full(1) [OF N P])
  have "distinct (snd (assign_rest n st))" using N unfolding numbered_def by blast
  then show "permutes_ids n (assign_rest n st)"
    using P numbered_length [OF N] numbered_full(3) [OF N P] unfolding permutes_ids_def by blast
qed

section \<open>The star-pack walk\<close>

definition edge_rel :: "nat \<Rightarrow> (nat \<Rightarrow> nat list) \<Rightarrow> (nat \<times> nat) set" where
  "edge_rel n nbr = {(u, v). u < n \<and> v < n \<and> v \<in> set (nbr u)}"

definition reached :: "nat \<Rightarrow> (nat \<Rightarrow> nat list) \<Rightarrow> nat \<Rightarrow> nat set" where
  "reached n nbr e = {v. (e, v) \<in> (edge_rel n nbr)\<^sup>*}"

lemma star_visits:
  "numbering n st \<Longrightarrow>
   \<exists>st' new. fold (star_visit n) vs (st, q) = (st', q @ new) \<and> numbering n st' \<and> snd st' = snd st @ new \<and>
     set new = {v \<in> set vs. v < n} - placed st"
proof (induction vs arbitrary: st q)
  case (Cons v vs)
  show ?case
  proof (cases "v < n \<and> v \<notin> placed st")
    case True
    note new = assign_one_new [OF Cons.prems, of v]
    have "star_visit n v (st, q) = (assign_one v st, q @ [v])"
      using True numbering_free [OF Cons.prems, of v] by (simp add: star_visit_def)
    moreover obtain st' new where "fold (star_visit n) vs (assign_one v st, q @ [v]) = (st', (q @ [v]) @ new)" "numbering n st'"
      "snd st' = snd (assign_one v st) @ new" "set new = {v \<in> set vs. v < n} - placed (assign_one v st)"
      using Cons.IH [of "assign_one v st" "q @ [v]"] new True by blast
    ultimately show ?thesis using True new(2) by (intro exI [of _ st'] exI [of _ "v # new"]) auto
  next
    case False
    then have "star_visit n v (st, q) = (st, q)"
      using numbering_free [OF Cons.prems, of v] by (cases "v < n") (auto simp: star_visit_def)
    then show ?thesis using Cons.IH [OF Cons.prems, of q] False by auto
  qed
qed simp

text \<open>What was placed was reached, and the neighbours of what left the queue are placed.\<close>

definition star_inv :: "nat \<Rightarrow> (nat \<Rightarrow> nat list) \<Rightarrow> nat \<Rightarrow> order \<Rightarrow> nat list \<Rightarrow> bool" where
  "star_inv n nbr e st q \<longleftrightarrow> numbering n st \<and> set q \<subseteq> placed st \<and> e \<in> placed st \<and> placed st \<subseteq> reached n nbr e \<and>
     (\<forall>u \<in> placed st - set q. \<forall>v \<in> set (nbr u). v < n \<longrightarrow> v \<in> placed st)"

lemma star_inv_step:
  assumes "star_inv n nbr e st (u # q)"
  shows "\<exists>st' new. fold (star_visit n) (nbr u) (st, q) = (st', q @ new) \<and> star_inv n nbr e st' (q @ new) \<and> snd st' = snd st @ new"
proof -
  have I: "numbering n st" "insert u (set q) \<subseteq> placed st" "e \<in> placed st" "placed st \<subseteq> reached n nbr e"
    "\<forall>w \<in> placed st - insert u (set q). \<forall>v \<in> set (nbr w). v < n \<longrightarrow> v \<in> placed st" using assms by (auto simp: star_inv_def)
  from star_visits [OF I(1), of "nbr u" q] obtain st' new where st': "fold (star_visit n) (nbr u) (st, q) = (st', q @ new)"
    "numbering n st'" "snd st' = snd st @ new" "set new = {v \<in> set (nbr u). v < n} - placed st" by blast
  have "u < n" "u \<in> reached n nbr e" using I(2,4) numberingD(2) [OF I(1)] by auto
  then have "v \<in> reached n nbr e" if "v \<in> set (nbr u)" "v < n" for v
    using that rtrancl_into_rtrancl [of e u "edge_rel n nbr" v] by (simp add: reached_def edge_rel_def)
  then have "set new \<subseteq> reached n nbr e" using st'(4) by auto
  moreover have "v \<in> placed st'" if "w \<in> placed st' - set (q @ new)" "v \<in> set (nbr w)" "v < n" for w v
  proof (cases "w = u")
    case False
    then have "w \<in> placed st - insert u (set q)" using that(1) st'(3) by auto
    then have "v \<in> placed st" using I(5) that(2,3) by blast
    then show ?thesis using st'(3) by simp
  qed (use that(2,3) st'(3,4) in auto)
  moreover have "set (q @ new) \<subseteq> placed st'" "e \<in> placed st'" using I(2,3) st'(3) by auto
  moreover have "set new \<subseteq> reached n nbr e \<Longrightarrow> placed st' \<subseteq> reached n nbr e" using I(4) st'(3) by auto
  ultimately have "star_inv n nbr e st' (q @ new)" using st'(2) unfolding star_inv_def by blast
  with st' show ?thesis by blast
qed

lemma star_bfs_simps [simp]:
  "star_bfs n nbr (st, []) = Some st"
  "star_bfs n nbr (st, u # q) = star_bfs n nbr (fold (star_visit n) (nbr u) (st, q))"
  by (simp_all add: star_bfs.simps)

lemma star_bfs_ok:
  "star_inv n nbr e st q \<Longrightarrow> \<exists>st'. star_bfs n nbr (st, q) = Some st' \<and> star_inv n nbr e st' [] \<and> (\<exists>new. snd st' = snd st @ new)"
proof (induction "n - length (snd st) + length q" arbitrary: st q rule: less_induct)
  case less
  show ?case
  proof (cases q)
    case Nil
    then show ?thesis using less.prems by auto
  next
    case (Cons u q1)
    from star_inv_step [OF less.prems [unfolded Cons]] obtain st' new where
      st': "fold (star_visit n) (nbr u) (st, q1) = (st', q1 @ new)" "star_inv n nbr e st' (q1 @ new)" "snd st' = snd st @ new" by blast
    have "length (snd st') \<le> n" using st'(2) numbering_length by (simp add: star_inv_def)
    then have "n - length (snd st') + length (q1 @ new) < n - length (snd st) + length q" using st'(3) Cons by simp
    from less.hyps [OF this st'(2)] st' show ?thesis by (auto simp: Cons)
  qed
qed

lemma star_start:
  assumes "e < n"
  shows "star_inv n nbr e (assign_one e (no_order n)) [e]" and "snd (assign_one e (no_order n)) = [e]"
  using assign_one_new [of n "no_order n" e] assms by (auto simp: star_inv_def reached_def)

lemma star_inv_done:
  assumes "star_inv n nbr e st []"
  shows "placed st = reached n nbr e"
proof -
  have I: "numbering n st" "e \<in> placed st" "placed st \<subseteq> reached n nbr e" "\<forall>u \<in> placed st. \<forall>v \<in> set (nbr u). v < n \<longrightarrow> v \<in> placed st"
    using assms by (auto simp: star_inv_def)
  have "v \<in> placed st" if "(e, v) \<in> (edge_rel n nbr)\<^sup>*" for v
    using that by induction (use I(2,4) in \<open>auto simp: edge_rel_def\<close>)
  then show ?thesis using I(3) by (auto simp: reached_def)
qed

lemma star_pack_eq:
  assumes "0 < n"
  shows "\<exists>st. star_bfs n nbr (assign_one (entry_in n entry) (no_order n), [entry_in n entry]) = Some st \<and>
    star_pack n nbr entry = Some (assign_rest n st) \<and> numbering n st \<and> placed st = reached n nbr (entry_in n entry) \<and>
    (\<exists>new. snd st = entry_in n entry # new)"
proof -
  let ?e = "entry_in n entry"
  have e: "?e < n" using assms by (simp add: entry_in_def)
  from star_bfs_ok [OF star_start(1) [OF e]] obtain st new where st: "star_bfs n nbr (assign_one ?e (no_order n), [?e]) = Some st"
    "star_inv n nbr ?e st []" "snd st = snd (assign_one ?e (no_order n)) @ new" by blast
  then have "numbering n st" by (simp add: star_inv_def)
  then show ?thesis
    using st star_start(2) [OF e] star_inv_done [OF st(2)] assms assign_rest_permutes(3) [of n st]
    by (auto simp: star_pack_def Let_def)
qed

text \<open>The star-pack walk of \<open>reorder_layout_bfs\<close> ends for every graph and gives every node one new id: the
  entry point gets 0, the nodes that a search can reach from it come first, the others keep their order.\<close>
theorem star_pack_order:
  assumes "0 < n"
  shows "\<exists>st k. star_pack n nbr entry = Some st \<and> permutes_ids n st \<and> snd st ! 0 = entry_in n entry \<and>
    set (take k (snd st)) = reached n nbr (entry_in n entry) \<and> sorted (drop k (snd st))"
proof -
  from star_pack_eq [OF assms, of nbr entry] obtain st new where st: "star_pack n nbr entry = Some (assign_rest n st)" "numbering n st"
    "placed st = reached n nbr (entry_in n entry)" "snd st = entry_in n entry # new" by blast
  note rest = assign_rest_permutes [OF st(2)]
  have "sorted (drop (length (snd st)) (snd (assign_rest n st)))" using sorted_wrt_filter [OF sorted_upt] by (simp add: rest(2))
  with st rest show ?thesis by (intro exI [of _ "assign_rest n st"] exI [of _ "length (snd st)"]) simp
qed

theorem star_pack_order_witness:
  "star_pack 5 (\<lambda>u. [[9, 3], [2, 2], [0, 3], [3, 1], [0, 0]] ! u) 2 = Some ([Some 1, Some 3, Some 0, Some 2, Some 4], [2, 0, 3, 1, 4]) \<and>
   reached 5 (\<lambda>u. [[9, 3], [2, 2], [0, 3], [3, 1], [0, 0]] ! u) 2 = {0, 1, 2, 3}"
proof -
  let ?nbr = "\<lambda>u. [[9, 3], [2, 2], [0, 3], [3, 1], [0, 0 :: nat]] ! u"
  have run: "star_bfs 5 ?nbr (assign_one 2 (no_order 5), [2]) =
      Some ([Some 1, Some 3, Some 0, Some 2, None], [2, 0, 3, 1])"
    by (simp add: star_visit_def assign_one_def no_order_def eval_nat_numeral)
  have "[0..<5] = [0, 1, 2, 3, 4 :: nat]" by (simp add: upt_rec)
  then have rest: "assign_rest 5 ([Some 1, Some 3, Some 0, Some 2, None], [2, 0, 3, 1]) =
      ([Some 1, Some 3, Some 0, Some 2, Some 4], [2, 0, 3, 1, 4])"
    by (simp add: assign_rest_def assign_one_def)
  have st: "star_pack 5 ?nbr 2 = Some ([Some 1, Some 3, Some 0, Some 2, Some 4], [2, 0, 3, 1, 4])"
    using run rest by (simp add: star_pack_def entry_in_def Let_def del: star_bfs_simps)
  have e: "entry_in 5 2 = 2" by (simp add: entry_in_def)
  have "reached 5 ?nbr 2 = {0, 1, 2, 3}"
  proof -
    obtain st where "star_bfs 5 ?nbr (assign_one 2 (no_order 5), [2]) = Some st" "placed st = reached 5 ?nbr 2"
      using star_pack_eq [of 5 ?nbr 2, OF zero_less_numeral, unfolded e] by blast
    with run have "reached 5 ?nbr 2 = set (snd ([Some 1, Some 3, Some 0, Some 2, None :: nat option], [2, 0, 3, 1 :: nat]))"
      by (simp only: option.inject)
    then show ?thesis by auto
  qed
  moreover have "\<exists>st k. star_pack 5 ?nbr 2 = Some st \<and> set (take k (snd st)) = reached 5 ?nbr 2"
    using star_pack_order [of 5 ?nbr 2, OF zero_less_numeral, unfolded e] by blast
  ultimately show ?thesis using st by simp
qed

section \<open>Two tools, one order\<close>

definition same_walk :: "nat \<Rightarrow> order \<Rightarrow> bool list \<Rightarrow> bool" where
  "same_walk n st inq \<longleftrightarrow> numbering n st \<and> length inq = n \<and> (\<forall>v < n. inq ! v \<longleftrightarrow> v \<in> placed st)"

lemma block_visits:
  "same_walk n st inq \<Longrightarrow>
   \<exists>st' inq' q'. fold (block_visit n) vs (st, inq, q) = (st', inq', q') \<and> fold (star_visit n) vs (st, q) = (st', q') \<and>
     same_walk n st' inq'"
proof (induction vs arbitrary: st inq q)
  case (Cons v vs)
  have num: "numbering n st" using Cons.prems by (simp add: same_walk_def)
  show ?case
  proof (cases "v < n \<and> v \<notin> placed st")
    case True
    note new = assign_one_new [OF num, of v]
    have "block_visit n v (st, inq, q) = (assign_one v st, inq[v := True], q @ [v])" "star_visit n v (st, q) = (assign_one v st, q @ [v])"
      using True numbering_free [OF num, of v] Cons.prems by (auto simp: block_visit_def star_visit_def try_push_def same_walk_def)
    moreover have "same_walk n (assign_one v st) (inq[v := True])"
      using True new Cons.prems by (auto simp: same_walk_def nth_list_update)
    ultimately show ?thesis using Cons.IH by auto
  next
    case False
    then have "block_visit n v (st, inq, q) = (st, inq, q)" "star_visit n v (st, q) = (st, q)"
      using numbering_free [OF num, of v] Cons.prems
      by (cases "v < n"; auto simp: block_visit_def star_visit_def try_push_def same_walk_def)+
    then show ?thesis using Cons.IH [OF Cons.prems] by simp
  qed
qed simp

lemma block_bfs_star:
  "star_inv n nbr e st q \<Longrightarrow> same_walk n st inq \<Longrightarrow> block_bfs n nbr (st, inq, q) = star_bfs n nbr (st, q)"
proof (induction "n - length (snd st) + length q" arbitrary: st inq q rule: less_induct)
  case less
  show ?case
  proof (cases q)
    case Nil
    then show ?thesis by (simp add: block_bfs.simps)
  next
    case (Cons u q1)
    from star_inv_step [OF less.prems(1) [unfolded Cons]] obtain st' new where
      st': "fold (star_visit n) (nbr u) (st, q1) = (st', q1 @ new)" "star_inv n nbr e st' (q1 @ new)" "snd st' = snd st @ new" by blast
    from block_visits [OF less.prems(2), of "nbr u" q1] st'(1) obtain inq' where
      inq': "fold (block_visit n) (nbr u) (st, inq, q1) = (st', inq', q1 @ new)" "same_walk n st' inq'" by auto
    have "u < n" "u \<in> placed st" using less.prems(1) numberingD(2) [of n st] by (auto simp: star_inv_def Cons)
    then have "assign_one u st = st" using less.prems(1) assign_one_placed [of n st u] by (simp add: star_inv_def)
    moreover have "length (snd st') \<le> n" using st'(2) numbering_length by (simp add: star_inv_def)
    then have "n - length (snd st') + length (q1 @ new) < n - length (snd st) + length q" using st'(3) Cons by simp
    from less.hyps [OF this st'(2) inq'(2)] st'(1) inq'(1)
    have "block_bfs n nbr (st', inq', q1 @ new) = star_bfs n nbr (st', q1 @ new)" by simp
    ultimately show ?thesis
      using st'(1) inq'(1) by (simp add: block_bfs.simps [of n nbr "(st, inq, u # q1)"] Cons)
  qed
qed

text \<open>C37. \<open>pack_layout_pagebin\<close>, with its separate flags, assigns the same ids as \<open>reorder_layout_bfs\<close>.\<close>
theorem block_order_is_star_pack: "block_order n nbr entry = star_pack n nbr entry"
proof (cases "n = 0")
  case False
  let ?e = "entry_in n entry" and ?st = "assign_one (entry_in n entry) (no_order n)" and ?inq = "(replicate n False)[entry_in n entry := True]"
  have e: "?e < n" using False by (simp add: entry_in_def)
  note s = star_start(1) [OF e, of nbr] star_start(2) [OF e]
  have same: "same_walk n ?st ?inq" using s e by (auto simp: same_walk_def star_inv_def nth_list_update)
  have "try_push n ?e (replicate n False, []) = (?inq, [?e])" using e by (simp add: try_push_def)
  moreover have "block_bfs n nbr (no_order n, ?inq, [?e]) = block_bfs n nbr (?st, ?inq, [?e])"
    using assign_one_placed [of n ?st ?e] s e by (simp add: block_bfs.simps [of n nbr "(no_order n, ?inq, [?e])"]
      block_bfs.simps [of n nbr "(?st, ?inq, [?e])"] star_inv_def)
  moreover have "block_bfs n nbr (?st, ?inq, [?e]) = star_bfs n nbr (?st, [?e])" by (rule block_bfs_star [OF s(1) same])
  ultimately show ?thesis using False by (simp add: block_order_def star_pack_def Let_def)
qed (simp add: block_order_def star_pack_def)

end
