(* ===== verification/Layout_Bundle.thy ===== *)
theory Layout_Bundle
  imports Layout_Order
begin

text \<open>
  The orders of \<open>tools/pack_layout_bundle.cpp\<close>: the greedy order that places the free neighbours of one
  node side by side, the one with the most free neighbours first and nodes near the entry point before
  others; the order of a trace; and a map from a file. \<open>None\<close> is an exit with an error or an access
  outside an array.
\<close>

section \<open>Bundles\<close>

text \<open>The walk from the entry point; depths are \<open>uint16_t\<close>, \<open>0xFFFF\<close> marks a node not seen.\<close>

definition depth_visit :: "nat \<Rightarrow> nat \<Rightarrow> nat \<Rightarrow> nat list \<times> nat list \<Rightarrow> nat list \<times> nat list" where
  "depth_visit n d v s =
     (case s of (depth, q) \<Rightarrow> if n \<le> v \<or> depth ! v \<noteq> 65535 then s else (depth[v := (d + 1) mod 65536], q @ [v]))"

partial_function (option) depth_bfs ::
  "nat \<Rightarrow> (nat \<Rightarrow> nat list) \<Rightarrow> (nat list \<times> nat list) \<times> nat list \<Rightarrow> nat list option" where
  "depth_bfs n nbr s =
     (case s of ((depth, q), seen) \<Rightarrow>
        case q of
          [] \<Rightarrow> Some seen
        | u # q1 \<Rightarrow> depth_bfs n nbr (fold (depth_visit n (depth ! u)) (nbr u) (depth, q1), seen @ [u]))"

definition bfs_ord :: "nat \<Rightarrow> (nat \<Rightarrow> nat list) \<Rightarrow> nat \<Rightarrow> nat list option" where
  "bfs_ord n nbr e = depth_bfs n nbr (((replicate n 65535)[e := 0], [e]), [])"

definition hot_flags :: "nat \<Rightarrow> nat \<Rightarrow> nat list \<Rightarrow> bool list" where
  "hot_flags n hot_n seen = fold (\<lambda>u is_hot. is_hot[u := True]) (take hot_n seen) (replicate n False)"

text \<open>Incoming edges in one array, \<open>inoff\<close> says where those of a node start.\<close>

definition edges_of :: "nat \<Rightarrow> (nat \<Rightarrow> nat list) \<Rightarrow> (nat \<times> nat) list" where
  "edges_of n nbr = concat (map (\<lambda>u. map (Pair u) (filter (\<lambda>v. v < n) (nbr u))) [0..<n])"

definition in_counts :: "nat \<Rightarrow> (nat \<times> nat) list \<Rightarrow> nat list" where
  "in_counts n es = fold (\<lambda>(u, v) d. d[v := d ! v + 1]) es (replicate n 0)"

definition in_starts :: "nat list \<Rightarrow> nat list" where
  "in_starts indeg = fold (\<lambda>d offs. offs @ [last offs + d]) indeg [0]"

definition in_adj :: "nat \<Rightarrow> (nat \<times> nat) list \<Rightarrow> nat list" where
  "in_adj n es =
     (let offs = in_starts (in_counts n es)
      in fst (fold (\<lambda>(u, v) (adj, cur). (adj[cur ! v := u], cur[v := cur ! v + 1])) es
                (replicate (offs ! n) 0, offs)))"

definition in_edges :: "nat \<Rightarrow> (nat \<times> nat) list \<Rightarrow> nat \<Rightarrow> nat list" where
  "in_edges n es v =
     (let offs = in_starts (in_counts n es) in map (\<lambda>e. in_adj n es ! e) [offs ! v..<offs ! (v + 1)])"

text \<open>Neighbours left to place, modulo \<open>2 ^ 8\<close>, and the queues by heat and number left: \<open>buckets[h][r]\<close>
  is entry \<open>33 * h + r\<close>.\<close>

record greedy =
  gr_order :: order
  gr_rem :: "nat list"
  gr_buckets :: "nat list list"
  gr_h :: int
  gr_r :: int

definition bucket :: "int \<Rightarrow> int \<Rightarrow> nat" where
  "bucket h r = nat (33 * h + r)"

definition push_bucket :: "bool list \<Rightarrow> nat list \<Rightarrow> nat \<Rightarrow> nat list list \<Rightarrow> nat list list" where
  "push_bucket hot rem u bk = (let i = bucket (of_bool (hot ! u)) (int (rem ! u)) in bk[i := bk ! i @ [u]])"

definition greedy_start :: "nat \<Rightarrow> (nat \<Rightarrow> nat list) \<Rightarrow> bool list \<Rightarrow> greedy option" where
  "greedy_start n nbr hot =
     (let rem = map (\<lambda>u. length (filter (\<lambda>v. v < n) (nbr u)) mod 256) [0..<n]
      in if list_all (\<lambda>r. r \<le> 32) rem
         then Some \<lparr>gr_order = no_order n, gr_rem = rem,
                    gr_buckets = fold (push_bucket hot rem) [0..<n] (replicate 66 []), gr_h = 1, gr_r = 32\<rparr>
         else None)"

text \<open>The two \<open>while\<close> loops of \<open>pop_best\<close>.\<close>

function seek :: "nat list list \<Rightarrow> int \<Rightarrow> int \<Rightarrow> int \<times> int" where
  "seek bk h r =
     (if h < 0 then (h, r)
      else if 0 \<le> r then if bk ! bucket h r = [] then seek bk h (r - 1) else (h, r)
      else seek bk (h - 1) 32)"
  by pat_completeness auto
termination
  by (relation "measures [\<lambda>(bk, h, r). nat (h + 1), \<lambda>(bk, h, r). nat (r + 1)]") auto

partial_function (option) pop_best :: "bool list \<Rightarrow> greedy \<Rightarrow> (nat option \<times> greedy) option" where
  "pop_best hot s =
     (let (h, r) = seek (gr_buckets s) (gr_h s) (gr_r s); s1 = s\<lparr>gr_h := h, gr_r := r\<rparr>
      in if h < 0 then Some (None, s1)
         else let i = bucket h r; u = last (gr_buckets s ! i);
                  s2 = s1\<lparr>gr_buckets := (gr_buckets s)[i := butlast (gr_buckets s ! i)]\<rparr>
              in if of_bool (hot ! u) = h \<and> int (gr_rem s ! u) = r then Some (Some u, s2) else pop_best hot s2)"

definition drop_one :: "bool list \<Rightarrow> nat \<Rightarrow> greedy \<Rightarrow> greedy" where
  "drop_one hot w s =
     (if gr_rem s ! w = 0 then s
      else let rem = (gr_rem s)[w := gr_rem s ! w - 1]; h = of_bool (hot ! w); r = int (rem ! w);
               s1 = s\<lparr>gr_rem := rem, gr_buckets := push_bucket hot rem w (gr_buckets s)\<rparr>
           in if gr_h s < h \<or> h = gr_h s \<and> gr_r s < r then s1\<lparr>gr_h := h, gr_r := r\<rparr> else s1)"

definition place_block :: "bool list \<Rightarrow> (nat \<Rightarrow> nat list) \<Rightarrow> nat list \<Rightarrow> greedy \<Rightarrow> greedy" where
  "place_block hot inadj block s =
     fold (\<lambda>v. fold (drop_one hot) (inadj v)) block (s\<lparr>gr_order := fold assign_one block (gr_order s)\<rparr>)"

partial_function (option) bundle_loop ::
  "nat \<Rightarrow> (nat \<Rightarrow> nat list) \<Rightarrow> (nat \<Rightarrow> nat list) \<Rightarrow> bool list \<Rightarrow> greedy \<Rightarrow> order option" where
  "bundle_loop n nbr inadj hot s =
     (if n \<le> length (snd (gr_order s)) then Some (gr_order s)
      else case pop_best hot s of
             None \<Rightarrow> None
           | Some (None, s1) \<Rightarrow> Some (gr_order s1)
           | Some (Some u, s1) \<Rightarrow>
               if gr_rem s1 ! u = 0 then bundle_loop n nbr inadj hot s1
               else let block = filter (\<lambda>v. v < n \<and> fst (gr_order s1) ! v = None) (nbr u)
                    in if 64 < length block then None
                       else if block = [] then bundle_loop n nbr inadj hot (s1\<lparr>gr_rem := (gr_rem s1)[u := 0]\<rparr>)
                       else bundle_loop n nbr inadj hot (place_block hot inadj block s1))"

definition bundle_order :: "nat \<Rightarrow> (nat \<Rightarrow> nat list) \<Rightarrow> nat \<Rightarrow> nat \<Rightarrow> order option" where
  "bundle_order n nbr entry hot_n =
     (if n = 0 then None
      else Option.bind (bfs_ord n nbr (entry_in n entry)) (\<lambda>seen.
        let hot = hot_flags n hot_n seen; es = edges_of n nbr
        in Option.bind (greedy_start n nbr hot) (\<lambda>s.
             map_option (assign_rest n) (bundle_loop n nbr (in_edges n es) hot s))))"

section \<open>The order of a trace\<close>

text \<open>A read behind the end of the file leaves the count zero and the ids zero.\<close>

fun trace_queries :: "nat \<Rightarrow> nat list \<Rightarrow> nat list list" where
  "trace_queries 0 ws = []"
| "trace_queries (Suc tq) [] = [] # trace_queries tq []"
| "trace_queries (Suc tq) (ns # ws) = (take ns ws @ replicate (ns - length ws) 0) # trace_queries tq (drop ns ws)"

definition load_trace :: "nat list \<Rightarrow> nat list list option" where
  "load_trace ws =
     (if ws = [] \<or> hd ws \<noteq> 0x44524353 then None
      else Some (trace_queries (case tl ws of [] \<Rightarrow> 0 | tq # _ \<Rightarrow> tq) (tl (tl ws))))"

definition trace_order :: "nat \<Rightarrow> nat list \<Rightarrow> order option" where
  "trace_order n ws =
     map_option (\<lambda>qs. assign_rest n (fold (\<lambda>q st. fold (\<lambda>i st. if i < n then assign_one i st else st) q st) qs (no_order n)))
       (load_trace ws)"

text \<open>\<open>--eval-map\<close> takes any list of ids of the image.\<close>

definition eval_order :: "nat \<Rightarrow> nat list \<Rightarrow> order option" where
  "eval_order n ws =
     (if length ws < n \<or> \<not> list_all (\<lambda>i. i < n) (take n ws) then None
      else Some (fold (\<lambda>i o2n. o2n[ws ! i := Some i]) [0..<n] (replicate n None), take n ws))"

section \<open>The walk from the entry point\<close>

lemma depth_bfs_simps [simp]:
  "depth_bfs n nbr ((depth, []), seen) = Some seen"
  "depth_bfs n nbr ((depth, u # q), seen) = depth_bfs n nbr (fold (depth_visit n (depth ! u)) (nbr u) (depth, q), seen @ [u])"
  by (subst depth_bfs.simps, simp)+

text \<open>The next depth is the mark itself.\<close>

definition wraps :: "nat \<Rightarrow> bool" where
  "wraps d \<longleftrightarrow> (d + 1) mod 65536 = 65535"

lemma not_wraps_mark: "\<not> wraps 65535"
  by (simp add: wraps_def)

definition unseen :: "nat list \<Rightarrow> nat" where
  "unseen depth = length (filter (\<lambda>d. d = 65535) depth)"

lemma unseen_mark: "v < length depth \<Longrightarrow> depth ! v = 65535 \<Longrightarrow> d \<noteq> 65535 \<Longrightarrow> unseen (depth[v := d]) < unseen depth"
proof (induction depth arbitrary: v)
  case (Cons x depth)
  then show ?case by (cases v) (auto simp: unseen_def)
qed simp

text \<open>A node that gets depth \<open>0xFFFF\<close> is not marked and may be queued again; the others are marked.\<close>

lemma depth_visits:
  "length depth = n \<Longrightarrow> set q \<subseteq> {..<n} \<Longrightarrow>
   \<exists>depth' q'. fold (depth_visit n d) vs (depth, q) = (depth', q') \<and> length depth' = n \<and> set q' \<subseteq> {..<n} \<and>
     (unseen depth' < unseen depth \<or>
      depth' = depth \<and> (\<exists>new. q' = q @ new \<and> (\<forall>v \<in> set new. depth ! v = 65535) \<and> (\<not> wraps d \<longrightarrow> new = [])))"
proof (induction vs arbitrary: depth q)
  case (Cons v vs)
  show ?case
  proof (cases "v < n \<and> depth ! v = 65535")
    case False
    then have "depth_visit n d v (depth, q) = (depth, q)" by (auto simp: depth_visit_def)
    then show ?thesis using Cons.IH [OF Cons.prems] by simp
  next
    case True
    let ?depth = "depth[v := (d + 1) mod 65536]"
    have step: "depth_visit n d v (depth, q) = (?depth, q @ [v])" using True by (auto simp: depth_visit_def)
    have pre: "length ?depth = n" "set (q @ [v]) \<subseteq> {..<n}" using Cons.prems True by auto
    from Cons.IH [OF pre] obtain depth' q' where f: "fold (depth_visit n d) vs (?depth, q @ [v]) = (depth', q')"
      "length depth' = n" "set q' \<subseteq> {..<n}" and
      alt: "unseen depth' < unseen ?depth \<or> depth' = ?depth \<and> (\<exists>new. q' = (q @ [v]) @ new \<and> (\<forall>x \<in> set new. ?depth ! x = 65535) \<and>
        (\<not> wraps d \<longrightarrow> new = []))" by blast
    have "unseen depth' < unseen depth \<or>
      depth' = depth \<and> (\<exists>new. q' = q @ new \<and> (\<forall>x \<in> set new. depth ! x = 65535) \<and> (\<not> wraps d \<longrightarrow> new = []))"
    proof (cases "(d + 1) mod 65536 = 65535")
      case wrap: True
      then have "?depth = depth" using True by (metis list_update_id)
      moreover have "wraps d" using wrap by (simp add: wraps_def)
      moreover have "\<forall>x \<in> set (v # new). depth ! x = 65535" if "\<forall>x \<in> set new. depth ! x = 65535" for new
        using that True by simp
      ultimately show ?thesis using alt True by (auto simp only: append_assoc append_Cons append_Nil simp_thms)
    next
      case False
      then have "unseen ?depth < unseen depth" using True Cons.prems(1) by (intro unseen_mark) auto
      then show ?thesis using alt by auto
    qed
    then show ?thesis unfolding fold_simps step by (intro exI [of _ depth'] exI [of _ q'] conjI f)
  qed
qed auto

lemma depth_bfs_returns:
  "length depth = n \<Longrightarrow> set q \<subseteq> {..<n} \<Longrightarrow> set seen \<subseteq> {..<n} \<Longrightarrow>
   \<exists>r. depth_bfs n nbr ((depth, q), seen) = Some r \<and> set r \<subseteq> {..<n}"
proof (induction "(depth, q)" arbitrary: depth q seen
    rule: wf_induct [OF wf_measures [of "[\<lambda>(depth, q). unseen depth,
      \<lambda>(depth, q). length (filter (\<lambda>u. wraps (depth ! u)) q), \<lambda>(depth, q). length q]"], consumes 0, case_names less])
  case less
  show ?case
  proof (cases q)
    case (Cons u q1)
    then have u: "u < n" "set q1 \<subseteq> {..<n}" using less.prems(2) by auto
    from depth_visits [OF less.prems(1) u(2), of "depth ! u" "nbr u"] obtain depth' q' where
      f: "fold (depth_visit n (depth ! u)) (nbr u) (depth, q1) = (depth', q')" "length depth' = n" "set q' \<subseteq> {..<n}" and
      alt: "unseen depth' < unseen depth \<or> depth' = depth \<and> (\<exists>new. q' = q1 @ new \<and> (\<forall>v \<in> set new. depth ! v = 65535) \<and>
        (\<not> wraps (depth ! u) \<longrightarrow> new = []))" by blast
    have "((depth', q'), depth, q) \<in> measures [\<lambda>(depth, q). unseen depth,
      \<lambda>(depth, q). length (filter (\<lambda>u. wraps (depth ! u)) q), \<lambda>(depth, q). length q]"
      using alt
    proof (elim disjE conjE exE)
      fix new assume d: "depth' = depth" "q' = q1 @ new" "\<forall>v \<in> set new. depth ! v = 65535" "\<not> wraps (depth ! u) \<longrightarrow> new = []"
      then have "filter (\<lambda>u. wraps (depth ! u)) new = []" by (auto simp: filter_empty_conv not_wraps_mark)
      then show ?thesis using d(1,2,4) by (cases "wraps (depth ! u)") (simp_all add: Cons)
    qed simp
    moreover have "set (seen @ [u]) \<subseteq> {..<n}" using less.prems(3) u(1) by simp
    ultimately have "\<exists>r. depth_bfs n nbr ((depth', q'), seen @ [u]) = Some r \<and> set r \<subseteq> {..<n}"
      using less.hyps f(2,3) by blast
    then    show ?thesis unfolding Cons depth_bfs_simps f(1) by blast
  qed (use less.prems in simp)
qed

lemma bfs_ord_returns: "e < n \<Longrightarrow> \<exists>seen. bfs_ord n nbr e = Some seen \<and> set seen \<subseteq> {..<n}"
  unfolding bfs_ord_def by (rule depth_bfs_returns) auto

section \<open>Incoming edges\<close>

definition sources :: "nat \<Rightarrow> (nat \<times> nat) list \<Rightarrow> nat list" where
  "sources v es = map fst (filter (\<lambda>e. snd e = v) es)"

lemma sources_snoc: "sources v (es @ [(u, w)]) = sources v es @ (if w = v then [u] else [])"
  by (simp add: sources_def)

lemma in_counts_eq:
  "list_all (\<lambda>e. snd e < n) es \<Longrightarrow> length (in_counts n es) = n \<and> (\<forall>v < n. in_counts n es ! v = length (sources v es))"
proof (induction es rule: rev_induct)
  case Nil
  show ?case by (simp add: in_counts_def sources_def)
next
  case (snoc e es)
  obtain u w where e: "e = (u, w)" by (cases e)
  have "in_counts n (es @ [e]) = (in_counts n es)[w := in_counts n es ! w + 1]" by (simp add: in_counts_def e)
  then show ?case using snoc by (auto simp: e sources_snoc nth_list_update)
qed

lemma in_starts_eq: "length (in_starts ds) = length ds + 1 \<and> (\<forall>i \<le> length ds. in_starts ds ! i = sum_list (take i ds))"
proof (induction ds rule: rev_induct)
  case Nil
  show ?case by (simp add: in_starts_def)
next
  case (snoc d ds)
  have "in_starts (ds @ [d]) = in_starts ds @ [last (in_starts ds) + d]" by (simp add: in_starts_def)
  moreover have "last (in_starts ds) = sum_list ds" using snoc last_conv_nth [of "in_starts ds"] by (auto simp: length_0_conv [symmetric] simp del: length_0_conv)
  ultimately show ?case using snoc by (auto simp: nth_append le_Suc_eq)
qed

lemma starts_step:
  assumes "v < length ds"
  shows "in_starts ds ! (v + 1) = in_starts ds ! v + ds ! v" and "v < w \<Longrightarrow> w \<le> length ds \<Longrightarrow> in_starts ds ! v + ds ! v \<le> in_starts ds ! w"
proof -
  show step: "in_starts ds ! (v + 1) = in_starts ds ! v + ds ! v"
    using in_starts_eq [of ds] assms by (simp add: take_Suc_conv_app_nth)
  assume w: "v < w" "w \<le> length ds"
  have "take w ds = take (v + 1) ds @ take (w - (v + 1)) (drop (v + 1) ds)" using w take_add [of "v + 1" "w - (v + 1)" ds] by simp
  then have "sum_list (take (v + 1) ds) \<le> sum_list (take w ds)" by simp
  then show "in_starts ds ! v + ds ! v \<le> in_starts ds ! w" using step in_starts_eq [of ds] w assms by simp
qed

text \<open>The array of incoming edges after a prefix of the edges: each node's own entries, from its start on.\<close>

lemma in_adj_prefix:
  assumes "list_all (\<lambda>e. snd e < n) (xs @ ys)" and "offs = in_starts (in_counts n (xs @ ys))"
    and "fold (\<lambda>(u, v) (adj, cur). (adj[cur ! v := u], cur[v := cur ! v + 1])) xs (replicate (offs ! n) 0, offs) = (adj, cur)"
  shows "length adj = offs ! n \<and> length cur = n + 1 \<and> (\<forall>v < n. cur ! v = offs ! v + length (sources v xs)) \<and>
    (\<forall>v < n. \<forall>i < length (sources v xs). adj ! (offs ! v + i) = sources v xs ! i)"
  using assms
proof (induction xs arbitrary: ys adj cur rule: rev_induct)
  case Nil
  then show ?case using in_starts_eq [of "in_counts n ys"] in_counts_eq [of n ys] by (auto simp: sources_def)
next
  case (snoc e xs)
  obtain u w where e: "e = (u, w)" by (cases e)
  let ?es = "xs @ e # ys" and ?ds = "in_counts n (xs @ e # ys)"
  obtain adj0 cur0 where f: "fold (\<lambda>(u, v) (adj, cur). (adj[cur ! v := u], cur[v := cur ! v + 1])) xs (replicate (offs ! n) 0, offs) =
      (adj0, cur0)" by (rule prod.exhaust)
  have es: "list_all (\<lambda>e. snd e < n) ?es" "offs = in_starts ?ds" using snoc.prems(1,2) by simp_all
  have I: "length adj0 = offs ! n" "length cur0 = n + 1" "\<forall>v < n. cur0 ! v = offs ! v + length (sources v xs)"
    "\<forall>v < n. \<forall>i < length (sources v xs). adj0 ! (offs ! v + i) = sources v xs ! i" using snoc.IH [OF es f] by blast+
  have new: "adj = adj0[cur0 ! w := u]" "cur = cur0[w := cur0 ! w + 1]" using snoc.prems(3) f by (simp_all add: e)
  have w: "w < n" using es(1) by (simp add: e)
  have ds: "length ?ds = n" "\<forall>v < n. ?ds ! v = length (sources v ?es)" using in_counts_eq [OF es(1)] by blast+
  have fit: "length (sources v xs) + (if v = w then 1 else 0) \<le> ?ds ! v" if "v < n" for v
    using ds(2) that by (simp add: sources_def e)
  have room: "offs ! v + ?ds ! v \<le> offs ! v'" if "v < v'" "v' \<le> n" for v v'
    using starts_step(2) [of v ?ds v'] that ds(1) es(2) by simp
  have pos: "cur0 ! w = offs ! w + length (sources w xs)" using I(3) w by blast
  have lt: "cur0 ! w < offs ! n" using room [OF w order_refl] fit [OF w] pos by simp
  have at: "adj ! (offs ! v + i) = sources v (xs @ [e]) ! i" if v: "v < n" and i: "i < length (sources v (xs @ [e]))" for v i
  proof (cases "v = w \<and> i = length (sources w xs)")
    case True
    then show ?thesis using new(1) lt I(1) pos by (simp add: e sources_snoc)
  next
    case False
    then have i': "i < length (sources v xs)" using i by (auto simp: e sources_snoc split: if_splits)
    have "offs ! v + i \<noteq> cur0 ! w"
    proof (cases v w rule: linorder_cases)
      case less
      then show ?thesis using room [of v w] w fit [OF v] pos i' by simp
    next
      case equal
      then show ?thesis using pos i' by simp
    next
      case greater
      then show ?thesis using room [of w v] v fit [OF w] pos by simp
    qed
    then show ?thesis using I(4) v i' new(1) by (simp add: e sources_snoc nth_append)
  qed
  moreover have "cur ! v = offs ! v + length (sources v (xs @ [e]))" if "v < n" for v
    using I(2,3) w that new(2) by (simp add: e sources_snoc nth_list_update)
  ultimately show ?case using I(1,2) new by simp
qed

text \<open>The counting sort of \<open>pack_layout_bundle\<close> is right: between \<open>inoff[v]\<close> and \<open>inoff[v + 1]\<close> stand the nodes
  with an edge to \<open>v\<close>, once for each edge, in the order of the edges.\<close>
theorem in_edges_are_sources:
  assumes "v < n"
  shows "in_edges n (edges_of n nbr) v = sources v (edges_of n nbr)"
proof -
  let ?es = "edges_of n nbr" and ?ds = "in_counts n (edges_of n nbr)"
  have es: "list_all (\<lambda>e. snd e < n) ?es" by (auto simp: edges_of_def list_all_iff)
  obtain adj cur where f: "fold (\<lambda>(u, v) (adj, cur). (adj[cur ! v := u], cur[v := cur ! v + 1])) ?es
      (replicate (in_starts ?ds ! n) 0, in_starts ?ds) = (adj, cur)" by (rule prod.exhaust)
  note all = in_adj_prefix [of n ?es "[]", unfolded append_Nil2, OF es refl f]
  have at: "\<forall>i < length (sources v ?es). adj ! (in_starts ?ds ! v + i) = sources v ?es ! i"
    using all [THEN conjunct2, THEN conjunct2, THEN conjunct2] assms by blast
  have adj: "in_adj n ?es = adj" using f by (simp add: in_adj_def Let_def)
  have "length ?ds = n" "?ds ! v = length (sources v ?es)" using in_counts_eq [OF es] assms by blast+
  then have "in_starts ?ds ! (v + 1) = in_starts ?ds ! v + length (sources v ?es)" using starts_step(1) [of v ?ds] assms by simp
  then show ?thesis using at by (auto simp: in_edges_def Let_def adj intro: nth_equalityI)
qed

theorem in_edges_are_sources_witness:
  "in_edges 3 (edges_of 3 (\<lambda>u. [[1, 2], [2, 7], [2, 1]] ! u)) 2 = [0, 1, 2]"
proof -
  have "[0..<3] = [0, 1, 2 :: nat]" by (simp add: upt_rec)
  then have "sources 2 (edges_of 3 (\<lambda>u. [[1, 2], [2, 7], [2, 1]] ! u)) = [0, 1, 2]" by (simp add: sources_def edges_of_def)
  then show ?thesis using in_edges_are_sources [of 2 3 "\<lambda>u. [[1, 2], [2, 7], [2, 1]] ! u"] by simp
qed

section \<open>The greedy loop\<close>

definition work :: "greedy \<Rightarrow> nat" where
  "work s = sum_list (map length (gr_buckets s)) + 2 * sum_list (gr_rem s)"

definition gr_ok :: "nat \<Rightarrow> greedy \<Rightarrow> bool" where
  "gr_ok n s \<longleftrightarrow> numbering n (gr_order s) \<and> length (gr_rem s) = n \<and> (\<forall>r \<in> set (gr_rem s). r \<le> 32) \<and>
     length (gr_buckets s) = 66 \<and> (\<forall>b \<in> set (gr_buckets s). set b \<subseteq> {..<n}) \<and> gr_h s \<le> 1 \<and> gr_r s \<le> 32"

lemma seek_found:
  "seek bk h r = (h', r') \<Longrightarrow> h \<le> 1 \<Longrightarrow> r \<le> 32 \<Longrightarrow>
   h' \<le> 1 \<and> r' \<le> 32 \<and> (0 \<le> h' \<longrightarrow> 0 \<le> r' \<and> bk ! bucket h' r' \<noteq> [])"
proof (induction bk h r rule: seek.induct)
  case (1 bk h r)
  show ?case
  proof (cases "h < 0")
    case False
    show ?thesis
    proof (cases "0 \<le> r")
      case True
      then show ?thesis using 1(1) [OF False] 1(3-5) False seek.simps [of bk h r] by (cases "bk ! bucket h r = []") auto
    next
      case neg: False
      have "seek bk (h - 1) 32 = (h', r')" using 1(3) False neg seek.simps [of bk h r] by simp
      then show ?thesis using 1(2) [OF False neg] 1(4) by simp
    qed
  qed (use 1(3-5) seek.simps [of bk h r] in simp)
qed

lemma sum_list_set:
  fixes xs :: "nat list"
  assumes "i < length xs"
  shows "sum_list (xs[i := x]) + xs ! i = sum_list xs + x"
  using sum_list_update [OF assms, of x] elem_le_sum_list [OF assms] by simp

lemma bucket_below: "0 \<le> h \<Longrightarrow> h \<le> 1 \<Longrightarrow> 0 \<le> r \<Longrightarrow> r \<le> 32 \<Longrightarrow> bucket h r < 66"
  by (simp add: bucket_def nat_less_iff)

lemma bucket_of [simp]: "r \<le> 32 \<Longrightarrow> bucket (of_bool b) (int r) < 66"
  by (rule bucket_below) auto

lemma pop_best_ok:
  "gr_ok n s \<Longrightarrow> \<exists>r s'. pop_best hot s = Some (r, s') \<and> gr_ok n s' \<and> gr_order s' = gr_order s \<and>
     (\<forall>u. r = Some u \<longrightarrow> u < n \<and> work s' < work s)"
proof (induction "sum_list (map length (gr_buckets s))" arbitrary: s rule: less_induct)
  case less
  obtain h r where sk: "seek (gr_buckets s) (gr_h s) (gr_r s) = (h, r)" by (rule prod.exhaust)
  have ok: "gr_h s \<le> 1" "gr_r s \<le> 32" "length (gr_buckets s) = 66" "\<forall>b \<in> set (gr_buckets s). set b \<subseteq> {..<n}"
    using less.prems by (simp_all add: gr_ok_def)
  note f = seek_found [OF sk ok(1,2)]
  show ?case
  proof (cases "h < 0")
    case True
    then show ?thesis using sk less.prems f by (subst pop_best.simps) (simp add: gr_ok_def)
  next
    case False
    define i where "i = bucket h r"
    define s2 where "s2 = s\<lparr>gr_h := h, gr_r := r, gr_buckets := (gr_buckets s)[i := butlast (gr_buckets s ! i)]\<rparr>"
    have i: "i < 66" "gr_buckets s ! i \<noteq> []" using f False bucket_below [of h r] by (simp_all add: i_def)
    then have b: "gr_buckets s ! i \<in> set (gr_buckets s)" using ok(3) by simp
    then have inside: "set (gr_buckets s ! i) \<subseteq> {..<n}" using ok(4) by blast
    then have u: "last (gr_buckets s ! i) < n" using last_in_set [OF i(2)] by blast
    have "set (gr_buckets s2) \<subseteq> insert (butlast (gr_buckets s ! i)) (set (gr_buckets s))"
      by (simp add: s2_def set_update_subset_insert)
    moreover have "set (butlast (gr_buckets s ! i)) \<subseteq> {..<n}" using inside in_set_butlastD by fastforce
    ultimately have "\<forall>b \<in> set (gr_buckets s2). set b \<subseteq> {..<n}" using ok(4) by blast
    then have ok2: "gr_ok n s2" using less.prems f by (simp add: gr_ok_def s2_def)
    have "sum_list (map length (gr_buckets s2)) + length (gr_buckets s ! i) = sum_list (map length (gr_buckets s)) + (length (gr_buckets s ! i) - 1)"
      using sum_list_set [of i "map length (gr_buckets s)" "length (gr_buckets s ! i) - 1"] i(1) ok(3) by (simp add: s2_def map_update)
    moreover have "0 < length (gr_buckets s ! i)" using i(2) by simp
    ultimately have less1: "sum_list (map length (gr_buckets s2)) < sum_list (map length (gr_buckets s))" by linarith
    then have w: "work s2 < work s" by (simp add: work_def s2_def)
    have step: "pop_best hot s = (if of_bool (hot ! last (gr_buckets s ! i)) = h \<and> int (gr_rem s ! last (gr_buckets s ! i)) = r
        then Some (Some (last (gr_buckets s ! i)), s2) else pop_best hot s2)"
      using sk False by (subst pop_best.simps) (simp add: Let_def i_def s2_def)
    show ?thesis
    proof (cases "of_bool (hot ! last (gr_buckets s ! i)) = h \<and> int (gr_rem s ! last (gr_buckets s ! i)) = r")
      case True
      then show ?thesis unfolding step using ok2 u w by (simp add: s2_def)
    next
      case False
      from less.hyps [OF less1 ok2] obtain r' s' where r: "pop_best hot s2 = Some (r', s')" "gr_ok n s'" "gr_order s' = gr_order s2"
        "\<forall>u. r' = Some u \<longrightarrow> u < n \<and> work s' < work s2" by blast
      have "\<forall>u. r' = Some u \<longrightarrow> u < n \<and> work s' < work s" using r(4) w by auto
      moreover have "gr_order s' = gr_order s" using r(3) by (simp add: s2_def)
      moreover have "pop_best hot s = Some (r', s')" using step r(1) False by simp
      ultimately show ?thesis using r(2) by blast
    qed
  qed
qed

lemma drop_one_ok:
  assumes "gr_ok n s" and "w < n"
  shows "gr_ok n (drop_one hot w s) \<and> work (drop_one hot w s) \<le> work s \<and> gr_order (drop_one hot w s) = gr_order s"
proof (cases "gr_rem s ! w = 0")
  case False
  define rem where "rem = (gr_rem s)[w := gr_rem s ! w - 1]"
  define bk where "bk = push_bucket hot rem w (gr_buckets s)"
  let ?i = "bucket (of_bool (hot ! w)) (int (rem ! w))"
  have len: "length (gr_rem s) = n" "length (gr_buckets s) = 66" using assms(1) by (simp_all add: gr_ok_def)
  then have "gr_rem s ! w \<in> set (gr_rem s)" using assms(2) by simp
  then have r: "gr_rem s ! w \<le> 32" using assms(1) unfolding gr_ok_def by blast
  have rw: "rem ! w = gr_rem s ! w - 1" using len assms(2) by (simp add: rem_def)
  then have i: "?i < 66" using r by simp
  have bk: "bk = (gr_buckets s)[?i := gr_buckets s ! ?i @ [w]]" by (simp add: bk_def push_bucket_def Let_def)
  have "set rem \<subseteq> insert (gr_rem s ! w - 1) (set (gr_rem s))" by (simp add: rem_def set_update_subset_insert)
  then have rems: "\<forall>x \<in> set rem. x \<le> 32" using assms(1) r unfolding gr_ok_def by fastforce
  have "gr_buckets s ! ?i \<in> set (gr_buckets s)" using i len by simp
  then have "set (gr_buckets s ! ?i @ [w]) \<subseteq> {..<n}" using assms unfolding gr_ok_def by auto
  moreover have "set bk \<subseteq> insert (gr_buckets s ! ?i @ [w]) (set (gr_buckets s))" unfolding bk by (rule set_update_subset_insert)
  ultimately have bks: "\<forall>b \<in> set bk. set b \<subseteq> {..<n}" using assms(1) unfolding gr_ok_def by blast
  have "sum_list (map length bk) = sum_list (map length (gr_buckets s)) + 1"
    using sum_list_set [of ?i "map length (gr_buckets s)" "length (gr_buckets s ! ?i) + 1"] i len by (simp add: bk map_update)
  moreover have "sum_list rem + 1 = sum_list (gr_rem s)"
    using sum_list_set [of w "gr_rem s" "gr_rem s ! w - 1"] len assms(2) False by (simp add: rem_def)
  ultimately have w: "sum_list (map length bk) + 2 * sum_list rem \<le> work s" by (simp add: work_def)
  define s1 where "s1 = s\<lparr>gr_rem := rem, gr_buckets := bk\<rparr>"
  have d: "drop_one hot w s = (if gr_h s < of_bool (hot ! w) \<or> of_bool (hot ! w) = gr_h s \<and> gr_r s < int (rem ! w)
      then s1\<lparr>gr_h := of_bool (hot ! w), gr_r := int (rem ! w)\<rparr> else s1)"
    using False by (simp add: drop_one_def Let_def s1_def bk_def rem_def)
  have "length rem = n" "length bk = 66" using len by (simp_all add: rem_def bk)
  then show ?thesis
    unfolding d using assms(1) rems bks w r rw by (auto simp: gr_ok_def work_def s1_def)
qed (use assms in \<open>simp add: drop_one_def\<close>)

lemma drops_ok:
  "gr_ok n s \<Longrightarrow> set ws \<subseteq> {..<n} \<Longrightarrow>
   gr_ok n (fold (drop_one hot) ws s) \<and> work (fold (drop_one hot) ws s) \<le> work s \<and> gr_order (fold (drop_one hot) ws s) = gr_order s"
proof (induction ws arbitrary: s)
  case (Cons w ws)
  have d: "gr_ok n (drop_one hot w s)" "work (drop_one hot w s) \<le> work s" "gr_order (drop_one hot w s) = gr_order s"
    using drop_one_ok [OF Cons.prems(1), of w] Cons.prems(2) by auto
  then show ?case using Cons.IH [OF d(1)] Cons.prems(2) by auto
qed simp

lemma place_block_ok:
  assumes "gr_ok n s" and "set block \<subseteq> {..<n}" and "\<And>v. v < n \<Longrightarrow> set (inadj v) \<subseteq> {..<n}"
  shows "gr_ok n (place_block hot inadj block s) \<and> work (place_block hot inadj block s) \<le> work s \<and>
    gr_order (place_block hot inadj block s) = fold assign_one block (gr_order s)"
proof -
  let ?s = "s\<lparr>gr_order := fold assign_one block (gr_order s)\<rparr>"
  have ok: "gr_ok n ?s" using assms(1) fold_assign [of n "gr_order s" block] assms(2) by (simp add: gr_ok_def)
  have "gr_ok n t \<Longrightarrow> set vs \<subseteq> {..<n} \<Longrightarrow>
    gr_ok n (fold (\<lambda>v. fold (drop_one hot) (inadj v)) vs t) \<and> work (fold (\<lambda>v. fold (drop_one hot) (inadj v)) vs t) \<le> work t \<and>
    gr_order (fold (\<lambda>v. fold (drop_one hot) (inadj v)) vs t) = gr_order t" for t vs
  proof (induction vs arbitrary: t)
    case (Cons v vs)
    have d: "gr_ok n (fold (drop_one hot) (inadj v) t)" "work (fold (drop_one hot) (inadj v) t) \<le> work t"
      "gr_order (fold (drop_one hot) (inadj v) t) = gr_order t"
      using drops_ok [OF Cons.prems(1) assms(3), of v hot] Cons.prems(2) by auto
    then show ?case using Cons.IH [OF d(1)] Cons.prems(2) by auto
  qed simp
  from this [OF ok assms(2)] show ?thesis by (simp add: place_block_def work_def)
qed

text \<open>Blocks: new ids given to neighbours of one node, one after the other.\<close>

definition nbr_blocks :: "nat \<Rightarrow> (nat \<Rightarrow> nat list) \<Rightarrow> nat list list \<Rightarrow> bool" where
  "nbr_blocks n nbr blocks \<longleftrightarrow> (\<forall>b \<in> set blocks. b \<noteq> [] \<and> (\<exists>u < n. set b \<subseteq> set (nbr u)))"

lemma bundle_loop_ok:
  assumes nbr: "\<And>u. u < n \<Longrightarrow> length (nbr u) \<le> 64" and adj: "\<And>v. v < n \<Longrightarrow> set (inadj v) \<subseteq> {..<n}"
  shows "gr_ok n s \<Longrightarrow> \<exists>st blocks. bundle_loop n nbr inadj hot s = Some st \<and> numbering n st \<and>
    snd st = snd (gr_order s) @ concat blocks \<and> nbr_blocks n nbr blocks"
proof (induction "work s" arbitrary: s rule: less_induct)
  case less
  have num: "numbering n (gr_order s)" using less.prems by (simp add: gr_ok_def)
  have stop: "\<exists>st blocks. Some (gr_order s) = Some st \<and> numbering n st \<and> snd st = snd (gr_order s) @ concat blocks \<and> nbr_blocks n nbr blocks"
    using num by (intro exI [of _ "gr_order s"] exI [of _ "[]"]) (simp add: nbr_blocks_def)
  from pop_best_ok [OF less.prems, of hot] obtain r s1 where p: "pop_best hot s = Some (r, s1)" "gr_ok n s1"
    "gr_order s1 = gr_order s" "\<forall>u. r = Some u \<longrightarrow> u < n \<and> work s1 < work s" by blast
  show ?case
  proof (cases "n \<le> length (snd (gr_order s)) \<or> r = None")
    case True
    then have "bundle_loop n nbr inadj hot s = Some (gr_order s)" using p(1,3) by (subst bundle_loop.simps) auto
    then show ?thesis using stop by simp
  next
    case False
    then obtain u where r: "r = Some u" by auto
    with p(4) have u: "u < n" "work s1 < work s" by blast+
    define block where "block = filter (\<lambda>v. v < n \<and> fst (gr_order s1) ! v = None) (nbr u)"
    have small: "\<not> 64 < length block" using nbr [OF u(1)] length_filter_le [of _ "nbr u"] le_trans unfolding block_def by (meson not_le)
    have step: "bundle_loop n nbr inadj hot s =
        (if gr_rem s1 ! u = 0 then bundle_loop n nbr inadj hot s1
         else if block = [] then bundle_loop n nbr inadj hot (s1\<lparr>gr_rem := (gr_rem s1)[u := 0]\<rparr>)
         else bundle_loop n nbr inadj hot (place_block hot inadj block s1))"
      using False p(1) r small by (subst bundle_loop.simps) (simp add: Let_def block_def)
    consider "gr_rem s1 ! u = 0" | "gr_rem s1 ! u \<noteq> 0" "block = []" | "gr_rem s1 ! u \<noteq> 0" "block \<noteq> []" by blast
    then show ?thesis
    proof cases
      case 1
      then show ?thesis using less.hyps [OF u(2) p(2)] step p(3) by simp
    next
      case 2
      let ?s2 = "s1\<lparr>gr_rem := (gr_rem s1)[u := 0]\<rparr>"
      have "u < length (gr_rem s1)" using p(2) u(1) by (simp add: gr_ok_def)
      from sum_list_set [OF this, of 0] have "work ?s2 \<le> work s1" by (simp add: work_def)
      then have "work ?s2 < work s" using u(2) by simp
      moreover have "set ((gr_rem s1)[u := 0]) \<subseteq> insert 0 (set (gr_rem s1))" by (rule set_update_subset_insert)
      then have "gr_ok n ?s2" using p(2) unfolding gr_ok_def by fastforce
      ultimately have "\<exists>st blocks. bundle_loop n nbr inadj hot ?s2 = Some st \<and> numbering n st \<and>
          snd st = snd (gr_order ?s2) @ concat blocks \<and> nbr_blocks n nbr blocks" by (rule less.hyps)
      then show ?thesis using 2 step p(3) by simp
    next
      case 3
      let ?s2 = "place_block hot inadj block s1"
      have b: "set block \<subseteq> {..<n}" "set block \<subseteq> set (nbr u)" by (auto simp: block_def)
      note pb = place_block_ok [where hot = hot and inadj = inadj, OF p(2) b(1) adj]
      from fold_assign [of n "gr_order s1" block] p(2) b(1) obtain new where
        new: "snd (fold assign_one block (gr_order s1)) = snd (gr_order s1) @ new" "set new = set block - placed (gr_order s1)"
        by (auto simp: gr_ok_def)
      obtain o2n nw where st1: "gr_order s1 = (o2n, nw)" by (rule prod.exhaust)
      then have "numbering n (o2n, nw)" using p(2) by (simp add: gr_ok_def)
      from numbering_free [OF this] have "set block \<inter> placed (gr_order s1) = {}" by (auto simp: block_def st1)
      then have "set new = set block" using new(2) by blast
      then have "new \<noteq> []" "set new \<subseteq> set (nbr u)" using b(2) 3(2) by auto
      moreover have "work ?s2 < work s" using pb u(2) by simp
      with pb obtain st blocks where st: "bundle_loop n nbr inadj hot ?s2 = Some st" "numbering n st"
        "snd st = snd (gr_order ?s2) @ concat blocks" "nbr_blocks n nbr blocks" using less.hyps [of ?s2] by blast
      moreover have "snd (gr_order ?s2) = snd (gr_order s) @ new" using pb new(1) p(3) by simp
      ultimately have "snd st = snd (gr_order s) @ concat (new # blocks) \<and> nbr_blocks n nbr (new # blocks)"
        using u(1) by (auto simp: nbr_blocks_def)
      then show ?thesis using st(1,2) step 3 by metis
    qed
  qed
qed

lemma push_all_ok:
  assumes "\<forall>u < n. rem ! u \<le> 32"
  shows "set us \<subseteq> {..<n} \<Longrightarrow> length bk = 66 \<Longrightarrow> \<forall>b \<in> set bk. set b \<subseteq> {..<n} \<Longrightarrow>
    length (fold (push_bucket hot rem) us bk) = 66 \<and> (\<forall>b \<in> set (fold (push_bucket hot rem) us bk). set b \<subseteq> {..<n})"
proof (induction us arbitrary: bk)
  case (Cons u us)
  let ?i = "bucket (of_bool (hot ! u)) (int (rem ! u))"
  have u: "u < n" "set us \<subseteq> {..<n}" using Cons.prems(1) by auto
  then have i: "?i < length bk" using assms Cons.prems(2) by simp
  have eq: "push_bucket hot rem u bk = bk[?i := bk ! ?i @ [u]]" by (simp add: push_bucket_def Let_def)
  have "set (bk ! ?i @ [u]) \<subseteq> {..<n}" using Cons.prems(3) nth_mem [OF i] u(1) by simp
  moreover have "set (push_bucket hot rem u bk) \<subseteq> insert (bk ! ?i @ [u]) (set bk)" unfolding eq by (rule set_update_subset_insert)
  ultimately have "\<forall>b \<in> set (push_bucket hot rem u bk). set b \<subseteq> {..<n}" using Cons.prems(3) by blast
  moreover have "length (push_bucket hot rem u bk) = 66" using Cons.prems(2) by (simp add: eq)
  ultimately show ?case using Cons.IH [OF u(2)] by simp
qed simp

text \<open>The greedy order of \<open>pack_layout_bundle\<close>, for rows of at most 32 neighbours, always ends; it gives each
  node one new id, first block after block of neighbours of one node each, then the remaining nodes in order.\<close>
theorem bundle_order_blocks:
  assumes "0 < n" and "\<And>u. u < n \<Longrightarrow> length (nbr u) \<le> 32"
  shows "\<exists>st blocks rest. bundle_order n nbr entry hot_n = Some st \<and> permutes_ids n st \<and>
    snd st = concat blocks @ rest \<and> nbr_blocks n nbr blocks \<and> sorted rest"
proof -
  have e: "entry_in n entry < n" using assms(1) by (simp add: entry_in_def)
  from bfs_ord_returns [OF e, of nbr] obtain seen where seen: "bfs_ord n nbr (entry_in n entry) = Some seen" by blast
  define hot where "hot = hot_flags n hot_n seen"
  define rem where "rem = map (\<lambda>u. length (filter (\<lambda>v. v < n) (nbr u)) mod 256) [0..<n]"
  have r: "\<forall>u < n. rem ! u \<le> 32"
  proof (intro allI impI)
    fix u assume u: "u < n"
    have "rem ! u = length (filter (\<lambda>v. v < n) (nbr u)) mod 256" using u by (simp add: rem_def)
    then show "rem ! u \<le> 32" using assms(2) [OF u] length_filter_le [of "\<lambda>v. v < n" "nbr u"]
        mod_less_eq_dividend [of "length (filter (\<lambda>v. v < n) (nbr u))" 256] by linarith
  qed
  define s where "s = \<lparr>gr_order = no_order n, gr_rem = rem, gr_buckets = fold (push_bucket hot rem) [0..<n] (replicate 66 []), gr_h = 1, gr_r = 32\<rparr>"
  have len: "length rem = n" by (simp add: rem_def)
  then have rs: "\<forall>x \<in> set rem. x \<le> 32" using r by (auto simp: in_set_conv_nth)
  then have start: "greedy_start n nbr hot = Some s"
    unfolding greedy_start_def rem_def [symmetric] Let_def s_def by (simp add: list_all_iff)
  have "gr_ok n s"
    using push_all_ok [OF r, of "[0..<n]" "replicate 66 []" hot] rs len by (simp add: s_def gr_ok_def atLeast0LessThan)
  moreover have "set (in_edges n (edges_of n nbr) v) \<subseteq> {..<n}" if "v < n" for v
    unfolding in_edges_are_sources [OF that] by (auto simp: sources_def edges_of_def)
  moreover have "length (nbr u) \<le> 64" if "u < n" for u using assms(2) [OF that] by simp
  ultimately obtain st blocks where st: "bundle_loop n nbr (in_edges n (edges_of n nbr)) hot s = Some st" "numbering n st"
    "snd st = snd (gr_order s) @ concat blocks" "nbr_blocks n nbr blocks" using bundle_loop_ok by metis
  have "bundle_order n nbr entry hot_n = Some (assign_rest n st)"
    using assms(1) seen start st(1) by (simp add: bundle_order_def Let_def hot_def)
  moreover have "sorted (filter (\<lambda>u. u \<notin> placed st) [0..<n])" using sorted_wrt_filter [OF sorted_upt] .
  moreover have "snd st = concat blocks" using st(3) by (simp add: s_def)
  ultimately show ?thesis using assign_rest_permutes(1,2) [OF st(2)] st(4) by metis
qed

theorem bundle_order_blocks_witness:
  "\<exists>st. bundle_order 3 (\<lambda>u. [(u + 1) mod 3]) 0 2 = Some st \<and> permutes_ids 3 st"
  using bundle_order_blocks [of 3 "\<lambda>u. [(u + 1) mod 3]" 0 2] by auto

text \<open>Longer rows leave the array of queues.\<close>

lemma bundle_order_long_row:
  assumes "u < n" and "32 < length (filter (\<lambda>v. v < n) (nbr u))" "length (filter (\<lambda>v. v < n) (nbr u)) < 256"
  shows "bundle_order n nbr entry hot_n = None"
proof -
  have "\<not> list_all (\<lambda>r. r \<le> 32) (map (\<lambda>u. length (filter (\<lambda>v. v < n) (nbr u)) mod 256) [0..<n])"
    using assms by (auto simp: list_all_iff intro!: bexI [of _ u])
  then have "greedy_start n nbr hot = None" for hot by (simp add: greedy_start_def)
  then show ?thesis by (cases "bfs_ord n nbr (entry_in n entry)") (simp_all add: bundle_order_def Let_def)
qed

text \<open>The order of a trace is a numbering too, whatever the file holds.\<close>

lemma trace_order_permutes:
  "trace_order n ws = Some st \<Longrightarrow> permutes_ids n st"
proof -
  have one: "numbering n st \<Longrightarrow> numbering n (fold (\<lambda>i st. if i < n then assign_one i st else st) q st)" for q st
  proof (induction q arbitrary: st)
    case (Cons i q)
    have "numbering n (if i < n then assign_one i st else st)"
      using Cons.prems assign_one_placed [OF Cons.prems, of i] assign_one_new(1) [OF Cons.prems, of i] by (cases "i \<in> placed st") auto
    from Cons.IH [OF this] show ?case by simp
  qed simp
  have "numbering n st \<Longrightarrow> numbering n (fold (fold (\<lambda>i st. if i < n then assign_one i st else st)) qs st)" for qs st
    by (induction qs arbitrary: st) (simp_all add: one)
  note all = this
  assume "trace_order n ws = Some st"
  then obtain qs where st: "st = assign_rest n (fold (\<lambda>q st. fold (\<lambda>i st. if i < n then assign_one i st else st) q st) qs (no_order n))"
    by (auto simp: trace_order_def)
  have "numbering n (fold (fold (\<lambda>i st. if i < n then assign_one i st else st)) qs (no_order n))"
    by (rule all [OF numbering_no_order(1)])
  from assign_rest_permutes(1) [OF this] show ?thesis unfolding st by simp
qed

end
