(* ===== verification/Spec2Isabelle.thy ===== *)
theory Spec2Isabelle
  imports Window_Props HotSet Placement ScoreCache Copy_Pool Promote_Pipe Pq_Table Vmem_Batch Nav_Graph
    Hide_Props Hide_Warm Cont_Batch Beam Distances Prefetch Search_Common Search_Fp Search_Pq Sched_Cont_Props
    Remap_Pages Layout_Search Layout_Image Diskann_Pack Hide_Wait Layout_Bundle
begin

text \<open>
  A verification library of the serving path of CXL-ANNS (\<open>src/serving/\<close>): graph search for nearest
  neighbours whose corpus lies on an SSD (a mapped image), with a window of CXL-DRAM frames as a page
  cache, a pipe of outstanding fills that hides the SSD behind the search, and schedulers that keep
  several queries in flight.

  \<^bold>\<open>How the program works.\<close> \<open>search_beam.cpp\<close> maps the image, reads its header into a \<open>Placement\<close>
  (\<open>placement.hpp\<close>), sets up a \<open>DramWindow\<close> (\<open>dram_window.hpp\<close>) and runs the queries. A search walks the
  graph greedily from an entry point; the vector or the neighbour list of a node is read through the
  window (policies P0 to P2), or its pages are issued to a \<open>HidePipe\<close> (\<open>hide_fill.hpp\<close>) whose jobs a
  \<open>PageCopyPool\<close> (\<open>page_copy_pool.hpp\<close>) runs while the search goes on. With product quantization
  (\<open>pq_table.hpp\<close>) the walk uses codes in host memory and only the final candidates are fetched. The
  schedulers (\<open>cont_batch.hpp\<close> and \<open>main\<close>) park a query whose pages are on the way and run another.

  \<^bold>\<open>Theories\<close>, in the order of their imports:

  \<^item> \<open>Prelude\<close>: lists, maps and bytes. \<open>Pages\<close>: page arithmetic on offsets, \<open>page_span\<close>, reads of the
    image. \<open>Sorting\<close>: \<open>std::sort\<close> as any sort (locale \<open>sorter\<close>), interpreted by insertion sort.
  \<^item> \<open>Metrics\<close> (\<open>metrics.hpp\<close>): the counters.
  \<^item> \<open>Window\<close>, \<open>Window_Inv\<close>, \<open>Window_Ops\<close>, \<open>Window_Steps\<close>, \<open>Window_Props\<close> (\<open>dram_window.hpp\<close>): the window
    is a record of arena, page map, frame tables, pin accounts and clock hand; each member function is
    a definition. \<open>win_inv\<close> says that map and frame table are one bijection and the accounts are exact;
    \<open>coherent\<close> that each resident frame has the bytes of its page. Every operation keeps both
    (\<open>Window_Ops\<close>, \<open>Window_Steps\<close>); the properties and the failures of a full window are in \<open>Window_Props\<close>.
  \<^item> \<open>HotSet\<close>, \<open>Placement\<close>, \<open>ScoreCache\<close> (with \<open>inflight_trace.hpp\<close>), \<open>Nav_Graph\<close>, \<open>Vmem_Batch\<close>, \<open>Pq_Table\<close>:
    the header files of the same names. Files are byte lists, the driver's ioctls are parameters.
  \<^item> \<open>Copy_Pool\<close>, \<open>Promote_Pipe\<close>: worker pools as step relations that interleave at every access to
    shared state, with invariants by rule induction. In \<open>Copy_Pool\<close> a call of the search thread is a list of
    such accesses and notifications, and a worker sleeps until it is notified or wakes up spuriously: the
    theorems say what the memory and the ready flags hold, and that no wake-up is lost (a decreasing measure).
  \<^item> \<open>Hide_Pages\<close>, \<open>Hide_Fill\<close>, \<open>Hide_Pipe\<close>, \<open>Hide_Bounce\<close>, \<open>Hide_Props\<close>, \<open>Hide_Warm\<close> (\<open>hide_fill.hpp\<close>): pages
    of a vector, one issue, the pipe of 32 issues, the invariant of the bounce mode over all steps of
    the search thread and the workers (\<open>hide_reach\<close>), properties and failures, and the warm-up.
    The fresh slab of an issue holds any bytes (\<open>heap\<close>) until it is filled. \<open>Hide_Wait\<close>: a wait returns when
    workers serve the jobs of the issue, in any order and with any finite delays.
  \<^item> \<open>Cont_Batch\<close> (\<open>cont_batch.hpp\<close>): decisions of the schedulers, \<open>PrefetchHub\<close>.
  \<^item> \<open>Prefetch\<close> (\<open>prefetch.hpp\<close>): budgets, the asynchronous worker, pinning and warming of entry pages.
  \<^item> \<open>Distances\<close>: scores of vectors. \<open>Beam\<close>: the greedy loop that all searches of \<open>search_beam.cpp\<close>
    repeat, once, with the score and the neighbour lookup as parameters; the locale \<open>beam_client\<close> states
    what a search must provide, and gives it termination, the specification \<open>best_reached\<close> of the result
    and the equality with the search over pure functions. It is interpreted by each search.
  \<^item> \<open>Search_Common\<close>: the oracle search and the measures. \<open>Search_Fp\<close>: \<open>search_one_fp\<close> under P0, P1 and P2
    and \<open>search_one\<close>. \<open>Search_Pq\<close>: \<open>search_one_pq\<close> and the parked query \<open>PqQ\<close>.
  \<^item> \<open>Sched_Cont\<close>, \<open>Sched_Cont_Props\<close>: the cooperative batch scheduler of \<open>main\<close> (\<open>run_cb_sched\<close>) as a
    step relation over workers and fill jobs, its invariant \<open>cont_ok\<close>, the accounts of a run with any
    number of workers, the answers with one, a run in which two workers get one wrong, and a run in which
    the round-robin counter overflows.
  \<^item> \<open>Numbering\<close>, \<open>Remap_Pages\<close>, \<open>Beam_Rename\<close>, \<open>Layout_Search\<close> (\<open>tools/remap_diskann_pages.cpp\<close>): records
    in pairs that share a page; the map and the image are read back through \<open>Placement\<close>, and a search
    over them finds what the search over the source finds.
  \<^item> \<open>Layout_Image\<close>, \<open>Diskann_Pack\<close> (\<open>pack_diskann_entry.cpp\<close>, \<open>pack_layout_pagealign.cpp\<close>,
    \<open>pack_nbr_bundle.cpp\<close>, \<open>reorder_graph_degree.cpp\<close>, \<open>build_nav_graph.cpp\<close> of \<open>tools/\<close>): images written
    by copies into the mapped output, with the round trips through the readers of the serving path.
  \<^item> \<open>Layout_Order\<close>, \<open>Layout_Bundle\<close> (\<open>reorder_layout_bfs.cpp\<close>, \<open>pack_layout_pagebin.cpp\<close>,
    \<open>pack_layout_bundle.cpp\<close> of \<open>tools/\<close>): the orders of the nodes. Each order is a permutation and its
    loop ends; the walks of the first two tools give the same one.

  \<^bold>\<open>Conventions.\<close> Pointers into the image are offsets, ids and frame numbers are naturals; the wrap of a
  32-bit value is written out where the code can reach it. Scalars are an arbitrary ordered ring: rounding
  is not modelled, the bit patterns of half and single floats are (\<open>Distances\<close>). \<open>exit(2)\<close> is the value
  \<open>Exit_2\<close>, a null pointer, a failed read or an undefined access is \<open>None\<close>. A loop that may not end is a
  \<open>partial_function (option)\<close>, so \<open>None\<close> is a search or a wait that does not return; that one returns is
  always a theorem of its own. No definition uses fuel. What other threads do while a thread yields is
  the argument \<open>yld\<close>, or a step of the relation.

  \<^bold>\<open>Under which conditions.\<close> The properties name their hypotheses; these return in many of them.
  \<^item> \<open>pin_room\<close>: the pin budget and the frames being filled leave one frame to evict. Without it the clock
    falls back to frame 0 and overwrites a pinned page (\<open>full_pins_lose_a_pinned_page\<close>).
  \<^item> \<open>span_kept\<close>: a load of several pages does not evict a page of its own span. Without it a copy returns
    wrong bytes (\<open>span_evicts_its_first_page\<close>). \<open>in_pages\<close>: no record straddles two pages.
  \<^item> Bounce mode with extent runs off: the invariant of \<open>Hide_Bounce\<close> and with it the scheduler. With extent runs
    on, a covered page can be read before it is filled (\<open>extent_run_reads_unfilled_page\<close>).
  \<^item> No fill job runs after its slot was given up: \<open>clear\<close> frees what the job points to, so such a run
    is undefined; \<open>run_pipe_job\<close> has no result for it. It can be reached (\<open>release_frees_busy_slot\<close>).
  \<^item> \<open>driver_reads\<close>: a read that the driver reports as done delivers the bytes of the image.

  \<^bold>\<open>Not modelled.\<close> \<open>search_one_fp\<close> under P3, the parked query of that search (\<open>P3Q\<close>), and the loops of
  \<open>main\<close> that give each thread two queries (\<open>pipe2\<close>, \<open>steal\<close>). Times, file output and printing; mapping of
  devices and files, CPU affinity and the command line of \<open>main\<close>; data races: a copy of a page, or the lookup of
  a vector with the score that follows, is one step, and the calls on the shared pipe that the scheduler's
  workers make without the hub's mutex are steps too; weak memory orders. Of \<open>tools/\<close>, the training of the
  codes, the statistics and the loops that write a permuted image; \<open>motivation_exps/\<close> is a separate
  executable: see the manifest.
\<close>

end
